(* ===== verification/Prelude.thy ===== *)
theory Prelude
  imports Main "HOL-Library.Word"
begin

text \<open>
  What every component theory shares: the machine integers at their Rust widths, Rust's
  \<open>Result\<close> as a sum, slices and in-place copies of byte buffers, the checked and the
  saturating arithmetic of the standard library, and the little-endian and big-endian
  conversions of integers, with the lemmas that carry the proofs about them.

  The kernel is compiled with \<open>--release\<close> (\<open>xtask/src/main.rs\<close>, function
  \<open>build\<close>), a profile without overflow checks: \<open>+\<close>, \<open>-\<close> and \<open>*\<close> on
  machine integers wrap, as they do on \<open>'a word\<close>. Out-of-range slice accesses panic in
  every profile; a function that can reach one returns \<open>None\<close> for the panic.
\<close>

unbundle bit_operations_syntax

named_theorems bytes_simps "lengths and contents of byte buffers"
named_theorems result_simps "equations and inversions of result values"
named_theorems state_simps "frame equations of state updates"

section \<open>Machine integers and results\<close>

type_synonym byte = "8 word"
type_synonym u16 = "16 word"
type_synonym u32 = "32 word"
type_synonym u64 = "64 word"

abbreviation Ok :: "'a \<Rightarrow> 'e + 'a" where "Ok \<equiv> Inr"
abbreviation Err :: "'e \<Rightarrow> 'e + 'a" where "Err \<equiv> Inl"

text \<open>Rust's \<open>?\<close>: continue with the value, or return the error.\<close>

definition and_then :: "'e + 'a \<Rightarrow> ('a \<Rightarrow> 'e + 'b) \<Rightarrow> 'e + 'b" where
  "and_then m f = (case m of Inl e \<Rightarrow> Inl e | Inr a \<Rightarrow> f a)"

definition ok_or :: "'a option \<Rightarrow> 'e \<Rightarrow> 'e + 'a" where
  "ok_or m e = (case m of None \<Rightarrow> Inl e | Some a \<Rightarrow> Inr a)"

definition map_err :: "('e \<Rightarrow> 'f) \<Rightarrow> 'e + 'a \<Rightarrow> 'f + 'a" where
  "map_err f m = (case m of Inl e \<Rightarrow> Inl (f e) | Inr a \<Rightarrow> Inr a)"

definition is_ok :: "'e + 'a \<Rightarrow> bool" where
  "is_ok m = (case m of Inl _ \<Rightarrow> False | Inr _ \<Rightarrow> True)"

lemma and_then_simps [simp]:
  "and_then (Inl e) f = Inl e"
  "and_then (Inr a) f = f a"
  by (simp_all add: and_then_def)

lemma and_then_eq_Inr [result_simps]:
  "and_then m f = Inr b \<longleftrightarrow> (\<exists>a. m = Inr a \<and> f a = Inr b)"
  by (cases m) auto

lemma and_then_eq_Inl [result_simps]:
  "and_then m f = Inl e \<longleftrightarrow> m = Inl e \<or> (\<exists>a. m = Inr a \<and> f a = Inl e)"
  by (cases m) auto

lemma and_then_cong [fundef_cong]:
  "m = m' \<Longrightarrow> (\<And>a. m' = Inr a \<Longrightarrow> f a = f' a) \<Longrightarrow> and_then m f = and_then m' f'"
  by (cases m') auto

lemma ok_or_simps [simp]:
  "ok_or None e = Inl e"
  "ok_or (Some a) e = Inr a"
  by (simp_all add: ok_or_def)

lemma ok_or_eq_Inr [result_simps]: "ok_or m e = Inr a \<longleftrightarrow> m = Some a"
  by (cases m) auto

lemma map_err_simps [simp]:
  "map_err f (Inl e) = Inl (f e)"
  "map_err f (Inr a) = Inr a"
  by (simp_all add: map_err_def)

lemma map_err_eq_Inr [result_simps]: "map_err f m = Inr a \<longleftrightarrow> m = Inr a"
  by (cases m) auto

lemma is_ok_simps [simp]: "is_ok (Inl e) = False" "is_ok (Inr a) = True"
  by (simp_all add: is_ok_def)

lemma is_ok_iff [result_simps]: "is_ok m \<longleftrightarrow> (\<exists>a. m = Inr a)"
  by (cases m) auto

section \<open>Checked and saturating arithmetic\<close>

definition checked_add :: "'a::len word \<Rightarrow> 'a word \<Rightarrow> 'a word option" where
  "checked_add a b = (if unat a + unat b < 2 ^ LENGTH('a) then Some (a + b) else None)"

definition saturating_add :: "'a::len word \<Rightarrow> 'a word \<Rightarrow> 'a word" where
  "saturating_add a b = (if unat a + unat b < 2 ^ LENGTH('a) then a + b else - 1)"

definition saturating_sub :: "'a::len word \<Rightarrow> 'a word \<Rightarrow> 'a word" where
  "saturating_sub a b = (if a < b then 0 else a - b)"

definition saturating_mul :: "'a::len word \<Rightarrow> 'a word \<Rightarrow> 'a word" where
  "saturating_mul a b = (if unat a * unat b < 2 ^ LENGTH('a) then a * b else - 1)"

text \<open>\<open>usize::div_ceil\<close>; \<open>usize\<close> lengths are \<open>nat\<close>.\<close>

definition div_ceil :: "nat \<Rightarrow> nat \<Rightarrow> nat" where
  "div_ceil a b = (if a mod b = 0 then a div b else a div b + 1)"

lemma unat_of_nat_small: "m < 2 ^ LENGTH('a) \<Longrightarrow> unat (of_nat m :: 'a::len word) = m"
  by (simp add: unat_of_nat)

lemma unat_max_word: "unat (- 1 :: 'a::len word) = 2 ^ LENGTH('a) - 1"
  by transfer (simp add: take_bit_minus_one_eq_mask mask_eq_exp_minus_1 nat_diff_distrib nat_power_eq)

lemma unat_add_small:
  "unat (a :: 'a::len word) + unat b < 2 ^ LENGTH('a) \<Longrightarrow> unat (a + b) = unat a + unat b"
  by (simp add: unat_add_lem)

lemma unat_mult_small:
  "unat (a :: 'a::len word) * unat b < 2 ^ LENGTH('a) \<Longrightarrow> unat (a * b) = unat a * unat b"
  by (simp add: unat_mult_lem)

lemma checked_add_Some:
  "checked_add a b = Some c \<Longrightarrow> unat c = unat a + unat b \<and> c = a + b"
  by (auto simp: checked_add_def unat_add_small split: if_splits)

lemma unat_saturating_sub [simp]: "unat (saturating_sub a b) = unat a - unat b"
  by (auto simp: saturating_sub_def word_less_nat_alt unat_sub word_le_nat_alt)

lemma unat_saturating_add:
  "unat (saturating_add (a :: 'a::len word) b) = min (unat a + unat b) (2 ^ LENGTH('a) - 1)"
  by (auto simp: saturating_add_def unat_add_small unat_max_word)

lemma unat_saturating_mul:
  "unat (saturating_mul (a :: 'a::len word) b) = min (unat a * unat b) (2 ^ LENGTH('a) - 1)"
  by (auto simp: saturating_mul_def unat_mult_small unat_max_word)

lemma div_ceil_bounds:
  assumes "0 < b"
  shows "a \<le> div_ceil a b * b" "k < div_ceil a b \<Longrightarrow> k * b < a"
proof -
  have d: "a div b * b + a mod b = a" by (rule div_mult_mod_eq)
  have m: "a mod b < b" using assms by simp
  show "a \<le> div_ceil a b * b"
  proof (cases "a mod b = 0")
    case True
    with d show ?thesis by (simp add: div_ceil_def)
  next
    case False
    then have "div_ceil a b * b = a div b * b + b" by (simp add: div_ceil_def)
    with d m show ?thesis by linarith
  qed
  show "k * b < a" if k: "k < div_ceil a b"
  proof (cases "a mod b = 0")
    case True
    with k have "k < a div b" by (simp add: div_ceil_def)
    then have "k * b < a div b * b" using assms by (rule mult_strict_right_mono)
    with d show ?thesis by linarith
  next
    case False
    with k have "k \<le> a div b" by (simp add: div_ceil_def)
    then have "k * b \<le> a div b * b" by simp
    with d False show ?thesis by linarith
  qed
qed

section \<open>Slices and copies\<close>

text \<open>
  \<open>xs[a..b]\<close> is \<open>slice_of xs a b\<close>, and \<open>xs[a..a + n].copy_from_slice(ys)\<close> with
  \<open>n = length ys\<close> is \<open>copy_into xs a ys\<close>; both are used where the bounds hold.
\<close>

definition slice_of :: "'a list \<Rightarrow> nat \<Rightarrow> nat \<Rightarrow> 'a list" where
  "slice_of xs a b = take (b - a) (drop a xs)"

definition copy_into :: "'a list \<Rightarrow> nat \<Rightarrow> 'a list \<Rightarrow> 'a list" where
  "copy_into xs a ys = take a xs @ ys @ drop (a + length ys) xs"

lemma length_slice_of [bytes_simps]: "b \<le> length xs \<Longrightarrow> length (slice_of xs a b) = b - a"
  by (simp add: slice_of_def)

lemma nth_slice_of [bytes_simps]: "a + i < b \<Longrightarrow> b \<le> length xs \<Longrightarrow> slice_of xs a b ! i = xs ! (a + i)"
  by (simp add: slice_of_def)

lemma length_copy_into [bytes_simps]:
  "a + length ys \<le> length xs \<Longrightarrow> length (copy_into xs a ys) = length xs"
  by (simp add: copy_into_def)

lemma nth_copy_into:
  assumes "a + length ys \<le> length xs" "i < length xs"
  shows "copy_into xs a ys ! i = (if a \<le> i \<and> i < a + length ys then ys ! (i - a) else xs ! i)"
  using assms by (auto simp: copy_into_def nth_append)

lemma slice_copy_into_same [bytes_simps]:
  assumes "a + length ys \<le> length xs" "b = a + length ys"
  shows "slice_of (copy_into xs a ys) a b = ys"
  using assms by (simp add: slice_of_def copy_into_def)

lemma slice_copy_into_disjoint:
  assumes "a + length ys \<le> length xs" "b \<le> length xs" "c \<le> b" "b \<le> a \<or> a + length ys \<le> c"
  shows "slice_of (copy_into xs a ys) c b = slice_of xs c b"
proof (rule nth_equalityI)
  show "length (slice_of (copy_into xs a ys) c b) = length (slice_of xs c b)"
    using assms by (simp add: bytes_simps)
next
  fix i assume "i < length (slice_of (copy_into xs a ys) c b)"
  then have i: "i < b - c" using assms by (simp add: bytes_simps)
  with assms have "c + i < b" "c + i < length xs" by auto
  then show "slice_of (copy_into xs a ys) c b ! i = slice_of xs c b ! i"
    using assms i by (auto simp: bytes_simps nth_copy_into)
qed

text \<open>A buffer filled from the left: what is written so far, then what is left of it.\<close>

lemma copy_into_start: "copy_into out 0 ys = ys @ drop (length ys) out"
  by (simp add: copy_into_def)

lemma copy_into_frontier:
  "length pre = a \<Longrightarrow> copy_into (pre @ rest) a ys = (pre @ ys) @ drop (length ys) rest"
  by (simp add: copy_into_def)

lemma list_update_frontier:
  "length pre = a \<Longrightarrow> rest \<noteq> [] \<Longrightarrow> (pre @ rest)[a := y] = (pre @ [y]) @ drop 1 rest"
  by (auto simp: list_update_append neq_Nil_conv)

lemma take_slice_of: "slice_of xs 0 n = take n xs"
  by (simp add: slice_of_def)

lemma slice_append_left: "b \<le> length xs \<Longrightarrow> slice_of (xs @ ys) a b = slice_of xs a b"
  by (cases "a \<le> b") (simp_all add: slice_of_def)

lemma slice_whole [simp]: "b = length xs \<Longrightarrow> slice_of xs 0 b = xs"
  by (simp add: slice_of_def)

lemma slice_Cons_skip: "0 < a \<Longrightarrow> slice_of (x # xs) a b = slice_of xs (a - 1) (b - 1)"
  by (cases a; cases b) (simp_all add: slice_of_def)

lemma slice_append_right:
  "length xs \<le> a \<Longrightarrow> slice_of (xs @ ys) a b = slice_of ys (a - length xs) (b - length xs)"
  by (simp add: slice_of_def)

text \<open>A \<open>filter_map\<close> that drops nothing.\<close>

lemma map_filter_all_Some:
  assumes "\<And>x. x \<in> set xs \<Longrightarrow> f x = Some (g x)"
  shows "List.map_filter f xs = map g xs"
  using assms by (induction xs) (simp_all add: List.map_filter_simps)

section \<open>Integers as bytes\<close>

text \<open>\<open>to_le_bytes\<close>, \<open>from_le_bytes\<close> and their big-endian twins.\<close>

definition to_le_bytes :: "'a::len word \<Rightarrow> byte list" where
  "to_le_bytes w = map (\<lambda>i. ucast (drop_bit (8 * i) w)) [0..<LENGTH('a) div 8]"

fun from_le_bytes :: "byte list \<Rightarrow> 'a::len word" where
  "from_le_bytes [] = 0"
| "from_le_bytes (b # bs) = ucast b OR push_bit 8 (from_le_bytes bs)"

definition to_be_bytes :: "'a::len word \<Rightarrow> byte list" where
  "to_be_bytes w = rev (to_le_bytes w)"

definition from_be_bytes :: "byte list \<Rightarrow> 'a::len word" where
  "from_be_bytes bs = from_le_bytes (rev bs)"

lemma length_to_le_bytes [simp]: "length (to_le_bytes (w :: 'a::len word)) = LENGTH('a) div 8"
  by (simp add: to_le_bytes_def)

lemma length_to_be_bytes [simp]: "length (to_be_bytes (w :: 'a::len word)) = LENGTH('a) div 8"
  by (simp add: to_be_bytes_def)

lemma to_le_bytes_0: "to_le_bytes (0 :: 'a::len word) = replicate (LENGTH('a) div 8) 0"
  by (simp add: to_le_bytes_def map_replicate_const [symmetric] flip: map_replicate_trivial)

lemma bit_from_le_bytes:
  "bit (from_le_bytes bs :: 'a::len word) k \<longleftrightarrow>
     k < LENGTH('a) \<and> k div 8 < length bs \<and> bit (bs ! (k div 8)) (k mod 8)"
proof (induction bs arbitrary: k)
  case Nil
  then show ?case by simp
next
  case (Cons b bs)
  have hi: "k < 8 \<Longrightarrow> k div 8 = 0 \<and> k mod 8 = k" by simp
  have lo: "8 \<le> k \<Longrightarrow> k div 8 = Suc ((k - 8) div 8) \<and> (k - 8) mod 8 = k mod 8"
    by (simp add: le_div_geq le_mod_geq)
  have b8: "bit b k \<Longrightarrow> k < 8" using bit_imp_le_length by fastforce
  show ?case
  proof (cases "k < 8")
    case True
    with hi [OF True] show ?thesis
      by (auto simp: bit_or_iff bit_push_bit_iff bit_ucast_iff)
  next
    case False
    with Cons.IH [of "k - 8"] lo b8 show ?thesis
      by (auto simp: bit_or_iff bit_push_bit_iff bit_ucast_iff not_less)
  qed
qed

lemma from_le_to_le [simp]:
  assumes "LENGTH('a) = 8 * n"
  shows "from_le_bytes (to_le_bytes (w :: 'a::len word)) = w"
proof (rule bit_word_eqI)
  fix k assume k: "k < LENGTH('a)"
  with assms have kd: "k div 8 < n" by auto
  have "8 * (k div 8) + k mod 8 = k" by simp
  then show "bit (from_le_bytes (to_le_bytes w) :: 'a word) k = bit w k"
    using k kd assms
    by (simp add: bit_from_le_bytes to_le_bytes_def bit_ucast_iff bit_drop_bit_eq)
qed

lemma to_le_from_le:
  assumes "LENGTH('a) = 8 * length bs"
  shows "to_le_bytes (from_le_bytes bs :: 'a::len word) = bs"
proof (rule nth_equalityI)
  show "length (to_le_bytes (from_le_bytes bs :: 'a word)) = length bs"
    using assms by simp
next
  fix i assume "i < length (to_le_bytes (from_le_bytes bs :: 'a word))"
  then have i: "i < length bs" using assms by simp
  show "to_le_bytes (from_le_bytes bs :: 'a word) ! i = bs ! i"
  proof (rule bit_word_eqI)
    fix k assume k: "k < LENGTH(8)"
    then have "(8 * i + k) div 8 = i" "(8 * i + k) mod 8 = k" by auto
    moreover have "8 * i + k < LENGTH('a)" using i k assms by simp
    ultimately show "bit (to_le_bytes (from_le_bytes bs :: 'a word) ! i) k = bit (bs ! i) k"
      using i k assms
      by (simp add: to_le_bytes_def bit_ucast_iff bit_drop_bit_eq bit_from_le_bytes)
  qed
qed

lemma to_le_bytes_inject:
  assumes "LENGTH('a) = 8 * n"
  shows "to_le_bytes (v :: 'a::len word) = to_le_bytes w \<longleftrightarrow> v = w"
  using from_le_to_le [OF assms] by metis

lemma from_be_to_be [simp]:
  "LENGTH('a) = 8 * n \<Longrightarrow> from_be_bytes (to_be_bytes (w :: 'a::len word)) = w"
  by (simp add: from_be_bytes_def to_be_bytes_def)

lemma le_bytes_round16 [simp]: "from_le_bytes (to_le_bytes (w :: u16)) = w"
  by (rule from_le_to_le [where n = 2]) simp

lemma le_bytes_round32 [simp]: "from_le_bytes (to_le_bytes (w :: u32)) = w"
  by (rule from_le_to_le [where n = 4]) simp

lemma le_bytes_round64 [simp]: "from_le_bytes (to_le_bytes (w :: u64)) = w"
  by (rule from_le_to_le [where n = 8]) simp

lemma le_bytes_inj32 [simp]: "to_le_bytes (v :: u32) = to_le_bytes w \<longleftrightarrow> v = w"
  by (rule to_le_bytes_inject [where n = 4]) simp

lemma le_bytes_inj64 [simp]: "to_le_bytes (v :: u64) = to_le_bytes w \<longleftrightarrow> v = w"
  by (rule to_le_bytes_inject [where n = 8]) simp

end
