(* ===== verification/Sha256.thy ===== *)
theory Sha256
  imports Prelude
begin

text \<open>
  \<open>libs/sha256/src/lib.rs\<close>: the streaming SHA-256 hasher. \<open>hasher\<close> is the struct
  \<open>Hasher\<close>, \<open>hasher_update\<close> its \<open>update\<close>, \<open>hasher_finish\<close> its \<open>finish\<close>,
  \<open>compress\<close> the block function with its message schedule and 64 rounds, \<open>digest\<close>
  the one-shot function. The reference definition is the one FIPS 180-4 gives: pad the
  message to whole blocks and fold the block function over them (\<open>sha256_padded\<close>). The
  lemmas show that the streaming hasher, whatever the sizes of the pieces it is fed,
  computes that fold, that no stale byte of its buffer reaches a digest, and that a digest
  has 32 bytes.
\<close>

section \<open>Constants and state\<close>

definition BLOCK_BYTES :: nat where "BLOCK_BYTES = 64"
definition DIGEST_BYTES :: nat where "DIGEST_BYTES = 32"

text \<open>The table in rows of eight, as the source lays it out.\<close>

definition ROUND_CONSTANTS :: "u32 list" where
  "ROUND_CONSTANTS = concat [
    [0x428a2f98, 0x71374491, 0xb5c0fbcf, 0xe9b5dba5, 0x3956c25b, 0x59f111f1, 0x923f82a4, 0xab1c5ed5],
    [0xd807aa98, 0x12835b01, 0x243185be, 0x550c7dc3, 0x72be5d74, 0x80deb1fe, 0x9bdc06a7, 0xc19bf174],
    [0xe49b69c1, 0xefbe4786, 0x0fc19dc6, 0x240ca1cc, 0x2de92c6f, 0x4a7484aa, 0x5cb0a9dc, 0x76f988da],
    [0x983e5152, 0xa831c66d, 0xb00327c8, 0xbf597fc7, 0xc6e00bf3, 0xd5a79147, 0x06ca6351, 0x14292967],
    [0x27b70a85, 0x2e1b2138, 0x4d2c6dfc, 0x53380d13, 0x650a7354, 0x766a0abb, 0x81c2c92e, 0x92722c85],
    [0xa2bfe8a1, 0xa81a664b, 0xc24b8b70, 0xc76c51a3, 0xd192e819, 0xd6990624, 0xf40e3585, 0x106aa070],
    [0x19a4c116, 0x1e376c08, 0x2748774c, 0x34b0bcb5, 0x391c0cb3, 0x4ed8aa4a, 0x5b9cca4f, 0x682e6ff3],
    [0x748f82ee, 0x78a5636f, 0x84c87814, 0x8cc70208, 0x90befffa, 0xa4506ceb, 0xbef9a3f7, 0xc67178f2]]"

text \<open>The eight working words, the array \<open>[u32; 8]\<close>.\<close>

type_synonym vars8 = "u32 \<times> u32 \<times> u32 \<times> u32 \<times> u32 \<times> u32 \<times> u32 \<times> u32"

definition INITIAL_STATE :: vars8 where
  "INITIAL_STATE =
    (0x6a09e667, 0xbb67ae85, 0x3c6ef372, 0xa54ff53a, 0x510e527f, 0x9b05688c, 0x1f83d9ab, 0x5be0cd19)"

record hasher =
  h_state :: vars8
  h_buffer :: "byte list"
  h_buffered :: nat
  h_total :: u64

definition hasher_new :: hasher where
  "hasher_new = \<lparr>h_state = INITIAL_STATE, h_buffer = replicate BLOCK_BYTES 0, h_buffered = 0,
                  h_total = 0\<rparr>"

section \<open>The block function\<close>

text \<open>The message schedule: sixteen big-endian words, extended to sixty-four.\<close>

definition schedule_words :: "byte list \<Rightarrow> u32 list" where
  "schedule_words block = map (\<lambda>i. from_be_bytes (slice_of block (4 * i) (4 * i + 4))) [0..<16]"

definition schedule_next :: "u32 list \<Rightarrow> u32" where
  "schedule_next w =
     (let i = length w;
          previous = w ! (i - 15);
          ahead = w ! (i - 2);
          s0 = word_rotr 7 previous XOR word_rotr 18 previous XOR drop_bit 3 previous;
          s1 = word_rotr 17 ahead XOR word_rotr 19 ahead XOR drop_bit 10 ahead
      in w ! (i - 16) + s0 + w ! (i - 7) + s1)"

fun schedule_extend :: "nat \<Rightarrow> u32 list \<Rightarrow> u32 list" where
  "schedule_extend 0 w = w"
| "schedule_extend (Suc n) w = schedule_extend n (w @ [schedule_next w])"

definition schedule :: "byte list \<Rightarrow> u32 list" where
  "schedule block = schedule_extend 48 (schedule_words block)"

fun sha_round :: "u32 \<times> u32 \<Rightarrow> vars8 \<Rightarrow> vars8" where
  "sha_round (k, w) (a, b, c, d, e, f, g, h) =
     (let s1 = word_rotr 6 e XOR word_rotr 11 e XOR word_rotr 25 e;
          choice = (e AND f) XOR (NOT e AND g);
          temp1 = h + s1 + choice + k + w;
          s0 = word_rotr 2 a XOR word_rotr 13 a XOR word_rotr 22 a;
          majority = (a AND b) XOR (a AND c) XOR (b AND c);
          temp2 = s0 + majority
      in (temp1 + temp2, a, b, c, d + temp1, e, f, g))"

fun add_words :: "vars8 \<Rightarrow> vars8 \<Rightarrow> vars8" where
  "add_words (a, b, c, d, e, f, g, h) (a', b', c', d', e', f', g', h') =
     (a + a', b + b', c + c', d + d', e + e', f + f', g + g', h + h')"

definition compress :: "vars8 \<Rightarrow> byte list \<Rightarrow> vars8" where
  "compress state block =
     add_words state (fold sha_round (zip ROUND_CONSTANTS (schedule block)) state)"

section \<open>update\<close>

fun update_blocks :: "vars8 \<Rightarrow> byte list \<Rightarrow> vars8 \<times> byte list" where
  "update_blocks state bytes =
     (if length bytes < 64 then (state, bytes)
      else update_blocks (compress state (take 64 bytes)) (drop 64 bytes))"

declare update_blocks.simps [simp del]

definition update_fill :: "hasher \<Rightarrow> byte list \<Rightarrow> hasher \<times> byte list" where
  "update_fill h bytes =
     (if 0 < h_buffered h then
        let take_n = min (BLOCK_BYTES - h_buffered h) (length bytes);
            buffer = copy_into (h_buffer h) (h_buffered h) (take take_n bytes);
            buffered = h_buffered h + take_n;
            h1 = h\<lparr>h_buffer := buffer, h_buffered := buffered\<rparr>
        in (if buffered = BLOCK_BYTES
            then h1\<lparr>h_state := compress (h_state h1) buffer, h_buffered := 0\<rparr> else h1,
            drop take_n bytes)
      else (h, bytes))"

definition hasher_update :: "hasher \<Rightarrow> byte list \<Rightarrow> hasher" where
  "hasher_update h0 bytes0 =
     (let h1 = h0\<lparr>h_total := h_total h0 + of_nat (length bytes0)\<rparr>;
          (h2, bytes) = update_fill h1 bytes0;
          (state, rest) = update_blocks (h_state h2) bytes;
          h3 = h2\<lparr>h_state := state\<rparr>
      in if rest \<noteq> []
         then h3\<lparr>h_buffer := copy_into (h_buffer h3) 0 rest, h_buffered := length rest\<rparr>
         else h3)"

section \<open>finish\<close>

definition finish_zeros :: "nat \<Rightarrow> nat" where
  "finish_zeros buffered = (if buffered < 56 then 55 - buffered else 119 - buffered)"

definition finish_padding :: "nat \<Rightarrow> u64 \<Rightarrow> byte list" where
  "finish_padding buffered tot =
     (let ends = 1 + finish_zeros buffered
      in copy_into ((replicate (BLOCK_BYTES * 2) 0)[0 := 0x80]) ends (to_be_bytes (tot * 8)))"

function finish_loop ::
  "byte list \<Rightarrow> nat \<Rightarrow> vars8 \<Rightarrow> byte list \<Rightarrow> nat \<Rightarrow> nat \<Rightarrow> vars8" where
  "finish_loop padding tail_length state block filled index =
     (if index < tail_length \<and> filled \<le> BLOCK_BYTES then
        let take_n = min (BLOCK_BYTES - filled) (tail_length - index);
            block1 = copy_into block filled (slice_of padding index (index + take_n));
            filled1 = filled + take_n;
            index1 = index + take_n
        in if filled1 = BLOCK_BYTES
           then finish_loop padding tail_length (compress state block1) (replicate BLOCK_BYTES 0)
                  0 index1
           else finish_loop padding tail_length state block1 filled1 index1
      else state)"
  by pat_completeness auto
termination
  by (relation "measure (\<lambda>(p, t, s, b, f, i). 2 * (t - i) + (if f = 64 then 1 else 0))")
    (auto simp: BLOCK_BYTES_def)

declare finish_loop.simps [simp del]

fun state_bytes :: "vars8 \<Rightarrow> byte list" where
  "state_bytes (a, b, c, d, e, f, g, h) = concat (map to_be_bytes [a, b, c, d, e, f, g, h])"

definition hasher_finish :: "hasher \<Rightarrow> byte list" where
  "hasher_finish h =
     (let padding = finish_padding (h_buffered h) (h_total h);
          tail_length = 1 + finish_zeros (h_buffered h) + 8;
          state = finish_loop padding tail_length (h_state h) (h_buffer h) (h_buffered h) 0
      in state_bytes state)"

definition digest :: "byte list \<Rightarrow> byte list" where
  "digest bytes = hasher_finish (hasher_update hasher_new bytes)"

section \<open>The reference definition\<close>

text \<open>The whole 64-byte blocks of a message, and what is left over.\<close>

fun blocks :: "byte list \<Rightarrow> byte list list" where
  "blocks xs = (if length xs < 64 then [] else take 64 xs # blocks (drop 64 xs))"

declare blocks.simps [simp del]

definition block_tail :: "byte list \<Rightarrow> byte list" where
  "block_tail xs = drop (64 * (length xs div 64)) xs"

text \<open>FIPS 180-4, section 5.1.1: a one bit, zeros up to 448 modulo 512, the length in bits.\<close>

definition sha256_padded :: "byte list \<Rightarrow> byte list" where
  "sha256_padded m =
     m @ 0x80 # replicate ((119 - length m mod 64) mod 64) 0 @
       to_be_bytes (of_nat (length m) * 8 :: u64)"

definition sha256 :: "byte list \<Rightarrow> byte list" where
  "sha256 m = state_bytes (foldl compress INITIAL_STATE (blocks (sha256_padded m)))"

section \<open>The streaming hasher computes the reference definition\<close>

lemma blocks_short [simp]: "length xs < 64 \<Longrightarrow> blocks xs = []"
  by (subst blocks.simps) simp

lemma blocks_long: "64 \<le> length xs \<Longrightarrow> blocks xs = take 64 xs # blocks (drop 64 xs)"
  by (subst blocks.simps) simp

lemma blocks_append: "length xs mod 64 = 0 \<Longrightarrow> blocks (xs @ ys) = blocks xs @ blocks ys"
proof (induction xs rule: blocks.induct)
  case (1 xs)
  show ?case
  proof (cases "length xs < 64")
    case True
    with "1.prems" have "xs = []" by simp
    then show ?thesis by simp
  next
    case False
    with "1.prems" have "length (drop 64 xs) mod 64 = 0" by (simp add: le_mod_geq)
    with "1.IH" False show ?thesis by (simp add: blocks_long)
  qed
qed

lemma block_tail_short [simp]: "length xs < 64 \<Longrightarrow> block_tail xs = xs"
  by (simp add: block_tail_def)

lemma length_block_tail [simp]: "length (block_tail xs) = length xs mod 64"
  by (simp add: block_tail_def minus_mult_div_eq_mod)

lemma block_tail_empty: "block_tail xs = [] \<longleftrightarrow> length xs mod 64 = 0"
  by (metis length_block_tail length_0_conv)

lemma block_tail_append:
  assumes "length xs mod 64 = 0"
  shows "block_tail (xs @ ys) = block_tail ys"
proof -
  from assms obtain k where k: "length xs = 64 * k" by auto
  then have "(length xs + length ys) div 64 = k + length ys div 64" by simp
  then show ?thesis using k by (simp add: block_tail_def)
qed

lemma split_blocks:
  obtains whole where "m = whole @ block_tail m" "length whole mod 64 = 0"
proof -
  have "m = take (64 * (length m div 64)) m @ block_tail m" by (simp add: block_tail_def)
  moreover have "length (take (64 * (length m div 64)) m) mod 64 = 0"
    by (simp add: min_absorb2)
  ultimately show thesis by (rule that)
qed

lemma blocks_without_tail:
  assumes "m = whole @ block_tail m" "length whole mod 64 = 0"
  shows "blocks m = blocks whole"
proof -
  have "blocks m = blocks whole @ blocks (block_tail m)"
    using assms blocks_append by metis
  then show ?thesis by simp
qed

lemma update_blocks_spec: "update_blocks st xs = (foldl compress st (blocks xs), block_tail xs)"
proof (induction st xs rule: update_blocks.induct)
  case (1 st xs)
  show ?case
  proof (cases "length xs < 64")
    case True
    then show ?thesis by (subst update_blocks.simps) simp
  next
    case False
    then have "block_tail xs = block_tail (drop 64 xs)"
      using block_tail_append [of "take 64 xs" "drop 64 xs"] by simp
    with False "1.IH" show ?thesis
      by (subst update_blocks.simps) (simp add: blocks_long)
  qed
qed

text \<open>The invariant: the hasher holds exactly the message fed so far.\<close>

definition hasher_holds :: "hasher \<Rightarrow> byte list \<Rightarrow> bool" where
  "hasher_holds h m \<longleftrightarrow>
     h_state h = foldl compress INITIAL_STATE (blocks m) \<and>
     length (h_buffer h) = 64 \<and>
     h_buffered h = length m mod 64 \<and>
     take (h_buffered h) (h_buffer h) = block_tail m \<and>
     h_total h = of_nat (length m)"

lemma hasher_new_holds: "hasher_holds hasher_new []"
  by (simp add: hasher_holds_def hasher_new_def BLOCK_BYTES_def)

text \<open>What \<open>update\<close> does after the partial block: whole blocks, then the rest buffered.\<close>

lemma hasher_holds_rest:
  assumes whole: "length whole mod 64 = 0"
    and st: "st = foldl compress INITIAL_STATE (blocks whole)"
    and buf: "length buf = 64" and tot: "tot = of_nat (length whole + length xs)"
    and h: "h_state h = foldl compress st (blocks xs)" "h_total h = tot"
      "h_buffer h = (if block_tail xs = [] then buf else copy_into buf 0 (block_tail xs))"
      "h_buffered h = (if block_tail xs = [] then 0 else length (block_tail xs))"
  shows "hasher_holds h (whole @ xs)"
proof -
  have len: "(length whole + length xs) mod 64 = length xs mod 64"
    using whole by (metis add_0 mod_add_left_eq)
  have "length (block_tail xs) < 64" by simp
  then have "length (h_buffer h) = 64" "take (h_buffered h) (h_buffer h) = block_tail xs"
    using h buf block_tail_empty [of xs] by (auto simp: copy_into_def)
  then show ?thesis
    using whole st tot h len block_tail_empty [of xs, THEN iffD1]
    by (simp add: hasher_holds_def blocks_append block_tail_append)
qed

lemma hasher_update_holds:
  assumes "hasher_holds h m"
  shows "hasher_holds (hasher_update h x) (m @ x)"
proof -
  let ?t = "block_tail m"
  obtain whole where m: "m = whole @ ?t" and whole: "length whole mod 64 = 0"
    by (rule split_blocks)
  note inv = assms [unfolded hasher_holds_def]
  have tail: "take (length m mod 64) (h_buffer h) = ?t" using inv by metis
  have st: "h_state h = foldl compress INITIAL_STATE (blocks whole)"
    using inv blocks_without_tail [OF m whole] by simp
  have lt: "length ?t < 64" by simp
  have "length whole + length (?t @ x) = length m + length x"
    using arg_cong [OF m, of length] by (simp only: length_append length_block_tail add.assoc)
  then have tot: "h_total h + of_nat (length x) = of_nat (length whole + length (?t @ x))"
    using inv by (simp only: of_nat_add)
  have eq: "m @ x = whole @ (?t @ x)" by (subst m) simp
  consider (empty) "?t = []" | (short) "?t \<noteq> []" "length ?t + length x < 64"
    | (full) "?t \<noteq> []" "64 \<le> length ?t + length x" by linarith
  then show ?thesis
  proof cases
    case empty
    then have "h_buffered h = 0" using inv by (metis length_block_tail list.size(3))
    then show ?thesis
      using empty inv tot unfolding eq
      by (intro hasher_holds_rest [OF whole st, where buf = "h_buffer h"])
        (simp_all add: hasher_update_def update_fill_def update_blocks_spec Let_def)
  next
    case short
    let ?b = "copy_into (h_buffer h) (length m mod 64) x"
    have b0: "0 < h_buffered h" using short inv by (metis length_block_tail length_greater_0_conv)
    have lx: "length m mod 64 + length x < 64" using short by simp
    then have mn: "min (64 - length m mod 64) (length x) = length x" by simp
    have upd: "hasher_update h x = h\<lparr>h_total := h_total h + of_nat (length x),
        h_buffer := ?b, h_buffered := length m mod 64 + length x\<rparr>"
      using b0 lx inv mn
      by (simp add: hasher_update_def update_fill_def BLOCK_BYTES_def update_blocks_spec Let_def)
    have tk: "take (length m mod 64 + length x) ?b = ?t @ x"
      using inv tail lx by (simp add: copy_into_def)
    have lm: "length (m @ x) mod 64 = length m mod 64 + length x"
      using lx by (metis length_append mod_add_left_eq mod_less)
    have "blocks (m @ x) = blocks whole" "block_tail (m @ x) = ?t @ x"
      using lx whole unfolding eq by (simp_all add: blocks_append block_tail_append)
    then show ?thesis
      using upd tk lm inv st lx by (simp add: hasher_holds_def bytes_simps)
  next
    case full
    let ?n = "64 - length m mod 64"
    let ?b = "copy_into (h_buffer h) (length m mod 64) (take ?n x)"
    have b0: "0 < h_buffered h" using full inv by (metis length_block_tail length_greater_0_conv)
    have lx: "?n \<le> length x" using full by simp
    have len_m: "length m mod 64 < 64" by simp
    have b: "?b = ?t @ take ?n x"
      using inv tail lx len_m by (simp add: copy_into_def)
    have eq2: "m @ x = (whole @ ?t @ take ?n x) @ drop ?n x" unfolding eq by simp
    have lw: "length (whole @ ?t @ take ?n x) mod 64 = 0"
      using whole lx len_m by (simp add: mod_add_eq [symmetric] del: mod_add_eq)
    have st2: "compress (h_state h) ?b =
        foldl compress INITIAL_STATE (blocks (whole @ ?t @ take ?n x))"
    proof -
      have "blocks (?t @ take ?n x) = [?t @ take ?n x]"
        using lx len_m by (subst blocks_long) simp_all
      then show ?thesis using st b whole by (simp add: blocks_append)
    qed
    have lb: "length ?b = 64" using inv lx len_m by (simp add: bytes_simps)
    have tot2: "h_total h + of_nat (length x) =
        of_nat (length (whole @ ?t @ take ?n x) + length (drop ?n x))"
      using tot lx by simp
    show ?thesis unfolding eq2
      using b0 lx inv lb tot2 len_m
      by (intro hasher_holds_rest [OF lw st2 lb tot2])
        (simp_all add: hasher_update_def update_fill_def BLOCK_BYTES_def update_blocks_spec min_absorb1 Let_def)
  qed
qed

lemma finish_loop_spec:
  assumes "length block = 64" "filled < 64" "stop \<le> length padding" "index \<le> stop"
    "(filled + (stop - index)) mod 64 = 0"
  shows "finish_loop padding stop st block filled index =
    foldl compress st (blocks (take filled block @ slice_of padding index stop))"
  using assms
proof (induction padding stop st block filled index rule: finish_loop.induct)
  case (1 padding stop st block filled index)
  let ?n = "min (64 - filled) (stop - index)"
  let ?b = "copy_into block filled (slice_of padding index (index + ?n))"
  show ?case
  proof (cases "index < stop")
    case False
    then have "filled = 0" using "1.prems" by simp
    then show ?thesis using False "1.prems"
      by (subst finish_loop.simps) (simp add: slice_of_def)
  next
    case True
    have n: "?n = 64 - filled"
    proof (rule ccontr)
      assume "?n \<noteq> 64 - filled"
      then have "stop - index < 64 - filled" by simp
      then have "filled + (stop - index) < 64" by simp
      then show False using "1.prems" True by simp
    qed
    then have le: "64 - filled \<le> stop - index" by simp
    have i2: "index + (64 - filled) \<le> stop" using le True by simp
    have pad: "slice_of padding index stop =
        slice_of padding index (index + (64 - filled)) @ slice_of padding (index + (64 - filled)) stop"
    proof -
      have "stop - index = (64 - filled) + (stop - (index + (64 - filled)))" using i2 True by simp
      then show ?thesis by (simp add: slice_of_def take_add add.commute)
    qed
    have lens: "length (slice_of padding index (index + (64 - filled))) = 64 - filled"
      using i2 "1.prems" by (simp add: bytes_simps)
    have b: "?b = take filled block @ slice_of padding index (index + (64 - filled))"
      using n lens "1.prems" by (simp add: copy_into_def)
    have bl: "blocks (take filled block @ slice_of padding index stop) =
        ?b # blocks (slice_of padding (index + (64 - filled)) stop)"
      using lens "1.prems" unfolding b pad by (subst blocks_long) simp_all
    have md: "(stop - (index + (64 - filled))) mod 64 = 0"
    proof -
      have "filled + (stop - index) = 64 + (stop - (index + (64 - filled)))" using i2 "1.prems" by simp
      with "1.prems"(5) have "(64 + (stop - (index + (64 - filled)))) mod 64 = 0" by (simp only:)
      then show ?thesis by (simp only: mod_add_self1)
    qed
    have "finish_loop padding stop st block filled index =
        finish_loop padding stop (compress st ?b) (replicate BLOCK_BYTES 0) 0 (index + ?n)"
      using True n "1.prems" by (subst finish_loop.simps) (simp add: BLOCK_BYTES_def Let_def)
    also have "\<dots> = foldl compress (compress st ?b) (blocks (slice_of padding (index + (64 - filled)) stop))"
      using "1.IH"(1) [OF _ refl refl refl refl] True n md i2 "1.prems"
      by (simp add: BLOCK_BYTES_def)
    finally show ?thesis by (simp add: bl)
  qed
qed

lemma finish_padding_spec:
  assumes "n < 64"
  shows "slice_of (finish_padding n tot) 0 (1 + finish_zeros n + 8) =
      0x80 # replicate (finish_zeros n) 0 @ to_be_bytes (tot * 8)"
    and "1 + finish_zeros n + 8 \<le> length (finish_padding n tot)"
    and "finish_zeros n = (119 - n) mod 64"
    and "(n + (1 + finish_zeros n + 8)) mod 64 = 0"
proof -
  have z: "finish_zeros n \<le> 118" unfolding finish_zeros_def by auto
  have hd: "(replicate (Suc k) (0 :: byte))[0 := 0x80] = 0x80 # replicate k 0" for k by simp
  have "take (1 + finish_zeros n) ((replicate 128 (0 :: byte))[0 := 0x80]) =
      0x80 # replicate (finish_zeros n) 0"
    using z hd [of 127] by (simp add: min_def)
  then show "slice_of (finish_padding n tot) 0 (1 + finish_zeros n + 8) =
      0x80 # replicate (finish_zeros n) 0 @ to_be_bytes (tot * 8)"
  proof -
    assume hd: "take (1 + finish_zeros n) ((replicate 128 (0 :: byte))[0 := 0x80]) =
      0x80 # replicate (finish_zeros n) 0"
    have "1 + finish_zeros n + 8 = length (0x80 # replicate (finish_zeros n) 0 @ to_be_bytes (tot * 8))"
      by simp
    moreover have "finish_padding n tot =
        (0x80 # replicate (finish_zeros n) 0 @ to_be_bytes (tot * 8)) @
          drop (1 + finish_zeros n + 8) ((replicate 128 (0 :: byte))[0 := 0x80])"
      using hd by (simp add: finish_padding_def copy_into_def BLOCK_BYTES_def)
    ultimately show ?thesis unfolding take_slice_of by (metis append_eq_conv_conj)
  qed
  show "1 + finish_zeros n + 8 \<le> length (finish_padding n tot)"
    using z by (simp add: finish_padding_def copy_into_def BLOCK_BYTES_def)
  show "finish_zeros n = (119 - n) mod 64"
    using assms by (auto simp: finish_zeros_def le_mod_geq)
  show "(n + (1 + finish_zeros n + 8)) mod 64 = 0"
    using assms by (auto simp: finish_zeros_def)
qed

lemma hasher_finish_holds:
  assumes "hasher_holds h m"
  shows "hasher_finish h = sha256 m"
proof -
  let ?n = "length m mod 64"
  note inv = assms [unfolded hasher_holds_def]
  obtain whole where m: "m = whole @ block_tail m" and whole: "length whole mod 64 = 0"
    by (rule split_blocks)
  let ?pad = "0x80 # replicate (finish_zeros ?n) 0 @ to_be_bytes (h_total h * 8)"
  have n: "?n < 64" by simp
  have tail: "take ?n (h_buffer h) = block_tail m" using inv by metis
  note pad = finish_padding_spec(1,2) [OF n, of "h_total h"] finish_padding_spec(3,4) [OF n]
  have "finish_loop (finish_padding ?n (h_total h)) (1 + finish_zeros ?n + 8) (h_state h)
      (h_buffer h) ?n 0 = foldl compress (h_state h) (blocks (block_tail m @ ?pad))"
    (is "?loop = _")
  proof -
    have "?loop = foldl compress (h_state h) (blocks (take ?n (h_buffer h) @
        slice_of (finish_padding ?n (h_total h)) 0 (1 + finish_zeros ?n + 8)))"
      using inv pad(4) by (intro finish_loop_spec n pad(2)) simp_all
    then show ?thesis by (simp only: tail pad(1))
  qed
  also have "\<dots> = foldl compress INITIAL_STATE (blocks (m @ ?pad))"
  proof -
    have "blocks (m @ ?pad) = blocks whole @ blocks (block_tail m @ ?pad)"
      by (subst m) (simp add: blocks_append whole)
    then have "blocks (m @ ?pad) = blocks m @ blocks (block_tail m @ ?pad)"
      by (simp only: blocks_without_tail [OF m whole])
    then show ?thesis using inv [THEN conjunct1] by (simp only: foldl_append)
  qed
  also have "m @ ?pad = sha256_padded m"
    using inv pad(3) by (simp add: sha256_padded_def)
  finally show ?thesis
    using inv by (simp add: hasher_finish_def sha256_def)
qed

lemma hasher_foldl_holds:
  "hasher_holds h m \<Longrightarrow> hasher_holds (foldl hasher_update h pieces) (m @ concat pieces)"
proof (induction pieces arbitrary: h m)
  case (Cons x xs)
  then have "hasher_holds (hasher_update h x) (m @ x)" by (simp add: hasher_update_holds)
  from Cons.IH [OF this] show ?case by simp
qed simp

text \<open>
  C16: However a message is cut into pieces, feeding the pieces one after the other to
  \<open>update\<close> and calling \<open>finish\<close> gives the digest FIPS 180-4 defines for the whole
  message: padded to whole blocks, folded through the block function.
\<close>

theorem sha256_streaming:
  "hasher_finish (foldl hasher_update hasher_new pieces) = sha256 (concat pieces)"
  using hasher_foldl_holds [OF hasher_new_holds, of pieces] by (simp add: hasher_finish_holds)

lemma digest_eq_sha256: "digest m = sha256 m"
  using hasher_update_holds [OF hasher_new_holds, of m] by (simp add: digest_def hasher_finish_holds)

lemma length_state_bytes [simp]: "length (state_bytes s) = 32"
  by (cases s rule: state_bytes.cases) simp

lemma length_sha256 [simp, bytes_simps]: "length (sha256 m) = 32"
  by (simp add: sha256_def)

lemma hasher_two_pieces:
  "hasher_finish (hasher_update (hasher_update hasher_new a) b) = sha256 (a @ b)"
  using hasher_update_holds [OF hasher_update_holds [OF hasher_new_holds, of a], of b]
  by (simp add: hasher_finish_holds)

end
