(* ===== verification/Utf8.thy ===== *)
theory Utf8
  imports Prelude
begin

text \<open>
  Rust's \<open>&str\<close>: a list of Unicode scalar values, with the UTF-8 encoding the standard
  library gives it (\<open>char::len_utf8\<close>, \<open>char::encode_utf8\<close>, \<open>str::len\<close>) and
  \<open>core::str::from_utf8\<close>, which the kernel calls on bytes it did not write. A string
  value is a list of code points; \<open>str_ok\<close> says they are scalar values, which every
  Rust string satisfies. \<open>fit_chars\<close> is the loop that \<open>Label::new\<close>
  (\<open>nawa/sijil/src/lib.rs\<close>) and \<open>Record::new\<close> (\<open>libs/journal/src/lib.rs\<close>)
  share: copy whole characters while they fit.
\<close>

type_synonym rchar = nat
type_synonym str = "rchar list"

definition scalar :: "rchar \<Rightarrow> bool" where
  "scalar c \<longleftrightarrow> c < 0xD800 \<or> (0xE000 \<le> c \<and> c < 0x110000)"

definition str_ok :: "str \<Rightarrow> bool" where
  "str_ok s = list_all scalar s"

text \<open>A string literal of the source, all of whose characters are ASCII.\<close>

definition lit :: "string \<Rightarrow> str" where
  "lit s = map of_char s"

definition len_utf8 :: "rchar \<Rightarrow> nat" where
  "len_utf8 c = (if c < 0x80 then 1 else if c < 0x800 then 2 else if c < 0x10000 then 3 else 4)"

definition encode_utf8 :: "rchar \<Rightarrow> byte list" where
  "encode_utf8 c =
     (if c < 0x80 then [of_nat c]
      else if c < 0x800 then [of_nat (0xC0 + c div 64), of_nat (0x80 + c mod 64)]
      else if c < 0x10000 then
        [of_nat (0xE0 + c div 4096), of_nat (0x80 + c div 64 mod 64), of_nat (0x80 + c mod 64)]
      else [of_nat (0xF0 + c div 262144), of_nat (0x80 + c div 4096 mod 64),
            of_nat (0x80 + c div 64 mod 64), of_nat (0x80 + c mod 64)])"

definition str_bytes :: "str \<Rightarrow> byte list" where
  "str_bytes s = concat (map encode_utf8 s)"

definition str_len :: "str \<Rightarrow> nat" where
  "str_len s = length (str_bytes s)"

section \<open>Decoding\<close>

definition cont :: "byte \<Rightarrow> bool" where
  "cont b \<longleftrightarrow> 0x80 \<le> unat b \<and> unat b < 0xC0"

definition low6 :: "byte \<Rightarrow> nat" where
  "low6 b = unat b - 0x80"

fun from_utf8 :: "byte list \<Rightarrow> str option" where
  "from_utf8 [] = Some []"
| "from_utf8 (b0 # bs) =
     (let n = unat b0 in
      if n < 0x80 then map_option (Cons n) (from_utf8 bs)
      else if n < 0xC2 then None
      else if n < 0xE0 then
        (case bs of
           b1 # r \<Rightarrow> if cont b1 then map_option (Cons ((n - 0xC0) * 64 + low6 b1)) (from_utf8 r)
                     else None
         | _ \<Rightarrow> None)
      else if n < 0xF0 then
        (case bs of
           b1 # b2 # r \<Rightarrow>
             (let c = (n - 0xE0) * 4096 + low6 b1 * 64 + low6 b2 in
              if cont b1 \<and> cont b2 \<and> 0x800 \<le> c \<and> scalar c
              then map_option (Cons c) (from_utf8 r) else None)
         | _ \<Rightarrow> None)
      else if n < 0xF5 then
        (case bs of
           b1 # b2 # b3 # r \<Rightarrow>
             (let c = (n - 0xF0) * 262144 + low6 b1 * 4096 + low6 b2 * 64 + low6 b3 in
              if cont b1 \<and> cont b2 \<and> cont b3 \<and> 0x10000 \<le> c \<and> scalar c
              then map_option (Cons c) (from_utf8 r) else None)
         | _ \<Rightarrow> None)
      else None)"

declare from_utf8.simps(2) [simp del]

lemma length_encode_utf8 [simp]: "length (encode_utf8 c) = len_utf8 c"
  by (simp add: encode_utf8_def len_utf8_def)

lemma len_utf8_bounds: "1 \<le> len_utf8 c" "len_utf8 c \<le> 4"
  by (auto simp: len_utf8_def)

lemma str_bytes_simps [simp]:
  "str_bytes [] = []"
  "str_bytes (c # s) = encode_utf8 c @ str_bytes s"
  "str_bytes (s @ t) = str_bytes s @ str_bytes t"
  by (simp_all add: str_bytes_def)

lemma str_ok_simps [simp]:
  "str_ok []"
  "str_ok (c # s) \<longleftrightarrow> scalar c \<and> str_ok s"
  "str_ok (s @ t) \<longleftrightarrow> str_ok s \<and> str_ok t"
  by (simp_all add: str_ok_def)

lemma unat_byte: "n < 256 \<Longrightarrow> unat (of_nat n :: byte) = n"
  by (simp add: unat_of_nat)

lemma cont_of_nat [simp]:
  "m < 64 \<Longrightarrow> cont (of_nat (0x80 + m))" "m < 64 \<Longrightarrow> low6 (of_nat (0x80 + m)) = m"
  by (simp_all add: cont_def low6_def unat_byte del: of_nat_add)

lemma split_base64:
  fixes c :: nat
  shows "c div 4096 * 4096 + (c div 64 mod 64) * 64 + c mod 64 = c"
    and "c div 262144 * 262144 + (c div 4096 mod 64) * 4096 + (c div 64 mod 64) * 64 + c mod 64 = c"
proof -
  have d: "c div 4096 = c div 64 div 64" "c div 262144 = c div 64 div 64 div 64"
    by (simp_all flip: div_mult2_eq)
  have "c div 64 * 64 + c mod 64 = c" "c div 64 div 64 * 64 + c div 64 mod 64 = c div 64"
    "c div 64 div 64 div 64 * 64 + c div 64 div 64 mod 64 = c div 64 div 64"
    by (simp_all only: div_mult_mod_eq)
  then show "c div 4096 * 4096 + (c div 64 mod 64) * 64 + c mod 64 = c"
    "c div 262144 * 262144 + (c div 4096 mod 64) * 4096 + (c div 64 mod 64) * 64 + c mod 64 = c"
    unfolding d by linarith+
qed

lemma from_utf8_encode1: "c < 0x80 \<Longrightarrow> from_utf8 (encode_utf8 c @ bs) = map_option (Cons c) (from_utf8 bs)"
  by (simp add: encode_utf8_def from_utf8.simps(2) unat_of_nat)

lemma from_utf8_encode2:
  assumes "0x80 \<le> c" "c < 0x800"
  shows "from_utf8 (encode_utf8 c @ bs) = map_option (Cons c) (from_utf8 bs)"
proof -
  have "c div 64 < 32" "2 \<le> c div 64" using assms by auto
  then show ?thesis using assms
    by (simp add: encode_utf8_def from_utf8.simps(2) unat_byte Let_def del: of_nat_add)
qed

lemma from_utf8_encode3:
  assumes "0x800 \<le> c" "c < 0x10000" "scalar c"
  shows "from_utf8 (encode_utf8 c @ bs) = map_option (Cons c) (from_utf8 bs)"
proof -
  have d: "c div 4096 < 16" using assms by auto
  have "c div 4096 * 4096 + (c div 64 mod 64) * 64 + c mod 64 = c"
    by (rule split_base64)
  then show ?thesis using assms d
    by (simp add: encode_utf8_def from_utf8.simps(2) unat_byte Let_def del: of_nat_add)
qed

lemma from_utf8_encode4:
  assumes "0x10000 \<le> c" "scalar c"
  shows "from_utf8 (encode_utf8 c @ bs) = map_option (Cons c) (from_utf8 bs)"
proof -
  have "c < 0x110000" using assms by (auto simp: scalar_def)
  then have d: "c div 262144 < 5" by auto
  have "c div 262144 * 262144 + (c div 4096 mod 64) * 4096 + (c div 64 mod 64) * 64 + c mod 64 = c"
    by (rule split_base64)
  then show ?thesis using assms d
    by (simp add: encode_utf8_def from_utf8.simps(2) unat_byte Let_def del: of_nat_add)
qed

lemma from_utf8_encode:
  assumes "scalar c"
  shows "from_utf8 (encode_utf8 c @ bs) = map_option (Cons c) (from_utf8 bs)"
proof -
  consider "c < 0x80" | "0x80 \<le> c" "c < 0x800" | "0x800 \<le> c" "c < 0x10000" | "0x10000 \<le> c"
    by linarith
  then show ?thesis
    using assms
    by cases (auto intro: from_utf8_encode1 from_utf8_encode2 from_utf8_encode3 from_utf8_encode4)
qed

lemma from_utf8_str_bytes [simp]: "str_ok s \<Longrightarrow> from_utf8 (str_bytes s) = Some s"
  by (induction s) (simp_all add: from_utf8_encode)

lemma str_bytes_inj: "str_ok s \<Longrightarrow> str_ok t \<Longrightarrow> str_bytes s = str_bytes t \<longleftrightarrow> s = t"
  by (metis from_utf8_str_bytes option.inject)

section \<open>Copying whole characters into a fixed buffer\<close>

text \<open>
  \<^verbatim>\<open>
  for ch in label.chars() {
      let width = ch.len_utf8();
      if length + width > CAPACITY { break; }
      ch.encode_utf8(&mut bytes[length..]);
      length += width;
  }
  \<close>
\<close>

fun fit_chars :: "nat \<Rightarrow> str \<Rightarrow> byte list \<Rightarrow> nat \<Rightarrow> byte list \<times> nat" where
  "fit_chars cap [] bytes len = (bytes, len)"
| "fit_chars cap (ch # chs) bytes len =
     (let width = len_utf8 ch in
      if len + width > cap then (bytes, len)
      else fit_chars cap chs (copy_into bytes len (encode_utf8 ch)) (len + width))"

text \<open>The abstract meaning: the longest prefix whose encoding fits.\<close>

fun fit_prefix :: "nat \<Rightarrow> str \<Rightarrow> str" where
  "fit_prefix cap [] = []"
| "fit_prefix cap (ch # chs) =
     (if len_utf8 ch > cap then [] else ch # fit_prefix (cap - len_utf8 ch) chs)"

lemma fit_prefix_is_prefix: "\<exists>rest. chs = fit_prefix cap chs @ rest"
  by (induction cap chs rule: fit_prefix.induct) auto

lemma fit_prefix_ok: "str_ok chs \<Longrightarrow> str_ok (fit_prefix cap chs)"
  by (induction cap chs rule: fit_prefix.induct) auto

lemma fit_prefix_len: "str_len (fit_prefix cap chs) \<le> cap"
  by (induction cap chs rule: fit_prefix.induct) (auto simp: str_len_def)

lemma fit_prefix_whole: "str_len chs \<le> cap \<Longrightarrow> fit_prefix cap chs = chs"
  by (induction cap chs rule: fit_prefix.induct) (auto simp: str_len_def)

lemma fit_chars_spec:
  assumes "len \<le> cap" "length bytes = cap" "drop len bytes = replicate (cap - len) 0"
  shows "fit_chars cap chs bytes len =
    (take len bytes @ str_bytes (fit_prefix (cap - len) chs) @
       replicate (cap - len - str_len (fit_prefix (cap - len) chs)) 0,
     len + str_len (fit_prefix (cap - len) chs))"
  using assms
proof (induction chs arbitrary: bytes len)
  case Nil
  then show ?case
    by (simp add: str_len_def) (metis append_take_drop_id)
next
  case (Cons ch chs)
  show ?case
  proof (cases "len + len_utf8 ch > cap")
    case True
    then have "fit_prefix (cap - len) (ch # chs) = []" using Cons.prems(1) by auto
    with True Cons.prems show ?thesis
      by (simp add: str_len_def del: fit_prefix.simps) (metis append_take_drop_id)
  next
    case False
    let ?b = "copy_into bytes len (encode_utf8 ch)"
    have z: "drop (len + len_utf8 ch) bytes = replicate (cap - len - len_utf8 ch) 0"
      using Cons.prems(3) by (metis drop_drop drop_replicate add.commute)
    have "length ?b = cap" using False Cons.prems by (simp add: bytes_simps)
    moreover have "drop (len + len_utf8 ch) ?b = replicate (cap - (len + len_utf8 ch)) 0"
      using False Cons.prems z by (simp add: copy_into_def)
    moreover have "take (len + len_utf8 ch) ?b = take len bytes @ encode_utf8 ch"
      using False Cons.prems by (simp add: copy_into_def)
    moreover have "fit_prefix (cap - len) (ch # chs) = ch # fit_prefix (cap - (len + len_utf8 ch)) chs"
      using False Cons.prems(1) by (simp add: diff_diff_left)
    moreover have "len + len_utf8 ch \<le> cap" using False by simp
    ultimately show ?thesis
      using False Cons.IH [of "len + len_utf8 ch" ?b]
      by (simp add: str_len_def Let_def add.assoc diff_diff_left del: fit_prefix.simps)
  qed
qed

lemma fit_chars_fresh:
  "fit_chars cap chs (replicate cap 0) 0 =
    (str_bytes (fit_prefix cap chs) @ replicate (cap - str_len (fit_prefix cap chs)) 0,
     str_len (fit_prefix cap chs))"
  by (simp add: fit_chars_spec)

end
