(* ===== verification/Sijil.thy ===== *)
theory Sijil
  imports Utf8
begin

text \<open>
  \<open>nawa/sijil/src/lib.rs\<close>: the journal in memory, a ring of the last 512 entries. The
  ring is a static behind a spin lock on a single core; here it is a field of the kernel's
  state \<open>sijil_state\<close>, which the later components extend. The clock
  \<open>apic::now_microseconds\<close> is hardware: the state holds the stream of values it will
  return and how many have been read. \<open>ring_holds\<close> relates the ring to the full history;
  the lemmas show that recording appends to the history and that reading returns its last 512
  entries in order, whatever was dropped.
\<close>

datatype event = Spawned | Delegated | Attenuated | Granted | Invoked | EvDenied
  | ApprovalRequested | Approved | Rejected | Remembered | Noted | EvFinished
  | EvBudgetExhausted

section \<open>Labels\<close>

record label =
  l_bytes :: "byte list"
  l_length :: byte

definition LABEL_CAPACITY :: nat where "LABEL_CAPACITY = 40"

definition label_new :: "str \<Rightarrow> label" where
  "label_new s = (let (bytes, len) = fit_chars LABEL_CAPACITY s (replicate LABEL_CAPACITY 0) 0
                  in \<lparr>l_bytes = bytes, l_length = of_nat len\<rparr>)"

definition label_exact :: "str \<Rightarrow> label option" where
  "label_exact s = (if str_len s > LABEL_CAPACITY then None else Some (label_new s))"

definition label_as_str :: "label \<Rightarrow> str" where
  "label_as_str l = (case from_utf8 (take (unat (l_length l)) (l_bytes l)) of
     Some s \<Rightarrow> s | None \<Rightarrow> [])"

definition label_eq :: "label \<Rightarrow> label \<Rightarrow> bool" where
  "label_eq a b = (label_as_str a = label_as_str b)"

lemma label_new_str: "str_ok s \<Longrightarrow> label_as_str (label_new s) = fit_prefix 40 s"
  using fit_prefix_len [of 40 s]
  by (simp add: label_new_def LABEL_CAPACITY_def fit_chars_fresh label_as_str_def unat_of_nat
      str_len_def fit_prefix_ok)

lemma label_exact_str: "str_ok s \<Longrightarrow> label_exact s = Some l \<Longrightarrow> label_as_str l = s"
  by (auto simp: label_exact_def LABEL_CAPACITY_def label_new_str fit_prefix_whole split: if_splits)

text \<open>
  Labels built by \<open>exact\<close> carry their text whole, so equality of labels is equality of texts.
\<close>

definition label_wf :: "label \<Rightarrow> bool" where
  "label_wf l \<longleftrightarrow> (\<exists>s. str_ok s \<and> label_exact s = Some l)"

lemma label_wf_eq: "label_wf a \<Longrightarrow> label_wf b \<Longrightarrow> label_eq a b \<longleftrightarrow> a = b"
  unfolding label_wf_def label_eq_def
  by (metis label_exact_str label_exact_def option.inject option.distinct(1))

section \<open>The ring\<close>

record jentry =
  e_sequence :: u64
  e_at :: u64
  e_agent :: u32
  e_event :: event
  e_detail :: u64
  e_label :: label

definition CAPACITY :: nat where "CAPACITY = 512"

record ring =
  entries :: "jentry option list"
  next_sequence :: u64
  written :: nat

definition ring_new :: ring where
  "ring_new = \<lparr>entries = replicate CAPACITY None, next_sequence = 1, written = 0\<rparr>"

record sijil_state =
  clock :: "nat \<Rightarrow> u64"
  clock_reads :: nat
  ring :: ring

definition now_microseconds :: "'a sijil_state_scheme \<Rightarrow> u64 \<times> 'a sijil_state_scheme" where
  "now_microseconds s = (clock s (clock_reads s), s\<lparr>clock_reads := clock_reads s + 1\<rparr>)"

definition ring_record :: "jentry \<Rightarrow> ring \<Rightarrow> u64 \<times> ring" where
  "ring_record entry r =
     (let sequence = next_sequence r;
          slot = unat (sequence - 1) mod CAPACITY
      in (sequence, r\<lparr>next_sequence := next_sequence r + 1,
                      entries := (entries r)[slot := Some (entry\<lparr>e_sequence := sequence\<rparr>)],
                      written := written r + 1\<rparr>))"

definition sijil_record ::
  "u32 \<Rightarrow> event \<Rightarrow> u64 \<Rightarrow> str \<Rightarrow> 'a sijil_state_scheme \<Rightarrow> 'a sijil_state_scheme" where
  "sijil_record agent ev detail lab s =
     (let (at_us, s) = now_microseconds s;
          entry = \<lparr>e_sequence = 0, e_at = at_us, e_agent = agent, e_event = ev,
                   e_detail = detail, e_label = label_new lab\<rparr>
      in s\<lparr>ring := snd (ring_record entry (ring s))\<rparr>)"

text \<open>\<open>for_each\<close> and \<open>for_agent\<close> return the entries they visit, in order.\<close>

definition for_each :: "ring \<Rightarrow> jentry list" where
  "for_each r =
     (let count = next_sequence r - 1;
          first = saturating_sub count (of_nat CAPACITY)
      in List.map_filter (\<lambda>q.
           let sequence = of_nat q :: u64;
               slot = unat (sequence - 1) mod CAPACITY
           in case entries r ! slot of
                Some entry \<Rightarrow> if e_sequence entry = sequence then Some entry else None
              | None \<Rightarrow> None)
         [unat (first + 1)..<unat count + 1])"

definition for_agent :: "u32 \<Rightarrow> ring \<Rightarrow> jentry list" where
  "for_agent agent r = filter (\<lambda>entry. e_agent entry = agent) (for_each r)"

section \<open>The ring and the full history\<close>

definition numbered :: "jentry list \<Rightarrow> bool" where
  "numbered h \<longleftrightarrow> (\<forall>i < length h. e_sequence (h ! i) = of_nat (i + 1))"

definition ring_holds :: "ring \<Rightarrow> jentry list \<Rightarrow> bool" where
  "ring_holds r h \<longleftrightarrow> length (entries r) = 512 \<and> next_sequence r = of_nat (length h + 1) \<and>
     written r = length h \<and> numbered h \<and>
     (\<forall>i < length h. length h \<le> i + 512 \<longrightarrow> entries r ! (i mod 512) = Some (h ! i))"

lemma ring_new_holds: "ring_holds ring_new []"
  by (simp add: ring_holds_def ring_new_def CAPACITY_def numbered_def)

lemma mod_512_distinct:
  fixes i n :: nat
  assumes "i < n" "n < i + 512"
  shows "i mod 512 \<noteq> n mod 512"
proof
  assume "i mod 512 = n mod 512"
  then have "512 dvd n - i" using assms(1) mod_eq_dvd_iff_nat [of i n 512] by simp
  then have "512 \<le> n - i" using assms(1) by (intro dvd_imp_le) auto
  with assms(2) show False by simp
qed

lemma ring_record_holds:
  assumes r: "ring_holds r h" and len: "length h + 1 < 2 ^ 64"
  shows "fst (ring_record e r) = of_nat (length h + 1)"
    and "ring_holds (snd (ring_record e r)) (h @ [e\<lparr>e_sequence := of_nat (length h + 1)\<rparr>])"
proof -
  let ?e = "e\<lparr>e_sequence := of_nat (length h + 1)\<rparr>"
  have slot: "unat (next_sequence r - 1) = length h"
    using r len by (simp add: ring_holds_def unat_of_nat)
  show "fst (ring_record e r) = of_nat (length h + 1)"
    using r by (simp add: ring_record_def ring_holds_def Let_def)
  have "entries r ! (i mod 512) = Some (h ! i) \<and> length h mod 512 \<noteq> i mod 512"
    if "i < length h" "length h \<le> 511 + i" for i
    using that r mod_512_distinct [of i "length h"] by (simp add: ring_holds_def)
  moreover have "numbered (h @ [?e])"
    using r by (auto simp: ring_holds_def numbered_def nth_append less_Suc_eq)
  ultimately show "ring_holds (snd (ring_record e r)) (h @ [?e])"
    using r slot
    by (auto simp: ring_record_def ring_holds_def CAPACITY_def Let_def nth_append less_Suc_eq)
qed

lemma for_each_holds:
  assumes r: "ring_holds r h" and len: "length h + 1 < 2 ^ 64"
  shows "for_each r = drop (length h - 512) h"
proof -
  let ?n = "length h"
  have cnt: "next_sequence r - 1 = of_nat ?n" using r by (simp add: ring_holds_def)
  have un: "unat (of_nat ?n :: u64) = ?n" using len by (simp add: unat_of_nat)
  have fst1: "unat (saturating_sub (of_nat ?n :: u64) 512 + 1) = ?n - 512 + 1"
    using un len by (subst unat_add_small) simp_all
  have each: "(case entries r ! (unat (of_nat q - 1 :: u64) mod 512) of
       Some entry \<Rightarrow> if e_sequence entry = of_nat q then Some entry else None | None \<Rightarrow> None) =
      Some (h ! (q - 1))" if q1: "?n - 512 + 1 \<le> q" and q2: "q < ?n + 1" for q
  proof -
    obtain i where i: "q = Suc i" using q1 by (cases q) auto
    then have "?n - 512 \<le> i" "i < ?n" using q1 q2 by auto
    then have "entries r ! (i mod 512) = Some (h ! i)" "e_sequence (h ! i) = of_nat (i + 1)"
      using r by (auto simp: ring_holds_def numbered_def)
    moreover have "unat (of_nat q - 1 :: u64) = i"
      using i \<open>i < ?n\<close> len by (simp add: unat_of_nat)
    ultimately show ?thesis by (simp add: i)
  qed
  have "for_each r = map (\<lambda>q. h ! (q - 1)) [?n - 512 + 1..<?n + 1]"
    unfolding for_each_def Let_def CAPACITY_def cnt un of_nat_numeral fst1
    by (rule map_filter_all_Some, rule each) (simp_all del: upt_Suc)
  also have "\<dots> = drop (?n - 512) h"
    by (rule nth_equalityI) (simp_all del: upt_Suc)
  finally show ?thesis .
qed

text \<open>What one call of \<open>record\<close> adds to the history.\<close>

definition entry_for :: "'a sijil_state_scheme \<Rightarrow> nat \<Rightarrow> u32 \<Rightarrow> event \<Rightarrow> u64 \<Rightarrow> str \<Rightarrow> jentry" where
  "entry_for s n agent ev detail lab =
     \<lparr>e_sequence = of_nat (n + 1), e_at = clock s (clock_reads s), e_agent = agent,
      e_event = ev, e_detail = detail, e_label = label_new lab\<rparr>"

lemma sijil_record_holds:
  assumes "ring_holds (ring s) h" "length h + 1 < 2 ^ 64"
  shows "ring_holds (ring (sijil_record agent ev detail lab s))
    (h @ [entry_for s (length h) agent ev detail lab])"
  using ring_record_holds(2) [OF assms, of "\<lparr>e_sequence = 0, e_at = clock s (clock_reads s),
      e_agent = agent, e_event = ev, e_detail = detail, e_label = label_new lab\<rparr>"]
  by (simp add: sijil_record_def now_microseconds_def entry_for_def Let_def)

lemma sijil_record_frame [state_simps]:
  "clock (sijil_record agent ev detail lab s) = clock s"
  "clock_reads (sijil_record agent ev detail lab s) = clock_reads s + 1"
  "sijil_state.more (sijil_record agent ev detail lab s) = sijil_state.more s"
  by (simp_all add: sijil_record_def now_microseconds_def Let_def)

text \<open>The caller's view: a sequence of calls of \<open>record\<close>.\<close>

fun record_all ::
  "(u32 \<times> event \<times> u64 \<times> str) list \<Rightarrow> 'a sijil_state_scheme \<Rightarrow> 'a sijil_state_scheme" where
  "record_all [] s = s"
| "record_all ((agent, ev, detail, lab) # calls) s =
     record_all calls (sijil_record agent ev detail lab s)"

definition same_call :: "jentry \<Rightarrow> u32 \<times> event \<times> u64 \<times> str \<Rightarrow> bool" where
  "same_call e c = (case c of (agent, ev, detail, lab) \<Rightarrow>
     e_agent e = agent \<and> e_event e = ev \<and> e_detail e = detail \<and> e_label e = label_new lab)"

lemma record_all_holds:
  assumes "ring_holds (ring s) h" "length h + length calls < 2 ^ 64 - 1"
  shows "\<exists>new. ring_holds (ring (record_all calls s)) (h @ new) \<and> list_all2 same_call new calls"
  using assms
proof (induction calls arbitrary: s h)
  case Nil
  then show ?case by (intro exI [of _ "[]"]) simp
next
  case (Cons c calls)
  obtain agent ev detail lab where c: "c = (agent, ev, detail, lab)" by (metis prod_cases4)
  let ?e = "entry_for s (length h) agent ev detail lab"
  have "ring_holds (ring (sijil_record agent ev detail lab s)) (h @ [?e])"
    using Cons.prems by (intro sijil_record_holds) auto
  from Cons.IH [OF this] Cons.prems(2) obtain new where
    "ring_holds (ring (record_all calls (sijil_record agent ev detail lab s))) ((h @ [?e]) @ new)"
    "list_all2 same_call new calls" by auto
  moreover have "same_call ?e c" by (simp add: same_call_def entry_for_def c)
  ultimately show ?case by (intro exI [of _ "?e # new"]) (simp add: c)
qed

section \<open>Properties\<close>

text \<open>
  C17: the journal in memory never loses order and always shows what it lost. From an empty
  ring, after any sequence of \<open>record\<close> calls (fewer than \<open>2^64 - 1\<close>), the entries written
  number as many as the calls, carry the sequence numbers 1, 2, 3 and so on without reuse, and
  a reader visits exactly the last 512 of them, oldest first; a reader for one agent visits
  that agent's entries among them.
\<close>

theorem ring_remembers:
  assumes "ring s = ring_new" "length calls < 2 ^ 64 - 1"
  shows "\<exists>h. list_all2 same_call h calls \<and> numbered h \<and>
    written (ring (record_all calls s)) = length calls \<and>
    for_each (ring (record_all calls s)) = drop (length calls - 512) h \<and>
    for_agent a (ring (record_all calls s)) =
      filter (\<lambda>e. e_agent e = a) (drop (length calls - 512) h)"
proof -
  have "ring_holds (ring s) []" using assms(1) ring_new_holds by simp
  from record_all_holds [OF this, of calls] assms(2) obtain h where
    h: "ring_holds (ring (record_all calls s)) h" "list_all2 same_call h calls" by auto
  have len: "length h = length calls" using h(2) by (rule list_all2_lengthD)
  have "for_each (ring (record_all calls s)) = drop (length h - 512) h"
    using assms(2) len by (intro for_each_holds [OF h(1)]) simp
  then show ?thesis using h len by (auto simp: for_agent_def ring_holds_def)
qed

theorem ring_remembers_witness:
  "\<exists>h. list_all2 same_call h (replicate 600 (1, Invoked, 7, lit ''invoked fs:read'')) \<and>
    for_each (ring (record_all (replicate 600 (1, Invoked, 7, lit ''invoked fs:read''))
      \<lparr>clock = of_nat, clock_reads = 0, ring = ring_new\<rparr>)) = drop 88 h"
  using ring_remembers [of "\<lparr>clock = of_nat, clock_reads = 0, ring = ring_new\<rparr>"
    "replicate 600 (1, Invoked, 7, lit ''invoked fs:read'')" 1] by auto

text \<open>
  A scope is whole or it is not. \<open>Label::exact\<close> refuses every text whose UTF-8 encoding
  is longer than forty bytes and otherwise returns a label that reads back as exactly that
  text; \<open>Label::new\<close> keeps the longest prefix of whole characters that fits, so a truncated
  label is still valid text.
\<close>

theorem label_exact_or_refused:
  assumes "str_ok s"
  shows "(label_exact s = None \<longleftrightarrow> 40 < str_len s) \<and>
    (\<forall>l. label_exact s = Some l \<longrightarrow> label_as_str l = s) \<and>
    label_as_str (label_new s) = fit_prefix 40 s \<and>
    (\<exists>rest. s = label_as_str (label_new s) @ rest) \<and> str_len (label_as_str (label_new s)) \<le> 40"
  using assms label_exact_str [OF assms] fit_prefix_is_prefix [of s 40] fit_prefix_len [of 40 s]
  by (auto simp: label_new_str label_exact_def LABEL_CAPACITY_def)

theorem label_exact_or_refused_witness:
  "label_as_str (label_new (lit ''/projects'')) = fit_prefix 40 (lit ''/projects'') \<and>
   label_exact (replicate 21 0x645) = None"
proof -
  have "str_len (replicate 21 0x645) = 42"
    by (simp add: str_len_def str_bytes_def length_concat map_replicate sum_list_replicate len_utf8_def)
  then show ?thesis
    using label_exact_or_refused [of "lit ''/projects''"] label_exact_or_refused [of "replicate 21 0x645"]
    by (simp add: lit_def scalar_def str_ok_def list_all_iff)
qed

end
