(* ===== verification/Aman.thy ===== *)
theory Aman
  imports Sijil
begin

text \<open>
  \<open>nawa/aman/src/lib.rs\<close>: the capability broker. A capability is an index into the kernel's
  table; a slot holds its authority, its holder, the slot it was derived from and whether it
  was revoked. The table is a field of the state, which starts after \<open>init_table\<close> (before it
  every operation panics). Denials and grants are journaled through \<open>Sijil\<close> by the
  operations themselves. The lemmas show that authority only narrows along a derivation, that
  a slot's ancestry is alive whenever the slot is, and that \<open>revoke_tree\<close>'s single forward pass
  revokes the derivation subtree and nothing else.
\<close>

section \<open>Scopes\<close>

type_synonym scope = label

definition scope_new :: "str \<Rightarrow> scope option" where
  "scope_new s = label_exact s"

definition scope_as_str :: "scope \<Rightarrow> str" where
  "scope_as_str s = label_as_str s"

text \<open>\<open>str::strip_prefix\<close>.\<close>

fun strip_prefix :: "str \<Rightarrow> str \<Rightarrow> str option" where
  "strip_prefix s [] = Some s"
| "strip_prefix [] (p # ps) = None"
| "strip_prefix (c # cs) (p # ps) = (if c = p then strip_prefix cs ps else None)"

definition slash :: rchar where "slash = 0x2F"

definition within_str :: "str \<Rightarrow> str \<Rightarrow> bool" where
  "within_str child parent =
     (case strip_prefix child parent of
        None \<Rightarrow> False
      | Some rest \<Rightarrow> rest = [] \<or> (parent \<noteq> [] \<and> last parent = slash) \<or>
          (rest \<noteq> [] \<and> hd rest = slash))"

definition is_within :: "scope \<Rightarrow> scope \<Rightarrow> bool" where
  "is_within self parent = within_str (scope_as_str self) (scope_as_str parent)"

lemma strip_prefix_Some: "strip_prefix s p = Some r \<longleftrightarrow> s = p @ r"
  by (induction s p rule: strip_prefix.induct) auto

lemma within_str_refl: "within_str s s"
proof -
  have "strip_prefix s s = Some []" by (simp add: strip_prefix_Some)
  then show ?thesis by (simp add: within_str_def)
qed

lemma within_str_iff:
  "within_str c p \<longleftrightarrow> (\<exists>r. c = p @ r \<and>
     (r = [] \<or> (p \<noteq> [] \<and> last p = slash) \<or> (r \<noteq> [] \<and> hd r = slash)))"
proof (cases "strip_prefix c p")
  case None
  then have "c \<noteq> p @ r" for r using strip_prefix_Some [of c p r] by auto
  with None show ?thesis by (simp add: within_str_def)
next
  case (Some r)
  then have "c = p @ r" by (simp add: strip_prefix_Some)
  with Some show ?thesis by (simp add: within_str_def)
qed

lemma within_str_trans:
  assumes "within_str a b" "within_str b c"
  shows "within_str a c"
proof -
  from assms(1) obtain r1 where a: "a = b @ r1" "r1 = [] \<or> (b \<noteq> [] \<and> last b = slash) \<or>
      (r1 \<noteq> [] \<and> hd r1 = slash)" by (auto simp: within_str_iff)
  from assms(2) obtain r2 where b: "b = c @ r2" "r2 = [] \<or> (c \<noteq> [] \<and> last c = slash) \<or>
      (r2 \<noteq> [] \<and> hd r2 = slash)" by (auto simp: within_str_iff)
  have "r2 @ r1 = [] \<or> (c \<noteq> [] \<and> last c = slash) \<or> (r2 @ r1 \<noteq> [] \<and> hd (r2 @ r1) = slash)"
    using a(2) b by (cases r2) auto
  with a(1) b(1) show ?thesis by (auto simp: within_str_iff)
qed

lemma within_str_antisym: "within_str a b \<Longrightarrow> within_str b a \<Longrightarrow> a = b"
  by (auto simp: within_str_iff)

section \<open>Authority\<close>

datatype model_class = Fast | Private | Frontier | Arabic

datatype authority =
    Fs (fs_prefix: scope) (fs_write: bool)
  | Model model_class
  | Memory scope bool
  | Send bool
  | Spend u64

datatype risk = Benign | Reversible | Irreversible

text \<open>The derived order of the enum: its variants in the order they are declared.\<close>

fun risk_rank :: "risk \<Rightarrow> nat" where
  "risk_rank Benign = 0"
| "risk_rank Reversible = 1"
| "risk_rank Irreversible = 2"

instantiation risk :: linorder
begin

definition less_eq_risk :: "risk \<Rightarrow> risk \<Rightarrow> bool" where
  "less_eq_risk a b \<longleftrightarrow> risk_rank a \<le> risk_rank b"

definition less_risk :: "risk \<Rightarrow> risk \<Rightarrow> bool" where
  "less_risk a b \<longleftrightarrow> risk_rank a < risk_rank b"

instance
proof
  fix a b c :: risk
  show "(a < b) = (a \<le> b \<and> \<not> b \<le> a)" by (auto simp: less_risk_def less_eq_risk_def)
  show "a \<le> a" by (simp add: less_eq_risk_def)
  show "a \<le> b \<Longrightarrow> b \<le> c \<Longrightarrow> a \<le> c" by (simp add: less_eq_risk_def)
  show "a \<le> b \<Longrightarrow> b \<le> a \<Longrightarrow> a = b" by (cases a; cases b) (simp_all add: less_eq_risk_def)
  show "a \<le> b \<or> b \<le> a" by (auto simp: less_eq_risk_def)
qed

end

fun authority_risk :: "authority \<Rightarrow> risk" where
  "authority_risk (Fs _ w) = (if w then Reversible else Benign)"
| "authority_risk (Memory _ w) = (if w then Reversible else Benign)"
| "authority_risk (Model _) = Benign"
| "authority_risk (Send draft_only) = (if draft_only then Reversible else Irreversible)"
| "authority_risk (Spend _) = Irreversible"

fun is_subset_of :: "authority \<Rightarrow> authority \<Rightarrow> bool" where
  "is_subset_of (Fs child child_write) (Fs parent parent_write) \<longleftrightarrow>
     is_within child parent \<and> (\<not> child_write \<or> parent_write)"
| "is_subset_of (Model a) (Model b) \<longleftrightarrow> a = b"
| "is_subset_of (Memory child child_write) (Memory parent parent_write) \<longleftrightarrow>
     is_within child parent \<and> (\<not> child_write \<or> parent_write)"
| "is_subset_of (Send child) (Send parent) \<longleftrightarrow> child \<or> \<not> parent"
| "is_subset_of (Spend child) (Spend parent) \<longleftrightarrow> child \<le> parent"
| "is_subset_of _ _ \<longleftrightarrow> False"

lemma is_subset_of_refl [simp]: "is_subset_of a a"
  by (cases a) (simp_all add: is_within_def within_str_refl)

lemma is_subset_of_trans: "is_subset_of a b \<Longrightarrow> is_subset_of b c \<Longrightarrow> is_subset_of a c"
  by (cases a; cases b; cases c) (auto simp: is_within_def intro: within_str_trans)

text \<open>Narrowing an authority never raises its risk.\<close>

lemma is_subset_of_risk: "is_subset_of a b \<Longrightarrow> authority_risk a \<le> authority_risk b"
  by (cases a; cases b) (auto simp: less_eq_risk_def)

section \<open>The table\<close>

datatype capability = Capability (cap_index: nat)

record slot =
  authority :: authority
  holder :: u32
  parent :: "nat option"
  revoked :: bool

record aman_state = sijil_state +
  slots :: "slot list"

datatype denied = NotHeld | Revoked | NotASubset | NeedsApproval | BudgetExhausted

definition init_table :: "'a aman_state_scheme \<Rightarrow> 'a aman_state_scheme" where
  "init_table s = s\<lparr>slots := []\<rparr>"

fun describe :: "authority \<Rightarrow> str" where
  "describe (Fs _ w) = (if w then lit ''fs:write'' else lit ''fs:read'')"
| "describe (Model Fast) = lit ''model:fast''"
| "describe (Model Private) = lit ''model:private''"
| "describe (Model Frontier) = lit ''model:frontier''"
| "describe (Model Arabic) = lit ''model:arabic''"
| "describe (Memory _ w) = (if w then lit ''memory:write'' else lit ''memory:read'')"
| "describe (Send draft_only) = (if draft_only then lit ''send:draft-only'' else lit ''send'')"
| "describe (Spend _) = lit ''spend''"

fun denied_label :: "denied \<Rightarrow> str" where
  "denied_label NotHeld = lit ''denied:not-held''"
| "denied_label Revoked = lit ''denied:revoked''"
| "denied_label NotASubset = lit ''denied:would-widen''"
| "denied_label NeedsApproval = lit ''awaiting-consent''"
| "denied_label BudgetExhausted = lit ''denied:budget''"

definition mint :: "u32 \<Rightarrow> authority \<Rightarrow> 'a aman_state_scheme \<Rightarrow> capability \<times> 'a aman_state_scheme" where
  "mint agent auth s =
     (let s = s\<lparr>slots := slots s @ [\<lparr>authority = auth, holder = agent, parent = None, revoked = False\<rparr>]\<rparr>;
          capability = Capability (length (slots s) - 1);
          s = sijil_record agent Granted (of_nat (cap_index capability)) (describe auth) s
      in (capability, s))"

definition lookup :: "slot list \<Rightarrow> capability \<Rightarrow> u32 \<Rightarrow> denied + slot" where
  "lookup table capability agent =
     (if cap_index capability < length table then
        (let slot = table ! cap_index capability in
         if holder slot \<noteq> agent then Err NotHeld
         else if revoked slot then Err Revoked
         else Ok slot)
      else Err NotHeld)"

text \<open>\<open>attenuate\<close> and \<open>delegate\<close> differ in the holder of the new slot and in the journal entry.\<close>

definition derive ::
  "u32 \<Rightarrow> u32 \<Rightarrow> capability \<Rightarrow> authority \<Rightarrow> slot list \<Rightarrow> denied + slot list" where
  "derive agent new_holder capability narrower table =
     and_then (lookup table capability agent) (\<lambda>slot.
       if \<not> is_subset_of narrower (authority slot) then Err NotASubset
       else Ok (table @ [\<lparr>authority = narrower, holder = new_holder,
                          parent = Some (cap_index capability), revoked = False\<rparr>]))"

definition aman_attenuate ::
  "u32 \<Rightarrow> capability \<Rightarrow> authority \<Rightarrow> 'a aman_state_scheme \<Rightarrow>
   (denied + capability) \<times> 'a aman_state_scheme" where
  "aman_attenuate agent capability narrower s =
     (case derive agent agent capability narrower (slots s) of
        Inr table \<Rightarrow>
          (let derived = Capability (length table - 1); s = s\<lparr>slots := table\<rparr>
           in (Ok derived, sijil_record agent Attenuated (of_nat (cap_index derived)) (describe narrower) s))
      | Inl denied \<Rightarrow>
          (Err denied, sijil_record agent EvDenied (of_nat (cap_index capability)) (describe narrower) s))"

definition can_delegate ::
  "u32 \<Rightarrow> capability \<Rightarrow> authority \<Rightarrow> 'a aman_state_scheme \<Rightarrow> (denied + unit) \<times> 'a aman_state_scheme" where
  "can_delegate parent_agent capability narrower s =
     (let result = and_then (lookup (slots s) capability parent_agent) (\<lambda>slot.
            if \<not> is_subset_of narrower (authority slot) then Err NotASubset else Ok ())
      in (result,
          if is_ok result then s
          else sijil_record parent_agent EvDenied (of_nat (cap_index capability)) (describe narrower) s))"

definition aman_delegate ::
  "u32 \<Rightarrow> u32 \<Rightarrow> capability \<Rightarrow> authority \<Rightarrow> 'a aman_state_scheme \<Rightarrow>
   (denied + capability) \<times> 'a aman_state_scheme" where
  "aman_delegate parent_agent child_agent capability narrower s =
     (case derive parent_agent child_agent capability narrower (slots s) of
        Inr table \<Rightarrow>
          (let derived = Capability (length table - 1); s = s\<lparr>slots := table\<rparr>
           in (Ok derived, sijil_record parent_agent Delegated (ucast child_agent) (describe narrower) s))
      | Inl denied \<Rightarrow>
          (Err denied,
           sijil_record parent_agent EvDenied (of_nat (cap_index capability)) (describe narrower) s))"

definition authorize ::
  "u32 \<Rightarrow> capability \<Rightarrow> bool \<Rightarrow> 'a aman_state_scheme \<Rightarrow> (denied + authority) \<times> 'a aman_state_scheme" where
  "authorize agent capability approved s =
     (let result = and_then (lookup (slots s) capability agent) (\<lambda>slot.
            if authority_risk (authority slot) = Irreversible \<and> \<not> approved then Err NeedsApproval
            else Ok (authority slot))
      in (result,
          case result of
            Inl denied \<Rightarrow>
              sijil_record agent (if denied = NeedsApproval then ApprovalRequested else EvDenied)
                (of_nat (cap_index capability)) (denied_label denied) s
          | Inr _ \<Rightarrow> s))"

definition authority_of :: "u32 \<Rightarrow> capability \<Rightarrow> slot list \<Rightarrow> denied + authority" where
  "authority_of agent capability table =
     and_then (lookup table capability agent) (\<lambda>slot. Ok (authority slot))"

text \<open>The loop of \<open>revoke_tree\<close>, over the \<open>n\<close> indices left from \<open>index\<close> on.\<close>

fun revoke_loop :: "nat \<Rightarrow> nat \<Rightarrow> nat \<Rightarrow> slot list \<Rightarrow> nat \<Rightarrow> slot list \<times> nat" where
  "revoke_loop target 0 index table count = (table, count)"
| "revoke_loop target (Suc n) index table count =
     (let is_target = (index = target);
          parent_revoked = (case parent (table ! index) of
            None \<Rightarrow> False | Some p \<Rightarrow> revoked (table ! p))
      in if (is_target \<or> parent_revoked) \<and> \<not> revoked (table ! index)
         then revoke_loop target n (index + 1)
                (table[index := (table ! index)\<lparr>revoked := True\<rparr>]) (count + 1)
         else revoke_loop target n (index + 1) table count)"

definition revoke_tree :: "capability \<Rightarrow> 'a aman_state_scheme \<Rightarrow> nat \<times> 'a aman_state_scheme" where
  "revoke_tree capability s =
     (let (table, count) = revoke_loop (cap_index capability)
            (length (slots s) - cap_index capability) (cap_index capability) (slots s) 0
      in (count, s\<lparr>slots := table\<rparr>))"

section \<open>The invariant of the table\<close>

text \<open>
  A derived slot comes after its parent, is no wider than it, and is revoked if it is.
\<close>

definition slot_ok :: "slot list \<Rightarrow> nat \<Rightarrow> bool" where
  "slot_ok table i = (case parent (table ! i) of
     None \<Rightarrow> True
   | Some p \<Rightarrow> p < i \<and> is_subset_of (authority (table ! i)) (authority (table ! p)) \<and>
       (revoked (table ! p) \<longrightarrow> revoked (table ! i)))"

definition table_ok :: "slot list \<Rightarrow> bool" where
  "table_ok table \<longleftrightarrow> (\<forall>i < length table. slot_ok table i)"

text \<open>\<open>descends table a i\<close>: slot \<open>i\<close> is slot \<open>a\<close> or was derived from it, in any number of steps.\<close>

inductive descends :: "slot list \<Rightarrow> nat \<Rightarrow> nat \<Rightarrow> bool" for table where
  here: "descends table a a"
| step: "parent (table ! i) = Some p \<Longrightarrow> descends table a p \<Longrightarrow> descends table a i"

inductive_cases descends_cases: "descends table a i"

lemma lookup_ok:
  "lookup table c agent = Ok slot \<longleftrightarrow> cap_index c < length table \<and> slot = table ! cap_index c \<and>
    holder slot = agent \<and> \<not> revoked slot"
  by (auto simp: lookup_def Let_def)

lemma derive_ok:
  "derive agent h c narrower table = Ok table' \<longleftrightarrow>
    (\<exists>slot. lookup table c agent = Ok slot \<and> is_subset_of narrower (authority slot) \<and>
      table' = table @ [\<lparr>authority = narrower, holder = h, parent = Some (cap_index c), revoked = False\<rparr>])"
  by (auto simp: derive_def result_simps split: if_splits)

lemma table_ok_nil [simp]: "table_ok []"
  by (simp add: table_ok_def)

lemma slot_ok_append:
  assumes "i < length table" "table_ok table"
  shows "slot_ok (table @ [x]) i"
proof -
  have "slot_ok table i" using assms by (simp add: table_ok_def)
  then show ?thesis using assms(1) by (auto simp: slot_ok_def nth_append split: option.splits)
qed

lemma table_ok_snoc:
  assumes "table_ok table" "slot_ok (table @ [x]) (length table)"
  shows "table_ok (table @ [x])"
  using assms slot_ok_append by (auto simp: table_ok_def less_Suc_eq)

lemma table_ok_mint: "table_ok table \<Longrightarrow>
    table_ok (table @ [\<lparr>authority = auth, holder = h, parent = None, revoked = False\<rparr>])"
  by (rule table_ok_snoc) (simp_all add: slot_ok_def)

lemma table_ok_derive: "table_ok table \<Longrightarrow> derive agent h c narrower table = Ok table' \<Longrightarrow> table_ok table'"
  by (auto simp: derive_ok lookup_ok slot_ok_def nth_append intro!: table_ok_snoc)

section \<open>Revocation\<close>

lemma table_ok_parent:
  "table_ok table \<Longrightarrow> i < length table \<Longrightarrow> parent (table ! i) = Some p \<Longrightarrow>
    p < i \<and> is_subset_of (authority (table ! i)) (authority (table ! p)) \<and>
    (revoked (table ! p) \<longrightarrow> revoked (table ! i))"
  by (auto simp: table_ok_def slot_ok_def)

lemma descends_le:
  assumes "descends table a i" "table_ok table" "i < length table"
  shows "a \<le> i"
  using assms
proof (induction rule: descends.induct)
  case here
  then show ?case by simp
next
  case (step i p)
  then have "p < i" using table_ok_parent by blast
  with step show ?case by simp
qed

lemma descends_iff:
  "descends table a i \<longleftrightarrow> i = a \<or> (\<exists>p. parent (table ! i) = Some p \<and> descends table a p)"
  by (auto intro: descends.intros elim: descends_cases)

definition marked :: "slot list \<Rightarrow> nat \<Rightarrow> nat \<Rightarrow> slot list" where
  "marked table a k = map (\<lambda>j. if j < k \<and> descends table a j
     then (table ! j)\<lparr>revoked := True\<rparr> else table ! j) [0..<length table]"

definition newly :: "slot list \<Rightarrow> nat \<Rightarrow> nat \<Rightarrow> nat \<Rightarrow> nat set" where
  "newly table a i k = {j. i \<le> j \<and> j < k \<and> descends table a j \<and> \<not> revoked (table ! j)}"

lemma length_marked [simp]: "length (marked table a k) = length table"
  by (simp add: marked_def)

lemma nth_marked: "j < length table \<Longrightarrow> marked table a k ! j =
    (if j < k \<and> descends table a j then (table ! j)\<lparr>revoked := True\<rparr> else table ! j)"
  by (simp add: marked_def)

lemma marked_start: "table_ok table \<Longrightarrow> k \<le> a \<Longrightarrow> marked table a k = table"
  by (rule nth_equalityI) (auto simp: nth_marked dest: descends_le)

lemma finite_newly [simp]: "finite (newly table a i k)"
  by (rule finite_subset [of _ "{..<k}"]) (auto simp: newly_def)

lemma newly_step:
  assumes "i < k"
  shows "card (newly table a i k) =
    (if descends table a i \<and> \<not> revoked (table ! i) then 1 else 0) + card (newly table a (Suc i) k)"
proof -
  have "newly table a i k = (if descends table a i \<and> \<not> revoked (table ! i) then {i} else {}) \<union>
      newly table a (Suc i) k"
    using assms by (auto simp: newly_def le_less Suc_le_eq)
  moreover have "i \<notin> newly table a (Suc i) k" by (simp add: newly_def)
  ultimately show ?thesis by simp
qed

lemma set_revoked_idem: "revoked s \<Longrightarrow> s\<lparr>revoked := True\<rparr> = s"
  by simp

lemma revoke_loop_spec:
  assumes "table_ok table" "a \<le> i" "i + n = length table"
  shows "revoke_loop a n i (marked table a i) count =
    (marked table a (length table), count + card (newly table a i (length table)))"
  using assms(2,3)
proof (induction n arbitrary: i count)
  case 0
  moreover have "newly table a (length table) (length table) = {}" by (auto simp: newly_def)
  ultimately show ?case by simp
next
  case (Suc n)
  let ?m = "marked table a i" and ?s = "table ! i"
  have i: "i < length table" using Suc.prems(2) by simp
  have at_i: "?m ! i = ?s" using i by (simp add: nth_marked)
  have cond: "((i = a) \<or> (case parent ?s of None \<Rightarrow> False | Some p \<Rightarrow> revoked (?m ! p))) \<and>
      \<not> revoked ?s \<longleftrightarrow> descends table a i \<and> \<not> revoked ?s"
  proof (cases "parent ?s")
    case None
    then show ?thesis by (auto simp: descends_iff [of table a i])
  next
    case (Some p)
    note p = table_ok_parent [OF assms(1) i Some]
    then have "revoked (?m ! p) \<longleftrightarrow> revoked (table ! p) \<or> descends table a p"
      using i by (simp add: nth_marked)
    with p Some show ?thesis by (auto simp: descends_iff [of table a i])
  qed
  have next1: "?m[i := ?s\<lparr>revoked := True\<rparr>] = marked table a (Suc i)" if "descends table a i"
    using that i by (intro nth_equalityI) (auto simp: nth_marked nth_list_update less_Suc_eq)
  have next2: "?m = marked table a (Suc i)" if "\<not> descends table a i \<or> revoked ?s"
    using that i by (intro nth_equalityI) (auto simp: nth_marked less_Suc_eq set_revoked_idem)
  have IH: "revoke_loop a n (Suc i) (marked table a (Suc i)) c =
      (marked table a (length table), c + card (newly table a (Suc i) (length table)))" for c
    using Suc.prems by (intro Suc.IH) auto
  have loop: "revoke_loop a (Suc n) i ?m count =
      (if descends table a i \<and> \<not> revoked ?s
       then revoke_loop a n (Suc i) (?m[i := ?s\<lparr>revoked := True\<rparr>]) (count + 1)
       else revoke_loop a n (Suc i) ?m count)"
    unfolding revoke_loop.simps Let_def at_i cond by simp
  show ?case
  proof (cases "descends table a i \<and> \<not> revoked ?s")
    case True
    then show ?thesis
      using IH [of "count + 1"] next1 newly_step [OF i, of table a]
      by (simp add: loop del: revoke_loop.simps)
  next
    case False
    then have "?m = marked table a (Suc i)" using next2 by blast
    with False show ?thesis
      unfolding loop using IH [of count] newly_step [OF i, of table a]
      by (auto simp del: revoke_loop.simps)
  qed
qed

lemma revoke_tree_spec:
  assumes "table_ok (slots s)"
  shows "revoke_tree (Capability a) s =
    (card (newly (slots s) a 0 (length (slots s))),
     s\<lparr>slots := marked (slots s) a (length (slots s))\<rparr>)"
proof (cases "a \<le> length (slots s)")
  case True
  have "newly (slots s) a a (length (slots s)) = newly (slots s) a 0 (length (slots s))"
    using descends_le [OF _ assms] by (auto simp: newly_def)
  then show ?thesis
    using revoke_loop_spec [OF assms order_refl, of "a" "length (slots s) - a" 0] True
      marked_start [OF assms order_refl, of a]
    by (simp add: revoke_tree_def)
next
  case False
  then have "\<not> descends (slots s) a i" if "i < length (slots s)" for i
    using descends_le [of "slots s" a i] assms that False by auto
  then have "newly (slots s) a 0 (length (slots s)) = {}" by (auto simp: newly_def)
  moreover have "marked (slots s) a (length (slots s)) = slots s"
    using False by (intro marked_start [OF assms]) simp
  ultimately show ?thesis using False by (simp add: revoke_tree_def)
qed

lemma marked_table_ok:
  assumes "table_ok table"
  shows "table_ok (marked table a (length table))"
  unfolding table_ok_def
proof (intro allI impI)
  fix i assume "i < length (marked table a (length table))"
  then have i: "i < length table" by simp
  show "slot_ok (marked table a (length table)) i"
  proof (cases "parent (table ! i)")
    case None
    with i show ?thesis by (simp add: slot_ok_def nth_marked)
  next
    case (Some p)
    note p = table_ok_parent [OF assms i Some]
    then have "p < length table" using i by simp
    with p Some i show ?thesis
      by (auto simp: slot_ok_def nth_marked descends_iff [of table a i])
  qed
qed

lemma descends_authority:
  assumes "descends table a i" "table_ok table" "i < length table"
  shows "is_subset_of (authority (table ! i)) (authority (table ! a)) \<and>
    (revoked (table ! a) \<longrightarrow> revoked (table ! i))"
  using assms
proof (induction rule: descends.induct)
  case here
  then show ?case by simp
next
  case (step i p)
  note p = table_ok_parent [OF step.prems step.hyps(1)]
  then have "p < length table" using step.prems(2) by simp
  with step.IH step.prems(1) p show ?case by (auto intro: is_subset_of_trans)
qed

section \<open>The operations and the table\<close>

lemma slots_sijil_record [simp, state_simps]: "slots (sijil_record a ev d l s) = slots s"
  by (simp add: sijil_record_def now_microseconds_def Let_def)

lemma slots_mint [state_simps]: "slots (snd (mint a auth s)) =
    slots s @ [\<lparr>authority = auth, holder = a, parent = None, revoked = False\<rparr>]"
  by (simp add: mint_def Let_def)

lemma slots_attenuate [state_simps]: "slots (snd (aman_attenuate a c n s)) =
    (case derive a a c n (slots s) of Inr table \<Rightarrow> table | Inl _ \<Rightarrow> slots s)"
  by (simp add: aman_attenuate_def Let_def split: sum.split)

lemma slots_delegate [state_simps]: "slots (snd (aman_delegate p k c n s)) =
    (case derive p k c n (slots s) of Inr table \<Rightarrow> table | Inl _ \<Rightarrow> slots s)"
  by (simp add: aman_delegate_def Let_def split: sum.split)

lemma slots_can_delegate [state_simps]: "slots (snd (can_delegate p c n s)) = slots s"
  by (simp add: can_delegate_def Let_def)

lemma slots_authorize [state_simps]: "slots (snd (authorize a c ok s)) = slots s"
  by (simp add: authorize_def Let_def split: sum.split)

lemma authorize_result:
  "fst (authorize a c ok s) = Ok auth \<longleftrightarrow> (\<exists>slot. lookup (slots s) c a = Ok slot \<and>
    auth = authority slot \<and> (authority_risk auth = Irreversible \<longrightarrow> ok))"
  by (auto simp: authorize_def Let_def result_simps split: if_splits)

lemma authorize_unchanged: "fst (authorize a c ok s) = Ok auth \<Longrightarrow> snd (authorize a c ok s) = s"
  by (auto simp: authorize_def Let_def split: sum.splits)

lemma can_delegate_result:
  "fst (can_delegate p c n s) = Ok () \<longleftrightarrow>
    (\<exists>slot. lookup (slots s) c p = Ok slot \<and> is_subset_of n (authority slot))"
  by (auto simp: can_delegate_def Let_def result_simps split: if_splits)

lemma can_delegate_unchanged: "fst (can_delegate p c n s) = Ok () \<Longrightarrow> snd (can_delegate p c n s) = s"
  by (auto simp: can_delegate_def Let_def is_ok_def split: sum.splits)

text \<open>What \<open>can_delegate\<close> allowed, \<open>delegate\<close> does not refuse.\<close>

lemma delegate_after_check:
  assumes "fst (can_delegate p c n s) = Ok ()" "slots s' = slots s"
  shows "fst (aman_delegate p k c n s') = Ok (Capability (length (slots s)))"
    and "slots (snd (aman_delegate p k c n s')) = slots s @
      [\<lparr>authority = n, holder = k, parent = Some (cap_index c), revoked = False\<rparr>]"
proof -
  from assms(1) obtain sl where "lookup (slots s) c p = Ok sl" "is_subset_of n (authority sl)"
    by (auto simp: can_delegate_result)
  then have "derive p k c n (slots s) = Ok (slots s @
      [\<lparr>authority = n, holder = k, parent = Some (cap_index c), revoked = False\<rparr>])"
    by (auto simp: derive_ok)
  with assms(2) show "fst (aman_delegate p k c n s') = Ok (Capability (length (slots s)))"
    "slots (snd (aman_delegate p k c n s')) = slots s @
      [\<lparr>authority = n, holder = k, parent = Some (cap_index c), revoked = False\<rparr>]"
    by (simp_all add: aman_delegate_def Let_def)
qed

section \<open>The broker as a transition system\<close>

inductive aman_step :: "aman_state \<Rightarrow> aman_state \<Rightarrow> bool" where
  step_mint: "aman_step s (snd (mint a auth s))"
| step_attenuate: "aman_step s (snd (aman_attenuate a c n s))"
| step_can_delegate: "aman_step s (snd (can_delegate p c n s))"
| step_delegate: "aman_step s (snd (aman_delegate p k c n s))"
| step_authorize: "aman_step s (snd (authorize a c ok s))"
| step_revoke: "aman_step s (snd (revoke_tree c s))"

inductive aman_reach :: "aman_state \<Rightarrow> bool" where
  reach_init: "aman_reach (init_table s)"
| reach_step: "aman_reach s \<Longrightarrow> aman_step s s' \<Longrightarrow> aman_reach s'"

inductive_cases aman_stepE: "aman_step s s'"

lemma table_ok_step: "aman_step s s' \<Longrightarrow> table_ok (slots s) \<Longrightarrow> table_ok (slots s')"
proof (induction rule: aman_step.induct)
  case (step_revoke s c)
  then show ?case
    by (cases c) (simp add: revoke_tree_spec marked_table_ok)
qed (auto simp: state_simps table_ok_mint split: sum.split dest: table_ok_derive)

lemma aman_reach_ok: "aman_reach s \<Longrightarrow> table_ok (slots s)"
  by (induction rule: aman_reach.induct) (auto simp: init_table_def dest: table_ok_step)

lemma descends_root:
  assumes "table_ok table" "i < length table"
  shows "\<exists>r. parent (table ! r) = None \<and> descends table r i"
  using assms(2)
proof (induction i rule: less_induct)
  case (less i)
  show ?case
  proof (cases "parent (table ! i)")
    case None
    then show ?thesis using descends.here by blast
  next
    case (Some p)
    note p = table_ok_parent [OF assms(1) less.prems Some]
    with less obtain r where "parent (table ! r) = None" "descends table r p" by fastforce
    with Some show ?thesis using descends.step by blast
  qed
qed

section \<open>Properties\<close>

text \<open>
  C5: authority only narrows, and only comes from the kernel. In every state the broker can
  reach, a capability that is not revoked was derived, through slots that are all still live,
  from one the kernel minted, and its authority is a subset of the authority of every slot
  on that line, the minted one included; its risk is no higher either.
\<close>

theorem authority_traced:
  assumes "aman_reach s" "i < length (slots s)" "\<not> revoked (slots s ! i)"
  shows "\<exists>r. parent (slots s ! r) = None \<and> descends (slots s) r i \<and>
    (\<forall>a. descends (slots s) a i \<longrightarrow> \<not> revoked (slots s ! a) \<and>
       is_subset_of (authority (slots s ! i)) (authority (slots s ! a)) \<and>
       authority_risk (authority (slots s ! i)) \<le> authority_risk (authority (slots s ! a)))"
proof -
  note ok = aman_reach_ok [OF assms(1)]
  obtain r where r: "parent (slots s ! r) = None" "descends (slots s) r i"
    using descends_root [OF ok assms(2)] by blast
  have "\<not> revoked (slots s ! a) \<and>
      is_subset_of (authority (slots s ! i)) (authority (slots s ! a)) \<and>
      authority_risk (authority (slots s ! i)) \<le> authority_risk (authority (slots s ! a))"
    if "descends (slots s) a i" for a
    using descends_authority [OF that ok assms(2)] assms(3) is_subset_of_risk by blast
  with r show ?thesis by blast
qed

definition boot_state :: aman_state where
  "boot_state = \<lparr>clock = of_nat, clock_reads = 0, ring = ring_new, slots = []\<rparr>"

text \<open>The kernel grants a draft-or-send capability; agent 1 narrows it to drafts for agent 2.\<close>

definition small_state :: aman_state where
  "small_state = snd (aman_delegate 1 2 (Capability 0) (Send True)
     (snd (mint 1 (Send False) boot_state)))"

lemma boot_state_reach: "aman_reach boot_state"
proof -
  have "boot_state = init_table boot_state" by (simp add: boot_state_def init_table_def)
  then show ?thesis by (metis reach_init)
qed

lemma small_state_reach: "aman_reach small_state"
proof -
  have "aman_reach (snd (mint 1 (Send False) boot_state))"
    by (rule reach_step [OF boot_state_reach step_mint])
  then show ?thesis unfolding small_state_def by (rule reach_step [OF _ step_delegate])
qed

lemma small_state_slots: "slots small_state =
    [\<lparr>authority = Send False, holder = 1, parent = None, revoked = False\<rparr>,
     \<lparr>authority = Send True, holder = 2, parent = Some 0, revoked = False\<rparr>]"
  by (simp add: small_state_def state_simps derive_def lookup_def boot_state_def Let_def)

theorem authority_traced_witness:
  "\<exists>r. parent (slots small_state ! r) = None \<and> descends (slots small_state) r 1 \<and>
    is_subset_of (Send True) (authority (slots small_state ! r))"
proof -
  have "1 < length (slots small_state)" "\<not> revoked (slots small_state ! 1)"
    by (simp_all add: small_state_slots)
  from authority_traced [OF small_state_reach this] obtain r where
    "parent (slots small_state ! r) = None" "descends (slots small_state) r 1"
    "is_subset_of (authority (slots small_state ! 1)) (authority (slots small_state ! r))" by blast
  then show ?thesis by (intro exI [of _ r]) (simp add: small_state_slots)
qed

text \<open>
  C6: revocation takes the whole subtree and nothing else. In every reachable state,
  \<open>revoke_tree\<close> marks exactly the slots derived from the given one (itself included), in one
  forward pass, returns how many of them were live, and changes no other field; afterwards
  every lookup of a slot in the subtree is refused, and every lookup outside it is as before.
\<close>

theorem revocation_exact:
  assumes "aman_reach s" "revoke_tree (Capability a) s = (n, s')"
  shows "length (slots s') = length (slots s) \<and>
    n = card {i. i < length (slots s) \<and> descends (slots s) a i \<and> \<not> revoked (slots s ! i)} \<and>
    (\<forall>i < length (slots s).
       slots s' ! i = (slots s ! i)\<lparr>revoked := revoked (slots s ! i) \<or> descends (slots s) a i\<rparr>) \<and>
    (\<forall>i agent. descends (slots s) a i \<longrightarrow> \<not> is_ok (lookup (slots s') (Capability i) agent)) \<and>
    (\<forall>i agent. \<not> descends (slots s) a i \<longrightarrow>
       lookup (slots s') (Capability i) agent = lookup (slots s) (Capability i) agent)"
proof -
  note ok = aman_reach_ok [OF assms(1)]
  from revoke_tree_spec [OF ok, of a] assms(2)
  have n: "n = card (newly (slots s) a 0 (length (slots s)))"
    and s': "slots s' = marked (slots s) a (length (slots s))" by auto
  have at_i: "slots s' ! i = (slots s ! i)\<lparr>revoked := revoked (slots s ! i) \<or> descends (slots s) a i\<rparr>"
    if "i < length (slots s)" for i
    using that by (simp add: s' nth_marked set_revoked_idem)
  have "newly (slots s) a 0 (length (slots s)) =
      {i. i < length (slots s) \<and> descends (slots s) a i \<and> \<not> revoked (slots s ! i)}"
    by (auto simp: newly_def)
  moreover have "\<not> is_ok (lookup (slots s') (Capability i) agent)"
    if "descends (slots s) a i" for i agent
    using that at_i [of i] s' by (auto simp: lookup_def Let_def)
  moreover have "lookup (slots s') (Capability i) agent = lookup (slots s) (Capability i) agent"
    if "\<not> descends (slots s) a i" for i agent
    using that s' by (simp add: lookup_def Let_def nth_marked)
  ultimately show ?thesis using n s' at_i by simp
qed

theorem revocation_exact_witness:
  "fst (revoke_tree (Capability 0) small_state) = 2 \<and>
   \<not> is_ok (lookup (slots (snd (revoke_tree (Capability 0) small_state))) (Capability 1) 2)"
proof -
  obtain n s' where r: "revoke_tree (Capability 0) small_state = (n, s')" by (metis surj_pair)
  have d: "descends (slots small_state) 0 0" "descends (slots small_state) 0 1"
    by (rule descends.here) (auto simp: small_state_slots intro: descends.here descends.step)
  have "{i. i < length (slots small_state) \<and> descends (slots small_state) 0 i \<and>
      \<not> revoked (slots small_state ! i)} = {0, 1}"
    using d by (auto simp: small_state_slots less_Suc_eq nth_Cons')
  with revocation_exact [OF small_state_reach r] d(2) r show ?thesis by auto
qed

text \<open>
  The attenuation law at the operations. \<open>delegate\<close> (and \<open>attenuate\<close>, where the holder
  stays) returns a new capability exactly when the caller holds the given one, it is not
  revoked, and the requested authority is a subset; then one slot is added, for the child,
  with the requested authority and the given capability as its parent, and one
  \<open>Delegated\<close> entry is journaled. Otherwise the table is unchanged and the refusal is
  journaled as \<open>Denied\<close>.
\<close>

theorem delegation_law:
  assumes "ring_holds (ring s) h" "length h + 1 < 2 ^ 64"
    and "aman_delegate p k c n s = (res, s')"
  shows "(is_ok res \<longleftrightarrow> (\<exists>slot. lookup (slots s) c p = Ok slot \<and> is_subset_of n (authority slot))) \<and>
    (\<forall>d. res = Ok d \<longrightarrow> d = Capability (length (slots s)) \<and>
       slots s' = slots s @ [\<lparr>authority = n, holder = k, parent = Some (cap_index c), revoked = False\<rparr>] \<and>
       ring_holds (ring s') (h @ [entry_for s (length h) p Delegated (ucast k) (describe n)])) \<and>
    (\<forall>e. res = Err e \<longrightarrow> slots s' = slots s \<and>
       ring_holds (ring s') (h @ [entry_for s (length h) p EvDenied (of_nat (cap_index c)) (describe n)]))"
proof (cases "derive p k c n (slots s)")
  case (Inl e)
  then have "\<not> (\<exists>slot. lookup (slots s) c p = Ok slot \<and> is_subset_of n (authority slot))"
    by (auto simp: derive_def result_simps split: if_splits)
  with Inl assms show ?thesis
    by (auto simp: aman_delegate_def Let_def intro: sijil_record_holds)
next
  case (Inr table)
  then obtain sl where "lookup (slots s) c p = Ok sl" "is_subset_of n (authority sl)"
    and t: "table = slots s @ [\<lparr>authority = n, holder = k, parent = Some (cap_index c), revoked = False\<rparr>]"
    by (auto simp: derive_ok)
  moreover have "entry_for (s\<lparr>slots := table\<rparr>) (length h) p Delegated (ucast k) (describe n) =
      entry_for s (length h) p Delegated (ucast k) (describe n)" by (simp add: entry_for_def)
  moreover have "ring_holds (ring (s\<lparr>slots := table\<rparr>)) h" using assms(1) by simp
  ultimately show ?thesis
    using Inr assms sijil_record_holds [OF _ assms(2), of "s\<lparr>slots := table\<rparr>" p Delegated "ucast k"
        "describe n"]
    by (auto simp: aman_delegate_def Let_def)
qed

theorem delegation_law_witness:
  "let s = snd (mint 1 (Send False) boot_state) in
   fst (aman_delegate 1 2 (Capability 0) (Send True) s) = Ok (Capability 1) \<and>
   \<not> is_ok (fst (aman_delegate 1 2 (Capability 0) (Spend 5) s))"
proof -
  let ?s = "snd (mint 1 (Send False) boot_state)"
  have l: "lookup (slots ?s) (Capability 0) 1 =
      Ok \<lparr>authority = Send False, holder = 1, parent = None, revoked = False\<rparr>"
    by (simp add: state_simps lookup_def boot_state_def)
  obtain h where r: "ring_holds (ring ?s) h" "length h = 1"
  proof (rule that)
    show "ring_holds (ring ?s) [entry_for (boot_state\<lparr>slots := slots boot_state @
        [\<lparr>authority = Send False, holder = 1, parent = None, revoked = False\<rparr>]\<rparr>) 0 1 Granted 0 (lit ''send'')]"
      using sijil_record_holds [of "boot_state\<lparr>slots := slots boot_state @
        [\<lparr>authority = Send False, holder = 1, parent = None, revoked = False\<rparr>]\<rparr>" "[]" 1 Granted 0 "lit ''send''"]
      by (simp add: mint_def Let_def boot_state_def ring_new_holds)
  qed simp
  obtain r1 s1 where d1: "aman_delegate 1 2 (Capability 0) (Send True) ?s = (r1, s1)"
    by (metis surj_pair)
  obtain r2 s2 where d2: "aman_delegate 1 2 (Capability 0) (Spend 5) ?s = (r2, s2)"
    by (metis surj_pair)
  have len: "length h + 1 < 2 ^ 64" using r(2) by simp
  have "length (slots ?s) = 1" by (simp add: state_simps boot_state_def)
  with delegation_law [OF r(1) len d1] delegation_law [OF r(1) len d2] l d1 d2
  show ?thesis by (auto simp: Let_def is_ok_iff)
qed

text \<open>
  The consent law at the broker. \<open>authorize\<close> returns an authority only for a live
  capability of the asking agent, and an irreversible one only with \<open>approved\<close>; then it changes
  nothing. Without it the answer for an irreversible live capability is \<open>NeedsApproval\<close>. No
  call changes the table.
\<close>

theorem consent_law:
  "(\<forall>auth. fst (authorize a c ok s) = Ok auth \<longrightarrow>
      (\<exists>slot. lookup (slots s) c a = Ok slot \<and> auth = authority slot) \<and>
      (authority_risk auth = Irreversible \<longrightarrow> ok) \<and> snd (authorize a c ok s) = s) \<and>
   (\<forall>slot. lookup (slots s) c a = Ok slot \<and> authority_risk (authority slot) = Irreversible \<and> \<not> ok \<longrightarrow>
      fst (authorize a c ok s) = Err NeedsApproval) \<and>
   slots (snd (authorize a c ok s)) = slots s"
  by (auto simp: authorize_result state_simps authorize_unchanged) (simp add: authorize_def)

theorem consent_law_witness:
  "fst (authorize 1 (Capability 0) False (snd (mint 1 (Send False) boot_state))) = Err NeedsApproval \<and>
   fst (authorize 1 (Capability 0) True (snd (mint 1 (Send False) boot_state))) = Ok (Send False)"
proof -
  have l: "lookup (slots (snd (mint 1 (Send False) boot_state))) (Capability 0) 1 =
      Ok \<lparr>authority = Send False, holder = 1, parent = None, revoked = False\<rparr>"
    by (simp add: state_simps lookup_def boot_state_def)
  then have "fst (authorize 1 (Capability 0) False (snd (mint 1 (Send False) boot_state))) =
      Err NeedsApproval"
    using consent_law [of 1 "Capability 0" False "snd (mint 1 (Send False) boot_state)"] by simp
  moreover have "fst (authorize 1 (Capability 0) True (snd (mint 1 (Send False) boot_state))) =
      Ok (Send False)" using l by (simp add: authorize_def)
  ultimately show ?thesis by simp
qed

text \<open>
  Spending authority is narrowed, not carved. Delegating \<open>Spend\<close> leaves the parent's slot
  as it was, so two children can each receive the whole of the parent's amount; only the
  budgets of the gate are carved.
\<close>

theorem spend_not_carved:
  assumes "lookup (slots s) c p = Ok slot" "authority slot = Spend m"
    and "snd (aman_delegate p k1 c (Spend m) s) = s1" "snd (aman_delegate p k2 c (Spend m) s1) = s2"
  shows "slots s2 = slots s @
    [\<lparr>authority = Spend m, holder = k1, parent = Some (cap_index c), revoked = False\<rparr>,
     \<lparr>authority = Spend m, holder = k2, parent = Some (cap_index c), revoked = False\<rparr>] \<and>
    lookup (slots s2) c p = Ok slot"
proof -
  have s1: "slots s1 = slots s @
      [\<lparr>authority = Spend m, holder = k1, parent = Some (cap_index c), revoked = False\<rparr>]"
    using assms(1-3) by (auto simp: state_simps derive_def)
  have l1: "lookup (slots s1) c p = Ok slot"
    using assms(1) by (auto simp: s1 lookup_def nth_append Let_def split: if_splits)
  then have s2: "slots s2 = slots s1 @
      [\<lparr>authority = Spend m, holder = k2, parent = Some (cap_index c), revoked = False\<rparr>]"
    using assms(2,4) by (auto simp: state_simps derive_def)
  have "lookup (slots s2) c p = Ok slot"
    using l1 by (auto simp: s2 lookup_def nth_append Let_def split: if_splits)
  with s1 s2 show ?thesis by simp
qed

theorem spend_not_carved_witness:
  "let s = snd (mint 1 (Spend 100) boot_state);
       s2 = snd (aman_delegate 1 3 (Capability 0) (Spend 100)
              (snd (aman_delegate 1 2 (Capability 0) (Spend 100) s)))
   in map authority (slots s2) = [Spend 100, Spend 100, Spend 100]"
proof -
  let ?s = "snd (mint 1 (Spend 100) boot_state)"
  have "lookup (slots ?s) (Capability 0) 1 =
      Ok \<lparr>authority = Spend 100, holder = 1, parent = None, revoked = False\<rparr>"
    by (simp add: state_simps lookup_def boot_state_def)
  from spend_not_carved [OF this _ refl refl] show ?thesis
    by (simp add: Let_def state_simps boot_state_def)
qed

end
