(* ===== verification/Vec_Lite.thy ===== *)
theory Vec_Lite
  imports Prelude
begin

text \<open>
  \<open>SmallVec\<close> of \<open>nawa/core/src/vec_lite.rs\<close>: a fixed array of optional items and a
  length. The locale \<open>bounded_seq\<close> is the contract its clients use, a list of at most
  \<open>N\<close> items that refuses to grow past it; \<open>small_vec\<close> implements it.
\<close>

record 'a small_vec =
  sv_items :: "'a option list"
  sv_length :: nat

definition sv_new :: "nat \<Rightarrow> 'a small_vec" where
  "sv_new n = \<lparr>sv_items = replicate n None, sv_length = 0\<rparr>"

text \<open>\<open>N\<close> is the length of the array.\<close>

definition sv_push :: "'a small_vec \<Rightarrow> 'a \<Rightarrow> 'a small_vec \<times> bool" where
  "sv_push v item =
     (if sv_length v = length (sv_items v) then (v, False)
      else (v\<lparr>sv_items := (sv_items v)[sv_length v := Some item],
              sv_length := sv_length v + 1\<rparr>, True))"

definition sv_get :: "'a small_vec \<Rightarrow> nat \<Rightarrow> 'a option" where
  "sv_get v index = (if index < sv_length v then sv_items v ! index else None)"

definition sv_len :: "'a small_vec \<Rightarrow> nat" where "sv_len v = sv_length v"

definition sv_is_empty :: "'a small_vec \<Rightarrow> bool" where "sv_is_empty v = (sv_length v = 0)"

definition sv_is_full :: "'a small_vec \<Rightarrow> bool" where
  "sv_is_full v = (sv_length v = length (sv_items v))"

definition sv_iter :: "'a small_vec \<Rightarrow> 'a list" where
  "sv_iter v = List.map_filter (\<lambda>index. sv_items v ! index) [0..<sv_length v]"

section \<open>The contract\<close>

locale bounded_seq =
  fixes N :: nat and valid :: "'v \<Rightarrow> bool" and to_list :: "'v \<Rightarrow> 'a list"
    and empty :: 'v and push :: "'v \<Rightarrow> 'a \<Rightarrow> 'v \<times> bool" and full :: "'v \<Rightarrow> bool"
    and get :: "'v \<Rightarrow> nat \<Rightarrow> 'a option"
  assumes empty_law: "valid empty \<and> to_list empty = []"
    and bound_law: "valid v \<Longrightarrow> length (to_list v) \<le> N"
    and full_law: "valid v \<Longrightarrow> full v \<longleftrightarrow> length (to_list v) = N"
    and push_law: "valid v \<Longrightarrow> push v x = (v', ok) \<Longrightarrow>
      valid v' \<and> ok = (\<not> full v) \<and> to_list v' = (if ok then to_list v @ [x] else to_list v)"
    and get_law: "valid v \<Longrightarrow>
      get v i = (if i < length (to_list v) then Some (to_list v ! i) else None)"
begin

text \<open>Any run of pushes keeps the oldest items, in order, up to the bound.\<close>

lemma pushes:
  assumes "valid v"
  shows "valid (foldl (\<lambda>v x. fst (push v x)) v xs)"
    and "to_list (foldl (\<lambda>v x. fst (push v x)) v xs) = take N (to_list v @ xs)"
proof -
  have "valid (foldl (\<lambda>v x. fst (push v x)) v xs) \<and>
      to_list (foldl (\<lambda>v x. fst (push v x)) v xs) = take N (to_list v @ xs)"
    using assms
  proof (induction xs arbitrary: v)
    case Nil
    then show ?case using bound_law [of v] by simp
  next
    case (Cons x xs)
    obtain v' ok where p: "push v x = (v', ok)" by (metis surj_pair)
    note pl = push_law [OF Cons.prems p]
    have "take N (to_list v' @ xs) = take N (to_list v @ x # xs)"
    proof (cases ok)
      case True
      with pl show ?thesis by simp
    next
      case False
      with pl full_law [OF Cons.prems] show ?thesis by simp
    qed
    with Cons.IH [of v'] pl p show ?case by simp
  qed
  then show "valid (foldl (\<lambda>v x. fst (push v x)) v xs)"
    "to_list (foldl (\<lambda>v x. fst (push v x)) v xs) = take N (to_list v @ xs)" by auto
qed

lemma push_refused: "valid v \<Longrightarrow> full v \<Longrightarrow> \<not> snd (push v x)"
  using push_law [of v x] by (cases "push v x") auto

lemma push_room: "valid v \<Longrightarrow> \<not> full v \<Longrightarrow>
    snd (push v x) \<and> to_list (fst (push v x)) = to_list v @ [x] \<and> valid (fst (push v x))"
  using push_law [of v x] by (cases "push v x") auto

end

section \<open>The implementation\<close>

definition sv_valid :: "nat \<Rightarrow> 'a small_vec \<Rightarrow> bool" where
  "sv_valid n v \<longleftrightarrow> length (sv_items v) = n \<and> sv_length v \<le> n \<and>
     (\<forall>i < sv_length v. sv_items v ! i \<noteq> None)"

lemma sv_iter_eq: "sv_valid n v \<Longrightarrow> sv_iter v = map (\<lambda>i. the (sv_items v ! i)) [0..<sv_length v]"
  unfolding sv_iter_def by (rule map_filter_all_Some) (auto simp: sv_valid_def)

lemma length_sv_iter [simp]: "sv_valid n v \<Longrightarrow> length (sv_iter v) = sv_length v"
  by (simp add: sv_iter_eq)

lemma sv_new_valid [simp]: "sv_valid n (sv_new n)" "sv_iter (sv_new n) = []"
  by (simp_all add: sv_valid_def sv_new_def sv_iter_def List.map_filter_simps)

lemma sv_push_valid:
  assumes "sv_valid n v" "sv_push v x = (v', ok)"
  shows "sv_valid n v'" "ok \<longleftrightarrow> \<not> sv_is_full v"
    and "sv_iter v' = (if ok then sv_iter v @ [x] else sv_iter v)"
proof -
  show v': "sv_valid n v'" and "ok \<longleftrightarrow> \<not> sv_is_full v"
    using assms
    by (auto simp: sv_push_def sv_valid_def sv_is_full_def nth_list_update less_Suc_eq split: if_splits)
  show "sv_iter v' = (if ok then sv_iter v @ [x] else sv_iter v)"
    using assms(2)
    by (auto simp: sv_push_def sv_iter_eq [OF assms(1)] sv_iter_eq [OF v'] split: if_splits)
      (use assms(1) in \<open>auto simp: sv_valid_def\<close>)
qed

interpretation small_vec: bounded_seq n "sv_valid n" sv_iter "sv_new n" sv_push sv_is_full sv_get for n
proof unfold_locales
  show "sv_valid n (sv_new n) \<and> sv_iter (sv_new n :: 'a small_vec) = []"
    by simp
next
  fix v :: "'a small_vec" assume v: "sv_valid n v"
  then have "sv_length v \<le> n" by (simp add: sv_valid_def)
  with v show "length (sv_iter v) \<le> n" by simp
  from v have "length (sv_items v) = n" by (simp add: sv_valid_def)
  with v show "sv_is_full v \<longleftrightarrow> length (sv_iter v) = n" by (simp add: sv_is_full_def)
next
  fix v :: "'a small_vec" and x v' ok assume v: "sv_valid n v" and p: "sv_push v x = (v', ok)"
  show "sv_valid n v' \<and> ok = (\<not> sv_is_full v) \<and>
      sv_iter v' = (if ok then sv_iter v @ [x] else sv_iter v)"
    using sv_push_valid [OF v p] by simp
next
  fix v :: "'a small_vec" and i assume v: "sv_valid n v"
  then show "sv_get v i = (if i < length (sv_iter v) then Some (sv_iter v ! i) else None)"
    by (auto simp: sv_get_def sv_iter_eq sv_valid_def)
qed

lemma sv_len_iter: "sv_valid n v \<Longrightarrow> sv_len v = length (sv_iter v)"
  by (simp add: sv_len_def)

lemma sv_is_empty_iter: "sv_valid n v \<Longrightarrow> sv_is_empty v \<longleftrightarrow> sv_iter v = []"
  by (simp add: sv_is_empty_def sv_iter_eq)

end
