(* ===== verification/Acb.thy ===== *)
theory Acb
  imports Aman Vec_Lite
begin

text \<open>
  \<open>nawa/gate/src/acb.rs\<close>: the agent control block. An agent is a goal, a lineage, a set of
  capabilities and a budget in money and wall time. The step function of an agent, a Rust
  function pointer, is a value of a type \<open>'p\<close>; what running it does is a parameter of the
  supervisor's loop (theory \<open>Gate\<close>) that theory \<open>Agents\<close> instantiates with the kernel's own
  step functions. The lemmas on \<open>carve\<close> carry the budget law of theory \<open>Gate\<close>.
\<close>

type_synonym agent_id = u32

datatype astate = Runnable | AwaitingConsent | Suspended | Finished | Killed

record budget =
  micro_dollars :: u64
  spent_micro_dollars :: u64
  wall_microseconds :: u64
  used_microseconds :: u64

definition budget_new :: "u64 \<Rightarrow> u64 \<Rightarrow> budget" where
  "budget_new micro wall = \<lparr>micro_dollars = micro, spent_micro_dollars = 0,
                            wall_microseconds = wall, used_microseconds = 0\<rparr>"

definition remaining_micro_dollars :: "budget \<Rightarrow> u64" where
  "remaining_micro_dollars b = saturating_sub (micro_dollars b) (spent_micro_dollars b)"

definition exhausted :: "budget \<Rightarrow> bool" where
  "exhausted b \<longleftrightarrow> remaining_micro_dollars b = 0 \<or>
     (wall_microseconds b \<noteq> 0 \<and> used_microseconds b \<ge> wall_microseconds b)"

text \<open>\<open>carve\<close> returns the parent's budget afterwards and the child's.\<close>

definition carve :: "budget \<Rightarrow> u64 \<Rightarrow> u64 \<Rightarrow> (budget \<times> budget) option" where
  "carve b micro wall =
     (if micro > remaining_micro_dollars b then None
      else
        let remaining_wall = saturating_sub (wall_microseconds b) (used_microseconds b)
        in if wall_microseconds b \<noteq> 0 \<and> (wall = 0 \<or> wall > remaining_wall) then None
           else
             let b1 = (if wall_microseconds b \<noteq> 0
                       then b\<lparr>used_microseconds := used_microseconds b + wall\<rparr> else b);
                 b2 = b1\<lparr>spent_micro_dollars := spent_micro_dollars b1 + micro\<rparr>
             in Some (b2, budget_new micro wall))"

definition MAX_CAPABILITIES :: nat where "MAX_CAPABILITIES = 8"

record 'p agent =
  a_id :: agent_id
  goal :: label
  a_parent :: agent_id
  a_state :: astate
  a_budget :: budget
  deadline :: u64
  capabilities :: "capability small_vec"
  crossings :: u64
  awaiting :: "u64 option"
  step_fn :: 'p
  cursor :: u32

datatype progress = Continue | AwaitConsent | Done | Failed

record agent_context =
  x_id :: agent_id
  x_goal :: label
  x_capabilities :: "capability small_vec"
  x_budget :: budget
  x_cursor :: u32

section \<open>The arithmetic of budgets\<close>

abbreviation micro_nat :: "budget \<Rightarrow> nat" where "micro_nat b \<equiv> unat (micro_dollars b)"
abbreviation spent_nat :: "budget \<Rightarrow> nat" where "spent_nat b \<equiv> unat (spent_micro_dollars b)"

lemma unat_remaining: "unat (remaining_micro_dollars b) = micro_nat b - spent_nat b"
  by (simp add: remaining_micro_dollars_def)

text \<open>Paying no more than what remains neither wraps nor overspends.\<close>

lemma pay_in_budget:
  assumes "amount \<le> remaining_micro_dollars b"
  shows "unat (spent_micro_dollars b + amount) = spent_nat b + unat amount"
    and "0 < unat amount \<Longrightarrow> spent_nat b + unat amount \<le> micro_nat b"
proof -
  have a: "unat amount \<le> micro_nat b - spent_nat b"
    using assms by (simp add: word_le_nat_alt unat_remaining)
  have "unat (micro_dollars b) < 2 ^ LENGTH(64)" "unat (spent_micro_dollars b) < 2 ^ LENGTH(64)"
    by (rule unsigned_less)+
  with a have "spent_nat b + unat amount < 2 ^ LENGTH(64)" by linarith
  then show "unat (spent_micro_dollars b + amount) = spent_nat b + unat amount"
    by (rule unat_add_small)
  show "0 < unat amount \<Longrightarrow> spent_nat b + unat amount \<le> micro_nat b" using a by linarith
qed

lemma carve_Some:
  assumes "carve b micro wall = Some (b', child)"
  shows "child = budget_new micro wall"
    and "micro_dollars b' = micro_dollars b" "wall_microseconds b' = wall_microseconds b"
    and "spent_nat b' = spent_nat b + unat micro"
    and "spent_nat b' \<le> max (micro_nat b) (spent_nat b)"
    and "wall_microseconds b \<noteq> 0 \<Longrightarrow> 0 < wall \<and>
      unat (used_microseconds b') = unat (used_microseconds b) + unat wall \<and>
      unat (used_microseconds b') \<le> unat (wall_microseconds b)"
proof -
  have m: "micro \<le> remaining_micro_dollars b"
    using assms by (auto simp: carve_def Let_def split: if_splits)
  have b': "spent_micro_dollars b' = spent_micro_dollars b + micro"
    "child = budget_new micro wall" "micro_dollars b' = micro_dollars b"
    "wall_microseconds b' = wall_microseconds b"
    using assms by (auto simp: carve_def Let_def split: if_splits)
  then show "child = budget_new micro wall" "micro_dollars b' = micro_dollars b"
    "wall_microseconds b' = wall_microseconds b" by auto
  note p = pay_in_budget [OF m]
  show s: "spent_nat b' = spent_nat b + unat micro" using b' p(1) by simp
  show "spent_nat b' \<le> max (micro_nat b) (spent_nat b)"
    using s p(2) by (cases "unat micro = 0") auto
  assume w: "wall_microseconds b \<noteq> 0"
  then have wl: "0 < wall" "wall \<le> saturating_sub (wall_microseconds b) (used_microseconds b)"
    and u: "used_microseconds b' = used_microseconds b + wall"
    using assms by (auto simp: carve_def Let_def word_gt_0 split: if_splits)
  from wl have n: "0 < unat wall" "unat wall \<le> unat (wall_microseconds b) - unat (used_microseconds b)"
    by (simp_all add: word_le_nat_alt word_less_nat_alt)
  have "unat (wall_microseconds b) < 2 ^ LENGTH(64)" by (rule unsigned_less)
  with n have "unat (used_microseconds b) + unat wall < 2 ^ LENGTH(64)" by linarith
  then have "unat (used_microseconds b') = unat (used_microseconds b) + unat wall"
    using u unat_add_small by metis
  with wl(1) n show "0 < wall \<and>
      unat (used_microseconds b') = unat (used_microseconds b) + unat wall \<and>
      unat (used_microseconds b') \<le> unat (wall_microseconds b)" by linarith
qed

lemma carve_None:
  "carve b micro wall = None \<longleftrightarrow> micro_nat b - spent_nat b < unat micro \<or>
    (wall_microseconds b \<noteq> 0 \<and>
     (wall = 0 \<or> unat (wall_microseconds b) - unat (used_microseconds b) < unat wall))"
  by (auto simp: carve_def Let_def word_less_nat_alt unat_remaining)

lemma exhausted_iff:
  "exhausted b \<longleftrightarrow> micro_nat b \<le> spent_nat b \<or>
    (wall_microseconds b \<noteq> 0 \<and> unat (wall_microseconds b) \<le> unat (used_microseconds b))"
proof -
  have "remaining_micro_dollars b = 0 \<longleftrightarrow> unat (remaining_micro_dollars b) = 0"
    by (simp add: unat_eq_zero)
  then show ?thesis by (auto simp: exhausted_def word_le_nat_alt unat_remaining)
qed

section \<open>Properties\<close>

text \<open>
  A child is never funded on credit. \<open>carve\<close> succeeds exactly when what remains of the
  parent's money covers the child's, and, for a parent with a wall limit, the child asks for a
  limit too and it fits into the time that remains; then the child starts with exactly the
  asked amounts, the parent's money spent and (if limited) time used grow by exactly those
  amounts without wrapping, and neither passes the parent's limit.
\<close>

theorem carve_conserves:
  "(carve b micro wall = None \<longleftrightarrow> unat (micro_dollars b) - unat (spent_micro_dollars b) < unat micro \<or>
      (wall_microseconds b \<noteq> 0 \<and>
       (wall = 0 \<or> unat (wall_microseconds b) - unat (used_microseconds b) < unat wall))) \<and>
   (\<forall>b' child. carve b micro wall = Some (b', child) \<longrightarrow>
      child = budget_new micro wall \<and>
      micro_dollars b' = micro_dollars b \<and> wall_microseconds b' = wall_microseconds b \<and>
      unat (spent_micro_dollars b') = unat (spent_micro_dollars b) + unat (micro_dollars child) \<and>
      (spent_micro_dollars b \<le> micro_dollars b \<longrightarrow> spent_micro_dollars b' \<le> micro_dollars b) \<and>
      (wall_microseconds b \<noteq> 0 \<longrightarrow> 0 < wall_microseconds child \<and>
        unat (used_microseconds b') = unat (used_microseconds b) + unat (wall_microseconds child) \<and>
        used_microseconds b' \<le> wall_microseconds b))"
proof (intro conjI allI impI)
  show "carve b micro wall = None \<longleftrightarrow> unat (micro_dollars b) - unat (spent_micro_dollars b) < unat micro \<or>
      (wall_microseconds b \<noteq> 0 \<and>
       (wall = 0 \<or> unat (wall_microseconds b) - unat (used_microseconds b) < unat wall))"
    by (rule carve_None)
next
  fix b' child assume c: "carve b micro wall = Some (b', child)"
  note s = carve_Some [OF c]
  show "child = budget_new micro wall" "micro_dollars b' = micro_dollars b"
    "wall_microseconds b' = wall_microseconds b" by (rule s)+
  show "unat (spent_micro_dollars b') = unat (spent_micro_dollars b) + unat (micro_dollars child)"
    using s(1,4) by (simp add: budget_new_def)
  show "spent_micro_dollars b' \<le> micro_dollars b" if "spent_micro_dollars b \<le> micro_dollars b"
    using s(5) that by (simp add: word_le_nat_alt max_def)
  assume w: "wall_microseconds b \<noteq> 0"
  show "0 < wall_microseconds child"
    "unat (used_microseconds b') = unat (used_microseconds b) + unat (wall_microseconds child)"
    "used_microseconds b' \<le> wall_microseconds b"
    using s(1) s(6) [OF w] by (simp_all add: budget_new_def word_le_nat_alt)
qed

theorem carve_conserves_witness:
  "carve (budget_new 1000 500) 400 200 = Some (\<lparr>micro_dollars = 1000, spent_micro_dollars = 400,
      wall_microseconds = 500, used_microseconds = 200\<rparr>, budget_new 400 200) \<and>
   carve (budget_new 1000 500) 400 0 = None"
  using carve_conserves [of "budget_new 1000 500" 400 0]
  by (simp add: carve_def budget_new_def remaining_micro_dollars_def saturating_sub_def Let_def)

end
