(* ===== verification/Gate.thy ===== *)
theory Gate
  imports Acb
begin

text \<open>
  \<open>nawa/gate/src/lib.rs\<close>: the AmanGate, the one door between an agent and the world, and the
  supervisor behind it. The supervisor's vectors are fields of the state (after \<open>init\<close>), an
  agent is found by its id with the first match, and every operation is translated with its
  journal entries in their order. \<open>pay\<close> is the closure that charges a budget, which the code
  has twice, in \<open>invoke\<close> and in \<open>spend\<close>. In the loop \<open>run_until_idle\<close>, what an agent's step
  function does, which is calls back into the gate, is the parameter \<open>run_step\<close>.
\<close>

record approval_request =
  q_id :: u64
  q_agent :: agent_id
  q_capability :: capability
  q_what :: label
  q_note :: label
  q_answered :: "bool option"
  q_consumed :: bool

record 'p gate_state = aman_state +
  agents :: "'p agent list"
  approvals :: "approval_request list"
  next_agent_id :: agent_id
  next_approval_id :: u64
  ticks :: u64

definition MAX_PENDING_APPROVALS :: nat where "MAX_PENDING_APPROVALS = 4"

definition gate_init :: "'p gate_state \<Rightarrow> 'p gate_state" where
  "gate_init s = (init_table s)\<lparr>agents := [], approvals := [], next_agent_id := 1,
                                next_approval_id := 1\<rparr>"

definition on_tick :: "'p gate_state \<Rightarrow> 'p gate_state" where
  "on_tick s = s\<lparr>ticks := ticks s + 1\<rparr>"

text \<open>\<open>iter().find\<close> and \<open>iter_mut().find\<close>: the first element that satisfies the test.\<close>

fun update_first :: "('a \<Rightarrow> bool) \<Rightarrow> ('a \<Rightarrow> 'a) \<Rightarrow> 'a list \<Rightarrow> 'a list" where
  "update_first P f [] = []"
| "update_first P f (x # xs) = (if P x then f x # xs else x # update_first P f xs)"

definition find_agent :: "'p gate_state \<Rightarrow> agent_id \<Rightarrow> 'p agent option" where
  "find_agent s agent = List.find (\<lambda>candidate. a_id candidate = agent) (agents s)"

definition update_agent :: "agent_id \<Rightarrow> ('p agent \<Rightarrow> 'p agent) \<Rightarrow> 'p gate_state \<Rightarrow> 'p gate_state" where
  "update_agent agent f s = s\<lparr>agents := update_first (\<lambda>candidate. a_id candidate = agent) f (agents s)\<rparr>"

definition spawn ::
  "str \<Rightarrow> agent_id \<Rightarrow> budget \<Rightarrow> u64 \<Rightarrow> 'p \<Rightarrow> 'p gate_state \<Rightarrow> agent_id \<times> 'p gate_state" where
  "spawn text_goal parent_id b deadline_us fn s =
     (let new_id = next_agent_id s;
          s = s\<lparr>next_agent_id := next_agent_id s + 1\<rparr>;
          (now, s) = now_microseconds s;
          a = \<lparr>a_id = new_id, goal = label_new text_goal, a_parent = parent_id, a_state = Runnable,
               a_budget = b, deadline = now + deadline_us, capabilities = sv_new MAX_CAPABILITIES,
               crossings = 0, awaiting = None, step_fn = fn, cursor = 0\<rparr>;
          s = s\<lparr>agents := agents s @ [a]\<rparr>
      in (new_id, sijil_record new_id Spawned (ucast parent_id) text_goal s))"

definition store_capability :: "agent_id \<Rightarrow> capability \<Rightarrow> 'p gate_state \<Rightarrow> 'p gate_state \<times> bool" where
  "store_capability agent capability s =
     (update_agent agent (\<lambda>a. a\<lparr>capabilities := fst (sv_push (capabilities a) capability)\<rparr>) s,
      case find_agent s agent of
        Some found \<Rightarrow> snd (sv_push (capabilities found) capability)
      | None \<Rightarrow> False)"

definition grant :: "agent_id \<Rightarrow> authority \<Rightarrow> 'p gate_state \<Rightarrow> capability option \<times> 'p gate_state" where
  "grant agent auth s =
     (let (capability, s) = mint agent auth s;
          (s, stored) = store_capability agent capability s
      in (if stored then Some capability else None, s))"

definition gate_delegate ::
  "agent_id \<Rightarrow> str \<Rightarrow> capability \<Rightarrow> authority \<Rightarrow> u64 \<Rightarrow> u64 \<Rightarrow> 'p \<Rightarrow> 'p gate_state \<Rightarrow>
   (denied + agent_id) \<times> 'p gate_state" where
  "gate_delegate parent_id text_goal capability narrower micro wall fn s =
     (case can_delegate parent_id capability narrower s of
        (Inl denied, s) \<Rightarrow> (Err denied, s)
      | (Inr _, s) \<Rightarrow>
          (let carved = Option.bind (find_agent s parent_id) (\<lambda>found. carve (a_budget found) micro wall)
           in case carved of
                None \<Rightarrow> (Err BudgetExhausted, sijil_record parent_id EvDenied 0 (lit ''denied:budget'') s)
              | Some (parent_budget, child_budget) \<Rightarrow>
                  (let s = update_agent parent_id (\<lambda>a. a\<lparr>a_budget := parent_budget\<rparr>) s;
                       (child, s) = spawn text_goal parent_id child_budget (max wall 1000) fn s
                   in case aman_delegate parent_id child capability narrower s of
                        (Inl denied, s) \<Rightarrow> (Err denied, s)
                      | (Inr derived, s) \<Rightarrow> (Ok child, fst (store_capability child derived s)))))"

definition gate_attenuate ::
  "agent_id \<Rightarrow> capability \<Rightarrow> authority \<Rightarrow> 'p gate_state \<Rightarrow> (denied + capability) \<times> 'p gate_state" where
  "gate_attenuate agent capability narrower s =
     (case aman_attenuate agent capability narrower s of
        (Inl denied, s) \<Rightarrow> (Err denied, s)
      | (Inr derived, s) \<Rightarrow> (Ok derived, fst (store_capability agent derived s)))"

fun price_of :: "authority \<Rightarrow> u64" where
  "price_of (Fs _ w) = (if w then 40 else 10)"
| "price_of (Memory _ w) = (if w then 40 else 10)"
| "price_of (Model Fast) = 50"
| "price_of (Model Private) = 80"
| "price_of (Model Arabic) = 150"
| "price_of (Model Frontier) = 300"
| "price_of (Send draft_only) = (if draft_only then 20 else 200)"
| "price_of (Spend _) = 0"

text \<open>Is there a live, matching, unused approval for exactly this?\<close>

definition approval_matches :: "u64 \<Rightarrow> agent_id \<Rightarrow> capability \<Rightarrow> approval_request \<Rightarrow> bool" where
  "approval_matches request agent capability q \<longleftrightarrow> q_id q = request \<and> q_agent q = agent \<and>
     q_capability q = capability \<and> q_answered q = Some True \<and> \<not> q_consumed q"

definition has_approval :: "agent_id \<Rightarrow> capability \<Rightarrow> 'p gate_state \<Rightarrow> bool" where
  "has_approval agent capability s =
     (case find_agent s agent of
        None \<Rightarrow> False
      | Some found \<Rightarrow>
          (case awaiting found of
             None \<Rightarrow> False
           | Some request \<Rightarrow> list_ex (approval_matches request agent capability) (approvals s)))"

definition burn :: "agent_id \<Rightarrow> 'p agent \<Rightarrow> 'p gate_state \<Rightarrow> 'p gate_state" where
  "burn agent found s =
     (case awaiting found of
        None \<Rightarrow> s
      | Some request \<Rightarrow>
          (update_agent agent (\<lambda>a. a\<lparr>awaiting := None\<rparr>) s)\<lparr>approvals :=
             update_first (\<lambda>q. q_id q = request) (\<lambda>q. q\<lparr>q_consumed := True\<rparr>) (approvals s)\<rparr>)"

definition pay :: "agent_id \<Rightarrow> u64 \<Rightarrow> bool \<Rightarrow> 'p gate_state \<Rightarrow> bool \<times> 'p gate_state" where
  "pay agent cost burns s =
     (case find_agent s agent of
        None \<Rightarrow> (False, s)
      | Some found \<Rightarrow>
          (let s = update_agent agent (\<lambda>a. a\<lparr>crossings := crossings a + 1\<rparr>) s in
           if remaining_micro_dollars (a_budget found) < cost
           then (False, update_agent agent (\<lambda>a. a\<lparr>a_state := Suspended\<rparr>) s)
           else
             (let s = update_agent agent (\<lambda>a. a\<lparr>a_budget := (a_budget a)\<lparr>spent_micro_dollars :=
                        spent_micro_dollars (a_budget a) + cost\<rparr>\<rparr>) s
              in (True, if burns then burn agent found s else s))))"

definition invoke ::
  "agent_id \<Rightarrow> capability \<Rightarrow> 'p gate_state \<Rightarrow> (denied + authority) \<times> 'p gate_state" where
  "invoke agent capability s =
     (let approved = has_approval agent capability s in
      case authorize agent capability approved s of
        (Inl denied, s) \<Rightarrow> (Err denied, s)
      | (Inr auth, s) \<Rightarrow>
          (let cost = price_of auth;
               (charged, s) = pay agent cost (authority_risk auth = Irreversible) s
           in if \<not> charged
              then (Err BudgetExhausted, sijil_record agent EvBudgetExhausted cost (lit ''suspended'') s)
              else (Ok auth, sijil_record agent Invoked (of_nat (cap_index capability)) (describe auth) s)))"

definition spend ::
  "agent_id \<Rightarrow> capability \<Rightarrow> u64 \<Rightarrow> 'p gate_state \<Rightarrow> (denied + unit) \<times> 'p gate_state" where
  "spend agent capability amount s =
     (let approved = has_approval agent capability s in
      case authorize agent capability approved s of
        (Inl denied, s) \<Rightarrow> (Err denied, s)
      | (Inr auth, s) \<Rightarrow>
          (case auth of
             Spend ceiling \<Rightarrow>
               if amount > ceiling
               then (Err NotASubset, sijil_record agent EvDenied amount (lit ''denied:over-ceiling'') s)
               else
                 (let (charged, s) = pay agent amount True s
                  in if \<not> charged
                     then (Err BudgetExhausted, sijil_record agent EvBudgetExhausted amount (lit ''suspended'') s)
                     else (Ok (), sijil_record agent Invoked (of_nat (cap_index capability)) (lit ''spend'') s))
           | _ \<Rightarrow> (Err NotASubset, s)))"

definition request_approval ::
  "agent_id \<Rightarrow> capability \<Rightarrow> str \<Rightarrow> 'p gate_state \<Rightarrow> (denied + u64) \<times> 'p gate_state" where
  "request_approval agent capability note_text s =
     (case authority_of agent capability (slots s) of
        Inl denied \<Rightarrow> (Err denied, s)
      | Inr auth \<Rightarrow>
          (let what = describe auth;
               (rid, s) =
                 (case List.find (\<lambda>q. q_agent q = agent \<and> q_capability q = capability \<and>
                                      q_answered q = None) (approvals s) of
                    Some existing \<Rightarrow> (Some (q_id existing), s)
                  | None \<Rightarrow>
                      (let pending = length (filter (\<lambda>q. q_agent q = agent \<and> q_answered q = None) (approvals s))
                       in if pending \<ge> MAX_PENDING_APPROVALS then (None, s)
                          else
                            (let rid = next_approval_id s;
                                 q = \<lparr>q_id = rid, q_agent = agent, q_capability = capability,
                                      q_what = label_new what, q_note = label_new note_text,
                                      q_answered = None, q_consumed = False\<rparr>;
                                 s = s\<lparr>next_approval_id := next_approval_id s + 1,
                                       approvals := approvals s @ [q]\<rparr>
                             in (Some rid, update_agent agent (\<lambda>a. a\<lparr>awaiting := Some rid\<rparr>) s))))
           in case rid of
                None \<Rightarrow> (Err NotASubset,
                  sijil_record agent EvDenied (of_nat (cap_index capability)) (lit ''denied:approval-flood'') s)
              | Some rid \<Rightarrow> (Ok rid,
                  sijil_record agent ApprovalRequested (of_nat (cap_index capability)) what s)))"

definition answer_approval :: "u64 \<Rightarrow> bool \<Rightarrow> 'p gate_state \<Rightarrow> 'p gate_state" where
  "answer_approval request approved s =
     (case List.find (\<lambda>q. q_id q = request) (approvals s) of
        None \<Rightarrow> s
      | Some found \<Rightarrow>
          if q_answered found \<noteq> None then s
          else
            (let s = s\<lparr>approvals := update_first (\<lambda>q. q_id q = request)
                         (\<lambda>q. q\<lparr>q_answered := Some approved\<rparr>) (approvals s)\<rparr>;
                 agent = q_agent found;
                 capability = q_capability found;
                 s = (case find_agent s agent of
                        None \<Rightarrow> s
                      | Some waiting \<Rightarrow>
                          if awaiting waiting = Some request then
                            (if approved then
                               (let (now, s) = now_microseconds s
                                in update_agent agent (\<lambda>a. a\<lparr>a_state := Runnable, deadline := now\<rparr>) s)
                             else update_agent agent (\<lambda>a. a\<lparr>awaiting := None, a_state := Killed\<rparr>) s)
                          else s)
             in sijil_record agent (if approved then Approved else Rejected)
                  (of_nat (cap_index capability))
                  (if approved then lit ''human approved'' else lit ''human rejected'') s))"

definition journal_for :: "agent_id \<Rightarrow> 'p gate_state \<Rightarrow> jentry list" where
  "journal_for agent s = for_agent agent (ring s)"

definition remember ::
  "agent_id \<Rightarrow> capability \<Rightarrow> str \<Rightarrow> 'p gate_state \<Rightarrow> (denied + authority) \<times> 'p gate_state" where
  "remember agent capability namespace s =
     (case invoke agent capability s of
        (Inl denied, s) \<Rightarrow> (Err denied, s)
      | (Inr auth, s) \<Rightarrow> (Ok auth, sijil_record agent Remembered 0 namespace s))"

definition charge :: "agent_id \<Rightarrow> u64 \<Rightarrow> 'p gate_state \<Rightarrow> 'p gate_state" where
  "charge agent amount s =
     (case find_agent s agent of
        None \<Rightarrow> s
      | Some found \<Rightarrow>
          (let b = (a_budget found)\<lparr>spent_micro_dollars :=
                     saturating_add (spent_micro_dollars (a_budget found)) amount\<rparr>;
               s = update_agent agent (\<lambda>a. a\<lparr>a_budget := b\<rparr>) s
           in if exhausted b
              then sijil_record agent EvBudgetExhausted amount (lit ''suspended after charge'')
                     (update_agent agent (\<lambda>a. a\<lparr>a_state := Suspended\<rparr>) s)
              else s))"

section \<open>The supervisor's loop\<close>

text \<open>\<open>min_by_key\<close> returns the first of the minima.\<close>

fun min_by_key :: "('a \<Rightarrow> u64) \<Rightarrow> 'a list \<Rightarrow> 'a option" where
  "min_by_key key [] = None"
| "min_by_key key (x # xs) =
     (case min_by_key key xs of
        None \<Rightarrow> Some x
      | Some y \<Rightarrow> if key y < key x then Some y else Some x)"

definition next_runnable :: "'p gate_state \<Rightarrow> agent_id option" where
  "next_runnable s = map_option a_id (min_by_key deadline
     (filter (\<lambda>a. a_state a = Runnable \<and> \<not> exhausted (a_budget a)) (agents s)))"

text \<open>
  What happens once a step has returned: the result is whether the agent is suspended, and
  whether its budget suspended it here.
\<close>

definition finish_step ::
  "agent_id \<Rightarrow> u32 \<Rightarrow> u64 \<Rightarrow> progress \<Rightarrow> 'p gate_state \<Rightarrow> bool \<times> bool \<times> 'p gate_state" where
  "finish_step agent new_cursor elapsed progress s =
     (case find_agent s agent of
        None \<Rightarrow> (False, False, s)
      | Some found \<Rightarrow>
          (let b = (a_budget found)\<lparr>used_microseconds := used_microseconds (a_budget found) + elapsed\<rparr>;
               s = update_agent agent (\<lambda>a. a\<lparr>cursor := new_cursor, a_budget := b\<rparr>) s
           in if a_state found = Suspended then (True, False, s)
              else case progress of
                     Continue \<Rightarrow>
                       if exhausted b
                       then (True, True, update_agent agent (\<lambda>a. a\<lparr>a_state := Suspended\<rparr>) s)
                       else (let (now, s) = now_microseconds s
                             in (False, False, update_agent agent (\<lambda>a. a\<lparr>deadline := now + 1\<rparr>) s))
                   | AwaitConsent \<Rightarrow>
                       (False, False, update_agent agent (\<lambda>a. a\<lparr>a_state := AwaitingConsent\<rparr>) s)
                   | Done \<Rightarrow> (False, False, update_agent agent (\<lambda>a. a\<lparr>a_state := Finished\<rparr>) s)
                   | Failed \<Rightarrow> (False, False, update_agent agent (\<lambda>a. a\<lparr>a_state := Killed\<rparr>) s)))"

type_synonym 'p step_code = "'p \<Rightarrow> agent_context \<Rightarrow> 'p gate_state \<Rightarrow> progress \<times> u32 \<times> 'p gate_state"

definition run_one :: "'p step_code \<Rightarrow> agent_id \<Rightarrow> 'p gate_state \<Rightarrow> u64 \<times> 'p gate_state" where
  "run_one run_step agent s =
     (case find_agent s agent of
        None \<Rightarrow> (0, s)
      | Some found \<Rightarrow>
          (let (started, s) = now_microseconds s;
               ctx = \<lparr>x_id = agent, x_goal = goal found, x_capabilities = capabilities found,
                      x_budget = a_budget found, x_cursor = cursor found\<rparr>;
               (progress, new_cursor, s) = run_step (step_fn found) ctx s;
               (ended, s) = now_microseconds s;
               elapsed = saturating_sub ended started;
               (suspended, by_budget, s) = finish_step agent new_cursor elapsed progress s
           in if suspended
              then (0, if by_budget
                       then sijil_record agent EvBudgetExhausted 0 (lit ''suspended at step end'') s else s)
              else case progress of
                     Done \<Rightarrow> (1, sijil_record agent EvFinished 0 (lit ''ok'') s)
                   | Failed \<Rightarrow> (1, sijil_record agent EvFinished 1 (lit ''failed'') s)
                   | _ \<Rightarrow> (0, s)))"

fun run_loop :: "'p step_code \<Rightarrow> nat \<Rightarrow> u64 \<Rightarrow> 'p gate_state \<Rightarrow> u64 \<times> 'p gate_state" where
  "run_loop run_step 0 completed s = (completed, s)"
| "run_loop run_step (Suc n) completed s =
     (case next_runnable s of
        None \<Rightarrow> (completed, s)
      | Some agent \<Rightarrow>
          (let (k, s) = run_one run_step agent s in run_loop run_step n (completed + k) s))"

definition run_until_idle :: "'p step_code \<Rightarrow> u64 \<Rightarrow> 'p gate_state \<Rightarrow> u64 \<times> 'p gate_state" where
  "run_until_idle run_step max_steps s = run_loop run_step (unat max_steps) 0 s"

section \<open>Reading the supervisor\<close>

record agent_summary =
  u_id :: agent_id
  u_parent :: agent_id
  u_goal :: label
  u_state :: astate
  u_crossings :: u64
  u_spent_micro_dollars :: u64
  u_budget_micro_dollars :: u64
  u_capabilities :: nat

definition summaries :: "'p gate_state \<Rightarrow> agent_summary list" where
  "summaries s = map (\<lambda>a. \<lparr>u_id = a_id a, u_parent = a_parent a, u_goal = goal a, u_state = a_state a,
     u_crossings = crossings a, u_spent_micro_dollars = spent_micro_dollars (a_budget a),
     u_budget_micro_dollars = micro_dollars (a_budget a),
     u_capabilities = sv_len (capabilities a)\<rparr>) (agents s)"

definition pending_approvals :: "'p gate_state \<Rightarrow> approval_request list" where
  "pending_approvals s = filter (\<lambda>q. q_answered q = None) (approvals s)"

definition capability_of :: "'p gate_state \<Rightarrow> agent_id \<Rightarrow> nat \<Rightarrow> capability option" where
  "capability_of s agent index =
     Option.bind (find_agent s agent) (\<lambda>found. sv_get (capabilities found) index)"

definition ticks_observed :: "'p gate_state \<Rightarrow> u64" where
  "ticks_observed s = ticks s"

section \<open>Looking agents up\<close>

text \<open>Agent \<open>i + 1\<close> is the \<open>i\<close>-th of the vector; approvals likewise.\<close>

definition ids_ok :: "'p gate_state \<Rightarrow> bool" where
  "ids_ok s \<longleftrightarrow> length (agents s) < 2 ^ 32 - 1 \<and> next_agent_id s = of_nat (length (agents s) + 1) \<and>
     (\<forall>i < length (agents s). a_id (agents s ! i) = of_nat (i + 1))"

definition approvals_ok :: "'p gate_state \<Rightarrow> bool" where
  "approvals_ok s \<longleftrightarrow> length (approvals s) < 2 ^ 64 - 1 \<and>
     next_approval_id s = of_nat (length (approvals s) + 1) \<and>
     (\<forall>i < length (approvals s). q_id (approvals s ! i) = of_nat (i + 1)) \<and>
     (\<forall>q \<in> set (approvals s). q_consumed q \<longrightarrow> q_answered q = Some True)"

definition has_agent :: "'p gate_state \<Rightarrow> agent_id \<Rightarrow> bool" where
  "has_agent s agent \<longleftrightarrow> 0 < unat agent \<and> unat agent \<le> length (agents s)"

definition nth_agent :: "'p gate_state \<Rightarrow> agent_id \<Rightarrow> 'p agent" where
  "nth_agent s agent = agents s ! (unat agent - 1)"

lemma find_index:
  assumes "i < length xs" "P (xs ! i)" "\<And>j. j < i \<Longrightarrow> \<not> P (xs ! j)"
  shows "List.find P xs = Some (xs ! i)"
  using assms by (auto simp: find_Some_iff)

lemma update_first_index:
  assumes "i < length xs" "P (xs ! i)" "\<And>j. j < i \<Longrightarrow> \<not> P (xs ! j)"
  shows "update_first P f xs = xs[i := f (xs ! i)]"
  using assms
proof (induction xs arbitrary: i)
  case Nil
  then show ?case by simp
next
  case (Cons x xs)
  show ?case
  proof (cases i)
    case 0
    with Cons.prems show ?thesis by simp
  next
    case (Suc k)
    have "\<not> P x" using Cons.prems(3) [of 0] Suc by simp
    have "\<not> P (xs ! j)" if "j < k" for j using Cons.prems(3) [of "Suc j"] that Suc by simp
    moreover note \<open>\<not> P x\<close>
    ultimately have "\<not> P x" "update_first P f xs = xs[k := f (xs ! k)]"
      using Cons.prems Suc by (auto intro: Cons.IH)
    then show ?thesis using Suc by simp
  qed
qed

lemma update_first_none: "(\<And>x. x \<in> set xs \<Longrightarrow> \<not> P x) \<Longrightarrow> update_first P f xs = xs"
  by (induction xs) auto

lemma length_update_first [simp]: "length (update_first P f xs) = length xs"
  by (induction xs) auto

lemma of_nat_eq_iff_small:
  "m < 2 ^ LENGTH('a) \<Longrightarrow> n < 2 ^ LENGTH('a) \<Longrightarrow> (of_nat m :: 'a::len word) = of_nat n \<longleftrightarrow> m = n"
  by (metis unat_of_nat_small)

lemma ids_ok_id:
  assumes "ids_ok s" "i < length (agents s)"
  shows "a_id (agents s ! i) = agent \<longleftrightarrow> unat agent = i + 1"
proof -
  have "i + 1 < 2 ^ LENGTH(32)" using assms by (simp add: ids_ok_def)
  then have "unat (of_nat (i + 1) :: u32) = i + 1" by (rule unat_of_nat_small)
  moreover have "a_id (agents s ! i) = of_nat (i + 1)" using assms by (simp add: ids_ok_def)
  ultimately show ?thesis by (metis word_unat_eq_iff)
qed

lemma find_agent_eq:
  assumes "ids_ok s"
  shows "find_agent s agent = (if has_agent s agent then Some (nth_agent s agent) else None)"
proof (cases "has_agent s agent")
  case True
  then have i: "unat agent - 1 < length (agents s)" by (auto simp: has_agent_def)
  show ?thesis
    unfolding find_agent_def using True i ids_ok_id [OF assms]
    by (subst find_index [OF i]) (auto simp: has_agent_def nth_agent_def)
next
  case False
  have "a_id a \<noteq> agent" if a: "a \<in> set (agents s)" for a
  proof -
    from a obtain i where "i < length (agents s)" "a = agents s ! i" by (auto simp: in_set_conv_nth)
    with ids_ok_id [OF assms] False show ?thesis by (auto simp: has_agent_def)
  qed
  with False show ?thesis by (simp add: find_agent_def find_None_iff)
qed

lemma update_agent_eq:
  assumes "ids_ok s"
  shows "agents (update_agent agent f s) = (if has_agent s agent
    then (agents s)[unat agent - 1 := f (nth_agent s agent)] else agents s)"
proof (cases "has_agent s agent")
  case True
  then have i: "unat agent - 1 < length (agents s)" by (auto simp: has_agent_def)
  show ?thesis
    unfolding update_agent_def using True i ids_ok_id [OF assms]
    by (simp, subst update_first_index [OF i]) (auto simp: has_agent_def nth_agent_def)
next
  case False
  have "a_id a \<noteq> agent" if a: "a \<in> set (agents s)" for a
  proof -
    from a obtain i where "i < length (agents s)" "a = agents s ! i" by (auto simp: in_set_conv_nth)
    with ids_ok_id [OF assms] False show ?thesis by (auto simp: has_agent_def)
  qed
  with False show ?thesis by (simp add: update_agent_def update_first_none)
qed

lemma update_agent_frame [simp, state_simps]:
  "slots (update_agent agent f s) = slots s"
  "ring (update_agent agent f s) = ring s"
  "clock (update_agent agent f s) = clock s"
  "clock_reads (update_agent agent f s) = clock_reads s"
  "approvals (update_agent agent f s) = approvals s"
  "next_agent_id (update_agent agent f s) = next_agent_id s"
  "next_approval_id (update_agent agent f s) = next_approval_id s"
  "length (agents (update_agent agent f s)) = length (agents s)"
  by (simp_all add: update_agent_def)

lemma sijil_record_gate_frame [simp, state_simps]:
  "agents (sijil_record a ev d l s) = agents s"
  "approvals (sijil_record a ev d l s) = approvals s"
  "next_agent_id (sijil_record a ev d l s) = next_agent_id s"
  "next_approval_id (sijil_record a ev d l s) = next_approval_id s"
  by (simp_all add: sijil_record_def now_microseconds_def Let_def)

section \<open>The invariant\<close>

definition caps_held :: "slot list \<Rightarrow> 'p agent \<Rightarrow> bool" where
  "caps_held table a \<longleftrightarrow> sv_valid MAX_CAPABILITIES (capabilities a) \<and>
     (\<forall>c \<in> set (sv_iter (capabilities a)). cap_index c < length table \<and>
        holder (table ! cap_index c) = a_id a)"

definition awaiting_ok :: "approval_request list \<Rightarrow> 'p agent \<Rightarrow> bool" where
  "awaiting_ok qs a \<longleftrightarrow> (\<forall>r. awaiting a = Some r \<longrightarrow>
     0 < unat r \<and> unat r \<le> length qs \<and> q_agent (qs ! (unat r - 1)) = a_id a)"

text \<open>The money of an agent's children.\<close>

definition kids_money :: "'p agent list \<Rightarrow> agent_id \<Rightarrow> nat" where
  "kids_money as p = (\<Sum>a\<leftarrow>as. if a_parent a = p then micro_nat (a_budget a) else 0)"

definition funded :: "'p agent list \<Rightarrow> bool" where
  "funded as \<longleftrightarrow> (\<forall>a \<in> set as. kids_money as (a_id a) \<le> spent_nat (a_budget a)) \<and>
     (\<forall>i < length as. unat (a_parent (as ! i)) \<le> i)"

definition pending_of :: "approval_request list \<Rightarrow> agent_id \<Rightarrow> nat" where
  "pending_of qs agent = length (filter (\<lambda>q. q_agent q = agent \<and> q_answered q = None) qs)"

definition pending_ok :: "approval_request list \<Rightarrow> bool" where
  "pending_ok qs \<longleftrightarrow> (\<forall>agent. pending_of qs agent \<le> MAX_PENDING_APPROVALS)"

definition gate_inv :: "'p gate_state \<Rightarrow> bool" where
  "gate_inv s \<longleftrightarrow> table_ok (slots s) \<and> ids_ok s \<and> approvals_ok s \<and> funded (agents s) \<and>
     pending_ok (approvals s) \<and>
     (\<forall>a \<in> set (agents s). caps_held (slots s) a \<and> awaiting_ok (approvals s) a)"

lemma gate_inv_sijil [simp]: "gate_inv (sijil_record a ev d l s) = gate_inv s"
  by (simp add: gate_inv_def ids_ok_def approvals_ok_def)

lemma now_frame [simp]:
  "slots (snd (now_microseconds s)) = slots s"
  "agents (snd (now_microseconds s)) = agents s"
  "approvals (snd (now_microseconds s)) = approvals s"
  "next_agent_id (snd (now_microseconds s)) = next_agent_id s"
  "next_approval_id (snd (now_microseconds s)) = next_approval_id s"
  "ring (snd (now_microseconds s)) = ring s"
  by (simp_all add: now_microseconds_def)

lemma gate_inv_now [simp]: "gate_inv (snd (now_microseconds s)) = gate_inv s"
  by (simp add: gate_inv_def ids_ok_def approvals_ok_def)

lemma find_agent_frame [simp]:
  "find_agent (sijil_record a ev d l s) agent = find_agent s agent"
  "find_agent (snd (now_microseconds s)) agent = find_agent s agent"
  by (simp_all add: find_agent_def)

lemma gate_inv_find: "gate_inv s \<Longrightarrow>
    find_agent s agent = (if has_agent s agent then Some (nth_agent s agent) else None)"
  by (simp add: gate_inv_def find_agent_eq)

lemma nth_agent_in: "has_agent s agent \<Longrightarrow> nth_agent s agent \<in> set (agents s)"
  by (auto simp: has_agent_def nth_agent_def)

lemma nth_agent_id: "ids_ok s \<Longrightarrow> has_agent s agent \<Longrightarrow> a_id (nth_agent s agent) = agent"
  by (auto simp: has_agent_def nth_agent_def ids_ok_id)

lemma kids_money_update:
  assumes "i < length as" "a_parent x = a_parent (as ! i)"
    "micro_dollars (a_budget x) = micro_dollars (a_budget (as ! i))"
  shows "kids_money (as[i := x]) p = kids_money as p"
proof -
  have "map (\<lambda>a. if a_parent a = p then micro_nat (a_budget a) else 0) (as[i := x]) =
      map (\<lambda>a. if a_parent a = p then micro_nat (a_budget a) else 0) as"
    using assms by (intro nth_equalityI) (auto simp: nth_list_update)
  then show ?thesis by (simp add: kids_money_def)
qed

lemma kids_money_snoc: "kids_money (as @ [x]) p =
    kids_money as p + (if a_parent x = p then micro_nat (a_budget x) else 0)"
  by (simp add: kids_money_def)

lemma kids_money_none: "(\<And>y. y \<in> set as \<Longrightarrow> a_parent y \<noteq> p) \<Longrightarrow> kids_money as p = 0"
  by (induction as) (simp_all add: kids_money_def)

text \<open>An update of one agent that the invariant allows.\<close>

definition allowed :: "'p gate_state \<Rightarrow> 'p agent \<Rightarrow> 'p agent \<Rightarrow> bool" where
  "allowed s a a' \<longleftrightarrow> a_id a' = a_id a \<and> a_parent a' = a_parent a \<and>
     micro_dollars (a_budget a') = micro_dollars (a_budget a) \<and>
     spent_nat (a_budget a) \<le> spent_nat (a_budget a') \<and>
     caps_held (slots s) a' \<and> awaiting_ok (approvals s) a'"

lemma gate_inv_update_agent:
  assumes inv: "gate_inv s"
    and ok: "has_agent s agent \<Longrightarrow> allowed s (nth_agent s agent) (f (nth_agent s agent))"
  shows "gate_inv (update_agent agent f s)"
proof (cases "has_agent s agent")
  case False
  have "ids_ok s" using inv by (simp add: gate_inv_def)
  then have "agents (update_agent agent f s) = agents s" using False by (simp add: update_agent_eq)
  with inv show ?thesis by (simp add: gate_inv_def ids_ok_def approvals_ok_def)
next
  case True
  obtain i where i_def: "i = unat agent - 1" by blast
  let ?a = "nth_agent s agent" and ?a' = "f (nth_agent s agent)"
  let ?as = "(agents s)[i := ?a']"
  have i: "i < length (agents s)" using True by (auto simp: has_agent_def i_def)
  have ids: "ids_ok s" using inv by (simp add: gate_inv_def)
  have as: "agents (update_agent agent f s) = ?as" using True ids by (simp add: update_agent_eq i_def)
  have al: "allowed s ?a ?a'" by (rule ok [OF True])
  have at_i: "agents s ! i = ?a" by (simp add: nth_agent_def i_def)
  have kids: "kids_money ?as p = kids_money (agents s) p" for p
    using al by (intro kids_money_update [OF i]) (simp_all add: at_i allowed_def)
  have fund: "\<forall>a \<in> set (agents s). kids_money (agents s) (a_id a) \<le> spent_nat (a_budget a)"
    "\<forall>i < length (agents s). unat (a_parent (agents s ! i)) \<le> i"
    using inv by (simp_all add: gate_inv_def funded_def)
  have "?a \<in> set (agents s)" using True by (rule nth_agent_in)
  with fund(1) al have "kids_money (agents s) (a_id ?a') \<le> spent_nat (a_budget ?a')"
    by (fastforce simp: allowed_def)
  then have "funded ?as"
    using fund al i at_i kids
    by (auto simp: funded_def allowed_def nth_list_update dest!: set_update_subset_insert [THEN subsetD])
  moreover have "\<forall>a \<in> set ?as. caps_held (slots s) a \<and> awaiting_ok (approvals s) a"
    using inv al by (auto simp: gate_inv_def allowed_def dest!: set_update_subset_insert [THEN subsetD])
  moreover have "ids_ok (update_agent agent f s)"
    using ids al i at_i by (auto simp: ids_ok_def as allowed_def nth_list_update)
  ultimately show ?thesis
    using inv by (simp add: gate_inv_def as approvals_ok_def)
qed

lemma allowed_refl:
  "gate_inv s \<Longrightarrow> has_agent s agent \<Longrightarrow> allowed s (nth_agent s agent) (nth_agent s agent)"
  using nth_agent_in [of s agent] by (simp add: gate_inv_def allowed_def)

lemma has_agent_frame [simp]:
  "has_agent (update_agent g f s) agent = has_agent s agent"
  "has_agent (sijil_record a ev d l s) agent = has_agent s agent"
  "has_agent (snd (now_microseconds s)) agent = has_agent s agent"
  by (simp_all add: has_agent_def)

lemma nth_agent_update: "ids_ok s \<Longrightarrow> has_agent s agent \<Longrightarrow>
    nth_agent (update_agent agent f s) agent = f (nth_agent s agent)"
  using update_agent_eq [of s agent f] by (auto simp: nth_agent_def has_agent_def)

lemma caps_held_append: "caps_held table a \<Longrightarrow> caps_held (table @ xs) a"
  by (auto simp: caps_held_def nth_append)

text \<open>A new slot in the table.\<close>

lemma gate_inv_slots:
  assumes "gate_inv s" "table_ok (slots s @ xs)"
  shows "gate_inv (s\<lparr>slots := slots s @ xs\<rparr>)"
  using assms by (auto simp: gate_inv_def ids_ok_def approvals_ok_def intro: caps_held_append)

text \<open>A new agent, funded by its parent.\<close>

lemma gate_inv_new_agent:
  assumes inv: "gate_inv s" and room: "length (agents s) + 1 < 2 ^ 32 - 1"
    and a: "a_id a = next_agent_id s" "caps_held (slots s) a" "awaiting a = None"
    and fund: "a_parent a = 0 \<or> (has_agent s (a_parent a) \<and>
      kids_money (agents s) (a_parent a) + micro_nat (a_budget a) \<le>
        spent_nat (a_budget (nth_agent s (a_parent a))))"
  shows "gate_inv (s\<lparr>next_agent_id := next_agent_id s + 1, agents := agents s @ [a]\<rparr>)"
proof -
  have ids: "ids_ok s" using inv by (simp add: gate_inv_def)
  have old: "\<forall>x \<in> set (agents s). kids_money (agents s) (a_id x) \<le> spent_nat (a_budget x)"
    "\<forall>i < length (agents s). unat (a_parent (agents s ! i)) \<le> i"
    using inv by (simp_all add: gate_inv_def funded_def)
  have id0: "0 < unat (a_id x) \<and> unat (a_id x) \<le> length (agents s)" if "x \<in> set (agents s)" for x
  proof -
    from that obtain i where "i < length (agents s)" "x = agents s ! i" by (auto simp: in_set_conv_nth)
    with ids_ok_id [OF ids, of i "a_id x"] show ?thesis by auto
  qed
  have new_id: "unat (a_id a) = length (agents s) + 1"
  proof -
    have "a_id a = of_nat (length (agents s) + 1)" using a(1) ids by (simp add: ids_ok_def)
    moreover have "unat (of_nat (length (agents s) + 1) :: u32) = length (agents s) + 1"
      by (rule unat_of_nat_small) (use room in simp)
    ultimately show ?thesis by (simp only:)
  qed
  have par: "unat (a_parent a) \<le> length (agents s)" using fund by (auto simp: has_agent_def)
  have par_nth: "nth_agent s (a_id x) = x" if "x \<in> set (agents s)" for x
  proof -
    from that obtain i where i: "i < length (agents s)" "x = agents s ! i" by (auto simp: in_set_conv_nth)
    with ids_ok_id [OF ids i(1), of "a_id x"] show ?thesis by (simp add: nth_agent_def)
  qed
  have "kids_money (agents s @ [a]) (a_id x) \<le> spent_nat (a_budget x)" if x: "x \<in> set (agents s)" for x
  proof (cases "a_parent a = a_id x")
    case True
    with fund id0 [OF x] par_nth [OF x] show ?thesis by (auto simp: kids_money_snoc)
  next
    case False
    with old(1) x show ?thesis by (simp add: kids_money_snoc)
  qed
  moreover have "kids_money (agents s @ [a]) (a_id a) = 0"
  proof -
    have "a_parent y \<noteq> a_id a" if y: "y \<in> set (agents s @ [a])" for y
    proof -
      from y obtain j where "j < length (agents s @ [a])" "y = (agents s @ [a]) ! j"
        by (auto simp: in_set_conv_nth simp del: set_append)
      then have "unat (a_parent y) \<le> length (agents s)"
        using old(2) par by (fastforce simp: nth_append less_Suc_eq)
      with new_id show ?thesis by auto
    qed
    then show ?thesis by (rule kids_money_none)
  qed
  moreover have "\<forall>i < length (agents s @ [a]). unat (a_parent ((agents s @ [a]) ! i)) \<le> i"
    using old(2) par by (auto simp: nth_append less_Suc_eq)
  ultimately have "funded (agents s @ [a])" by (auto simp: funded_def)
  moreover have "ids_ok (s\<lparr>next_agent_id := next_agent_id s + 1, agents := agents s @ [a]\<rparr>)"
    using ids a(1) room by (auto simp: ids_ok_def nth_append less_Suc_eq)
  ultimately show ?thesis
    using inv a(2,3) by (auto simp: gate_inv_def approvals_ok_def awaiting_ok_def)
qed

section \<open>Approvals\<close>

definition has_request :: "'p gate_state \<Rightarrow> u64 \<Rightarrow> bool" where
  "has_request s r \<longleftrightarrow> 0 < unat r \<and> unat r \<le> length (approvals s)"

definition nth_request :: "'p gate_state \<Rightarrow> u64 \<Rightarrow> approval_request" where
  "nth_request s r = approvals s ! (unat r - 1)"

lemma approvals_ok_id:
  assumes "approvals_ok s" "i < length (approvals s)"
  shows "q_id (approvals s ! i) = r \<longleftrightarrow> unat r = i + 1"
proof -
  have "i + 1 < 2 ^ LENGTH(64)" using assms by (simp add: approvals_ok_def)
  then have "unat (of_nat (i + 1) :: u64) = i + 1" by (rule unat_of_nat_small)
  moreover have "q_id (approvals s ! i) = of_nat (i + 1)" using assms by (simp add: approvals_ok_def)
  ultimately show ?thesis by (metis word_unat_eq_iff)
qed

lemma request_absent:
  assumes "approvals_ok s" "\<not> has_request s r" "q \<in> set (approvals s)"
  shows "q_id q \<noteq> r"
proof -
  from assms(3) obtain i where "i < length (approvals s)" "q = approvals s ! i"
    by (auto simp: in_set_conv_nth)
  with approvals_ok_id [OF assms(1)] assms(2) show ?thesis by (auto simp: has_request_def)
qed

lemma find_request_eq:
  assumes "approvals_ok s"
  shows "List.find (\<lambda>q. q_id q = r) (approvals s) =
    (if has_request s r then Some (nth_request s r) else None)"
proof (cases "has_request s r")
  case True
  then have i: "unat r - 1 < length (approvals s)" by (auto simp: has_request_def)
  show ?thesis
    using True i approvals_ok_id [OF assms]
    by (subst find_index [OF i]) (auto simp: has_request_def nth_request_def)
next
  case False
  with request_absent [OF assms False] show ?thesis by (simp add: find_None_iff)
qed

lemma update_request_eq:
  assumes "approvals_ok s"
  shows "update_first (\<lambda>q. q_id q = r) f (approvals s) = (if has_request s r
    then (approvals s)[unat r - 1 := f (nth_request s r)] else approvals s)"
proof (cases "has_request s r")
  case True
  then have i: "unat r - 1 < length (approvals s)" by (auto simp: has_request_def)
  show ?thesis
    using True i approvals_ok_id [OF assms]
    by (subst update_first_index [OF i]) (auto simp: has_request_def nth_request_def)
next
  case False
  with request_absent [OF assms False] show ?thesis by (simp add: update_first_none)
qed

lemma pending_update:
  assumes "i < length qs" "q_agent q = q_agent (qs ! i)"
    "q_answered q = None \<longrightarrow> q_answered (qs ! i) = None"
  shows "pending_of (qs[i := q]) agent \<le> pending_of qs agent"
  using assms
proof (induction qs arbitrary: i)
  case Nil
  then show ?case by simp
next
  case (Cons y ys)
  then show ?case by (cases i) (auto simp: pending_of_def)
qed

lemma gate_inv_request:
  assumes inv: "gate_inv s" and r: "has_request s r"
    and q: "q_id q = q_id (nth_request s r)" "q_agent q = q_agent (nth_request s r)"
      "q_consumed q \<longrightarrow> q_answered q = Some True"
      "q_answered q = None \<longrightarrow> q_answered (nth_request s r) = None"
  shows "gate_inv (s\<lparr>approvals := (approvals s)[unat r - 1 := q]\<rparr>)"
proof -
  obtain i where i_def: "i = unat r - 1" by blast
  have i: "i < length (approvals s)" using r by (auto simp: has_request_def i_def)
  have at_i: "approvals s ! i = nth_request s r" by (simp add: nth_request_def i_def)
  have "approvals_ok (s\<lparr>approvals := (approvals s)[i := q]\<rparr>)"
    using inv i q at_i
    by (auto simp: gate_inv_def approvals_ok_def nth_list_update
        dest!: set_update_subset_insert [THEN subsetD])
  moreover have "awaiting_ok ((approvals s)[i := q]) a" if "awaiting_ok (approvals s) a" for a
    using that q(2) at_i i by (auto simp: awaiting_ok_def nth_list_update)
  moreover have "pending_ok ((approvals s)[i := q])"
    using inv pending_update [OF i, of q] q(2,4) at_i
    by (fastforce simp: gate_inv_def pending_ok_def intro: order_trans)
  ultimately have "gate_inv (s\<lparr>approvals := (approvals s)[i := q]\<rparr>)"
    using inv by (auto simp: gate_inv_def ids_ok_def)
  then show ?thesis by (simp add: i_def)
qed

lemma has_approval_eq:
  assumes "gate_inv s"
  shows "has_approval agent c s \<longleftrightarrow> has_agent s agent \<and>
    (\<exists>r. awaiting (nth_agent s agent) = Some r \<and> has_request s r \<and>
      approval_matches r agent c (nth_request s r))"
proof -
  have ok: "approvals_ok s" using assms by (simp add: gate_inv_def)
  have "list_ex (approval_matches r agent c) (approvals s) \<longleftrightarrow>
      has_request s r \<and> approval_matches r agent c (nth_request s r)" for r
  proof
    assume "list_ex (approval_matches r agent c) (approvals s)"
    then obtain i where i: "i < length (approvals s)" "approval_matches r agent c (approvals s ! i)"
      by (auto simp: list_ex_length)
    then have "unat r = i + 1" using approvals_ok_id [OF ok i(1)] by (simp add: approval_matches_def)
    with i show "has_request s r \<and> approval_matches r agent c (nth_request s r)"
      by (simp add: has_request_def nth_request_def)
  next
    assume "has_request s r \<and> approval_matches r agent c (nth_request s r)"
    then show "list_ex (approval_matches r agent c) (approvals s)"
      by (auto simp: list_ex_length has_request_def nth_request_def intro!: exI [of _ "unat r - 1"])
  qed
  then show ?thesis
    using gate_inv_find [OF assms] by (auto simp: has_approval_def split: option.splits)
qed

definition consumed_count :: "'p gate_state \<Rightarrow> nat" where
  "consumed_count s = length (filter q_consumed (approvals s))"

definition yes_count :: "'p gate_state \<Rightarrow> nat" where
  "yes_count s = length (filter (\<lambda>q. q_answered q = Some True) (approvals s))"

lemma filter_update_count:
  assumes "i < length xs" "\<not> P (xs ! i)" "P x"
  shows "length (filter P (xs[i := x])) = length (filter P xs) + 1"
  using assms
proof (induction xs arbitrary: i)
  case Nil
  then show ?case by simp
next
  case (Cons y ys)
  then show ?case by (cases i) auto
qed

lemma filter_update_same:
  assumes "i < length xs" "P x = P (xs ! i)"
  shows "length (filter P (xs[i := x])) = length (filter P xs)"
  using assms
proof (induction xs arbitrary: i)
  case Nil
  then show ?case by simp
next
  case (Cons y ys)
  then show ?case by (cases i) auto
qed

lemma consumed_le_yes: "approvals_ok s \<Longrightarrow> consumed_count s \<le> yes_count s"
proof -
  assume "approvals_ok s"
  then have "\<And>q. q \<in> set (approvals s) \<Longrightarrow> q_consumed q \<Longrightarrow> q_answered q = Some True"
    by (simp add: approvals_ok_def)
  then have "length (filter q_consumed xs) \<le> length (filter (\<lambda>q. q_answered q = Some True) xs)"
    if "set xs \<subseteq> set (approvals s)" for xs
    using that by (induction xs) auto
  then show ?thesis by (simp add: consumed_count_def yes_count_def)
qed

section \<open>Paying\<close>

text \<open>An agent whose awaited request, if any, was answered yes and not yet used.\<close>

definition burnable :: "'p gate_state \<Rightarrow> agent_id \<Rightarrow> bool" where
  "burnable s agent \<longleftrightarrow> (\<exists>r. awaiting (nth_agent s agent) = Some r \<and> has_request s r \<and>
     q_answered (nth_request s r) = Some True \<and> \<not> q_consumed (nth_request s r))"

lemma has_approval_burnable: "gate_inv s \<Longrightarrow> has_approval agent c s \<Longrightarrow> burnable s agent"
  by (auto simp: has_approval_eq burnable_def approval_matches_def)

lemma update_agent_twice: "\<lbrakk>ids_ok s; \<And>a. a_id (f a) = a_id a\<rbrakk> \<Longrightarrow>
    update_agent agent g (update_agent agent f s) = update_agent agent (\<lambda>a. g (f a)) s"
proof -
  assume "ids_ok s" and f: "\<And>a. a_id (f a) = a_id a"
  have "update_first (\<lambda>c. a_id c = agent) g (update_first (\<lambda>c. a_id c = agent) f xs) =
      update_first (\<lambda>c. a_id c = agent) (\<lambda>a. g (f a)) xs" for xs
    by (induction xs) (auto simp: f)
  then show ?thesis by (simp add: update_agent_def)
qed

definition paid :: "u64 \<Rightarrow> 'p agent \<Rightarrow> 'p agent" where
  "paid cost a = a\<lparr>crossings := crossings a + 1, a_budget := (a_budget a)\<lparr>spent_micro_dollars :=
     spent_micro_dollars (a_budget a) + cost\<rparr>\<rparr>"

definition refused :: "'p agent \<Rightarrow> 'p agent" where
  "refused a = a\<lparr>crossings := crossings a + 1, a_state := Suspended\<rparr>"

lemma pay_eq:
  assumes "gate_inv s"
  shows "pay agent cost burns s =
    (if \<not> has_agent s agent then (False, s)
     else if remaining_micro_dollars (a_budget (nth_agent s agent)) < cost
     then (False, update_agent agent refused s)
     else (True, if burns then burn agent (nth_agent s agent) (update_agent agent (paid cost) s)
                 else update_agent agent (paid cost) s))"
proof -
  have ids: "ids_ok s" using assms by (simp add: gate_inv_def)
  show ?thesis
    using gate_inv_find [OF assms]
    by (simp add: pay_def Let_def update_agent_twice [OF ids] refused_def [abs_def] paid_def [abs_def])
qed

lemma allowed_paid:
  assumes "gate_inv s" "has_agent s agent"
    and "\<not> remaining_micro_dollars (a_budget (nth_agent s agent)) < cost"
  shows "allowed s (nth_agent s agent) (paid cost (nth_agent s agent))"
  using allowed_refl [OF assms(1,2)] pay_in_budget(1) [of cost "a_budget (nth_agent s agent)"] assms(3)
  by (simp add: allowed_def paid_def caps_held_def awaiting_ok_def not_less)

lemma allowed_refused:
  "gate_inv s \<Longrightarrow> has_agent s agent \<Longrightarrow> allowed s (nth_agent s agent) (refused (nth_agent s agent))"
  using allowed_refl [of s agent] by (simp add: allowed_def refused_def caps_held_def awaiting_ok_def)

lemma burn_spec:
  assumes inv: "gate_inv s" and ag: "has_agent s agent"
    and b: "burnable s agent" and f: "awaiting found = awaiting (nth_agent s agent)"
  shows "gate_inv (burn agent found s)"
    and "consumed_count (burn agent found s) = consumed_count s + 1"
    and "yes_count (burn agent found s) = yes_count s"
    and "agents (burn agent found s) = agents (update_agent agent (\<lambda>a. a\<lparr>awaiting := None\<rparr>) s)"
proof -
  from b obtain r where r: "awaiting (nth_agent s agent) = Some r" "has_request s r"
    "q_answered (nth_request s r) = Some True" "\<not> q_consumed (nth_request s r)"
    by (auto simp: burnable_def)
  let ?s1 = "update_agent agent (\<lambda>a. a\<lparr>awaiting := None\<rparr>) s"
  let ?q = "(nth_request s r)\<lparr>q_consumed := True\<rparr>"
  have inv1: "gate_inv ?s1"
    using allowed_refl [OF inv ag]
    by (intro gate_inv_update_agent [OF inv]) (simp add: allowed_def caps_held_def awaiting_ok_def)
  have ok1: "approvals_ok s" using inv by (simp add: gate_inv_def)
  have eq: "burn agent found s = ?s1\<lparr>approvals := (approvals ?s1)[unat r - 1 := ?q]\<rparr>"
    using r f update_request_eq [OF ok1] by (simp add: burn_def)
  have r1: "has_request ?s1 r" "nth_request ?s1 r = nth_request s r"
    using r(2) by (simp_all add: has_request_def nth_request_def)
  show "gate_inv (burn agent found s)"
    unfolding eq using r(3) by (intro gate_inv_request [OF inv1 r1(1)]) (simp_all add: r1(2))
  have i: "unat r - 1 < length (approvals s)" using r(2) by (auto simp: has_request_def)
  show "consumed_count (burn agent found s) = consumed_count s + 1"
    unfolding eq consumed_count_def using filter_update_count [OF i, of q_consumed ?q] r(4)
    by (simp add: nth_request_def)
  show "yes_count (burn agent found s) = yes_count s"
    unfolding eq yes_count_def
    using filter_update_same [OF i, of "\<lambda>q. q_answered q = Some True" ?q] by (simp add: nth_request_def)
  show "agents (burn agent found s) = agents ?s1" by (simp add: eq)
qed

section \<open>The verbs keep the invariant\<close>

text \<open>How many irreversible crossings a result stands for.\<close>

definition irreversible_ok :: "denied + authority \<Rightarrow> nat" where
  "irreversible_ok res = (case res of
     Inr auth \<Rightarrow> if authority_risk auth = Irreversible then 1 else 0 | Inl _ \<Rightarrow> 0)"

lemma counts_frame [simp]:
  "consumed_count (sijil_record a ev d l s) = consumed_count s"
  "yes_count (sijil_record a ev d l s) = yes_count s"
  "consumed_count (update_agent agent f s) = consumed_count s"
  "yes_count (update_agent agent f s) = yes_count s"
  "consumed_count (snd (now_microseconds s)) = consumed_count s"
  "yes_count (snd (now_microseconds s)) = yes_count s"
  by (simp_all add: consumed_count_def yes_count_def)

text \<open>A step of the gate: the invariant is kept, \<open>k\<close> approvals are used, none is taken back.\<close>

definition good_step :: "'p gate_state \<Rightarrow> nat \<Rightarrow> 'p gate_state \<Rightarrow> bool" where
  "good_step s k s' \<longleftrightarrow> gate_inv s' \<and> consumed_count s' = consumed_count s + k \<and>
     yes_count s \<le> yes_count s'"

lemma good_step_sijil [simp]: "good_step s k (sijil_record a ev d l s') = good_step s k s'"
  by (simp add: good_step_def)

lemma good_step_refl [simp]: "good_step s 0 s = gate_inv s"
  by (simp add: good_step_def)

lemma good_step_trans: "good_step s k s' \<Longrightarrow> good_step s' l s'' \<Longrightarrow> good_step s (k + l) s''"
  by (simp add: good_step_def)

lemma good_step_update:
  "gate_inv s \<Longrightarrow> (has_agent s agent \<Longrightarrow> allowed s (nth_agent s agent) (f (nth_agent s agent))) \<Longrightarrow>
    good_step s 0 (update_agent agent f s)"
  by (simp add: good_step_def gate_inv_update_agent)

lemma pay_good:
  assumes inv: "gate_inv s" and b: "burns \<Longrightarrow> burnable s agent" and p: "pay agent cost burns s = (ok, s')"
  shows "good_step s (if ok \<and> burns then 1 else 0) s'"
proof (cases "has_agent s agent")
  case False
  with p pay_eq [OF inv] inv show ?thesis by simp
next
  case True
  let ?a = "nth_agent s agent"
  show ?thesis
  proof (cases "remaining_micro_dollars (a_budget ?a) < cost")
    case True
    then have "ok = False" "s' = update_agent agent refused s"
      using p pay_eq [OF inv, of agent cost burns] \<open>has_agent s agent\<close> by auto
    then show ?thesis
      using good_step_update [OF inv, of agent refused] allowed_refused [OF inv] by simp
  next
    case False
    let ?s1 = "update_agent agent (paid cost) s"
    have al: "allowed s ?a (paid cost ?a)" by (rule allowed_paid [OF inv True False])
    then have g1: "good_step s 0 ?s1" by (intro good_step_update [OF inv])
    then have inv1: "gate_inv ?s1" by (simp add: good_step_def)
    have ids: "ids_ok s" using inv by (simp add: gate_inv_def)
    have n1: "nth_agent ?s1 agent = paid cost ?a" by (rule nth_agent_update [OF ids True])
    show ?thesis
    proof (cases burns)
      case False
      then have "ok" "s' = ?s1"
        using p pay_eq [OF inv, of agent cost burns] True \<open>\<not> remaining_micro_dollars (a_budget ?a) < cost\<close>
        by auto
      with g1 False show ?thesis by simp
    next
      case burns: True
      then have ok: "ok" "s' = burn agent ?a ?s1"
        using p pay_eq [OF inv, of agent cost burns] True \<open>\<not> remaining_micro_dollars (a_budget ?a) < cost\<close>
        by auto
      have "burnable ?s1 agent" "awaiting ?a = awaiting (nth_agent ?s1 agent)"
        using b [OF burns] by (simp_all add: burnable_def n1 paid_def has_request_def nth_request_def)
      then have "good_step ?s1 1 (burn agent ?a ?s1)"
        using burn_spec [OF inv1] True by (simp add: good_step_def)
      from good_step_trans [OF g1 this] ok burns show ?thesis by simp
    qed
  qed
qed

lemma authorize_frame [simp]:
  "gate_inv (snd (authorize a c ok s)) = gate_inv s"
  "consumed_count (snd (authorize a c ok s)) = consumed_count s"
  "yes_count (snd (authorize a c ok s)) = yes_count s"
  by (simp_all add: authorize_def Let_def split: sum.split)

lemma invoke_good:
  assumes inv: "gate_inv s" and i: "invoke agent c s = (res, s')"
  shows "good_step s (irreversible_ok res) s'"
proof -
  let ?ok = "has_approval agent c s"
  obtain r1 s1 where a: "authorize agent c ?ok s = (r1, s1)" by (metis surj_pair)
  show ?thesis
  proof (cases r1)
    case (Inl e)
    have "gate_inv s1" "consumed_count s1 = consumed_count s" "yes_count s1 = yes_count s"
      using inv a authorize_frame [of agent c ?ok s] by simp_all
    with i a Inl show ?thesis by (auto simp: invoke_def good_step_def irreversible_ok_def)
  next
    case (Inr auth)
    then have s1: "s1 = s" using a authorize_unchanged [of agent c ?ok s auth] by simp
    have irr: "authority_risk auth = Irreversible \<Longrightarrow> burnable s agent"
      using a Inr authorize_result [of agent c ?ok s auth] has_approval_burnable [OF inv] by auto
    obtain ok s2 where p: "pay agent (price_of auth) (authority_risk auth = Irreversible) s = (ok, s2)"
      by (metis surj_pair)
    note g = pay_good [OF inv irr p]
    with i a Inr s1 p show ?thesis
      by (cases ok) (auto simp: invoke_def irreversible_ok_def)
  qed
qed

lemma spend_good:
  assumes inv: "gate_inv s" and i: "spend agent c amount s = (res, s')"
  shows "good_step s (if is_ok res then 1 else 0) s'"
proof -
  let ?ok = "has_approval agent c s"
  obtain r1 s1 where a: "authorize agent c ?ok s = (r1, s1)" by (metis surj_pair)
  show ?thesis
  proof (cases r1)
    case (Inl e)
    have "gate_inv s1" "consumed_count s1 = consumed_count s" "yes_count s1 = yes_count s"
      using inv a authorize_frame [of agent c ?ok s] by simp_all
    with i a Inl show ?thesis by (auto simp: spend_def good_step_def)
  next
    case (Inr auth)
    then have s1: "s1 = s" using a authorize_unchanged [of agent c ?ok s auth] by simp
    show ?thesis
    proof (cases "\<exists>ceiling. auth = Spend ceiling \<and> amount \<le> ceiling")
      case False
      with i a Inr s1 inv show ?thesis
        by (cases auth) (auto simp: spend_def not_less not_le split: if_splits)
    next
      case True
      then obtain ceiling where auth: "auth = Spend ceiling" "\<not> amount > ceiling" by (auto simp: not_less)
      have irr: "burnable s agent"
        using a Inr auth(1) authorize_result [of agent c ?ok s auth] has_approval_burnable [OF inv] by auto
      obtain ok s2 where p: "pay agent amount True s = (ok, s2)" by (metis surj_pair)
      note g = pay_good [OF inv irr p]
      with i a Inr s1 p auth show ?thesis
        by (cases ok) (auto simp: spend_def)
    qed
  qed
qed

lemma store_capability_good:
  assumes inv: "gate_inv s" and c: "cap_index c < length (slots s)" "holder (slots s ! cap_index c) = agent"
  shows "good_step s 0 (fst (store_capability agent c s))"
proof -
  have ids: "ids_ok s" using inv by (simp add: gate_inv_def)
  have "allowed s (nth_agent s agent)
      ((nth_agent s agent)\<lparr>capabilities := fst (sv_push (capabilities (nth_agent s agent)) c)\<rparr>)"
    if ag: "has_agent s agent"
  proof -
    let ?a = "nth_agent s agent"
    obtain v ok where p: "sv_push (capabilities ?a) c = (v, ok)" by (metis surj_pair)
    have h: "caps_held (slots s) ?a" using inv nth_agent_in [OF ag] by (simp add: gate_inv_def)
    then have valid: "sv_valid MAX_CAPABILITIES (capabilities ?a)" by (simp add: caps_held_def)
    note pv = sv_push_valid [OF valid p]
    have "caps_held (slots s) (?a\<lparr>capabilities := v\<rparr>)"
      using h pv c nth_agent_id [OF ids ag] by (auto simp: caps_held_def split: if_splits)
    with allowed_refl [OF inv ag] p show ?thesis by (simp add: allowed_def awaiting_ok_def)
  qed
  with inv show ?thesis by (simp add: store_capability_def good_step_update)
qed

lemma slots_extend_good:
  assumes "gate_inv s" "table_ok (slots s @ xs)"
  shows "good_step s 0 (s\<lparr>slots := slots s @ xs\<rparr>)"
  using gate_inv_slots [OF assms] by (simp add: good_step_def consumed_count_def yes_count_def)

lemma grant_good:
  assumes inv: "gate_inv s"
  shows "good_step s 0 (snd (grant agent auth s))"
proof -
  let ?x = "\<lparr>authority = auth, holder = agent, parent = None, revoked = False\<rparr>"
  have t: "table_ok (slots s @ [?x])" using inv by (intro table_ok_mint) (simp add: gate_inv_def)
  have m: "mint agent auth s = (Capability (length (slots s)),
      sijil_record agent Granted (of_nat (length (slots s))) (describe auth) (s\<lparr>slots := slots s @ [?x]\<rparr>))"
    by (simp add: mint_def Let_def)
  have g: "good_step s 0 (snd (mint agent auth s))"
    using slots_extend_good [OF inv t] by (simp add: m)
  have "good_step (snd (mint agent auth s)) 0
      (fst (store_capability agent (Capability (length (slots s))) (snd (mint agent auth s))))"
    using g by (intro store_capability_good) (simp_all add: good_step_def m)
  from good_step_trans [OF g this] show ?thesis by (simp add: grant_def m split_beta)
qed

lemma attenuate_good:
  assumes inv: "gate_inv s"
  shows "good_step s 0 (snd (gate_attenuate agent c narrower s))"
proof (cases "derive agent agent c narrower (slots s)")
  case (Inl e)
  with inv show ?thesis by (simp add: gate_attenuate_def aman_attenuate_def)
next
  case (Inr table)
  let ?x = "\<lparr>authority = narrower, holder = agent, parent = Some (cap_index c), revoked = False\<rparr>"
  from Inr have t: "table = slots s @ [?x]" by (auto simp: derive_ok)
  have ok: "table_ok (slots s @ [?x])"
    using inv Inr t table_ok_derive by (auto simp: gate_inv_def)
  let ?s1 = "snd (aman_attenuate agent c narrower s)"
  have r: "fst (aman_attenuate agent c narrower s) = Ok (Capability (length (slots s)))"
    using Inr t by (simp add: aman_attenuate_def Let_def)
  have g: "good_step s 0 ?s1"
    using slots_extend_good [OF inv ok] Inr t by (simp add: aman_attenuate_def Let_def)
  have "good_step ?s1 0 (fst (store_capability agent (Capability (length (slots s))) ?s1))"
    using g Inr t by (intro store_capability_good) (simp_all add: good_step_def state_simps)
  from good_step_trans [OF g this] r show ?thesis
    by (simp add: gate_attenuate_def split_beta split: sum.split)
qed

definition new_agent :: "str \<Rightarrow> agent_id \<Rightarrow> budget \<Rightarrow> u64 \<Rightarrow> 'p \<Rightarrow> 'p gate_state \<Rightarrow> 'p agent" where
  "new_agent g p b dl fn s = \<lparr>a_id = next_agent_id s, goal = label_new g, a_parent = p,
     a_state = Runnable, a_budget = b, deadline = clock s (clock_reads s) + dl,
     capabilities = sv_new MAX_CAPABILITIES, crossings = 0, awaiting = None, step_fn = fn, cursor = 0\<rparr>"

lemma spawn_eq: "spawn g p b dl fn s = (next_agent_id s,
    sijil_record (next_agent_id s) Spawned (ucast p) g
      (s\<lparr>next_agent_id := next_agent_id s + 1, clock_reads := clock_reads s + 1,
         agents := agents s @ [new_agent g p b dl fn s]\<rparr>))"
  by (simp add: spawn_def new_agent_def now_microseconds_def Let_def)

lemma caps_held_new: "caps_held table (new_agent g p b dl fn s)"
  by (simp add: caps_held_def new_agent_def)

lemma spawn_good:
  assumes inv: "gate_inv s" and room: "length (agents s) + 1 < 2 ^ 32 - 1"
    and fund: "p = 0 \<or> (has_agent s p \<and>
      kids_money (agents s) p + micro_nat b \<le> spent_nat (a_budget (nth_agent s p)))"
  shows "good_step s 0 (snd (spawn g p b dl fn s))"
proof -
  let ?a = "new_agent g p b dl fn s"
  have "gate_inv (s\<lparr>next_agent_id := next_agent_id s + 1, agents := agents s @ [?a]\<rparr>)"
    using fund by (intro gate_inv_new_agent [OF inv room _ caps_held_new]) (simp_all add: new_agent_def)
  moreover have "gate_inv (s\<lparr>next_agent_id := x, clock_reads := y, agents := z\<rparr>) =
      gate_inv (s\<lparr>next_agent_id := x, agents := z\<rparr>)" for x y z
    by (simp add: gate_inv_def ids_ok_def approvals_ok_def)
  ultimately show ?thesis
    by (simp add: spawn_eq good_step_def consumed_count_def yes_count_def)
qed

lemma delegate_good:
  assumes inv: "gate_inv s" and room: "length (agents s) + 1 < 2 ^ 32 - 1"
  shows "good_step s 0 (snd (gate_delegate p g c n micro wall fn s))"
proof -
  have cd: "gate_inv (snd (can_delegate p c n s)) = gate_inv s"
    "consumed_count (snd (can_delegate p c n s)) = consumed_count s"
    "yes_count (snd (can_delegate p c n s)) = yes_count s"
    by (simp_all add: can_delegate_def Let_def)
  obtain r0 s0 where can: "can_delegate p c n s = (r0, s0)" by (metis surj_pair)
  show ?thesis
  proof (cases r0)
    case (Inl e)
    with can cd inv show ?thesis by (simp add: gate_delegate_def good_step_def)
  next
    case (Inr u)
    then have ok: "fst (can_delegate p c n s) = Ok ()" using can by simp
    from can_delegate_unchanged [OF ok] can have s0: "s0 = s" by simp
    show ?thesis
    proof (cases "Option.bind (find_agent s p) (\<lambda>found. carve (a_budget found) micro wall)")
      case None
      with can Inr s0 inv show ?thesis by (simp add: gate_delegate_def Let_def)
    next
      case (Some bs)
      obtain pb cb where bs: "bs = (pb, cb)" by (metis surj_pair)
      from Some bs have ag: "has_agent s p" and cv: "carve (a_budget (nth_agent s p)) micro wall = Some (pb, cb)"
        using gate_inv_find [OF inv] by (auto simp: bind_eq_Some_conv split: if_splits)
      note cs = carve_Some [OF cv]
      have ids: "ids_ok s" using inv by (simp add: gate_inv_def)
      let ?f = "\<lambda>a. a\<lparr>a_budget := pb\<rparr>"
      let ?s1 = "update_agent p ?f s"
      have al: "allowed s (nth_agent s p) (?f (nth_agent s p))"
        using allowed_refl [OF inv ag] cs by (simp add: allowed_def caps_held_def awaiting_ok_def)
      then have g1: "good_step s 0 ?s1" by (intro good_step_update [OF inv])
      then have inv1: "gate_inv ?s1" by (simp add: good_step_def)
      have n1: "nth_agent ?s1 p = (nth_agent s p)\<lparr>a_budget := pb\<rparr>"
        by (rule nth_agent_update [OF ids ag])
      have "kids_money (agents ?s1) p = kids_money (agents s) p"
        using ag cs(2) unfolding update_agent_eq [OF ids]
        by (auto simp: has_agent_def nth_agent_def intro!: kids_money_update)
      moreover have "kids_money (agents s) p \<le> spent_nat (a_budget (nth_agent s p))"
        using inv nth_agent_in [OF ag] nth_agent_id [OF ids ag] by (auto simp: gate_inv_def funded_def)
      ultimately have fund: "kids_money (agents ?s1) p + micro_nat cb \<le>
          spent_nat (a_budget (nth_agent ?s1 p))"
        using cs(1,4) by (simp add: n1 budget_new_def)
      obtain child s2 where sp: "spawn g p cb (max wall 1000) fn ?s1 = (child, s2)" by (metis surj_pair)
      have g2: "good_step ?s1 0 s2"
        using spawn_good [OF inv1, of p cb g "max wall 1000" fn] room fund ag sp by simp
      then have inv2: "gate_inv s2" by (simp add: good_step_def)
      have sl2: "slots s2 = slots s" using sp by (auto simp: spawn_eq)
      let ?x = "\<lparr>authority = n, holder = child, parent = Some (cap_index c), revoked = False\<rparr>"
      note da = delegate_after_check [OF ok sl2, of child]
      obtain s3 where d: "aman_delegate p child c n s2 = (Ok (Capability (length (slots s))), s3)"
        using da(1) by (metis prod.collapse)
      have s3: "slots s3 = slots s2 @ [?x]" using da(2) d sl2 by simp
      have "table_ok (slots s3)"
        using inv2 da d table_ok_derive [of "slots s2" p child c n]
        by (auto simp: gate_inv_def aman_delegate_def Let_def split: sum.splits)
      then have t3: "table_ok (slots s2 @ [?x])" by (simp only: s3)
      have s3_eq: "s3 = sijil_record p Delegated (ucast child) (describe n) (s2\<lparr>slots := slots s2 @ [?x]\<rparr>)"
        using d s3 by (auto simp: aman_delegate_def Let_def split: sum.splits)
      have g3: "good_step s2 0 s3"
        unfolding s3_eq using slots_extend_good [OF inv2 t3] by simp
      have "good_step s3 0 (fst (store_capability child (Capability (length (slots s))) s3))"
        using g3 s3 sl2 by (intro store_capability_good) (simp_all add: good_step_def)
      note g4 = good_step_trans [OF good_step_trans [OF good_step_trans [OF g1 g2] g3] this]
      have "snd (gate_delegate p g c n micro wall fn s) =
          fst (store_capability child (Capability (length (slots s))) s3)"
        using can Inr s0 Some bs sp d by (simp add: gate_delegate_def Let_def)
      with g4 show ?thesis by simp
    qed
  qed
qed

lemma approvals_snoc_good:
  assumes inv: "gate_inv s" and room: "length (approvals s) + 1 < 2 ^ 64 - 1"
    and q: "q_id q = next_approval_id s" "\<not> q_consumed q" "q_answered q = None"
    and few: "pending_of (approvals s) (q_agent q) < MAX_PENDING_APPROVALS"
  shows "good_step s 0 (s\<lparr>next_approval_id := next_approval_id s + 1, approvals := approvals s @ [q]\<rparr>)"
proof -
  have "approvals_ok (s\<lparr>next_approval_id := next_approval_id s + 1, approvals := approvals s @ [q]\<rparr>)"
    using inv room q by (auto simp: gate_inv_def approvals_ok_def nth_append less_Suc_eq)
  moreover have "awaiting_ok (approvals s @ [q]) a" if "awaiting_ok (approvals s) a" for a
    using that by (auto simp: awaiting_ok_def nth_append)
  moreover have "pending_ok (approvals s @ [q])"
    using inv few by (auto simp: gate_inv_def pending_ok_def pending_of_def)
  ultimately show ?thesis
    using inv q by (auto simp: good_step_def gate_inv_def ids_ok_def consumed_count_def yes_count_def)
qed

lemma request_approval_good:
  assumes inv: "gate_inv s" and room: "length (approvals s) + 1 < 2 ^ 64 - 1"
    and r: "request_approval agent c note_text s = (res, s')"
  shows "good_step s 0 s'"
proof (cases "authority_of agent c (slots s)")
  case (Inl e)
  with r inv show ?thesis by (auto simp: request_approval_def)
next
  case (Inr auth)
  let ?find = "List.find (\<lambda>q. q_agent q = agent \<and> q_capability q = c \<and> q_answered q = None) (approvals s)"
  show ?thesis
  proof (cases "?find = None \<and>
      length (filter (\<lambda>q. q_agent q = agent \<and> q_answered q = None) (approvals s)) < MAX_PENDING_APPROVALS")
    case False
    with r Inr inv show ?thesis
      by (auto simp: request_approval_def Let_def split: option.splits)
  next
    case True
    let ?q = "\<lparr>q_id = next_approval_id s, q_agent = agent, q_capability = c,
      q_what = label_new (describe auth), q_note = label_new note_text, q_answered = None,
      q_consumed = False\<rparr>"
    let ?s1 = "s\<lparr>next_approval_id := next_approval_id s + 1, approvals := approvals s @ [?q]\<rparr>"
    let ?f = "\<lambda>a. a\<lparr>awaiting := Some (next_approval_id s)\<rparr>"
    have g1: "good_step s 0 ?s1"
      using True by (intro approvals_snoc_good [OF inv room]) (simp_all add: pending_of_def)
    then have inv1: "gate_inv ?s1" by (simp add: good_step_def)
    have "next_approval_id s = of_nat (length (approvals s) + 1)"
      using inv by (simp add: gate_inv_def approvals_ok_def)
    moreover have "unat (of_nat (length (approvals s) + 1) :: u64) = length (approvals s) + 1"
      by (rule unat_of_nat_small) (use room in simp)
    ultimately have nid: "unat (next_approval_id s) = length (approvals s) + 1" by (simp only:)
    have "allowed ?s1 (nth_agent ?s1 agent) (?f (nth_agent ?s1 agent))" if ag: "has_agent ?s1 agent"
    proof -
      have "a_id (nth_agent ?s1 agent) = agent"
        using inv1 by (intro nth_agent_id [OF _ ag]) (simp add: gate_inv_def)
      with allowed_refl [OF inv1 ag] nid show ?thesis
        by (simp add: allowed_def caps_held_def awaiting_ok_def)
    qed
    then have "good_step ?s1 0 (update_agent agent ?f ?s1)" by (rule good_step_update [OF inv1])
    from good_step_trans [OF g1 this] r Inr True show ?thesis
      by (auto simp: request_approval_def Let_def)
  qed
qed

lemma answer_tail:
  assumes "gate_inv s1" "good_step s1 0 a" "good_step s1 0 b"
  shows "good_step s1 0 (sijil_record x ev d l (case w of None \<Rightarrow> s1
    | Some waiting \<Rightarrow> if awaiting waiting = Some r then (if yes then a else b) else s1))"
  using assms by (simp split: option.split)

lemma answer_eq:
  assumes ok: "approvals_ok s" and r: "has_request s r" "q_answered (nth_request s r) = None"
  shows "answer_approval r approved s = (let agent = q_agent (nth_request s r);
      s1 = s\<lparr>approvals := (approvals s)[unat r - 1 := (nth_request s r)\<lparr>q_answered := Some approved\<rparr>]\<rparr>;
      s2 = (case find_agent s1 agent of None \<Rightarrow> s1
            | Some waiting \<Rightarrow> if awaiting waiting = Some r then
                (if approved then update_agent agent (\<lambda>a. a\<lparr>a_state := Runnable,
                   deadline := fst (now_microseconds s1)\<rparr>) (snd (now_microseconds s1))
                 else update_agent agent (\<lambda>a. a\<lparr>awaiting := None, a_state := Killed\<rparr>) s1)
                else s1)
      in sijil_record agent (if approved then Approved else Rejected)
           (of_nat (cap_index (q_capability (nth_request s r))))
           (if approved then lit ''human approved'' else lit ''human rejected'') s2)"
proof -
  let ?s1 = "s\<lparr>approvals := (approvals s)[unat r - 1 := (nth_request s r)\<lparr>q_answered := Some approved\<rparr>]\<rparr>"
  have ur: "update_first (\<lambda>q. q_id q = r) (\<lambda>q. q\<lparr>q_answered := Some approved\<rparr>) (approvals s) =
      (approvals s)[unat r - 1 := (nth_request s r)\<lparr>q_answered := Some approved\<rparr>]"
    using r update_request_eq [OF ok] by simp
  have fa: "find_agent ?s1 ag = find_agent s ag" for ag by (simp add: find_agent_def)
  show ?thesis
    unfolding answer_approval_def find_request_eq [OF ok] ur Let_def split_beta
    using r by simp
qed

lemma answer_good:
  assumes inv: "gate_inv s"
  shows "good_step s 0 (answer_approval r approved s)"
proof (cases "has_request s r \<and> q_answered (nth_request s r) = None")
  case False
  have "approvals_ok s" using inv by (simp add: gate_inv_def)
  with False inv show ?thesis by (auto simp: answer_approval_def find_request_eq)
next
  case True
  have aok: "approvals_ok s" using inv by (simp add: gate_inv_def)
  obtain n where n: "n = unat r - 1" by blast
  let ?q = "(nth_request s r)\<lparr>q_answered := Some approved\<rparr>"
  let ?s1 = "s\<lparr>approvals := (approvals s)[n := ?q]\<rparr>"
  have i: "n < length (approvals s)" using True by (auto simp: has_request_def n)
  have at_n: "approvals s ! n = nth_request s r" by (simp add: nth_request_def n)
  have "nth_request s r \<in> set (approvals s)" using i at_n by (metis nth_mem)
  then have nc: "\<not> q_consumed (nth_request s r)" using aok True by (auto simp: approvals_ok_def)
  have inv1: "gate_inv ?s1"
    using gate_inv_request [OF inv, of r ?q] True nc by (simp add: n)
  have cc: "consumed_count ?s1 = consumed_count s"
    unfolding consumed_count_def using filter_update_same [OF i, of q_consumed ?q] by (simp add: at_n)
  have yc: "yes_count s \<le> yes_count ?s1"
  proof (cases approved)
    case True
    then show ?thesis unfolding yes_count_def
      using filter_update_count [OF i, of "\<lambda>q. q_answered q = Some True" ?q] \<open>has_request s r \<and> _\<close>
      by (simp add: at_n)
  next
    case False
    then show ?thesis unfolding yes_count_def
      using filter_update_same [OF i, of "\<lambda>q. q_answered q = Some True" ?q] \<open>has_request s r \<and> _\<close>
      by (simp add: at_n)
  qed
  have g1: "good_step s 0 ?s1" using inv1 cc yc by (simp add: good_step_def)
  have upd: "good_step ?s1 0 (update_agent ag f s2)"
    if "s2 = ?s1 \<or> s2 = snd (now_microseconds ?s1)" "\<And>a. a_id (f a) = a_id a" "\<And>a. a_parent (f a) = a_parent a"
      "\<And>a. a_budget (f a) = a_budget a" "\<And>a. capabilities (f a) = capabilities a"
      "\<And>a. awaiting (f a) = awaiting a \<or> awaiting (f a) = None" for ag f s2
  proof -
    have s2: "gate_inv s2" "consumed_count s2 = consumed_count ?s1" "yes_count s2 = yes_count ?s1"
      using that(1) inv1 by auto
    have "allowed s2 (nth_agent s2 ag) (f (nth_agent s2 ag))" if "has_agent s2 ag"
      using allowed_refl [OF s2(1) that] \<open>\<And>a. awaiting (f a) = awaiting a \<or> awaiting (f a) = None\<close>
      by (simp add: allowed_def caps_held_def awaiting_ok_def \<open>\<And>a. a_id (f a) = a_id a\<close>
          \<open>\<And>a. a_parent (f a) = a_parent a\<close> \<open>\<And>a. a_budget (f a) = a_budget a\<close>
          \<open>\<And>a. capabilities (f a) = capabilities a\<close>) (metis option.distinct(1))
    from good_step_update [of s2 ag f, OF s2(1) this] s2 show ?thesis by (simp add: good_step_def)
  qed
  have a1: "good_step ?s1 0 (update_agent ag (\<lambda>a. a\<lparr>a_state := Runnable, deadline := now\<rparr>)
      (snd (now_microseconds ?s1)))" for ag now
    by (rule upd) simp_all
  have a2: "good_step ?s1 0 (update_agent ag (\<lambda>a. a\<lparr>awaiting := None, a_state := Killed\<rparr>) ?s1)" for ag
    by (rule upd) simp_all
  have fa: "find_agent ?s1 ag = find_agent s ag" for ag by (simp add: find_agent_def)
  have "good_step ?s1 0 (answer_approval r approved s)"
    unfolding answer_eq [OF aok conjunct1 [OF True] conjunct2 [OF True]] Let_def n [symmetric]
    by (rule answer_tail [OF inv1 a1 a2])
  from good_step_trans [OF g1 this] show ?thesis by simp
qed

lemma charge_good:
  assumes inv: "gate_inv s"
  shows "good_step s 0 (charge agent amount s)"
proof (cases "has_agent s agent")
  case False
  with inv gate_inv_find [OF inv] show ?thesis by (simp add: charge_def)
next
  case True
  have ids: "ids_ok s" using inv by (simp add: gate_inv_def)
  let ?a = "nth_agent s agent"
  let ?b = "(a_budget ?a)\<lparr>spent_micro_dollars := saturating_add (spent_micro_dollars (a_budget ?a)) amount\<rparr>"
  have "unat (spent_micro_dollars (a_budget ?a)) < 2 ^ LENGTH(64)" by (rule unsigned_less)
  then have "spent_nat (a_budget ?a) \<le> spent_nat ?b" by (simp add: unat_saturating_add)
  then have "allowed s ?a (?a\<lparr>a_budget := ?b\<rparr>)" "allowed s ?a (?a\<lparr>a_budget := ?b, a_state := Suspended\<rparr>)"
    using allowed_refl [OF inv True] by (simp_all add: allowed_def caps_held_def awaiting_ok_def)
  then have "good_step s 0 (update_agent agent (\<lambda>a. a\<lparr>a_budget := ?b\<rparr>) s)"
    "good_step s 0 (update_agent agent (\<lambda>a. a\<lparr>a_budget := ?b, a_state := Suspended\<rparr>) s)"
    by (simp_all add: good_step_update [OF inv])
  then show ?thesis
    using gate_inv_find [OF inv] True by (simp add: charge_def Let_def update_agent_twice [OF ids])
qed

lemma finish_step_good:
  assumes inv: "gate_inv s" and f: "finish_step agent new_cursor elapsed progress s = (su, bb, s')"
  shows "good_step s 0 s'"
proof (cases "has_agent s agent")
  case False
  with inv f gate_inv_find [OF inv] show ?thesis by (simp add: finish_step_def)
next
  case True
  have ids: "ids_ok s" using inv by (simp add: gate_inv_def)
  let ?a = "nth_agent s agent"
  let ?b = "(a_budget ?a)\<lparr>used_microseconds := used_microseconds (a_budget ?a) + elapsed\<rparr>"
  let ?g = "\<lambda>a. a\<lparr>cursor := new_cursor, a_budget := ?b\<rparr>"
  have al: "allowed s ?a (?a\<lparr>cursor := new_cursor, a_budget := ?b\<rparr>)"
    "allowed s ?a (?a\<lparr>cursor := new_cursor, a_budget := ?b, a_state := st\<rparr>)" for st
    using allowed_refl [OF inv True] by (simp_all add: allowed_def caps_held_def awaiting_ok_def)
  have g1: "good_step s 0 (update_agent agent ?g s)" by (rule good_step_update [OF inv]) (rule al)
  have g2: "good_step s 0 (update_agent agent (\<lambda>a. a\<lparr>a_state := st\<rparr>) (update_agent agent ?g s))" for st
    using good_step_update [OF inv, of agent "\<lambda>a. ?g a\<lparr>a_state := st\<rparr>"] al(2) [of st]
    by (simp add: update_agent_twice [OF ids])
  have now: "gate_inv (snd (now_microseconds (update_agent agent ?g s)))"
    using g1 by (simp add: good_step_def)
  have g3: "good_step s 0 (update_agent agent (\<lambda>a. a\<lparr>deadline := dl\<rparr>)
      (snd (now_microseconds (update_agent agent ?g s))))" for dl
  proof -
    let ?s1 = "snd (now_microseconds (update_agent agent ?g s))"
    have "allowed ?s1 (nth_agent ?s1 agent) ((nth_agent ?s1 agent)\<lparr>deadline := dl\<rparr>)"
      using allowed_refl [OF now, of agent] True by (simp add: allowed_def caps_held_def awaiting_ok_def)
    then have "good_step ?s1 0 (update_agent agent (\<lambda>a. a\<lparr>deadline := dl\<rparr>) ?s1)"
      by (intro good_step_update [OF now])
    moreover have "good_step s 0 ?s1" using g1 by (simp add: good_step_def)
    ultimately show ?thesis using good_step_trans by fastforce
  qed
  show ?thesis
    using f gate_inv_find [OF inv] True g1 g2 g3
    by (auto simp: finish_step_def Let_def split_beta split: if_splits progress.splits)
qed

lemma revoke_good:
  assumes inv: "gate_inv s"
  shows "good_step s 0 (snd (revoke_tree c s))"
proof (cases c)
  case (Capability a)
  have t: "table_ok (slots s)" using inv by (simp add: gate_inv_def)
  have "caps_held (marked (slots s) a k) x" if "caps_held (slots s) x" for x :: "'a agent" and k
    using that by (auto simp: caps_held_def nth_marked)
  then show ?thesis
    using inv marked_table_ok [OF t, of a]
    by (simp add: Capability revoke_tree_spec [OF t] good_step_def gate_inv_def ids_ok_def
        approvals_ok_def consumed_count_def yes_count_def)
qed

section \<open>The gate as a transition system\<close>

text \<open>
  \<open>gate_step s k s'\<close>: one operation of the kernel on the gate's state; \<open>k\<close> is the number of
  irreversible crossings it let through. Spawning is the kernel's (parent 0); children come
  from \<open>delegate\<close>. The two guards are the sizes of the counters.
\<close>

inductive gate_step :: "'p gate_state \<Rightarrow> nat \<Rightarrow> 'p gate_state \<Rightarrow> bool" where
  do_spawn: "length (agents s) + 1 < 2 ^ 32 - 1 \<Longrightarrow> gate_step s 0 (snd (spawn g 0 b dl fn s))"
| do_grant: "gate_step s 0 (snd (grant agent auth s))"
| do_delegate: "length (agents s) + 1 < 2 ^ 32 - 1 \<Longrightarrow>
    gate_step s 0 (snd (gate_delegate p g c n micro wall fn s))"
| do_attenuate: "gate_step s 0 (snd (gate_attenuate agent c n s))"
| do_invoke: "invoke agent c s = (res, s') \<Longrightarrow> gate_step s (irreversible_ok res) s'"
| do_spend: "spend agent c amount s = (res, s') \<Longrightarrow> gate_step s (if is_ok res then 1 else 0) s'"
| do_request: "length (approvals s) + 1 < 2 ^ 64 - 1 \<Longrightarrow>
    request_approval agent c note_text s = (res, s') \<Longrightarrow> gate_step s 0 s'"
| do_answer: "gate_step s 0 (answer_approval r approved s)"
| do_charge: "gate_step s 0 (charge agent amount s)"
| do_finish: "finish_step agent new_cursor elapsed progress s = (su, bb, s') \<Longrightarrow> gate_step s 0 s'"
| do_revoke: "gate_step s 0 (snd (revoke_tree c s))"
| do_journal: "gate_step s 0 (sijil_record agent ev detail lab s)"
| do_clock: "gate_step s 0 (snd (now_microseconds s))"
| do_tick: "gate_step s 0 (on_tick s)"

inductive gate_steps :: "'p gate_state \<Rightarrow> nat \<Rightarrow> 'p gate_state \<Rightarrow> bool" where
  steps_refl: "gate_steps s 0 s"
| steps_step: "gate_steps s k s' \<Longrightarrow> gate_step s' l s'' \<Longrightarrow> gate_steps s (k + l) s''"

lemma gate_step_good: "gate_step s k s' \<Longrightarrow> gate_inv s \<Longrightarrow> good_step s k s'"
proof (induction rule: gate_step.induct)
  case (do_tick s)
  then show ?case
    by (simp add: on_tick_def good_step_def gate_inv_def ids_ok_def approvals_ok_def
        consumed_count_def yes_count_def)
next
  case (do_clock s)
  then show ?case by (simp add: good_step_def)
qed (simp_all add: spawn_good grant_good delegate_good attenuate_good invoke_good spend_good
    request_approval_good answer_good charge_good finish_step_good revoke_good)

lemma gate_steps_good: "gate_steps s k s' \<Longrightarrow> gate_inv s \<Longrightarrow> good_step s k s'"
proof (induction rule: gate_steps.induct)
  case (steps_refl s)
  then show ?case by simp
next
  case (steps_step s k s' l s'')
  then have "good_step s k s'" by simp
  moreover from this have "gate_inv s'" by (simp add: good_step_def)
  then have "good_step s' l s''" by (rule gate_step_good [OF steps_step.hyps(2)])
  ultimately show ?case by (rule good_step_trans)
qed

lemma gate_steps_trans:
  assumes "gate_steps s' l s''" "gate_steps s k s'"
  shows "gate_steps s (k + l) s''"
  using assms
proof (induction rule: gate_steps.induct)
  case (steps_refl s')
  then show ?case by simp
next
  case (steps_step s' l s'' m t)
  then have "gate_steps s (k + l) s''" by simp
  from gate_steps.steps_step [OF this steps_step.hyps(2)] show ?case by (simp add: add.assoc)
qed

lemma gate_step_steps: "gate_step s k s' \<Longrightarrow> gate_steps s k s'"
  using gate_steps.intros by (metis add_0)

lemma gate_init_inv: "gate_inv (gate_init s)"
  by (simp add: gate_init_def init_table_def gate_inv_def ids_ok_def approvals_ok_def funded_def
      pending_ok_def pending_of_def)

end
