(* ===== verification/Gate_Laws.thy ===== *)
theory Gate_Laws
  imports Gate
begin

text \<open>
  The laws of the AmanGate, over the invariant and the transition system of the theory Gate: the
  money of a subtree, the contract of code that acts through the gate, the scheduler, and the
  properties of the verbs one by one, with the small run their witnesses use.
\<close>

section \<open>The money of a subtree\<close>

text \<open>\<open>under as r i\<close>: the agent at index \<open>i\<close> is the one at \<open>r\<close> or descends from it.\<close>

inductive under :: "'p agent list \<Rightarrow> nat \<Rightarrow> nat \<Rightarrow> bool" for as r where
  under_self: "under as r r"
| under_child: "i < length as \<Longrightarrow> unat (a_parent (as ! i)) = k + 1 \<Longrightarrow> under as r k \<Longrightarrow> under as r i"

inductive_cases under_cases: "under as r i"

definition subtree :: "'p agent list \<Rightarrow> nat \<Rightarrow> nat set" where
  "subtree as r = {i. i < length as \<and> under as r i}"

text \<open>What an agent spent itself, beyond what it handed to its children.\<close>

definition own_money :: "'p agent list \<Rightarrow> nat \<Rightarrow> nat" where
  "own_money as i = spent_nat (a_budget (as ! i)) - kids_money as (a_id (as ! i))"

definition overdraft :: "'p agent list \<Rightarrow> nat \<Rightarrow> nat" where
  "overdraft as i = spent_nat (a_budget (as ! i)) - micro_nat (a_budget (as ! i))"

lemma under_iff:
  "under as r i \<longleftrightarrow> i = r \<or> (i < length as \<and> (\<exists>k. unat (a_parent (as ! i)) = k + 1 \<and> under as r k))"
  by (auto intro: under.intros elim: under_cases)

lemma under_ge:
  assumes "under as r i" "\<forall>i < length as. unat (a_parent (as ! i)) \<le> i"
  shows "r \<le> i"
  using assms by (induction rule: under.induct) fastforce+

lemma kids_money_sum:
  "kids_money as p = (\<Sum>j<length as. if a_parent (as ! j) = p then micro_nat (a_budget (as ! j)) else 0)"
  by (simp add: kids_money_def sum_list_sum_nth atLeast0LessThan)

lemma subtree_kids:
  assumes ids: "\<And>i p. i < length as \<Longrightarrow> a_id (as ! i) = p \<longleftrightarrow> unat p = i + 1"
    and par: "\<forall>i < length as. unat (a_parent (as ! i)) \<le> i"
  shows "(\<Sum>i\<in>subtree as r. kids_money as (a_id (as ! i))) =
    (\<Sum>j\<in>subtree as r - {r}. micro_nat (a_budget (as ! j)))"
proof -
  let ?I = "subtree as r" and ?m = "\<lambda>j. micro_nat (a_budget (as ! j))"
  have fin: "finite ?I" by (simp add: subtree_def)
  have inner: "(\<Sum>i\<in>?I. if a_parent (as ! j) = a_id (as ! i) then ?m j else 0) =
      (if j \<in> ?I - {r} then ?m j else 0)" if j: "j < length as" for j
  proof (cases "unat (a_parent (as ! j))")
    case 0
    have "a_parent (as ! j) \<noteq> a_id (as ! i)" if "i \<in> ?I" for i
      using ids [of i "a_parent (as ! j)"] that 0 by (auto simp: subtree_def)
    then have "(\<Sum>i\<in>?I. if a_parent (as ! j) = a_id (as ! i) then ?m j else 0) = 0" by simp
    moreover have "j \<notin> ?I - {r}" using 0 by (auto simp: subtree_def under_iff [of as r j])
    ultimately show ?thesis by auto
  next
    case (Suc k)
    have eq: "a_parent (as ! j) = a_id (as ! i) \<longleftrightarrow> i = k" if "i \<in> ?I" for i
      using ids [of i "a_parent (as ! j)"] that Suc by (auto simp: subtree_def)
    have "(\<Sum>i\<in>?I. if a_parent (as ! j) = a_id (as ! i) then ?m j else 0) =
        (\<Sum>i\<in>?I. if i = k then ?m j else 0)"
      by (rule sum.cong) (simp_all add: eq)
    also have "\<dots> = (if k \<in> ?I then ?m j else 0)" using fin by simp
    also have "k \<in> ?I \<longleftrightarrow> j \<in> ?I - {r}"
    proof
      assume k: "k \<in> ?I"
      then have "under as r j" using Suc j by (auto simp: subtree_def intro: under_child)
      moreover have "r \<le> k" using k par by (auto simp: subtree_def intro: under_ge)
      moreover have "k < j" using par j Suc by (metis Suc_le_eq)
      ultimately show "j \<in> ?I - {r}" using j by (simp add: subtree_def)
    next
      assume "j \<in> ?I - {r}"
      then have "under as r k" using Suc by (auto simp: subtree_def under_iff [of as r j])
      moreover have "k < j" using par j Suc by (metis Suc_le_eq)
      ultimately show "k \<in> ?I" using j by (simp add: subtree_def)
    qed
    finally show ?thesis .
  qed
  have "(\<Sum>i\<in>?I. kids_money as (a_id (as ! i))) =
      (\<Sum>j<length as. \<Sum>i\<in>?I. if a_parent (as ! j) = a_id (as ! i) then ?m j else 0)"
    unfolding kids_money_sum by (rule sum.swap)
  also have "\<dots> = (\<Sum>j<length as. if j \<in> ?I - {r} then ?m j else 0)"
    by (rule sum.cong) (simp_all only: inner lessThan_iff)
  also have "\<dots> = (\<Sum>j\<in>{..<length as} \<inter> (?I - {r}). ?m j)"
    by (simp add: sum.inter_restrict)
  also have "{..<length as} \<inter> (?I - {r}) = ?I - {r}" by (auto simp: subtree_def)
  finally show ?thesis .
qed

lemma subtree_money:
  assumes inv: "gate_inv s" and r: "r < length (agents s)"
  shows "(\<Sum>i\<in>subtree (agents s) r. own_money (agents s) i) \<le>
    micro_nat (a_budget (agents s ! r)) + (\<Sum>i\<in>subtree (agents s) r. overdraft (agents s) i)"
proof -
  let ?as = "agents s" and ?I = "subtree (agents s) r"
  let ?m = "\<lambda>j. micro_nat (a_budget (?as ! j))" and ?s = "\<lambda>j. spent_nat (a_budget (?as ! j))"
  have ids: "ids_ok s" and fund: "funded ?as" using inv by (simp_all add: gate_inv_def)
  have fin: "finite ?I" by (simp add: subtree_def)
  have "own_money ?as i + kids_money ?as (a_id (?as ! i)) = ?s i" if "i \<in> ?I" for i
    using that fund by (simp add: own_money_def funded_def subtree_def)
  then have "(\<Sum>i\<in>?I. own_money ?as i) + (\<Sum>i\<in>?I. kids_money ?as (a_id (?as ! i))) = (\<Sum>i\<in>?I. ?s i)"
    by (simp flip: sum.distrib)
  moreover have "(\<Sum>i\<in>?I. kids_money ?as (a_id (?as ! i))) = (\<Sum>j\<in>?I - {r}. ?m j)"
    using ids_ok_id [OF ids] fund by (intro subtree_kids) (simp_all add: funded_def)
  moreover have "(\<Sum>i\<in>?I. ?s i) \<le> (\<Sum>i\<in>?I. ?m i + overdraft ?as i)"
    by (rule sum_mono) (simp add: overdraft_def)
  moreover have "(\<Sum>i\<in>?I. ?m i) = ?m r + (\<Sum>j\<in>?I - {r}. ?m j)"
    using fin r by (intro sum.remove) (simp_all add: subtree_def under_self)
  ultimately show ?thesis by (simp add: sum.distrib)
qed

section \<open>Code that acts through the gate\<close>

text \<open>
  The contract of an agent's step function: whatever it does to the kernel's state, it does by
  calling the gate, and it asks for at most \<open>asks\<close> approvals in one step, so that the 64-bit
  counter of requests has room for what a bounded run can add.
\<close>

definition room_for :: "nat \<Rightarrow> 'p gate_state \<Rightarrow> bool" where
  "room_for n s \<longleftrightarrow> length (approvals s) + n < 2 ^ 64 - 1"

definition acts_within :: "nat \<Rightarrow> 'p gate_state \<Rightarrow> 'p gate_state \<Rightarrow> bool" where
  "acts_within n s s' \<longleftrightarrow> (\<exists>k. gate_steps s k s') \<and> length (approvals s') \<le> length (approvals s) + n"

lemma acts_within_refl [simp]: "acts_within n s s"
  using steps_refl by (auto simp: acts_within_def)

lemma acts_within_trans: "acts_within m s s' \<Longrightarrow> acts_within n s' s'' \<Longrightarrow> acts_within (m + n) s s''"
  using gate_steps_trans by (fastforce simp: acts_within_def)

lemma acts_within_mono: "acts_within m s s' \<Longrightarrow> m \<le> n \<Longrightarrow> acts_within n s s'"
  by (auto simp: acts_within_def)

lemma acts_within_step: "gate_step s k s' \<Longrightarrow> length (approvals s') \<le> length (approvals s) + n \<Longrightarrow>
    acts_within n s s'"
  using gate_step_steps by (auto simp: acts_within_def)

lemma acts_within_inv: "acts_within n s s' \<Longrightarrow> gate_inv s \<Longrightarrow> gate_inv s'"
  using gate_steps_good by (auto simp: acts_within_def good_step_def)

lemma acts_within_room: "acts_within m s s' \<Longrightarrow> room_for (m + n) s \<Longrightarrow> room_for n s'"
  by (auto simp: acts_within_def room_for_def)

lemma acts_within_journal [simp]: "acts_within n s s' \<Longrightarrow> acts_within n s (sijil_record a ev d l s')"
proof -
  assume "acts_within n s s'"
  moreover have "acts_within 0 s' (sijil_record a ev d l s')" by (rule acts_within_step [OF do_journal]) simp
  ultimately show ?thesis using acts_within_trans by fastforce
qed

lemma run_one_shape:
  assumes found: "find_agent s agent = Some a"
    and step: "run_step (step_fn a) \<lparr>x_id = agent, x_goal = goal a, x_capabilities = capabilities a,
      x_budget = a_budget a, x_cursor = cursor a\<rparr> (snd (now_microseconds s)) = (progress, cur, s2)"
    and fin: "finish_step agent cur (saturating_sub (fst (now_microseconds s2)) (fst (now_microseconds s)))
      progress (snd (now_microseconds s2)) = (su, bb, s4)"
  shows "\<exists>c s5. run_one run_step agent s = (c, s5) \<and>
    (s5 = s4 \<or> (\<exists>e d la. s5 = sijil_record agent e d la s4))"
  unfolding run_one_def using found step fin
  by (cases progress; cases su; cases bb) (auto simp: Let_def split_beta)

locale gate_client =
  fixes run_step :: "'p step_code" and asks :: nat
  assumes acts: "gate_inv s \<Longrightarrow> room_for asks s \<Longrightarrow> acts_within asks s (snd (snd (run_step fn ctx s)))"
begin

lemma run_one_acts:
  assumes inv: "gate_inv s" and room: "room_for asks s"
  shows "acts_within asks s (snd (run_one run_step agent s))"
proof (cases "find_agent s agent")
  case None
  then show ?thesis by (simp add: run_one_def)
next
  case (Some found)
  let ?s1 = "snd (now_microseconds s)"
  let ?ctx = "\<lparr>x_id = agent, x_goal = goal found, x_capabilities = capabilities found,
               x_budget = a_budget found, x_cursor = cursor found\<rparr>"
  obtain progress cur s2 where rs: "run_step (step_fn found) ?ctx ?s1 = (progress, cur, s2)"
    by (metis prod_cases3)
  have g1: "acts_within 0 s ?s1" by (rule acts_within_step [OF do_clock]) simp
  have "gate_inv ?s1" "room_for asks ?s1" using inv room by (simp_all add: room_for_def)
  from acts [OF this, of "step_fn found" ?ctx] rs have g2: "acts_within asks ?s1 s2" by simp
  let ?s3 = "snd (now_microseconds s2)"
  have g3: "acts_within 0 s2 ?s3" by (rule acts_within_step [OF do_clock]) simp
  let ?el = "saturating_sub (fst (now_microseconds s2)) (fst (now_microseconds s))"
  obtain su bb s4 where f: "finish_step agent cur ?el progress ?s3 = (su, bb, s4)" by (metis prod_cases3)
  have "approvals s4 = approvals ?s3"
    using f by (auto simp: finish_step_def Let_def split_beta split: option.splits if_splits progress.splits)
  then have g4: "acts_within 0 ?s3 s4" by (intro acts_within_step [OF do_finish [OF f]]) simp
  have "acts_within asks s s4"
    using acts_within_trans [OF acts_within_trans [OF acts_within_trans [OF g1 g2] g3] g4] by simp
  with run_one_shape [where run_step = run_step, OF Some rs f] show ?thesis by auto
qed

lemma run_loop_acts:
  assumes "gate_inv s" "room_for (n * asks) s"
  shows "acts_within (n * asks) s (snd (run_loop run_step n completed s))"
  using assms
proof (induction n arbitrary: completed s)
  case 0
  then show ?case by simp
next
  case (Suc n)
  show ?case
  proof (cases "next_runnable s")
    case None
    then show ?thesis by simp
  next
    case (Some agent)
    obtain c s1 where r: "run_one run_step agent s = (c, s1)" by (metis surj_pair)
    have "room_for asks s" using Suc.prems(2) by (simp add: room_for_def)
    from run_one_acts [OF Suc.prems(1) this, of agent] r have a: "acts_within asks s s1" by simp
    have "acts_within (n * asks) s1 (snd (run_loop run_step n (completed + c) s1))"
      using acts_within_inv [OF a Suc.prems(1)] acts_within_room [OF a] Suc.prems(2)
      by (intro Suc.IH) simp_all
    from acts_within_trans [OF a this] Some r show ?thesis by simp
  qed
qed

lemma run_until_idle_acts:
  "gate_inv s \<Longrightarrow> room_for (unat max_steps * asks) s \<Longrightarrow>
    acts_within (unat max_steps * asks) s (snd (run_until_idle run_step max_steps s))"
  unfolding run_until_idle_def by (rule run_loop_acts)

end

section \<open>The scheduler\<close>

lemma min_by_key_spec:
  "min_by_key key xs = None \<longleftrightarrow> xs = []"
  "min_by_key key xs = Some x \<Longrightarrow> x \<in> set xs \<and> (\<forall>y \<in> set xs. key x \<le> key y)"
proof -
  show "min_by_key key xs = None \<longleftrightarrow> xs = []"
    by (cases xs) (auto split: option.splits if_splits)
  show "min_by_key key xs = Some x \<Longrightarrow> x \<in> set xs \<and> (\<forall>y \<in> set xs. key x \<le> key y)"
  proof (induction xs arbitrary: x)
    case Nil
    then show ?case by simp
  next
    case (Cons a xs)
    show ?case
    proof (cases "min_by_key key xs")
      case None
      then have "xs = []" by (cases xs) (auto split: option.splits if_splits)
      with Cons.prems show ?thesis by simp
    next
      case (Some y)
      with Cons.IH [OF Some] Cons.prems show ?thesis by (auto split: if_splits)
    qed
  qed
qed

lemma min_by_key_filter:
  "min_by_key key (filter P xs) = Some x \<Longrightarrow> \<exists>i < length xs. xs ! i = x \<and> P x \<and>
     (\<forall>j < length xs. P (xs ! j) \<longrightarrow> key x \<le> key (xs ! j) \<and> (j < i \<longrightarrow> key x < key (xs ! j)))"
proof (induction xs arbitrary: x)
  case Nil
  then show ?case by simp
next
  case (Cons a xs)
  let ?m = "min_by_key key (filter P xs)"
  consider (skip) "\<not> P a" "?m = Some x" | (later) "P a" "?m = Some x" "key x < key a"
    | (first) "P a" "x = a" "\<forall>y \<in> set (filter P xs). key a \<le> key y"
  proof (cases "P a")
    case False
    with Cons.prems skip show ?thesis by simp
  next
    case True
    show ?thesis
    proof (cases ?m)
      case None
      then have "filter P xs = []" by (simp only: min_by_key_spec(1))
      moreover from True None Cons.prems have "x = a" by simp
      ultimately show ?thesis using True by (intro first) simp_all
    next
      case (Some y)
      show ?thesis
      proof (cases "key y < key a")
        case less: True
        with True Some Cons.prems have "x = y" by simp
        with True Some less show ?thesis by (intro later) simp_all
      next
        case False
        with True Some Cons.prems have "x = a" by simp
        moreover have "key a \<le> key z" if "z \<in> set (filter P xs)" for z
          using min_by_key_spec(2) [OF Some] that False by (meson not_less order_trans)
        ultimately show ?thesis using True first by blast
      qed
    qed
  qed
  then show ?case
  proof cases
    case first
    then have "P (xs ! j) \<longrightarrow> key a \<le> key (xs ! j)" if "j < length xs" for j using that by simp
    then have "P ((a # xs) ! j) \<longrightarrow> key a \<le> key ((a # xs) ! j)" if "j < length (a # xs)" for j
      using that by (cases j) auto
    with first show ?thesis by (intro exI [of _ 0]) simp
  next
    case skip
    from Cons.IH [OF skip(2)] obtain i where i: "i < length xs" "xs ! i = x" "P x"
      "\<forall>j < length xs. P (xs ! j) \<longrightarrow> key x \<le> key (xs ! j) \<and> (j < i \<longrightarrow> key x < key (xs ! j))" by blast
    have "P ((a # xs) ! j) \<longrightarrow> key x \<le> key ((a # xs) ! j) \<and> (j < Suc i \<longrightarrow> key x < key ((a # xs) ! j))"
      if "j < length (a # xs)" for j using that i(4) skip by (cases j) auto
    with i show ?thesis by (intro exI [of _ "Suc i"]) simp
  next
    case later
    from Cons.IH [OF later(2)] obtain i where i: "i < length xs" "xs ! i = x" "P x"
      "\<forall>j < length xs. P (xs ! j) \<longrightarrow> key x \<le> key (xs ! j) \<and> (j < i \<longrightarrow> key x < key (xs ! j))" by blast
    have "P ((a # xs) ! j) \<longrightarrow> key x \<le> key ((a # xs) ! j) \<and> (j < Suc i \<longrightarrow> key x < key ((a # xs) ! j))"
      if "j < length (a # xs)" for j using that i(4) later by (cases j) auto
    with i show ?thesis by (intro exI [of _ "Suc i"]) simp
  qed
qed

section \<open>The verbs in detail\<close>

lemma nth_agent_sijil [simp]: "nth_agent (sijil_record a ev d l s) g = nth_agent s g"
  by (simp add: nth_agent_def)

lemma nth_request_sijil [simp]: "nth_request (sijil_record a ev d l s) r = nth_request s r"
  by (simp add: nth_request_def)

lemma pay_true:
  assumes inv: "gate_inv s" and p: "pay agent cost burns s = (True, s')" and bb: "burns \<longrightarrow> burnable s agent"
  shows "has_agent s agent" "cost \<le> remaining_micro_dollars (a_budget (nth_agent s agent))"
    and "a_budget (nth_agent s' agent) = (a_budget (nth_agent s agent))\<lparr>spent_micro_dollars :=
      spent_micro_dollars (a_budget (nth_agent s agent)) + cost\<rparr>"
    and "a_state (nth_agent s' agent) = a_state (nth_agent s agent)"
    and "slots s' = slots s" "ring s' = ring s" "clock s' = clock s" "clock_reads s' = clock_reads s"
    and "burns \<Longrightarrow> awaiting (nth_agent s' agent) = None"
    and "burns \<Longrightarrow> awaiting (nth_agent s agent) = Some r \<Longrightarrow> q_consumed (nth_request s' r)"
proof -
  have b: "burns \<Longrightarrow> burnable s agent" using bb by simp
  have ids: "ids_ok s" and aok: "approvals_ok s" using inv by (simp_all add: gate_inv_def)
  let ?a = "nth_agent s agent" and ?s1 = "update_agent agent (paid cost) s"
  from p pay_eq [OF inv, of agent cost burns] show ag: "has_agent s agent"
    and le: "cost \<le> remaining_micro_dollars (a_budget ?a)" by (auto simp: not_less split: if_splits)
  have eq: "s' = (if burns then burn agent ?a ?s1 else ?s1)"
    using p pay_eq [OF inv, of agent cost burns] ag le by (auto simp: not_less split: if_splits)
  have n1: "nth_agent ?s1 agent = paid cost ?a" by (rule nth_agent_update [OF ids ag])
  have al: "allowed s ?a (paid cost ?a)" using le by (intro allowed_paid [OF inv ag]) simp
  have inv1: "gate_inv ?s1" using al by (intro gate_inv_update_agent [OF inv])
  have ids1: "ids_ok ?s1" using inv1 by (simp add: gate_inv_def)
  have ag1: "has_agent ?s1 agent" using ag by simp
  have nb: "nth_agent (burn agent ?a ?s1) agent = (paid cost ?a)\<lparr>awaiting := None\<rparr>" if burns
  proof -
    have "burnable ?s1 agent" "awaiting ?a = awaiting (nth_agent ?s1 agent)"
      using b [OF that] by (simp_all add: burnable_def n1 paid_def has_request_def nth_request_def)
    from burn_spec(4) [OF inv1 ag1 this]
    have "nth_agent (burn agent ?a ?s1) agent =
        nth_agent (update_agent agent (\<lambda>a. a\<lparr>awaiting := None\<rparr>) ?s1) agent"
      by (simp only: nth_agent_def)
    also have "\<dots> = (nth_agent ?s1 agent)\<lparr>awaiting := None\<rparr>" by (rule nth_agent_update [OF ids1 ag1])
    finally show ?thesis by (simp only: n1)
  qed
  show "a_budget (nth_agent s' agent) = (a_budget ?a)\<lparr>spent_micro_dollars := spent_micro_dollars (a_budget ?a) + cost\<rparr>"
    "a_state (nth_agent s' agent) = a_state ?a"
    "burns \<Longrightarrow> awaiting (nth_agent s' agent) = None"
    using n1 nb by (auto simp: eq paid_def)
  show "slots s' = slots s" "ring s' = ring s" "clock s' = clock s" "clock_reads s' = clock_reads s"
    by (auto simp: eq burn_def split: option.split)
  show "q_consumed (nth_request s' r)" if burns: burns and r: "awaiting ?a = Some r"
  proof -
    from b [OF burns] r have hr: "has_request s r" by (auto simp: burnable_def)
    then have "unat r - 1 < length (approvals s)" by (auto simp: has_request_def)
    then show ?thesis
      using burns r hr update_request_eq [OF aok, of r "\<lambda>q. q\<lparr>q_consumed := True\<rparr>"]
      by (simp add: eq burn_def nth_request_def)
  qed
qed

lemma pay_false:
  assumes inv: "gate_inv s" and p: "pay agent cost burns s = (False, s')" and ag: "has_agent s agent"
  shows "remaining_micro_dollars (a_budget (nth_agent s agent)) < cost"
    and "a_state (nth_agent s' agent) = Suspended"
    and "a_budget (nth_agent s' agent) = a_budget (nth_agent s agent)"
    and "approvals s' = approvals s" "slots s' = slots s"
proof -
  have ids: "ids_ok s" using inv by (simp add: gate_inv_def)
  from p pay_eq [OF inv, of agent cost burns] ag
  show lt: "remaining_micro_dollars (a_budget (nth_agent s agent)) < cost" by (auto split: if_splits)
  with p pay_eq [OF inv, of agent cost burns] ag have "s' = update_agent agent refused s" by simp
  then show "a_state (nth_agent s' agent) = Suspended"
    "a_budget (nth_agent s' agent) = a_budget (nth_agent s agent)"
    "approvals s' = approvals s" "slots s' = slots s"
    using nth_agent_update [OF ids ag, of refused] by (simp_all add: refused_def)
qed

section \<open>A small run\<close>

text \<open>
  One agent with a budget of 1000 micro-dollars and one capability, to send. It asks for
  consent, is told yes, and sends.
\<close>

definition demo_start :: "unit gate_state" where
  "demo_start = \<lparr>clock = of_nat, clock_reads = 0, ring = ring_new, slots = [], agents = [],
     approvals = [], next_agent_id = 0, next_approval_id = 0, ticks = 0\<rparr>"

definition demo_ready :: "unit gate_state" where
  "demo_ready = snd (grant 1 (Send False)
     (snd (spawn (lit ''a'') 0 (budget_new 1000 0) 100 () (gate_init demo_start))))"

definition demo_asked :: "unit gate_state" where
  "demo_asked = snd (request_approval 1 (Capability 0) (lit ''b'') demo_ready)"

definition demo_yes :: "unit gate_state" where
  "demo_yes = answer_approval 1 True demo_asked"

definition demo_sent :: "unit gate_state" where
  "demo_sent = snd (invoke 1 (Capability 0) demo_yes)"

lemma demo_ready_steps: "gate_steps (gate_init demo_start) 0 demo_ready"
proof -
  have 1: "gate_step (gate_init demo_start) 0
      (snd (spawn (lit ''a'') 0 (budget_new 1000 0) 100 () (gate_init demo_start)))"
    by (rule do_spawn) (simp add: gate_init_def)
  show ?thesis
    unfolding demo_ready_def using gate_steps_trans [OF gate_step_steps [OF do_grant] gate_step_steps [OF 1]]
    by simp
qed

lemma demo_asked_steps: "gate_steps (gate_init demo_start) 0 demo_asked"
proof -
  obtain res s where r: "request_approval 1 (Capability 0) (lit ''b'') demo_ready = (res, s)"
    by (metis surj_pair)
  have "approvals demo_ready = []" by code_simp
  then have "gate_step demo_ready 0 s" by (intro do_request [OF _ r]) simp
  from gate_steps_trans [OF gate_step_steps [OF this] demo_ready_steps] r show ?thesis
    by (simp add: demo_asked_def)
qed

lemma demo_yes_steps: "gate_steps (gate_init demo_start) 0 demo_yes"
  unfolding demo_yes_def
  using gate_steps_trans [OF gate_step_steps [OF do_answer] demo_asked_steps] by simp

lemma demo_invoke: "invoke 1 (Capability 0) demo_yes = (Ok (Send False), demo_sent)"
proof -
  have "fst (invoke 1 (Capability 0) demo_yes) = Ok (Send False)" by code_simp
  then show ?thesis by (simp add: demo_sent_def prod_eq_iff)
qed

lemma demo_sent_steps: "gate_steps (gate_init demo_start) 1 demo_sent"
  using gate_steps_trans [OF gate_step_steps [OF do_invoke [OF demo_invoke]] demo_yes_steps]
  by (simp add: irreversible_ok_def)

lemma demo_invs: "gate_inv demo_ready" "gate_inv demo_asked" "gate_inv demo_yes" "gate_inv demo_sent"
  using gate_steps_good [OF _ gate_init_inv] demo_ready_steps demo_asked_steps demo_yes_steps demo_sent_steps
  by (auto simp: good_step_def)

section \<open>Properties\<close>

text \<open>
  C1: one yes, one action. Over every history of kernel operations from boot, the number of
  irreversible crossings the gate let through (sends that are not drafts, and spends) is the
  number of approval requests that were consumed, and that is at most the number of requests a
  human answered with yes: no yes is used twice, and none is used that was not given.
\<close>

theorem one_yes_one_action:
  assumes "gate_steps (gate_init s0) k s"
  shows "k = length (filter q_consumed (approvals s)) \<and>
    k \<le> length (filter (\<lambda>q. q_answered q = Some True) (approvals s)) \<and>
    (\<forall>q \<in> set (approvals s). q_consumed q \<longrightarrow> q_answered q = Some True)"
proof -
  have g: "good_step (gate_init s0) k s" by (rule gate_steps_good [OF assms gate_init_inv])
  then have ok: "approvals_ok s" by (simp add: good_step_def gate_inv_def)
  have "consumed_count (gate_init s0) = 0" by (simp add: consumed_count_def gate_init_def)
  with g have "k = consumed_count s" by (simp add: good_step_def)
  with consumed_le_yes [OF ok] ok show ?thesis
    by (simp add: consumed_count_def yes_count_def approvals_ok_def)
qed

theorem one_yes_one_action_witness:
  "length (filter q_consumed (approvals demo_sent)) = 1 \<and>
   length (filter (\<lambda>q. q_answered q = Some True) (approvals demo_sent)) \<ge> 1"
  using one_yes_one_action [OF demo_sent_steps] by simp



text \<open>
  C12: consent cannot be worn down. At every moment of every history from boot, no agent has
  more than four unanswered approval requests, and every request an agent waits for is one of
  its own.
\<close>

theorem approval_flood_bounded:
  assumes "gate_steps (gate_init s0) k s"
  shows "length (filter (\<lambda>q. q_agent q = agent \<and> q_answered q = None) (approvals s)) \<le> 4 \<and>
    (\<forall>a \<in> set (agents s). \<forall>r. awaiting a = Some r \<longrightarrow>
      (\<exists>q \<in> set (approvals s). q_id q = r \<and> q_agent q = a_id a))"
proof -
  have inv: "gate_inv s" using gate_steps_good [OF assms gate_init_inv] by (simp add: good_step_def)
  then have ok: "approvals_ok s" by (simp add: gate_inv_def)
  have "\<exists>q \<in> set (approvals s). q_id q = r \<and> q_agent q = a_id a"
    if "a \<in> set (agents s)" "awaiting a = Some r" for a r
  proof -
    obtain n where n: "n = unat r - 1" by blast
    have "awaiting_ok (approvals s) a" using inv that(1) by (simp add: gate_inv_def)
    then have r: "n < length (approvals s)" "unat r = n + 1" "q_agent (approvals s ! n) = a_id a"
      using that(2) by (auto simp: awaiting_ok_def n)
    with approvals_ok_id [OF ok r(1)] show ?thesis by (intro bexI [of _ "approvals s ! n"]) auto
  qed
  with inv show ?thesis
    by (simp add: gate_inv_def pending_ok_def pending_of_def MAX_PENDING_APPROVALS_def)
qed

theorem approval_flood_bounded_witness:
  "length (filter (\<lambda>q. q_agent q = 1 \<and> q_answered q = None) (approvals demo_asked)) \<le> 4 \<and>
   length (filter (\<lambda>q. q_agent q = 1 \<and> q_answered q = None) (approvals demo_asked)) = 1"
proof -
  have "length (filter (\<lambda>q. q_agent q = 1 \<and> q_answered q = None) (approvals demo_asked)) = 1"
    by code_simp
  with approval_flood_bounded [OF demo_asked_steps, of 1] show ?thesis by simp
qed

text \<open>What \<open>pay\<close> leaves of the paying agent, as one predicate for the two crossings.\<close>

definition charged_for :: "'p gate_state \<Rightarrow> agent_id \<Rightarrow> u64 \<Rightarrow> 'p gate_state \<Rightarrow> bool" where
  "charged_for s agent cost s' \<longleftrightarrow> has_agent s agent \<and>
     unat cost \<le> unat (micro_dollars (a_budget (nth_agent s agent)))
                 - unat (spent_micro_dollars (a_budget (nth_agent s agent))) \<and>
     micro_dollars (a_budget (nth_agent s' agent)) = micro_dollars (a_budget (nth_agent s agent)) \<and>
     unat (spent_micro_dollars (a_budget (nth_agent s' agent))) =
       unat (spent_micro_dollars (a_budget (nth_agent s agent))) + unat cost \<and>
     a_state (nth_agent s' agent) = a_state (nth_agent s agent) \<and> slots s' = slots s"

definition used_up :: "'p gate_state \<Rightarrow> agent_id \<Rightarrow> capability \<Rightarrow> 'p gate_state \<Rightarrow> bool" where
  "used_up s agent c s' \<longleftrightarrow> (\<exists>r. awaiting (nth_agent s agent) = Some r \<and>
     approval_matches r agent c (nth_request s r) \<and> q_consumed (nth_request s' r) \<and>
     awaiting (nth_agent s' agent) = None)"

definition out_of_money :: "'p gate_state \<Rightarrow> agent_id \<Rightarrow> u64 \<Rightarrow> 'p gate_state \<Rightarrow> bool" where
  "out_of_money s agent cost s' \<longleftrightarrow> slots s' = slots s \<and> approvals s' = approvals s \<and>
     (has_agent s agent \<longrightarrow>
       unat (micro_dollars (a_budget (nth_agent s agent)))
         - unat (spent_micro_dollars (a_budget (nth_agent s agent))) < unat cost \<and>
       a_state (nth_agent s' agent) = Suspended \<and>
       a_budget (nth_agent s' agent) = a_budget (nth_agent s agent))"

lemma charged_for_sijil [simp]:
  "charged_for s agent cost (sijil_record a ev d l s') = charged_for s agent cost s'"
  "used_up s agent c (sijil_record a ev d l s') = used_up s agent c s'"
  "out_of_money s agent cost (sijil_record a ev d l s') = out_of_money s agent cost s'"
  by (simp_all add: charged_for_def used_up_def out_of_money_def)

lemma pay_charged:
  assumes inv: "gate_inv s" and p: "pay agent cost burns s = (True, s')"
    and b: "burns \<longrightarrow> has_approval agent c s"
  shows "charged_for s agent cost s'" "burns \<Longrightarrow> used_up s agent c s'"
proof -
  have bb: "burns \<longrightarrow> burnable s agent" using b has_approval_burnable [OF inv] by blast
  note t = pay_true [OF inv p bb]
  show "charged_for s agent cost s'"
    using t(1,3,4,5) pay_in_budget(1) [OF t(2)] t(2)
    by (simp add: charged_for_def word_le_nat_alt unat_remaining)
  assume burns
  with b has_approval_eq [OF inv, of agent c] obtain r where
    r: "awaiting (nth_agent s agent) = Some r" "approval_matches r agent c (nth_request s r)" by auto
  with t(9) [OF \<open>burns\<close>] t(10) [OF \<open>burns\<close> r(1)] show "used_up s agent c s'"
    by (auto simp: used_up_def)
qed

lemma pay_refused:
  assumes inv: "gate_inv s" and p: "pay agent cost burns s = (False, s')"
  shows "out_of_money s agent cost s'"
proof (cases "has_agent s agent")
  case True
  from pay_false [OF inv p True] show ?thesis
    by (simp add: out_of_money_def word_less_nat_alt unat_remaining)
next
  case False
  with p pay_eq [OF inv, of agent cost burns] show ?thesis by (simp add: out_of_money_def)
qed

lemma invoke_cases:
  assumes "gate_inv s" "invoke agent c s = (res, s')"
  shows "case res of
      Inr auth \<Rightarrow>
        (\<exists>slot. lookup (slots s) c agent = Ok slot \<and> authority slot = auth) \<and>
        charged_for s agent (price_of auth) s' \<and>
        (authority_risk auth = Irreversible \<longrightarrow> used_up s agent c s')
    | Inl BudgetExhausted \<Rightarrow> (\<exists>slot. lookup (slots s) c agent = Ok slot \<and>
        out_of_money s agent (price_of (authority slot)) s')
    | Inl _ \<Rightarrow> agents s' = agents s \<and> approvals s' = approvals s \<and> slots s' = slots s"
proof -
  let ?ok = "has_approval agent c s"
  obtain r1 s1 where a: "authorize agent c ?ok s = (r1, s1)" by (metis surj_pair)
  show ?thesis
  proof (cases r1)
    case (Inl e)
    have "e \<noteq> BudgetExhausted"
      using a Inl by (auto simp: authorize_def lookup_def Let_def split: if_splits sum.splits)
    moreover have "agents s1 = agents s" "approvals s1 = approvals s" "slots s1 = slots s"
      using a by (auto simp: authorize_def Let_def split: sum.splits if_splits)
    ultimately show ?thesis using assms(2) a Inl by (auto simp: invoke_def split: denied.split)
  next
    case (Inr auth)
    then have s1: "s1 = s" using a authorize_unchanged [of agent c ?ok s auth] by simp
    from a Inr authorize_result [of agent c ?ok s auth] obtain slot where
      l: "lookup (slots s) c agent = Ok slot" "auth = authority slot"
      and irr: "authority_risk auth = Irreversible \<longrightarrow> ?ok" by auto
    obtain ok s2 where p: "pay agent (price_of auth) (authority_risk auth = Irreversible) s = (ok, s2)"
      by (metis surj_pair)
    show ?thesis
    proof (cases ok)
      case True
      with p have p: "pay agent (price_of auth) (authority_risk auth = Irreversible) s = (True, s2)" by simp
      with pay_charged [OF assms(1) p irr] assms(2) a Inr s1 l show ?thesis by (auto simp: invoke_def)
    next
      case False
      with p have p: "pay agent (price_of auth) (authority_risk auth = Irreversible) s = (False, s2)" by simp
      with pay_refused [OF assms(1) p] assms(2) a Inr s1 l show ?thesis by (auto simp: invoke_def)
    qed
  qed
qed

text \<open>
  C7: the crossing. When \<open>invoke\<close> succeeds, the capability is live and held by the agent, its
  authority is what is returned, the list price was covered by the budget and exactly the price
  is added to the money spent, and an irreversible action has used up an approval given for
  this capability; the newest journal entry says so. When the budget does not cover the price,
  the agent is suspended, pays nothing, and keeps its approval. After any other denial the
  agents, the approvals and the table are unchanged.
\<close>

theorem invoke_law:
  assumes "gate_inv s" "invoke agent c s = (res, s')"
  shows "case res of
      Inr auth \<Rightarrow>
        (\<exists>slot. lookup (slots s) c agent = Ok slot \<and> authority slot = auth) \<and>
        charged_for s agent (price_of auth) s' \<and>
        (authority_risk auth = Irreversible \<longrightarrow> used_up s agent c s')
    | Inl BudgetExhausted \<Rightarrow> (\<exists>slot. lookup (slots s) c agent = Ok slot \<and>
        out_of_money s agent (price_of (authority slot)) s')
    | Inl _ \<Rightarrow> agents s' = agents s \<and> approvals s' = approvals s \<and> slots s' = slots s"
  by (rule invoke_cases [OF assms])

theorem invoke_law_witness:
  "charged_for demo_yes 1 200 demo_sent \<and> used_up demo_yes 1 (Capability 0) demo_sent"
  using invoke_law [OF demo_invs(3) demo_invoke] by simp



lemma update_first_snoc:
  "\<lbrakk>\<forall>y \<in> set xs. \<not> P y; P x\<rbrakk> \<Longrightarrow> update_first P f (xs @ [x]) = xs @ [f x]"
  by (induction xs) auto

text \<open>What a successful delegation leaves: the parent pays, the child is the newest agent.\<close>

definition child_of :: "'p gate_state \<Rightarrow> agent_id \<Rightarrow> str \<Rightarrow> u64 \<Rightarrow> u64 \<Rightarrow> 'p agent \<Rightarrow> bool" where
  "child_of s p g micro wall x \<longleftrightarrow> a_id x = next_agent_id s \<and> a_parent x = p \<and> goal x = label_new g \<and>
     a_state x = Runnable \<and> a_budget x = budget_new micro wall \<and> awaiting x = None \<and>
     sv_iter (capabilities x) = [Capability (length (slots s))]"

lemma delegate_ok:
  assumes inv: "gate_inv s" and room: "length (agents s) + 1 < 2 ^ 32 - 1"
    and can: "fst (can_delegate p c n s) = Ok ()" and ag: "has_agent s p"
    and cv: "carve (a_budget (nth_agent s p)) micro wall = Some (pb, cb)"
  shows "\<exists>x. child_of s p g micro wall x \<and>
    fst (gate_delegate p g c n micro wall fn s) = Ok (next_agent_id s) \<and>
    agents (snd (gate_delegate p g c n micro wall fn s)) =
      (agents s)[unat p - 1 := (nth_agent s p)\<lparr>a_budget := pb\<rparr>] @ [x] \<and>
    slots (snd (gate_delegate p g c n micro wall fn s)) = slots s @
      [\<lparr>authority = n, holder = next_agent_id s, parent = Some (cap_index c), revoked = False\<rparr>]"
proof -
  have ids: "ids_ok s" using inv by (simp add: gate_inv_def)
  let ?child = "next_agent_id s" and ?s1 = "update_agent p (\<lambda>a. a\<lparr>a_budget := pb\<rparr>) s"
  let ?x = "new_agent g p cb (max wall 1000) fn ?s1"
  obtain s2 where sp: "spawn g p cb (max wall 1000) fn ?s1 = (?child, s2)" by (simp add: spawn_eq)
  have ags1: "agents ?s1 = (agents s)[unat p - 1 := (nth_agent s p)\<lparr>a_budget := pb\<rparr>]"
    using ag by (simp add: update_agent_eq [OF ids])
  have ags2: "agents s2 = agents ?s1 @ [?x]" and sl2: "slots s2 = slots s"
    using sp by (auto simp: spawn_eq)
  have "unat ?child = length (agents s) + 1"
    using ids unat_of_nat_small [where 'a = 32, of "length (agents s) + 1"] room
    by (simp only: ids_ok_def) simp
  then have "\<not> has_agent s ?child" by (simp add: has_agent_def)
  then have "find_agent s ?child = None" by (simp add: find_agent_eq [OF ids])
  then have "\<forall>y \<in> set (agents s). a_id y \<noteq> ?child" by (simp add: find_agent_def find_None_iff)
  then have fresh: "\<forall>y \<in> set (agents ?s1). a_id y \<noteq> ?child"
    using ag nth_agent_in [OF ag]
    by (auto simp: ags1 dest!: set_update_subset_insert [THEN subsetD])
  note da = delegate_after_check [OF can sl2, of ?child]
  obtain s3 where d: "aman_delegate p ?child c n s2 = (Ok (Capability (length (slots s))), s3)"
    using da(1) by (metis prod.collapse)
  have ags3: "agents s3 = agents ?s1 @ [?x]"
    using ags2 d by (auto simp: aman_delegate_def Let_def split: sum.splits)
  let ?y = "?x\<lparr>capabilities := fst (sv_push (capabilities ?x) (Capability (length (slots s))))\<rparr>"
  have D: "gate_delegate p g c n micro wall fn s =
      (Ok ?child, fst (store_capability ?child (Capability (length (slots s))) s3))"
  proof -
    have 1: "can_delegate p c n s = (Ok (), s)"
      using can can_delegate_unchanged [OF can] by (metis prod.collapse)
    have 2: "Option.bind (find_agent s p) (\<lambda>found. carve (a_budget found) micro wall) = Some (pb, cb)"
      using ag cv gate_inv_find [OF inv, of p] by simp
    show ?thesis unfolding gate_delegate_def by (simp only: 1 2 sp d Let_def split_conv prod.case sum.case option.case)
  qed
  have "agents (snd (gate_delegate p g c n micro wall fn s)) = agents ?s1 @ [?y]"
    using fresh by (simp add: D store_capability_def update_agent_def ags3)
      (subst update_first_snoc, auto simp: new_agent_def)
  moreover have "cb = budget_new micro wall" by (rule carve_Some(1) [OF cv])
  then have "child_of s p g micro wall ?y"
    by (simp add: child_of_def new_agent_def sv_push_def sv_new_def sv_iter_def MAX_CAPABILITIES_def)
  moreover have "slots (snd (gate_delegate p g c n micro wall fn s)) = slots s3"
    by (simp add: D store_capability_def)
  ultimately show ?thesis using da(2) d D ags1 by (intro exI [of _ ?y]) simp
qed

lemma delegate_err:
  assumes inv: "gate_inv s" and r: "gate_delegate p g c n micro wall fn s = (Err e, s')"
    and room: "length (agents s) + 1 < 2 ^ 32 - 1"
  shows "agents s' = agents s \<and> slots s' = slots s \<and> approvals s' = approvals s \<and>
    next_agent_id s' = next_agent_id s"
proof -
  obtain r0 s0 where can: "can_delegate p c n s = (r0, s0)" by (metis surj_pair)
  show ?thesis
  proof (cases r0)
    case (Inl d)
    with can r have "s' = s0" by (simp add: gate_delegate_def)
    moreover have "s0 = snd (can_delegate p c n s)" using can by simp
    ultimately show ?thesis by (simp add: can_delegate_def Let_def split: sum.split)
  next
    case (Inr u)
    then have ok: "fst (can_delegate p c n s) = Ok ()" using can by simp
    with can can_delegate_unchanged have s0: "s0 = s" by fastforce
    show ?thesis
    proof (cases "Option.bind (find_agent s p) (\<lambda>found. carve (a_budget found) micro wall)")
      case None
      with can Inr s0 r show ?thesis by (auto simp: gate_delegate_def Let_def)
    next
      case (Some bs)
      obtain pb cb where "bs = (pb, cb)" by (metis surj_pair)
      with Some have "has_agent s p" "carve (a_budget (nth_agent s p)) micro wall = Some (pb, cb)"
        using gate_inv_find [OF inv, of p] by (auto simp: bind_eq_Some_conv split: if_splits)
      with delegate_ok [OF inv room ok, of micro wall pb cb g fn] r show ?thesis by auto
    qed
  qed
qed

lemma delegate_ok_checked:
  assumes inv: "gate_inv s" and r: "gate_delegate p g c n micro wall fn s = (Ok child, s')"
  shows "fst (can_delegate p c n s) = Ok ()" "has_agent s p"
    "\<exists>pb cb. carve (a_budget (nth_agent s p)) micro wall = Some (pb, cb)"
proof -
  obtain r0 s0 where can: "can_delegate p c n s = (r0, s0)" by (metis surj_pair)
  show ok: "fst (can_delegate p c n s) = Ok ()" using r can by (cases r0) (auto simp: gate_delegate_def)
  then have "s0 = s" using can can_delegate_unchanged by fastforce
  then obtain bs where "Option.bind (find_agent s p) (\<lambda>found. carve (a_budget found) micro wall) = Some bs"
    using r can ok by (fastforce simp: gate_delegate_def Let_def split: option.splits)
  then show "has_agent s p" "\<exists>pb cb. carve (a_budget (nth_agent s p)) micro wall = Some (pb, cb)"
    using gate_inv_find [OF inv, of p] by (auto simp: bind_eq_Some_conv split: if_splits)
qed

text \<open>
  C8: delegation is all or nothing, and narrows. If it is refused, no child exists, no money
  has moved and no capability was minted. If it succeeds, the parent held a live capability that
  covers the child's authority; the child is the newest agent, with exactly the carved budget
  and exactly one capability, whose slot records the narrowed authority and where it came from;
  the parent's money spent grew by exactly the child's budget; no other agent changed.
\<close>

theorem delegate_law:
  assumes "gate_inv s" "length (agents s) + 1 < 2 ^ 32 - 1"
    and "gate_delegate p g c n micro wall fn s = (res, s')"
  shows "case res of
      Inl _ \<Rightarrow> agents s' = agents s \<and> slots s' = slots s \<and> approvals s' = approvals s
    | Inr child \<Rightarrow> has_agent s p \<and> child = next_agent_id s \<and>
        (\<exists>slot. lookup (slots s) c p = Ok slot \<and> is_subset_of n (authority slot)) \<and>
        (\<exists>pb cb x. carve (a_budget (nth_agent s p)) micro wall = Some (pb, cb) \<and>
          child_of s p g micro wall x \<and>
          agents s' = (agents s)[unat p - 1 := (nth_agent s p)\<lparr>a_budget := pb\<rparr>] @ [x] \<and>
          unat (spent_micro_dollars pb) =
            unat (spent_micro_dollars (a_budget (nth_agent s p))) + unat micro \<and>
          unat (spent_micro_dollars pb) \<le> max (unat (micro_dollars (a_budget (nth_agent s p))))
            (unat (spent_micro_dollars (a_budget (nth_agent s p))))) \<and>
        slots s' = slots s @
          [\<lparr>authority = n, holder = child, parent = Some (cap_index c), revoked = False\<rparr>]"
proof (cases res)
  case (Inl e)
  with delegate_err [OF assms(1) _ assms(2)] assms(3) show ?thesis by simp
next
  case (Inr child)
  with assms(3) have r: "gate_delegate p g c n micro wall fn s = (Ok child, s')" by simp
  note ck = delegate_ok_checked [OF assms(1) r]
  from ck(3) obtain pb cb where cv: "carve (a_budget (nth_agent s p)) micro wall = Some (pb, cb)" by auto
  from ck(1) have l: "\<exists>slot. lookup (slots s) c p = Ok slot \<and> is_subset_of n (authority slot)"
    by (simp add: can_delegate_result)
  from delegate_ok [OF assms(1,2) ck(1,2) cv, of g fn] r l cv carve_Some(4,5) [OF cv] ck(2) Inr
  show ?thesis by auto
qed

theorem delegate_law_witness:
  "fst (gate_delegate 1 (lit ''kid'') (Capability 0) (Send True) 300 0 () demo_ready) = Ok 2 \<and>
   length (slots (snd (gate_delegate 1 (lit ''kid'') (Capability 0) (Send True) 300 0 () demo_ready))) = 2"
proof -
  have f: "fst (gate_delegate 1 (lit ''kid'') (Capability 0) (Send True) 300 0 () demo_ready) = Ok 2"
    and l: "length (agents demo_ready) = 1" "length (slots demo_ready) = 1"
    by code_simp+
  then obtain s' where r: "gate_delegate 1 (lit ''kid'') (Capability 0) (Send True) 300 0 () demo_ready = (Ok 2, s')"
    by (metis prod.collapse)
  from delegate_law [OF demo_invs(1) _ r] l have "length (slots s') = 2" by auto
  with r f show ?thesis by simp
qed

text \<open>
  Earliest deadline first. The scheduler picks a runnable agent that has neither money nor
  time exhausted, whose deadline is the least among those, the longest spawned on a tie; and it
  picks none exactly when no agent is runnable with budget left.
\<close>

theorem earliest_deadline_first:
  "(next_runnable s = None \<longleftrightarrow>
     (\<forall>a \<in> set (agents s). a_state a = Runnable \<longrightarrow> exhausted (a_budget a))) \<and>
   (\<forall>agent. next_runnable s = Some agent \<longrightarrow> (\<exists>i < length (agents s).
      a_id (agents s ! i) = agent \<and> a_state (agents s ! i) = Runnable \<and>
      \<not> exhausted (a_budget (agents s ! i)) \<and>
      (\<forall>j < length (agents s). a_state (agents s ! j) = Runnable \<and> \<not> exhausted (a_budget (agents s ! j)) \<longrightarrow>
         deadline (agents s ! i) \<le> deadline (agents s ! j) \<and>
         (j < i \<longrightarrow> deadline (agents s ! i) < deadline (agents s ! j)))))"
proof (intro conjI allI impI)
  show "next_runnable s = None \<longleftrightarrow>
     (\<forall>a \<in> set (agents s). a_state a = Runnable \<longrightarrow> exhausted (a_budget a))"
    by (auto simp: next_runnable_def min_by_key_spec(1) filter_empty_conv)
next
  fix agent assume "next_runnable s = Some agent"
  then obtain x where "min_by_key deadline
      (filter (\<lambda>a. a_state a = Runnable \<and> \<not> exhausted (a_budget a)) (agents s)) = Some x" "a_id x = agent"
    by (auto simp: next_runnable_def)
  from min_by_key_filter [OF this(1)] this(2)
  show "\<exists>i < length (agents s).
      a_id (agents s ! i) = agent \<and> a_state (agents s ! i) = Runnable \<and>
      \<not> exhausted (a_budget (agents s ! i)) \<and>
      (\<forall>j < length (agents s). a_state (agents s ! j) = Runnable \<and> \<not> exhausted (a_budget (agents s ! j)) \<longrightarrow>
         deadline (agents s ! i) \<le> deadline (agents s ! j) \<and>
         (j < i \<longrightarrow> deadline (agents s ! i) < deadline (agents s ! j)))"
    by auto
qed

theorem earliest_deadline_first_witness:
  "next_runnable demo_ready = Some 1 \<and> (\<exists>i < length (agents demo_ready). a_id (agents demo_ready ! i) = 1)"
proof -
  have "next_runnable demo_ready = Some 1" by code_simp
  with earliest_deadline_first [of demo_ready] show ?thesis by blast
qed

lemma nth_agent_frame [simp]:
  "nth_agent (s\<lparr>approvals := qs\<rparr>) agent = nth_agent s agent"
  "nth_agent (snd (now_microseconds s)) agent = nth_agent s agent"
  by (simp_all add: nth_agent_def)

lemma finish_suspended:
  assumes inv: "gate_inv s" and ag: "has_agent s agent" and st: "a_state (nth_agent s agent) = Suspended"
  shows "\<exists>s'. finish_step agent cur elapsed progress s = (True, False, s') \<and>
    a_state (nth_agent s' agent) = Suspended"
proof -
  have ids: "ids_ok s" using inv by (simp add: gate_inv_def)
  let ?s' = "update_agent agent (\<lambda>a. a\<lparr>cursor := cur, a_budget := (a_budget (nth_agent s agent))\<lparr>
    used_microseconds := used_microseconds (a_budget (nth_agent s agent)) + elapsed\<rparr>\<rparr>) s"
  have "finish_step agent cur elapsed progress s = (True, False, ?s')"
    using ag st gate_inv_find [OF inv, of agent] by (simp add: finish_step_def)
  moreover have "a_state (nth_agent ?s' agent) = Suspended"
    using st by (simp add: nth_agent_update [OF ids ag])
  ultimately show ?thesis by blast
qed

text \<open>
  C11: suspension outranks progress. If what an agent did during its step left it suspended, it
  stays suspended whatever its step function then reports, done and failed included, and the
  step does not count as a completed agent.
\<close>

theorem suspension_outranks_progress:
  assumes "has_agent s agent" "gate_inv s"
    and "run_step (step_fn (nth_agent s agent))
      \<lparr>x_id = agent, x_goal = goal (nth_agent s agent), x_capabilities = capabilities (nth_agent s agent),
       x_budget = a_budget (nth_agent s agent), x_cursor = cursor (nth_agent s agent)\<rparr>
      (snd (now_microseconds s)) = (progress, new_cursor, s1)"
    and "gate_inv s1" "has_agent s1 agent" "a_state (nth_agent s1 agent) = Suspended"
  shows "fst (run_one run_step agent s) = 0 \<and>
    a_state (nth_agent (snd (run_one run_step agent s)) agent) = Suspended"
proof -
  let ?s2 = "snd (now_microseconds s1)"
  let ?el = "saturating_sub (fst (now_microseconds s1)) (fst (now_microseconds s))"
  have "gate_inv ?s2" "has_agent ?s2 agent" "a_state (nth_agent ?s2 agent) = Suspended"
    using assms(4-6) by (simp_all add: nth_agent_def)
  from finish_suspended [OF this, of new_cursor ?el progress] obtain s3 where
    f: "finish_step agent new_cursor ?el progress ?s2 = (True, False, s3)"
    "a_state (nth_agent s3 agent) = Suspended" by blast
  have "find_agent s agent = Some (nth_agent s agent)" using assms(1) gate_inv_find [OF assms(2)] by simp
  then have "run_one run_step agent s = (0, s3)"
    unfolding run_one_def using assms(3) f by (simp add: Let_def split_beta)
  with f(2) show ?thesis by simp
qed

definition demo_poor :: "unit gate_state" where
  "demo_poor = snd (grant 1 (Model Frontier)
     (snd (spawn (lit ''a'') 0 (budget_new 100 0) 100 () (gate_init demo_start))))"

definition greedy :: "unit step_code" where
  "greedy fn ctx s = (Done, 7, snd (invoke (x_id ctx) (Capability 0) s))"

lemma demo_poor_inv: "gate_inv demo_poor"
proof -
  let ?s = "snd (spawn (lit ''a'') 0 (budget_new 100 0) 100 () (gate_init demo_start))"
  have "good_step (gate_init demo_start) 0 ?s"
    by (rule spawn_good [OF gate_init_inv]) (simp_all add: gate_init_def)
  then show ?thesis using grant_good [of ?s 1 "Model Frontier"]
    by (simp add: good_step_def demo_poor_def)
qed

theorem suspension_outranks_progress_witness:
  "fst (run_one greedy 1 demo_poor) = 0 \<and>
   a_state (nth_agent (snd (run_one greedy 1 demo_poor)) 1) = Suspended"
proof -
  let ?s0 = "snd (now_microseconds demo_poor)" and ?s1 = "snd (invoke 1 (Capability 0) (snd (now_microseconds demo_poor)))"
  have inv0: "gate_inv ?s0" using demo_poor_inv by simp
  obtain res s1 where i: "invoke 1 (Capability 0) ?s0 = (res, s1)" by (metis surj_pair)
  from invoke_good [OF inv0 i] have inv1: "gate_inv ?s1" using i by (simp add: good_step_def)
  have a0: "has_agent demo_poor 1" "has_agent ?s1 1" "a_state (nth_agent ?s1 1) = Suspended"
    unfolding has_agent_def by code_simp+
  show ?thesis
    by (rule suspension_outranks_progress [OF a0(1) demo_poor_inv _ inv1 a0(2,3)])
      (simp add: greedy_def)
qed

text \<open>
  C10: what an answer does. The first answer to a request is recorded and stands: a second one
  changes nothing at all. If the agent still waits for exactly this request, a yes makes it
  runnable, in whatever state it was before, a killed or finished agent included, and a no
  kills it; if it waits for something else or for nothing, no agent is touched, also when the
  answer is no.
\<close>

theorem answer_law:
  assumes "gate_inv s" "has_request s r" "q_answered (nth_request s r) = None"
    and "agent = q_agent (nth_request s r)" "answer_approval r yes s = s'"
  shows "q_answered (nth_request s' r) = Some yes \<and> answer_approval r again s' = s' \<and> slots s' = slots s \<and>
    (if has_agent s agent \<and> awaiting (nth_agent s agent) = Some r
     then a_state (nth_agent s' agent) = (if yes then Runnable else Killed) \<and>
          awaiting (nth_agent s' agent) = (if yes then Some r else None) \<and>
          a_budget (nth_agent s' agent) = a_budget (nth_agent s agent)
     else agents s' = agents s)"
proof -
  have aok: "approvals_ok s" and ids: "ids_ok s" using assms(1) by (simp_all add: gate_inv_def)
  obtain n where n: "n = unat r - 1" by blast
  have i: "n < length (approvals s)" using assms(2) by (auto simp: has_request_def n)
  let ?s1 = "s\<lparr>approvals := (approvals s)[n := (nth_request s r)\<lparr>q_answered := Some yes\<rparr>]\<rparr>"
  have fa: "find_agent ?s1 agent = (if has_agent s agent then Some (nth_agent s agent) else None)"
    using gate_inv_find [OF assms(1), of agent] by (simp add: find_agent_def)
  have ids1: "ids_ok ?s1" "ids_ok (snd (now_microseconds ?s1))" using ids by (simp_all add: ids_ok_def)
  have hs: "has_agent (snd (now_microseconds ?s1)) agent" "has_agent ?s1 agent" if "has_agent s agent"
    using that by (simp_all add: has_agent_def)
  note eq = answer_eq [OF aok assms(2,3), of yes, folded n assms(4), unfolded assms(5) Let_def fa]
  have app: "approvals s' = (approvals s)[n := (nth_request s r)\<lparr>q_answered := Some yes\<rparr>]"
    and sl: "slots s' = slots s"
    unfolding eq by (auto split: option.split)
  have "gate_inv s'" using answer_good [OF assms(1)] assms(5) by (auto simp: good_step_def)
  then have aok': "approvals_ok s'" by (simp add: gate_inv_def)
  have r': "has_request s' r" "q_answered (nth_request s' r) = Some yes"
    using assms(2) app i by (simp_all add: has_request_def nth_request_def n)
  then have "answer_approval r again s' = s'"
    by (simp add: answer_approval_def find_request_eq [OF aok'])
  moreover have "if has_agent s agent \<and> awaiting (nth_agent s agent) = Some r
     then a_state (nth_agent s' agent) = (if yes then Runnable else Killed) \<and>
          awaiting (nth_agent s' agent) = (if yes then Some r else None) \<and>
          a_budget (nth_agent s' agent) = a_budget (nth_agent s agent)
     else agents s' = agents s"
    unfolding eq using hs nth_agent_update [OF ids1(1)] nth_agent_update [OF ids1(2)]
    by auto
  ultimately show ?thesis using r' sl by blast
qed

text \<open>An agent whose step failed while it waited for consent.\<close>

definition demo_dead :: "unit gate_state" where
  "demo_dead = snd (snd (finish_step 1 0 0 Failed demo_asked))"

theorem answer_law_witness:
  "a_state (nth_agent demo_dead 1) = Killed \<and>
   a_state (nth_agent (answer_approval 1 True demo_dead) 1) = Runnable"
proof -
  obtain su bb s where f: "finish_step 1 0 0 Failed demo_asked = (su, bb, s)" by (metis prod_cases3)
  have inv: "gate_inv demo_dead"
    using finish_step_good [OF demo_invs(2) f] f by (simp add: good_step_def demo_dead_def)
  have h: "has_request demo_dead 1" "q_answered (nth_request demo_dead 1) = None"
    "q_agent (nth_request demo_dead 1) = 1" "has_agent demo_dead 1"
    "awaiting (nth_agent demo_dead 1) = Some 1" "a_state (nth_agent demo_dead 1) = Killed"
    unfolding has_request_def has_agent_def by code_simp+
  from answer_law [OF inv h(1,2) h(3) [symmetric] refl, of True False] h(4-6) show ?thesis by simp
qed

end
