(* ===== verification/Leb.thy ===== *)
theory Leb
  imports Utf8 "HOL-Library.Code_Target_Nat"
begin

text \<open>
  \<open>libs/wasm/src/leb.rs\<close>: the bounds-checked reader over a module's bytes and the LEB128
  integers WebAssembly is written in, with the encoders of the tests
  (\<open>libs/wasm/src/lib.rs\<close>, module \<open>build\<close>). A reading function returns its value with the
  reader after it, or the error, after which no caller reads on. \<open>usize\<close> positions are \<open>nat\<close>.
  The lemmas show that readers stay inside their bytes and only move forward, that the values
  decoded fit their width, and that what the encoders write decodes to what they were given.
\<close>

datatype lerror = LTruncated | LOverlong | LMalformed

record reader =
  r_bytes :: "byte list"
  position :: nat

definition reader_new :: "byte list \<Rightarrow> reader" where
  "reader_new bs = \<lparr>r_bytes = bs, position = 0\<rparr>"

definition reader_seek :: "reader \<Rightarrow> nat \<Rightarrow> lerror + reader" where
  "reader_seek r p = (if p > length (r_bytes r) then Err LTruncated else Ok (r\<lparr>position := p\<rparr>))"

definition reader_remaining :: "reader \<Rightarrow> nat" where
  "reader_remaining r = length (r_bytes r) - position r"

definition at_end :: "reader \<Rightarrow> bool" where
  "at_end r \<longleftrightarrow> position r \<ge> length (r_bytes r)"

definition reader_peek :: "reader \<Rightarrow> lerror + byte" where
  "reader_peek r = (if position r < length (r_bytes r) then Ok (r_bytes r ! position r) else Err LTruncated)"

definition reader_byte :: "reader \<Rightarrow> lerror + byte \<times> reader" where
  "reader_byte r =
     (if position r < length (r_bytes r)
      then Ok (r_bytes r ! position r, r\<lparr>position := position r + 1\<rparr>) else Err LTruncated)"

text \<open>\<open>checked_add\<close> on 64-bit positions; the end must lie within the bytes.\<close>

definition reader_slice :: "reader \<Rightarrow> nat \<Rightarrow> lerror + byte list \<times> reader" where
  "reader_slice r n =
     (if position r + n \<ge> 2 ^ 64 then Err LTruncated
      else if position r + n > length (r_bytes r) then Err LTruncated
      else Ok (slice_of (r_bytes r) (position r) (position r + n), r\<lparr>position := position r + n\<rparr>))"

text \<open>
  The loops run over the bytes left, from the reader's position on; \<open>n\<close> counts those read.
\<close>

fun unsigned_loop :: "nat \<Rightarrow> nat \<Rightarrow> u64 \<Rightarrow> nat \<Rightarrow> byte list \<Rightarrow> lerror + u64 \<times> nat" where
  "unsigned_loop bits shift result n [] = Err LTruncated"
| "unsigned_loop bits shift result n (b # bs) =
     (let payload = ucast (b AND 0x7f) :: u64 in
      if shift \<ge> bits \<and> payload \<noteq> 0 then Err LOverlong
      else if shift < bits \<and> shift + 7 > bits \<and> payload \<ge> push_bit (bits - shift) 1 then Err LOverlong
      else
        let result = (if shift \<ge> bits then result else result OR push_bit shift payload)
        in if b AND 0x80 = 0 then Ok (result, n + 1)
           else if shift + 7 \<ge> bits + 7 then Err LOverlong
           else unsigned_loop bits (shift + 7) result (n + 1) bs)"

definition reader_unsigned :: "reader \<Rightarrow> nat \<Rightarrow> lerror + u64 \<times> reader" where
  "reader_unsigned r bits =
     and_then (unsigned_loop bits 0 0 0 (drop (position r) (r_bytes r)))
       (\<lambda>(v, n). Ok (v, r\<lparr>position := position r + n\<rparr>))"

text \<open>\<open>i64\<close> is a 64-bit word read through \<open>sint\<close>.\<close>

fun signed_loop :: "nat \<Rightarrow> nat \<Rightarrow> u64 \<Rightarrow> nat \<Rightarrow> byte list \<Rightarrow> lerror + u64 \<times> nat" where
  "signed_loop bits shift result n [] = Err LTruncated"
| "signed_loop bits shift result n (b # bs) =
     (if shift \<ge> bits then Err LOverlong
      else
        let result = result OR push_bit shift (ucast (b AND 0x7f));
            shift = shift + 7
        in if b AND 0x80 = 0 then
             (let result = (if shift < 64 \<and> b AND 0x40 \<noteq> 0 then result OR push_bit shift (- 1) else result)
              in if bits < 64 \<and>
                    (sint result \<ge> 2 ^ (bits - 1) \<or> sint result < - (2 ^ (bits - 1)))
                 then Err LOverlong
                 else Ok (result, n + 1))
           else signed_loop bits shift result (n + 1) bs)"

definition reader_signed :: "reader \<Rightarrow> nat \<Rightarrow> lerror + u64 \<times> reader" where
  "reader_signed r bits =
     and_then (signed_loop bits 0 0 0 (drop (position r) (r_bytes r)))
       (\<lambda>(v, n). Ok (v, r\<lparr>position := position r + n\<rparr>))"

definition reader_u32 :: "reader \<Rightarrow> lerror + u32 \<times> reader" where
  "reader_u32 r = and_then (reader_unsigned r 32) (\<lambda>(v, r). Ok (ucast v, r))"

definition reader_usize :: "reader \<Rightarrow> lerror + nat \<times> reader" where
  "reader_usize r = and_then (reader_unsigned r 32) (\<lambda>(v, r). Ok (unat v, r))"

definition reader_name :: "reader \<Rightarrow> lerror + str \<times> reader" where
  "reader_name r =
     and_then (reader_usize r) (\<lambda>(n, r).
     and_then (reader_slice r n) (\<lambda>(bs, r).
       case from_utf8 bs of None \<Rightarrow> Err LMalformed | Some s \<Rightarrow> Ok (s, r)))"

section \<open>The encoders\<close>

function leb_unsigned :: "u64 \<Rightarrow> byte list" where
  "leb_unsigned v =
     (let b = ucast (v AND 0x7f); v = drop_bit 7 v
      in if v \<noteq> 0 then (b OR 0x80) # leb_unsigned v else [b])"
  by pat_completeness auto
termination
proof (relation "measure unat")
  show "wf (measure (unat :: u64 \<Rightarrow> nat))" by simp
next
  fix v x y :: u64 and b :: byte
  assume "y = drop_bit 7 v" "y \<noteq> 0"
  moreover have "unat (drop_bit 7 v) = unat v div 128" by (simp only: unat_drop_bit_eq) (simp add: drop_bit_eq_div)
  ultimately show "(y, v) \<in> measure unat" by (auto simp: unat_eq_zero intro!: div_less_dividend gr0I)
qed

declare leb_unsigned.simps [simp del]

text \<open>The shift of an \<open>i64\<close> is arithmetic.\<close>

fun leb_signed_loop :: "nat \<Rightarrow> u64 \<Rightarrow> byte list" where
  "leb_signed_loop 0 v = []"
| "leb_signed_loop (Suc n) v =
     (let b = ucast (v AND 0x7f) :: byte; v = signed_drop_bit 7 v; sign_bit = (b AND 0x40 \<noteq> 0)
      in if (v = 0 \<and> \<not> sign_bit) \<or> (v = - 1 \<and> sign_bit) then [b]
         else (b OR 0x80) # leb_signed_loop n v)"

definition leb_signed :: "u64 \<Rightarrow> byte list" where
  "leb_signed v = leb_signed_loop 10 v"
lemma group_bits_gen:
  fixes w :: u64
  assumes "k \<le> 7"
  shows "ucast ((ucast (w AND mask k) :: byte) AND mask k) = w AND mask k"
    "ucast (((ucast (w AND mask k) :: byte) OR 2 ^ k) AND mask k) = w AND mask k"
    "((ucast (w AND mask k) :: byte) OR 2 ^ k) AND 2 ^ k \<noteq> 0" "(ucast (w AND mask k) :: byte) AND 2 ^ k = 0"
    "j < k \<Longrightarrow> (ucast (w AND mask k) :: byte) AND 2 ^ j = 0 \<longleftrightarrow> \<not> bit w j"
  unfolding and_exp_eq_0_iff_not_bit using assms
  by (auto intro!: bit_word_eqI simp: bit_simps)

lemma byte_consts:
  "mask 7 = (0x7f :: 'a::len word)" "(2 :: byte) ^ 7 = 0x80" "(2 :: byte) ^ 6 = 0x40"
  by (simp_all add: mask_eq_decr_exp)

lemma group_bits:
  fixes w :: u64
  shows "ucast ((ucast (w AND 0x7f) :: byte) AND 0x7f) = w AND 0x7f"
    "ucast (((ucast (w AND 0x7f) :: byte) OR 0x80) AND 0x7f) = w AND 0x7f"
    "((ucast (w AND 0x7f) :: byte) OR 0x80) AND 0x80 \<noteq> 0" "(ucast (w AND 0x7f) :: byte) AND 0x80 = 0"
    "(ucast (w AND 0x7f) :: byte) AND 0x40 = 0 \<longleftrightarrow> \<not> bit w 6"
  by (rule group_bits_gen [where k = 7, unfolded byte_consts] group_bits_gen(5) [where k = 7 and j = 6, unfolded byte_consts]; simp)+

lemma join_group_gen:
  fixes v :: u64
  shows "(v AND mask s) OR push_bit s (drop_bit s v AND mask k) = v AND mask (s + k)"
    "(v AND mask s) OR push_bit s (signed_drop_bit s v AND mask k) = v AND mask (s + k)"
  by (rule bit_word_eqI; auto simp: bit_simps)+

lemma join_group:
  fixes v :: u64
  shows "(v AND mask s) OR push_bit s (drop_bit s v AND 0x7f) = v AND mask (s + 7)"
    "(v AND mask s) OR push_bit s (signed_drop_bit s v AND 0x7f) = v AND mask (s + 7)"
  by (rule join_group_gen [where k = 7, unfolded byte_consts])+

lemma unat_drop_bit: "unat (drop_bit n (w :: u64)) = unat w div 2 ^ n" 
  using unat_drop_bit_eq [of n w] by (simp only: drop_bit_eq_div)

lemma drop_bit_0_iff: "drop_bit k (v :: u64) = 0 \<longleftrightarrow> unat v < 2 ^ k"
  unfolding unat_eq_0 [symmetric] unat_drop_bit by (metis div_eq_0_iff power_eq_0_iff zero_neq_numeral)

lemma and_mask_whole: "drop_bit k (v :: u64) = 0 \<Longrightarrow> v AND mask k = v"
  using bits_ident [of k v] by (simp add: take_bit_eq_mask)


section \<open>Round trips\<close>

lemma unat_2p: "m < 64 \<Longrightarrow> unat (2 ^ m :: u64) = 2 ^ m"
  using unat_of_nat_small [where 'a = 64, of "2 ^ m"] power_strict_increasing [of m 64 "2 :: nat"] by simp

lemma unsigned_loop_enc:
  fixes v :: u64
  assumes bits: "bits \<le> 64" and v: "unat v < 2 ^ bits"
    and w: "w = drop_bit shift v" "shift < bits"
  shows "unsigned_loop bits shift (v AND mask shift) n (leb_unsigned w @ rest) = Ok (v, n + length (leb_unsigned w))"
  using w
proof (induction w arbitrary: shift n rule: leb_unsigned.induct)
  case (1 w)
  have fits: "shift + 7 > bits \<longrightarrow> \<not> push_bit (bits - shift) 1 \<le> w AND 0x7f"
  proof
    assume that: "shift + 7 > bits"
    have "unat w < 2 ^ (bits - shift)"
      using v 1(3) by (simp add: 1(2) unat_drop_bit less_mult_imp_div_less flip: power_add)
    moreover have "unat (w AND 0x7f) \<le> unat w" using word_and_le2 [of w "0x7f"] by (simp add: word_le_nat_alt)
    moreover have "unat (push_bit (bits - shift) 1 :: u64) = 2 ^ (bits - shift)"
      using that bits 1(3) by (simp add: push_bit_eq_mult unat_2p)
    ultimately show "\<not> push_bit (bits - shift) 1 \<le> w AND 0x7f" by (simp add: word_le_nat_alt)
  qed
  have jg: "(v AND mask shift) OR push_bit shift (w AND 0x7f) = v AND mask (shift + 7)"
    by (simp only: 1(2) join_group)
  show ?case
  proof (cases "drop_bit 7 w = 0")
    case True
    then have "drop_bit (shift + 7) v = 0" by (simp add: 1(2) add.commute)
    then have "v AND mask (shift + 7) = v" by (rule and_mask_whole)
    with True fits 1(3) jg show ?thesis
      by (auto simp: leb_unsigned.simps [of w] group_bits Let_def)
  next
    case False
    have more: "shift + 7 < bits"
    proof (rule ccontr)
      assume "\<not> shift + 7 < bits"
      with v have "unat v < 2 ^ (shift + 7)"
        by (meson not_less one_le_numeral order_less_le_trans power_increasing)
      then have "drop_bit (shift + 7) v = 0" by (simp add: drop_bit_0_iff)
      with False show False by (simp add: 1(2) add.commute)
    qed
    have "drop_bit 7 w = drop_bit (shift + 7) v" by (simp add: 1(2) add.commute)
    from 1(1) [OF refl refl False this more, of "n + 1"] False more jg show ?thesis
      by (simp add: leb_unsigned.simps [of w] group_bits Let_def)
  qed
qed

lemma reader_unsigned_enc:
  assumes "bits \<le> 64" "0 < bits" "unat v < 2 ^ bits"
    and "drop p bs = leb_unsigned v @ rest"
  shows "reader_unsigned \<lparr>r_bytes = bs, position = p\<rparr> bits =
    Ok (v, \<lparr>r_bytes = bs, position = p + length (leb_unsigned v)\<rparr>)"
  using unsigned_loop_enc [OF assms(1,3), of v 0 0 rest] assms(2,4) by (simp add: reader_unsigned_def)

text \<open>A value that fits \<open>bits\<close> signed bits repeats its sign bit from there on.\<close>

lemma signed_fits_bit:
  fixes v :: u64
  assumes "0 < bits" "bits \<le> 64" "- (2 ^ (bits - 1)) \<le> sint v" "sint v < 2 ^ (bits - 1)"
    and "bits - 1 \<le> i" "i < 64"
  shows "bit v i = bit v 63"
proof -
  have "bit (signed_take_bit (bits - 1) (sint v)) i = bit (signed_take_bit (bits - 1) (sint v)) 63"
    using assms(1,2,5,6) by (simp add: bit_signed_take_bit_iff min_def)
  with signed_take_bit_int_eq_self [OF assms(3,4)] show ?thesis
    using assms(6) by (simp add: bit_sint_iff)
qed

lemma signed_drop_all:
  fixes v :: u64
  assumes "\<And>i. k \<le> i \<Longrightarrow> i < 64 \<Longrightarrow> bit v i = bit v 63"
  shows "signed_drop_bit k v = (if bit v 63 then - 1 else 0)"
proof (rule bit_word_eqI)
  fix j assume j: "j < LENGTH(64)"
  have "bit (signed_drop_bit k v) j = bit v 63"
    using assms [of "k + j"] j by (auto simp: bit_signed_drop_bit_iff)
  with j show "bit (signed_drop_bit k v) j = bit (if bit v 63 then - 1 else 0 :: u64) j" by simp
qed

lemma signed_join_sign:
  fixes v :: u64
  assumes "signed_drop_bit k v = - 1" "k < 64"
  shows "(v AND mask k) OR push_bit k (- 1) = v"
proof -
  have "bit v i" if "k \<le> i" "i < 64" for i
  proof -
    have "bit (signed_drop_bit k v) (i - k)" using that assms by simp
    with that assms(2) show ?thesis by (auto simp: bit_simps split: if_splits)
  qed
  then show ?thesis by (intro bit_word_eqI) (auto simp: bit_simps)
qed

lemma signed_join_zero:
  fixes v :: u64
  assumes "signed_drop_bit k v = 0"
  shows "v AND mask k = v"
proof -
  have "i < k" if "bit v i" "i < 64" for i
  proof (rule ccontr)
    assume "\<not> i < k"
    then have "bit (signed_drop_bit k v) (i - k)" using that by (auto simp: bit_simps)
    with assms show False by simp
  qed
  then show ?thesis by (intro bit_word_eqI) (auto simp: bit_simps)
qed

lemma signed_loop_last:
  assumes "shift < bits" "b AND 0x80 = 0" "result OR push_bit shift (ucast (b AND 0x7f)) = x"
    and "(if shift + 7 < 64 \<and> b AND 0x40 \<noteq> 0 then x OR push_bit (shift + 7) (- 1) else x) = v"
    and "\<not> (bits < 64 \<and> (sint v \<ge> 2 ^ (bits - 1) \<or> sint v < - (2 ^ (bits - 1))))"
  shows "signed_loop bits shift result n (b # bs) = Ok (v, n + 1)"
  unfolding signed_loop.simps Let_def assms(3,4)
  using assms(2,5) assms(1) [THEN not_le [THEN iffD2]] by (simp only: if_False if_True simp_thms)

lemma signed_loop_more:
  assumes "shift < bits" "b AND 0x80 \<noteq> 0" "result OR push_bit shift (ucast (b AND 0x7f)) = x"
  shows "signed_loop bits shift result n (b # bs) = signed_loop bits (shift + 7) x (n + 1) bs"
  unfolding signed_loop.simps Let_def assms(3)
  using assms(2) assms(1) [THEN not_le [THEN iffD2]] by (simp only: if_False if_True simp_thms)

lemma signed_loop_enc:
  fixes v :: u64
  assumes bits: "0 < bits" "bits \<le> 64" and v: "- (2 ^ (bits - 1)) \<le> sint v" "sint v < 2 ^ (bits - 1)"
    and w: "w = signed_drop_bit shift v" "shift < bits" "bits \<le> shift + 7 * m"
  shows "signed_loop bits shift (v AND mask shift) n (leb_signed_loop m w @ rest) =
    Ok (v, n + length (leb_signed_loop m w))"
  using w
proof (induction m arbitrary: shift n w)
  case 0
  then show ?case by simp
next
  case (Suc m)
  have sh: "shift < 64" using Suc.prems(2) bits(2) by simp
  have w7: "signed_drop_bit 7 w = signed_drop_bit (shift + 7) v"
    using sh by (intro bit_word_eqI) (auto simp: Suc.prems(1) bit_simps ac_simps)
  have sb: "bit w 6 = bit v (min 63 (shift + 6))"
  proof -
    consider "shift < 57" | "shift = 57" | "57 < shift" by linarith
    then show ?thesis using sh by cases (auto simp: Suc.prems(1) bit_simps min_def)
  qed
  have jg: "(v AND mask shift) OR push_bit shift (w AND 0x7f) = v AND mask (shift + 7)"
    by (simp only: Suc.prems(1) join_group)
  have ok: "\<not> (bits < 64 \<and> (2 ^ (bits - 1) \<le> sint v \<or> sint v < - (2 ^ (bits - 1))))" using v by auto
  let ?fin = "(signed_drop_bit 7 w = 0 \<and> \<not> bit w 6) \<or> (signed_drop_bit 7 w = - 1 \<and> bit w 6)"
  show ?case
  proof (cases ?fin)
    case True
    have sx: "(if shift + 7 < 64 \<and> bit w 6 then (v AND mask (shift + 7)) OR push_bit (shift + 7) (- 1)
        else v AND mask (shift + 7)) = v"
    proof (cases "shift + 7 < 64")
      case True
      with \<open>?fin\<close> w7 signed_join_sign [of "shift + 7" v] signed_join_zero [of "shift + 7" v] show ?thesis
        by auto
    next
      case False
      then have "v AND mask (shift + 7) = v" by (intro bit_word_eqI) (auto simp: bit_simps)
      with False show ?thesis by simp
    qed
    have one: "leb_signed_loop (Suc m) w = [ucast (w AND 0x7f)]"
      using True by (auto simp: group_bits Let_def)
    have "signed_loop bits shift (v AND mask shift) n (ucast (w AND 0x7f) # rest) = Ok (v, n + 1)"
      by (rule signed_loop_last [OF Suc.prems(2) group_bits(4) _ _ ok])
        (use sx jg in \<open>simp_all only: group_bits not_not\<close>)
    then show ?thesis unfolding one append_Cons append_Nil by (simp only: list.size add_0 One_nat_def)
  next
    case False
    have more: "shift + 7 < bits"
    proof (rule ccontr)
      assume c: "\<not> shift + 7 < bits"
      have "bit v i = bit v 63" if "shift + 6 \<le> i" "i < 64" for i
        using c that by (intro signed_fits_bit [OF bits v]) linarith+
      note same = this
      have "signed_drop_bit (shift + 7) v = (if bit v 63 then - 1 else 0)"
        by (rule signed_drop_all) (rule same; simp)
      moreover have "bit v (min 63 (shift + 6)) = bit v 63"
      proof (cases "shift + 6 < 64")
        case True
        with same [of "shift + 6"] show ?thesis by (simp add: min_def)
      qed (simp add: min_def)
      ultimately show False using False sb w7 by (auto split: if_splits)
    qed
    have one: "leb_signed_loop (Suc m) w =
        (ucast (w AND 0x7f) OR 0x80) # leb_signed_loop m (signed_drop_bit 7 w)"
      using False by (auto simp: group_bits Let_def)
    have "signed_loop bits shift (v AND mask shift) n ((ucast (w AND 0x7f) OR 0x80) # bs) =
        signed_loop bits (shift + 7) (v AND mask (shift + 7)) (n + 1) bs" for bs
      by (rule signed_loop_more [OF Suc.prems(2) group_bits(3)]) (simp only: group_bits jg)
    moreover have "bits \<le> shift + 7 + 7 * m" using Suc.prems(3) by simp
    note Suc.IH [OF w7 more this, of "n + 1"]
    ultimately show ?thesis unfolding one append_Cons by simp
  qed
qed

lemma reader_signed_enc:
  assumes "0 < bits" "bits \<le> 64" "- (2 ^ (bits - 1)) \<le> sint v" "sint v < 2 ^ (bits - 1)"
    and "drop p bs = leb_signed v @ rest"
  shows "reader_signed \<lparr>r_bytes = bs, position = p\<rparr> bits =
    Ok (v, \<lparr>r_bytes = bs, position = p + length (leb_signed v)\<rparr>)"
  using signed_loop_enc [OF assms(1-4), of v 0 10 0 rest] assms(1,2,5)
  by (simp add: reader_signed_def leb_signed_def)

section \<open>Bounds\<close>

lemma drop_bit_0_bit: "drop_bit k (v :: u64) = 0 \<longleftrightarrow> (\<forall>i. k \<le> i \<and> i < 64 \<longrightarrow> \<not> bit v i)"
proof
  assume z: "drop_bit k v = 0"
  have "\<not> bit v i" if "k \<le> i" "i < 64" for i
  proof -
    have "\<not> bit (drop_bit k v) (i - k)" using z by simp
    with that show ?thesis by (simp add: bit_simps)
  qed
  then show "\<forall>i. k \<le> i \<and> i < 64 \<longrightarrow> \<not> bit v i" by blast
next
  assume a: "\<forall>i. k \<le> i \<and> i < 64 \<longrightarrow> \<not> bit v i"
  have "\<not> bit v (k + n)" for n
    using a bit_imp_le_length [of v "k + n"] by auto
  then show "drop_bit k v = 0" by (intro bit_word_eqI) (auto simp: bit_simps)
qed

lemma unsigned_group_fits:
  fixes r p :: u64
  assumes "drop_bit bits r = 0" "shift < bits" "bits \<le> 64" "unat p < 128"
    and "\<not> (shift + 7 > bits \<and> p \<ge> push_bit (bits - shift) 1)"
  shows "drop_bit bits (r OR push_bit shift p) = 0"
proof -
  have "unat p < 2 ^ (bits - shift)"
  proof (cases "shift + 7 > bits")
    case True
    then have "unat p < unat (push_bit (bits - shift) 1 :: u64)"
      using assms(5) by (simp add: not_le word_less_nat_alt)
    also have "\<dots> = 2 ^ (bits - shift)"
      using True assms(2,3) by (simp add: push_bit_eq_mult unat_2p)
    finally show ?thesis .
  next
    case False
    then have "(2 :: nat) ^ 7 \<le> 2 ^ (bits - shift)" by (intro power_increasing) auto
    with assms(4) show ?thesis by simp
  qed
  then have "drop_bit (bits - shift) p = 0" by (simp add: drop_bit_0_iff)
  then have p: "\<not> bit p (i - shift)" if "bits \<le> i" "i < 64" for i
    using that unfolding drop_bit_0_bit by (meson diff_le_mono diff_le_self le_less_trans)
  show ?thesis
    unfolding drop_bit_0_bit
  proof (intro allI impI)
    fix i assume i: "bits \<le> i \<and> i < 64"
    with assms(1) have "\<not> bit r i" unfolding drop_bit_0_bit by blast
    with p i show "\<not> bit (r OR push_bit shift p) i" by (auto simp: bit_simps)
  qed
qed

lemma low7_bound: "unat (ucast ((b :: byte) AND 0x7f) :: u64) < 128"
proof -
  have "unat (b AND 0x7f) \<le> unat (0x7f :: byte)" using word_and_le1 [of b "0x7f"] by (simp add: word_le_nat_alt)
  moreover have "unat (ucast (b AND 0x7f) :: u64) \<le> unat (b AND 0x7f)"
    by (simp add: unsigned_ucast_eq)
  ultimately show ?thesis by simp
qed

lemma unsigned_loop_bounds:
  assumes "unsigned_loop bits shift r n bs = Ok (v, n')" "bits \<le> 64" "drop_bit bits r = 0"
    "shift \<le> bits + 6"
  shows "unat v < 2 ^ bits \<and> n < n' \<and> n' \<le> n + length bs \<and> shift + 7 * (n' - n) \<le> bits + 13"
  using assms
proof (induction bits shift r n bs rule: unsigned_loop.induct)
  case (1 bits shift r n)
  then show ?case by simp
next
  case (2 bits shift r n b bs)
  let ?p = "ucast (b AND 0x7f) :: u64"
  let ?r = "if shift \<ge> bits then r else r OR push_bit shift ?p"
  from 2(2) have c: "\<not> (shift \<ge> bits \<and> ?p \<noteq> 0)"
    "\<not> (shift < bits \<and> shift + 7 > bits \<and> ?p \<ge> push_bit (bits - shift) 1)"
    unfolding unsigned_loop.simps Let_def by (auto split: if_splits)
  have r: "drop_bit bits ?r = 0"
    using unsigned_group_fits [OF 2(4) _ 2(3) low7_bound [of b], of shift] c(2) 2(4) by auto
  show ?case
  proof (cases "b AND 0x80 = 0")
    case True
    with 2(2) c have "v = ?r" "n' = n + 1"
      unfolding unsigned_loop.simps Let_def by (auto split: if_splits)
    with r 2(5) show ?thesis by (simp add: drop_bit_0_iff)
  next
    case False
    with 2(2) c have more: "\<not> shift + 7 \<ge> bits + 7"
      "unsigned_loop bits (shift + 7) ?r (n + 1) bs = Ok (v, n')"
      unfolding unsigned_loop.simps Let_def by (auto split: if_splits)
    from 2(1) [OF refl c refl False more(1) more(2) 2(3) r] more(1) show ?thesis by auto
  qed
qed

lemma signed_loop_bounds:
  assumes "signed_loop bits shift r n bs = Ok (v, n')"
  shows "(bits < 64 \<longrightarrow> - (2 ^ (bits - 1)) \<le> sint v \<and> sint v < 2 ^ (bits - 1)) \<and>
    n < n' \<and> n' \<le> n + length bs \<and> shift + 7 * (n' - n) < bits + 7"
  using assms
proof (induction bits shift r n bs rule: signed_loop.induct)
  case (1 bits shift r n)
  then show ?case by simp
next
  case (2 bits shift r n b bs)
  from 2(2) have sh: "\<not> shift \<ge> bits"
    unfolding signed_loop.simps Let_def by (auto split: if_splits)
  show ?case
  proof (cases "b AND 0x80 = 0")
    case True
    with 2(2) sh show ?thesis
      unfolding signed_loop.simps Let_def by (auto split: if_splits)
  next
    case False
    with 2(2) sh have "signed_loop bits (shift + 7) (r OR push_bit shift (ucast (b AND 0x7f))) (n + 1) bs = Ok (v, n')"
      unfolding signed_loop.simps Let_def by (auto split: if_splits)
    from 2(1) [OF sh refl refl False this] sh show ?thesis by auto
  qed
qed

text \<open>What every successful read leaves: the same bytes, a position further on and inside them.\<close>

definition forward :: "reader \<Rightarrow> reader \<Rightarrow> bool" where
  "forward r r' \<longleftrightarrow> r_bytes r' = r_bytes r \<and> position r \<le> position r' \<and>
     (position r \<le> length (r_bytes r) \<longrightarrow> position r' \<le> length (r_bytes r))"

lemma forward_refl [simp]: "forward r r"
  by (simp add: forward_def)

lemma forward_trans: "forward r r' \<Longrightarrow> forward r' r'' \<Longrightarrow> forward r r''"
  by (auto simp: forward_def)

lemma reader_byte_forward: "reader_byte r = Ok (b, r') \<Longrightarrow> forward r r' \<and> position r < position r'"
  by (auto simp: reader_byte_def forward_def split: if_splits)

lemma reader_slice_forward: "reader_slice r n = Ok (bs, r') \<Longrightarrow> forward r r' \<and> length bs = n"
  by (auto simp: reader_slice_def forward_def slice_of_def split: if_splits)

lemma reader_unsigned_spec:
  assumes "reader_unsigned r bits = Ok (v, r')" "bits \<le> 64"
  shows "unat v < 2 ^ bits \<and> forward r r' \<and> position r < position r' \<and>
    7 * (position r' - position r) \<le> bits + 13"
proof -
  from assms(1) obtain n where n: "unsigned_loop bits 0 0 0 (drop (position r) (r_bytes r)) = Ok (v, n)"
    "r' = r\<lparr>position := position r + n\<rparr>"
    by (auto simp: reader_unsigned_def result_simps)
  from unsigned_loop_bounds [OF n(1) assms(2)] n(2) show ?thesis by (auto simp: forward_def)
qed

lemma reader_signed_spec:
  assumes "reader_signed r bits = Ok (v, r')"
  shows "(bits < 64 \<longrightarrow> - (2 ^ (bits - 1)) \<le> sint v \<and> sint v < 2 ^ (bits - 1)) \<and>
    forward r r' \<and> position r < position r' \<and> 7 * (position r' - position r) < bits + 7"
proof -
  from assms(1) obtain n where n: "signed_loop bits 0 0 0 (drop (position r) (r_bytes r)) = Ok (v, n)"
    "r' = r\<lparr>position := position r + n\<rparr>"
    by (auto simp: reader_signed_def result_simps)
  from signed_loop_bounds [OF n(1)] n(2) show ?thesis by (auto simp: forward_def)
qed

lemma reader_usize_spec: "reader_usize r = Ok (n, r') \<Longrightarrow>
    n < 2 ^ 32 \<and> forward r r' \<and> position r < position r'"
  using reader_unsigned_spec [of r 32] by (auto simp: reader_usize_def result_simps)

lemma reader_u32_spec: "reader_u32 r = Ok (n, r') \<Longrightarrow> forward r r' \<and> position r < position r'"
  using reader_unsigned_spec [of r 32] by (auto simp: reader_u32_def result_simps)

lemma reader_name_spec: "reader_name r = Ok (s, r') \<Longrightarrow> forward r r' \<and> position r < position r'"
  by (auto simp: reader_name_def result_simps forward_def split: option.splits
      dest!: reader_usize_spec reader_slice_forward)

section \<open>Properties\<close>

text \<open>
  LEB128 numbers survive their encoding. What the encoders write for a value that fits the
  width (below \<open>2\<^sup>b\<close> unsigned; from \<open>-2\<^sup>b\<^sup>-\<^sup>1\<close> to below \<open>2\<^sup>b\<^sup>-\<^sup>1\<close> signed), wherever it
  stands in the module, decodes to that value and leaves the reader right behind it.
\<close>

theorem leb_round_trip:
  assumes "0 < bits" "bits \<le> 64"
  shows "(unat v < 2 ^ bits \<longrightarrow> reader_unsigned \<lparr>r_bytes = before @ leb_unsigned v @ after, position = length before\<rparr> bits =
      Ok (v, \<lparr>r_bytes = before @ leb_unsigned v @ after, position = length before + length (leb_unsigned v)\<rparr>)) \<and>
    (- (2 ^ (bits - 1)) \<le> sint v \<and> sint v < 2 ^ (bits - 1) \<longrightarrow>
      reader_signed \<lparr>r_bytes = before @ leb_signed v @ after, position = length before\<rparr> bits =
      Ok (v, \<lparr>r_bytes = before @ leb_signed v @ after, position = length before + length (leb_signed v)\<rparr>))"
  using reader_unsigned_enc [OF assms(2,1), of v "length before" "before @ leb_unsigned v @ after" after]
    reader_signed_enc [OF assms, of v "length before" "before @ leb_signed v @ after" after]
  by simp

theorem leb_round_trip_witness:
  "reader_unsigned \<lparr>r_bytes = [0] @ leb_unsigned 624485 @ [7], position = 1\<rparr> 32 =
     Ok (624485, \<lparr>r_bytes = [0] @ leb_unsigned 624485 @ [7], position = 1 + length (leb_unsigned 624485)\<rparr>) \<and>
   leb_unsigned 624485 = [0xe5, 0x8e, 0x26]"
proof -
  have "leb_unsigned 624485 = [0xe5, 0x8e, 0x26]" by code_simp
  moreover have "reader_unsigned \<lparr>r_bytes = [0] @ leb_unsigned 624485 @ [7], position = length [0 :: byte]\<rparr> 32 =
     Ok (624485, \<lparr>r_bytes = [0] @ leb_unsigned 624485 @ [7],
       position = length [0 :: byte] + length (leb_unsigned 624485)\<rparr>)"
    using leb_round_trip [of 32 624485 "[0]" "[7]"] by simp
  ultimately show ?thesis by simp
qed

text \<open>
  Hostile numbers end. Whatever bytes a module holds, an unsigned number that decodes fits
  its width, a signed one fits its width, the reader moved forward and not past the end, and
  the decoder has read at most six bytes for a 32-bit number and ten for a 64-bit signed one:
  six, because the decoder admits one zero group more than the five that 32 bits need.
\<close>

theorem leb_bounded:
  "(\<forall>v r'. reader_unsigned r 32 = Ok (v, r') \<longrightarrow> unat v < 2 ^ 32 \<and> forward r r' \<and>
      position r < position r' \<and> position r' \<le> position r + 6) \<and>
   (\<forall>v r'. reader_signed r 32 = Ok (v, r') \<longrightarrow> - (2 ^ 31) \<le> sint v \<and> sint v < 2 ^ 31 \<and> forward r r' \<and>
      position r < position r' \<and> position r' \<le> position r + 5) \<and>
   (\<forall>v r'. reader_signed r 64 = Ok (v, r') \<longrightarrow> forward r r' \<and>
      position r < position r' \<and> position r' \<le> position r + 10)"
  using reader_unsigned_spec [of r 32] reader_signed_spec [of r 32] reader_signed_spec [of r 64]
  by (auto; fastforce)

theorem leb_bounded_witness:
  "reader_unsigned (reader_new [0x80, 0x80, 0x80, 0x80, 0x80, 0x00]) 32 =
     Ok (0, \<lparr>r_bytes = [0x80, 0x80, 0x80, 0x80, 0x80, 0x00], position = 6\<rparr>) \<and>
   (6 :: nat) \<le> position (reader_new [0x80, 0x80, 0x80, 0x80, 0x80, 0x00]) + 6"
proof -
  let ?r = "reader_new [0x80, 0x80, 0x80, 0x80, 0x80, 0x00]"
  have "reader_unsigned ?r 32 = Ok (0, \<lparr>r_bytes = [0x80, 0x80, 0x80, 0x80, 0x80, 0x00], position = 6\<rparr>)"
    by code_simp
  with leb_bounded [of ?r] show ?thesis by fastforce
qed

end
