(* ===== verification/Wasm_Module.thy ===== *)
theory Wasm_Module
  imports Leb
begin

text \<open>
  \<open>libs/wasm/src/module.rs\<close>: the decoder of WebAssembly modules, and \<open>manifest\<close> of
  \<open>libs/wasm/src/lib.rs\<close>. The decoder reads the bytes once; a section's vector is read by
  \<open>read_many\<close>, which runs a reading function a given number of times, as the code's \<open>for\<close>
  loops do. The loop over the sections ends because every section moves the reader forward. The
  lemmas show what every decoded module satisfies (\<open>within_ceilings\<close>): the ceilings of the code,
  bodies and data that lie in the bytes.
\<close>

datatype merror = NotWasm | UnsupportedVersion | MMalformed | MTruncated | MUnsupported | TooLarge

fun from_leb :: "lerror \<Rightarrow> merror" where
  "from_leb LTruncated = MTruncated"
| "from_leb LOverlong = MMalformed"
| "from_leb LMalformed = MMalformed"

datatype value_type = TI32 | TI64

definition value_type_decode :: "byte \<Rightarrow> merror + value_type" where
  "value_type_decode b =
     (if b = 0x7f then Ok TI32
      else if b = 0x7e then Ok TI64
      else if b = 0x7d \<or> b = 0x7c then Err MUnsupported
      else Err MMalformed)"

record func_type =
  params :: "value_type list"
  results :: "value_type list"

record import_ref =
  i_module :: str
  i_name :: str
  i_type_index :: u32

record wexport =
  x_name :: str
  function_index :: u32

record wfunction =
  f_type_index :: u32
  f_locals :: "value_type list"
  body_start :: nat
  body_end :: nat

record wmodule =
  m_bytes :: "byte list"
  m_types :: "func_type list"
  m_imports :: "import_ref list"
  m_functions :: "wfunction list"
  m_exports :: "wexport list"
  memory_pages :: "(u32 \<times> u32) option"
  m_data :: "(u32 \<times> byte list) list"

definition MAX_TYPES :: nat where "MAX_TYPES = 128"
definition MAX_IMPORTS :: nat where "MAX_IMPORTS = 32"
definition MAX_FUNCTIONS :: nat where "MAX_FUNCTIONS = 256"
definition MAX_EXPORTS :: nat where "MAX_EXPORTS = 64"
definition MAX_LOCALS :: nat where "MAX_LOCALS = 256"
definition MAX_MEMORY_PAGES :: u32 where "MAX_MEMORY_PAGES = 16"
definition MAX_DATA_SEGMENTS :: nat where "MAX_DATA_SEGMENTS = 32"
definition MAX_MODULE_BYTES :: nat where "MAX_MODULE_BYTES = 128 * 1024"

section \<open>Reading vectors\<close>

abbreviation rd :: "lerror + 'a \<Rightarrow> merror + 'a" where "rd \<equiv> map_err from_leb"

fun read_many :: "nat \<Rightarrow> (reader \<Rightarrow> merror + 'a \<times> reader) \<Rightarrow> reader \<Rightarrow> merror + 'a list \<times> reader" where
  "read_many 0 f r = Ok ([], r)"
| "read_many (Suc n) f r =
     and_then (f r) (\<lambda>(x, r). and_then (read_many n f r) (\<lambda>(xs, r). Ok (x # xs, r)))"

text \<open>A count with its ceiling.\<close>

definition read_count :: "nat \<Rightarrow> reader \<Rightarrow> merror + nat \<times> reader" where
  "read_count ceiling r =
     and_then (rd (reader_usize r)) (\<lambda>(count, r).
       if count > ceiling then Err TooLarge else Ok (count, r))"

definition read_value_type :: "reader \<Rightarrow> merror + value_type \<times> reader" where
  "read_value_type r =
     and_then (rd (reader_byte r)) (\<lambda>(b, r).
     and_then (value_type_decode b) (\<lambda>t. Ok (t, r)))"

section \<open>The sections\<close>

definition read_type :: "reader \<Rightarrow> merror + func_type \<times> reader" where
  "read_type r =
     and_then (rd (reader_byte r)) (\<lambda>(b, r).
     if b \<noteq> 0x60 then Err MMalformed else
     and_then (rd (reader_usize r)) (\<lambda>(n, r).
     and_then (read_many n read_value_type r) (\<lambda>(ps, r).
     and_then (rd (reader_usize r)) (\<lambda>(k, r).
     if k > 1 then Err MUnsupported else
     and_then (read_many k read_value_type r) (\<lambda>(rs, r).
       Ok (\<lparr>params = ps, results = rs\<rparr>, r))))))"

definition decode_types :: "wmodule \<Rightarrow> reader \<Rightarrow> merror + wmodule" where
  "decode_types m r =
     and_then (read_count MAX_TYPES r) (\<lambda>(count, r).
     and_then (read_many count read_type r) (\<lambda>(ts, r). Ok (m\<lparr>m_types := m_types m @ ts\<rparr>)))"

definition read_import :: "reader \<Rightarrow> merror + import_ref \<times> reader" where
  "read_import r =
     and_then (rd (reader_name r)) (\<lambda>(module_name, r).
     and_then (rd (reader_name r)) (\<lambda>(nm, r).
     and_then (rd (reader_byte r)) (\<lambda>(kind, r).
     if kind = 0x00 then
       and_then (rd (reader_u32 r)) (\<lambda>(ti, r).
         Ok (\<lparr>i_module = module_name, i_name = nm, i_type_index = ti\<rparr>, r))
     else if kind = 0x01 \<or> kind = 0x02 \<or> kind = 0x03 then Err MUnsupported
     else Err MMalformed)))"

definition decode_imports :: "wmodule \<Rightarrow> reader \<Rightarrow> merror + wmodule" where
  "decode_imports m r =
     and_then (read_count MAX_IMPORTS r) (\<lambda>(count, r).
     and_then (read_many count read_import r) (\<lambda>(is, r). Ok (m\<lparr>m_imports := m_imports m @ is\<rparr>)))"

definition read_function_types :: "reader \<Rightarrow> merror + u32 list" where
  "read_function_types r =
     and_then (read_count MAX_FUNCTIONS r) (\<lambda>(count, r).
     and_then (read_many count (\<lambda>r. rd (reader_u32 r)) r) (\<lambda>(ts, r). Ok ts))"

definition read_memory :: "reader \<Rightarrow> merror + (u32 \<times> u32) \<times> reader" where
  "read_memory r =
     and_then (rd (reader_byte r)) (\<lambda>(flag, r).
     and_then
       (if flag = 0x00 then
          and_then (rd (reader_u32 r)) (\<lambda>(minimum, r). Ok ((minimum, MAX_MEMORY_PAGES), r))
        else if flag = 0x01 then
          and_then (rd (reader_u32 r)) (\<lambda>(minimum, r).
          and_then (rd (reader_u32 r)) (\<lambda>(maximum, r). Ok ((minimum, maximum), r)))
        else Err MMalformed)
       (\<lambda>((minimum, maximum), r).
          if minimum > MAX_MEMORY_PAGES \<or> maximum > MAX_MEMORY_PAGES then Err TooLarge
          else Ok ((minimum, maximum), r)))"

definition decode_memory :: "wmodule \<Rightarrow> reader \<Rightarrow> merror + wmodule" where
  "decode_memory m r =
     and_then (rd (reader_usize r)) (\<lambda>(count, r).
     if count > 1 then Err MUnsupported else
     and_then (read_many count read_memory r) (\<lambda>(ms, r).
       Ok (case ms of [] \<Rightarrow> m | _ \<Rightarrow> m\<lparr>memory_pages := Some (last ms)\<rparr>)))"

definition read_export :: "reader \<Rightarrow> merror + wexport option \<times> reader" where
  "read_export r =
     and_then (rd (reader_name r)) (\<lambda>(nm, r).
     and_then (rd (reader_byte r)) (\<lambda>(kind, r).
     and_then (rd (reader_u32 r)) (\<lambda>(index, r).
       Ok (if kind = 0x00 then Some \<lparr>x_name = nm, function_index = index\<rparr> else None, r))))"

definition decode_exports :: "wmodule \<Rightarrow> reader \<Rightarrow> merror + wmodule" where
  "decode_exports m r =
     and_then (read_count MAX_EXPORTS r) (\<lambda>(count, r).
     and_then (read_many count read_export r) (\<lambda>(xs, r).
       Ok (m\<lparr>m_exports := m_exports m @ List.map_filter id xs\<rparr>)))"

fun read_locals :: "nat \<Rightarrow> value_type list \<Rightarrow> reader \<Rightarrow> merror + value_type list \<times> reader" where
  "read_locals 0 locals r = Ok (locals, r)"
| "read_locals (Suc n) locals r =
     and_then (rd (reader_usize r)) (\<lambda>(count, r).
     and_then (read_value_type r) (\<lambda>(t, r).
     if length locals + count > MAX_LOCALS then Err TooLarge
     else read_locals n (locals @ replicate count t) r))"

definition read_body :: "nat \<Rightarrow> u32 \<Rightarrow> reader \<Rightarrow> merror + wfunction \<times> reader" where
  "read_body total_bytes type_index r =
     and_then (rd (reader_usize r)) (\<lambda>(size, r).
       let stop = position r + size in
       if stop \<ge> 2 ^ 64 then Err MTruncated
       else if stop > total_bytes then Err MTruncated else
       and_then (rd (reader_usize r)) (\<lambda>(groups, r).
       and_then (read_locals groups [] r) (\<lambda>(locals, r).
       let f = \<lparr>f_type_index = type_index, f_locals = locals, body_start = position r, body_end = stop\<rparr>
       in and_then (rd (reader_seek r stop)) (\<lambda>r. Ok (f, r)))))"

fun read_bodies :: "nat \<Rightarrow> u32 list \<Rightarrow> reader \<Rightarrow> merror + wfunction list" where
  "read_bodies total_bytes [] r = Ok []"
| "read_bodies total_bytes (t # ts) r =
     and_then (read_body total_bytes t r) (\<lambda>(f, r).
     and_then (read_bodies total_bytes ts r) (\<lambda>fs. Ok (f # fs)))"

definition decode_code :: "wmodule \<Rightarrow> reader \<Rightarrow> u32 list \<Rightarrow> merror + wmodule" where
  "decode_code m r function_types =
     and_then (rd (reader_usize r)) (\<lambda>(count, r).
     if count \<noteq> length function_types then Err MMalformed else
     and_then (read_bodies (length (m_bytes m)) function_types r) (\<lambda>fs.
       Ok (m\<lparr>m_functions := m_functions m @ fs\<rparr>)))"

definition read_data :: "reader \<Rightarrow> merror + (u32 \<times> byte list) \<times> reader" where
  "read_data r =
     and_then (rd (reader_u32 r)) (\<lambda>(memory_index, r).
     if memory_index \<noteq> 0 then Err MUnsupported else
     and_then (rd (reader_byte r)) (\<lambda>(b, r).
     if b \<noteq> 0x41 then Err MUnsupported else
     and_then (rd (reader_signed r 32)) (\<lambda>(offset, r).
     and_then (rd (reader_byte r)) (\<lambda>(b, r).
     if b \<noteq> 0x0b then Err MMalformed else
     and_then (rd (reader_usize r)) (\<lambda>(n, r).
     and_then (rd (reader_slice r n)) (\<lambda>(bs, r). Ok ((ucast offset, bs), r)))))))"

definition decode_data :: "wmodule \<Rightarrow> reader \<Rightarrow> merror + wmodule" where
  "decode_data m r =
     and_then (read_count MAX_DATA_SEGMENTS r) (\<lambda>(count, r).
     and_then (read_many count read_data r) (\<lambda>(ds, r). Ok (m\<lparr>m_data := m_data m @ ds\<rparr>)))"

text \<open>One section's contents, by its id; the state is the module and the function types.\<close>

definition decode_section :: "byte \<Rightarrow> reader \<Rightarrow> wmodule \<times> u32 list \<Rightarrow> merror + wmodule \<times> u32 list" where
  "decode_section i r s =
     (let (m, fts) = s; keep = (\<lambda>m. Ok (m, fts)) in
      if i = 0 then Ok (m, fts)
      else if i = 1 then and_then (decode_types m r) keep
      else if i = 2 then and_then (decode_imports m r) keep
      else if i = 3 then and_then (read_function_types r) (\<lambda>ts. Ok (m, fts @ ts))
      else if i = 5 then and_then (decode_memory m r) keep
      else if i = 7 then and_then (decode_exports m r) keep
      else if i = 10 then and_then (decode_code m r fts) keep
      else if i = 11 then and_then (decode_data m r) keep
      else if i = 4 \<or> i = 6 \<or> i = 8 \<or> i = 9 then Err MUnsupported
      else Err MMalformed)"

text \<open>The header of a section: its id, and the reader at its contents with their end.\<close>

definition section_header :: "byte \<Rightarrow> reader \<Rightarrow> merror + byte \<times> reader \<times> nat" where
  "section_header previous r =
     and_then (rd (reader_byte r)) (\<lambda>(i, r).
     if i \<noteq> 0 \<and> i \<le> previous then Err MMalformed else
     and_then (rd (reader_usize r)) (\<lambda>(size, r).
       let stop = position r + size in
       if stop \<ge> 2 ^ 64 then Err MTruncated
       else if stop > length (r_bytes r) then Err MTruncated
       else Ok (i, r, stop)))"

lemma section_header_forward:
  assumes "section_header previous r = Ok (i, r', stop)"
  shows "forward r r' \<and> position r < stop \<and> stop \<le> length (r_bytes r)"
  using assms
  by (auto simp: section_header_def result_simps Let_def forward_def split: if_splits
      dest!: reader_byte_forward reader_usize_spec)

function decode_sections :: "byte \<Rightarrow> reader \<Rightarrow> wmodule \<times> u32 list \<Rightarrow> merror + wmodule \<times> u32 list" where
  "decode_sections previous r s =
     (if at_end r then Ok s
      else
        case section_header previous r of
          Inl e \<Rightarrow> Err e
        | Inr (i, r', stop) \<Rightarrow>
            and_then (decode_section i r' s) (\<lambda>s.
              decode_sections (if i \<noteq> 0 then i else previous) (r'\<lparr>position := stop\<rparr>) s))"
  by pat_completeness auto
termination
  by (relation "measure (\<lambda>(_, r, _). length (r_bytes r) - position r)")
    (auto simp: at_end_def forward_def dest!: section_header_forward)

declare decode_sections.simps [simp del]

definition module_new :: "byte list \<Rightarrow> wmodule" where
  "module_new bs = \<lparr>m_bytes = bs, m_types = [], m_imports = [], m_functions = [], m_exports = [],
                   memory_pages = None, m_data = []\<rparr>"

definition wasm_magic :: "byte list" where "wasm_magic = [0x00, 0x61, 0x73, 0x6d]"

definition module_decode :: "byte list \<Rightarrow> merror + wmodule" where
  "module_decode bs =
     (if length bs > MAX_MODULE_BYTES then Err TooLarge else
      and_then (rd (reader_slice (reader_new bs) 4)) (\<lambda>(magic, r).
      if magic \<noteq> wasm_magic then Err NotWasm else
      and_then (rd (reader_slice r 4)) (\<lambda>(version, r).
      if version \<noteq> [1, 0, 0, 0] then Err UnsupportedVersion else
      and_then (decode_sections 0 r (module_new bs, [])) (\<lambda>(m, fts). Ok m))))"

section \<open>Asking a module\<close>

definition func_signature :: "wmodule \<Rightarrow> u32 \<Rightarrow> func_type option" where
  "func_signature m index =
     (let index = unat index; nth_opt = (\<lambda>xs i. if i < length xs then Some (xs ! i) else None) in
      if index < length (m_imports m) then nth_opt (m_types m) (unat (i_type_index (m_imports m ! index)))
      else
        let k = index - length (m_imports m) in
        if k < length (m_functions m) then nth_opt (m_types m) (unat (f_type_index (m_functions m ! k)))
        else None)"

definition module_export :: "wmodule \<Rightarrow> str \<Rightarrow> u32 option" where
  "module_export m nm = map_option function_index (List.find (\<lambda>e. x_name e = nm) (m_exports m))"

record requirement =
  rq_index :: nat
  rq_module :: str
  rq_name :: str

definition manifest :: "wmodule \<Rightarrow> requirement list" where
  "manifest m = map (\<lambda>(i, im). \<lparr>rq_index = i, rq_module = i_module im, rq_name = i_name im\<rparr>)
     (List.enumerate 0 (m_imports m))"

section \<open>The ceilings\<close>

lemma read_many_spec:
  assumes "read_many n f r = Ok (xs, r')"
    and "\<And>r x r'. f r = Ok (x, r') \<Longrightarrow> P x"
  shows "length xs = n \<and> (\<forall>x \<in> set xs. P x)"
  using assms(1)
proof (induction n arbitrary: r xs)
  case 0
  then show ?case by simp
next
  case (Suc n)
  then show ?case using assms(2) by (fastforce simp: result_simps)
qed

lemma read_count_Ok: "read_count c r = Ok (n, r') \<Longrightarrow> n \<le> c"
  by (auto simp: read_count_def result_simps split: if_splits)

lemma read_type_results: "read_type r = Ok (t, r') \<Longrightarrow> length (results t) \<le> 1"
  by (auto simp: read_type_def result_simps split: if_splits dest!: read_many_spec [where P = "\<lambda>_. True"])

lemma read_memory_pages: "read_memory r = Ok (x, r') \<Longrightarrow> fst x \<le> 16 \<and> snd x \<le> 16"
  by (auto simp: read_memory_def result_simps MAX_MEMORY_PAGES_def split: if_splits)

lemma read_locals_length:
  "read_locals n locals r = Ok (ls, r') \<Longrightarrow> length locals \<le> MAX_LOCALS \<Longrightarrow> length ls \<le> MAX_LOCALS"
  by (induction n locals r rule: read_locals.induct) (auto simp: result_simps split: if_splits)

definition body_ok :: "nat \<Rightarrow> wfunction \<Rightarrow> bool" where
  "body_ok total_bytes f \<longleftrightarrow> length (f_locals f) \<le> MAX_LOCALS \<and> body_end f \<le> total_bytes"

lemma read_body_ok: "read_body total_bytes t r = Ok (f, r') \<Longrightarrow> body_ok total_bytes f"
  by (auto simp: read_body_def result_simps Let_def body_ok_def split: if_splits
      dest!: read_locals_length)

lemma read_bodies_ok:
  "read_bodies total_bytes ts r = Ok fs \<Longrightarrow> length fs = length ts \<and> (\<forall>f \<in> set fs. body_ok total_bytes f)"
  by (induction ts arbitrary: r fs) (auto simp: result_simps dest!: read_body_ok; blast)+

definition within_ceilings :: "wmodule \<Rightarrow> bool" where
  "within_ceilings m \<longleftrightarrow> length (m_types m) \<le> MAX_TYPES \<and> length (m_imports m) \<le> MAX_IMPORTS \<and>
     length (m_functions m) \<le> MAX_FUNCTIONS \<and> length (m_exports m) \<le> MAX_EXPORTS \<and>
     length (m_data m) \<le> MAX_DATA_SEGMENTS \<and>
     (\<forall>mn mx. memory_pages m = Some (mn, mx) \<longrightarrow> mn \<le> 16 \<and> mx \<le> 16) \<and>
     (\<forall>t \<in> set (m_types m). length (results t) \<le> 1) \<and>
     (\<forall>f \<in> set (m_functions m). body_ok (length (m_bytes m)) f)"

text \<open>Before section \<open>p\<close> is passed, what it would fill is empty.\<close>

definition sections_inv :: "byte \<Rightarrow> wmodule \<times> u32 list \<Rightarrow> bool" where
  "sections_inv p s \<longleftrightarrow> (let (m, fts) = s in
     within_ceilings m \<and> length fts \<le> MAX_FUNCTIONS \<and>
     (p < 1 \<longrightarrow> m_types m = []) \<and> (p < 2 \<longrightarrow> m_imports m = []) \<and> (p < 3 \<longrightarrow> fts = []) \<and>
     (p < 7 \<longrightarrow> m_exports m = []) \<and> (p < 10 \<longrightarrow> m_functions m = []) \<and> (p < 11 \<longrightarrow> m_data m = []))"

lemma length_map_filter_le: "length (List.map_filter f xs) \<le> length xs"
  by (induction xs) (auto simp: map_filter_simps split: option.split)

lemma decode_section_inv:
  assumes inv: "sections_inv p (m, fts)" and order: "i = 0 \<or> p < i"
    and d: "decode_section i r (m, fts) = Ok (m', fts')"
  shows "sections_inv (if i \<noteq> 0 then i else p) (m', fts') \<and> m_bytes m' = m_bytes m"
proof -
  have le: "p < k" if "p < i" "i < k" for k using that by (rule less_trans)
  consider "i = 0" | "i = 1" | "i = 2" | "i = 3" | "i = 5" | "i = 7" | "i = 10" | "i = 11"
    using d by (auto simp: decode_section_def Let_def split: if_splits)
  then show ?thesis
  proof cases
    case 1
    with d inv show ?thesis by (simp add: decode_section_def)
  next
    case 2
    with d obtain ts where "m' = m\<lparr>m_types := m_types m @ ts\<rparr>" "fts' = fts" "length ts \<le> MAX_TYPES"
      "\<forall>t \<in> set ts. length (results t) \<le> 1"
      by (auto simp: decode_section_def decode_types_def result_simps
          dest!: read_count_Ok read_many_spec [where P = "\<lambda>t. length (results t) \<le> 1", OF _ read_type_results])
    with 2 order inv le show ?thesis by (auto simp: sections_inv_def within_ceilings_def)
  next
    case 3
    with d obtain ims where "m' = m\<lparr>m_imports := m_imports m @ ims\<rparr>" "fts' = fts" "length ims \<le> MAX_IMPORTS"
      by (auto simp: decode_section_def decode_imports_def result_simps
          dest!: read_count_Ok read_many_spec [where P = "\<lambda>_. True", OF _ TrueI])
    with 3 order inv le show ?thesis by (auto simp: sections_inv_def within_ceilings_def)
  next
    case 4
    with d obtain ts where "m' = m" "fts' = fts @ ts" "length ts \<le> MAX_FUNCTIONS"
      by (auto simp: decode_section_def read_function_types_def result_simps
          dest!: read_count_Ok read_many_spec [where P = "\<lambda>_. True", OF _ TrueI])
    with 4 order inv le show ?thesis by (auto simp: sections_inv_def within_ceilings_def)
  next
    case 5
    with d obtain ms where ms: "\<forall>x \<in> set ms. fst x \<le> 16 \<and> snd x \<le> 16" "fts' = fts"
      "m' = (case ms of [] \<Rightarrow> m | _ \<Rightarrow> m\<lparr>memory_pages := Some (last ms)\<rparr>)"
      by (auto simp: decode_section_def decode_memory_def result_simps split: if_splits
          dest!: read_many_spec [where P = "\<lambda>x. fst x \<le> 16 \<and> snd x \<le> 16", OF _ read_memory_pages])
    then have "m' = m \<or> (\<exists>mn mx. m' = m\<lparr>memory_pages := Some (mn, mx)\<rparr> \<and> mn \<le> 16 \<and> mx \<le> 16)"
    proof (cases ms)
      case (Cons x xs)
      then have "last ms \<in> set ms" by simp
      with ms Cons show ?thesis by (cases "last ms") (metis fst_conv list.simps(5) snd_conv)
    qed simp
    with ms(2) 5 order inv le show ?thesis by (auto simp: sections_inv_def within_ceilings_def)
  next
    case 6
    with d obtain xs where "m' = m\<lparr>m_exports := m_exports m @ xs\<rparr>" "fts' = fts" "length xs \<le> MAX_EXPORTS"
      by (auto simp: decode_section_def decode_exports_def result_simps
          dest!: read_count_Ok read_many_spec [where P = "\<lambda>_. True", OF _ TrueI]
          intro: length_map_filter_le [THEN order_trans])
    with 6 order inv le show ?thesis by (auto simp: sections_inv_def within_ceilings_def)
  next
    case 7
    with d obtain fs where "m' = m\<lparr>m_functions := m_functions m @ fs\<rparr>" "fts' = fts" "length fs = length fts"
      "\<forall>f \<in> set fs. body_ok (length (m_bytes m)) f"
      by (auto simp: decode_section_def decode_code_def result_simps split: if_splits dest!: read_bodies_ok)
    with 7 order inv le show ?thesis by (auto simp: sections_inv_def within_ceilings_def)
  next
    case 8
    with d obtain ds where "m' = m\<lparr>m_data := m_data m @ ds\<rparr>" "fts' = fts" "length ds \<le> MAX_DATA_SEGMENTS"
      by (auto simp: decode_section_def decode_data_def result_simps
          dest!: read_count_Ok read_many_spec [where P = "\<lambda>_. True", OF _ TrueI])
    with 8 order inv le show ?thesis by (auto simp: sections_inv_def within_ceilings_def)
  qed
qed

lemma decode_sections_inv:
  assumes "decode_sections p r s = Ok s'" "sections_inv p s"
  shows "(\<exists>q. sections_inv q s') \<and> m_bytes (fst s') = m_bytes (fst s)"
  using assms
proof (induction p r s rule: decode_sections.induct)
  case (1 p r s)
  show ?case
  proof (cases "at_end r")
    case True
    with 1(2,3) show ?thesis by (auto simp: decode_sections.simps [of p r s])
  next
    case False
    with 1(2) obtain i r' stop s1 where h: "section_header p r = Ok (i, r', stop)"
      and d: "decode_section i r' s = Ok s1"
      and rest: "decode_sections (if i \<noteq> 0 then i else p) (r'\<lparr>position := stop\<rparr>) s1 = Ok s'"
      by (auto simp: decode_sections.simps [of p r s] result_simps split: sum.splits)
    obtain m fts m1 fts1 where s: "s = (m, fts)" "s1 = (m1, fts1)" by (metis surj_pair)
    from h have "i = 0 \<or> p < i"
      by (auto simp: section_header_def result_simps Let_def split: if_splits)
    from decode_section_inv [OF _ this, of m fts r' m1 fts1] 1(3) d s
    have inv: "sections_inv (if i \<noteq> 0 then i else p) s1" "m_bytes m1 = m_bytes m" by auto
    from 1(1) [OF False h refl refl d rest inv(1)] inv(2) s show ?thesis by simp
  qed
qed

lemma module_new_inv: "sections_inv 0 (module_new bs, [])"
  by (simp add: sections_inv_def within_ceilings_def module_new_def)

lemma module_decode_sections:
  assumes "module_decode bs = Ok m"
  obtains r fts where "decode_sections 0 r (module_new bs, []) = Ok (m, fts)"
  using assms by (auto simp: module_decode_def result_simps split: if_splits)

section \<open>Properties\<close>

text \<open>
  C24: what every module that decodes satisfies, whatever bytes it was: no more than 128 KiB of
  bytes, 128 types, 32 imports, 256 functions, 64 exports and 32 data segments, at most 16 pages
  of memory, at most one result per function and 256 locals, and every function body ends inside
  the bytes. A section that came twice could pass none of these counts: sections are admitted
  once, in the format's order.
\<close>

theorem decode_within_ceilings:
  assumes "module_decode bs = Ok m"
  shows "length bs \<le> 128 * 1024 \<and> m_bytes m = bs \<and> length (m_types m) \<le> 128 \<and>
    length (m_imports m) \<le> 32 \<and> length (m_functions m) \<le> 256 \<and> length (m_exports m) \<le> 64 \<and>
    length (m_data m) \<le> 32 \<and>
    (\<forall>mn mx. memory_pages m = Some (mn, mx) \<longrightarrow> mn \<le> 16 \<and> mx \<le> 16) \<and>
    (\<forall>t \<in> set (m_types m). length (results t) \<le> 1) \<and>
    (\<forall>f \<in> set (m_functions m). length (f_locals f) \<le> 256 \<and> body_end f \<le> length bs)"
proof -
  from assms have len: "length bs \<le> 128 * 1024"
    by (auto simp: module_decode_def MAX_MODULE_BYTES_def split: if_splits)
  from assms obtain r fts where "decode_sections 0 r (module_new bs, []) = Ok (m, fts)"
    by (rule module_decode_sections)
  from decode_sections_inv [OF this module_new_inv] have "within_ceilings m" "m_bytes m = bs"
    by (auto simp: sections_inv_def module_new_def)
  with len show ?thesis
    by (simp add: within_ceilings_def body_ok_def MAX_TYPES_def MAX_IMPORTS_def MAX_FUNCTIONS_def
        MAX_EXPORTS_def MAX_DATA_SEGMENTS_def MAX_LOCALS_def)
qed

text \<open>A module with one function, of one local, exported as \<open>f\<close>.\<close>

definition tiny_bytes :: "byte list" where
  "tiny_bytes = [0x00, 0x61, 0x73, 0x6d, 1, 0, 0, 0,
     1, 5, 1, 0x60, 0, 1, 0x7f,
     3, 2, 1, 0,
     7, 5, 1, 1, 0x66, 0, 0,
     10, 8, 1, 6, 1, 1, 0x7f, 0x20, 0, 0x0b]"

definition tiny_module :: wmodule where
  "tiny_module = \<lparr>m_bytes = tiny_bytes, m_types = [\<lparr>params = [], results = [TI32]\<rparr>], m_imports = [],
     m_functions = [\<lparr>f_type_index = 0, f_locals = [TI32], body_start = 33, body_end = 36\<rparr>],
     m_exports = [\<lparr>x_name = lit ''f'', function_index = 0\<rparr>], memory_pages = None, m_data = []\<rparr>"

theorem decode_within_ceilings_witness:
  "module_decode tiny_bytes = Ok tiny_module \<and> length (m_types tiny_module) \<le> 128 \<and>
   length tiny_bytes \<le> 128 * 1024"
proof -
  have "module_decode tiny_bytes = Ok tiny_module" by code_simp
  with decode_within_ceilings [OF this] show ?thesis by blast
qed

end
