(* ===== verification/Wasm_Exec.thy ===== *)
theory Wasm_Exec
  imports Wasm_Module "HOL-Library.Signed_Division"
begin

text \<open>
  \<open>libs/wasm/src/exec.rs\<close>: the interpreter. A frame holds the reader over the function's bytes,
  the operand stack (its top first; the code's vector has it last), the open labels (the innermost
  first) and the locals. One turn of the loop in \<open>execute\<close> is \<open>exec_step\<close>, by groups of opcodes;
  it returns what the instance and the host have become also when it traps. \<open>i32\<close> and \<open>i64\<close>
  are 32-bit and 64-bit words, read through \<open>sint\<close> where the code compares or divides signed.

  Every turn burns one unit of fuel, so the loop over at most \<open>unat fuel\<close> turns is the code's
  loop (\<open>exec_loop_enough\<close>), and a call nests at most \<open>MAX_FRAMES\<close> deep, so \<open>call_function\<close>
  recurs over the frames left.
\<close>

datatype trap = OutOfBounds | OutOfFuel | Faulted | StackOverflow | Unsupported | HostDenied | Malformed

datatype wvalue = I32 u32 | I64 u64

fun as_i32 :: "wvalue \<Rightarrow> u32" where
  "as_i32 (I32 v) = v"
| "as_i32 (I64 v) = ucast v"

fun as_i64 :: "wvalue \<Rightarrow> u64" where
  "as_i64 (I32 v) = scast v"
| "as_i64 (I64 v) = v"

fun zero_value :: "value_type \<Rightarrow> wvalue" where
  "zero_value TI32 = I32 0"
| "zero_value TI64 = I64 0"

type_synonym 'h host_call = "nat \<Rightarrow> wvalue list \<Rightarrow> 'h \<Rightarrow> (trap + wvalue option) \<times> 'h"

definition MAX_STACK :: nat where "MAX_STACK = 256"
definition MAX_FRAMES :: nat where "MAX_FRAMES = 32"
definition PAGE_SIZE :: nat where "PAGE_SIZE = 64 * 1024"

record winstance =
  i_memory :: "byte list"
  i_fuel :: u64

record wlabel =
  l_target :: nat
  l_height :: nat
  l_is_loop :: bool
  l_returns :: bool

record wframe =
  f_reader :: reader
  f_stack :: "wvalue list"
  f_labels :: "wlabel list"
  f_vars :: "wvalue list"

abbreviation rt :: "lerror + 'a \<Rightarrow> trap + 'a" where "rt \<equiv> map_err (\<lambda>_. Malformed)"

text \<open>What a turn of the loop leads to.\<close>

datatype control = Go wframe | Return "wvalue option"

section \<open>A new instance\<close>

fun place_data :: "(u32 \<times> byte list) list \<Rightarrow> byte list \<Rightarrow> trap + byte list" where
  "place_data [] memory = Ok memory"
| "place_data ((offset, bs) # ds) memory =
     (let start = unat offset; stop = start + length bs in
      if stop > length memory then Err OutOfBounds
      else place_data ds (copy_into memory start bs))"

definition instance_new :: "wmodule \<Rightarrow> u64 \<Rightarrow> trap + winstance" where
  "instance_new m fuel =
     (let pages = (case memory_pages m of None \<Rightarrow> 0 | Some (minimum, _) \<Rightarrow> unat minimum) in
      and_then (place_data (m_data m) (replicate (pages * PAGE_SIZE) 0)) (\<lambda>memory.
        Ok \<lparr>i_memory = memory, i_fuel = fuel\<rparr>))"

definition instance_read :: "winstance \<Rightarrow> u32 \<Rightarrow> u32 \<Rightarrow> trap + byte list" where
  "instance_read inst offset n =
     (let start = unat offset; stop = start + unat n in
      if stop > length (i_memory inst) then Err OutOfBounds else Ok (slice_of (i_memory inst) start stop))"

section \<open>Scanning for the end of a block\<close>

text \<open>The immediates of an opcode, which the scanner must skip.\<close>

definition scan_skip :: "byte \<Rightarrow> reader \<Rightarrow> trap + reader" where
  "scan_skip opcode r =
     (if opcode \<in> {0x02, 0x03, 0x04, 0x3f, 0x40} then and_then (rt (reader_byte r)) (\<lambda>(_, r). Ok r)
      else if opcode \<in> {0x0c, 0x0d, 0x10, 0x20, 0x21, 0x22, 0x23, 0x24} then
        and_then (rt (reader_u32 r)) (\<lambda>(_, r). Ok r)
      else if 0x28 \<le> opcode \<and> opcode \<le> 0x3e then
        and_then (rt (reader_u32 r)) (\<lambda>(_, r). and_then (rt (reader_u32 r)) (\<lambda>(_, r). Ok r))
      else if opcode = 0x41 then and_then (rt (reader_signed r 32)) (\<lambda>(_, r). Ok r)
      else if opcode = 0x42 then and_then (rt (reader_signed r 64)) (\<lambda>(_, r). Ok r)
      else if opcode = 0x0e then Err Unsupported
      else Ok r)"

lemma scan_skip_forward: "scan_skip opcode r = Ok r' \<Longrightarrow> forward r r'"
  by (auto simp: scan_skip_def result_simps split: if_splits
      dest!: reader_byte_forward reader_u32_spec reader_signed_spec intro: forward_trans)

function scan :: "bool \<Rightarrow> nat \<Rightarrow> reader \<Rightarrow> nat \<Rightarrow> nat option \<Rightarrow> u64 \<Rightarrow> (trap + nat option \<times> nat) \<times> u64" where
  "scan want_else limit r depth else_at fuel =
     (if \<not> position r < limit then (Err Malformed, fuel)
      else if fuel = 0 then (Err OutOfFuel, fuel)
      else
        case rt (reader_byte r) of
          Inl e \<Rightarrow> (Err e, fuel - 1)
        | Inr (opcode, r1) \<Rightarrow>
            if opcode = 0x05 \<and> depth = 0 \<and> want_else \<and> else_at = None
            then scan want_else limit r1 depth (Some (position r1)) (fuel - 1)
            else if opcode = 0x0b \<and> depth = 0 then (Ok (else_at, position r1), fuel - 1)
            else if opcode = 0x0b then scan want_else limit r1 (depth - 1) else_at (fuel - 1)
            else
              case scan_skip opcode r1 of
                Inl e \<Rightarrow> (Err e, fuel - 1)
              | Inr r2 \<Rightarrow> scan want_else limit r2
                  (if opcode \<in> {0x02, 0x03, 0x04} then depth + 1 else depth) else_at (fuel - 1))"
  by pat_completeness auto
termination
proof (relation "measure (\<lambda>(_, limit, r, _). length (r_bytes r) - position r)", goal_cases)
  case 1
  then show ?case by simp
next
  case (2 want limit r depth else_at fuel x a b)
  then show ?case
    by (cases "reader_byte r") (auto simp: forward_def reader_byte_def split: if_splits)
next
  case (3 want limit r depth else_at fuel x a b)
  then show ?case
    by (cases "reader_byte r") (auto simp: forward_def reader_byte_def split: if_splits)
next
  case (4 want limit r depth else_at fuel x a b y)
  then have "forward b y" "position r < position b" "r_bytes b = r_bytes r" "position r < length (r_bytes r)"
    by (auto simp: reader_byte_def split: if_splits dest: scan_skip_forward)
  then show ?case by (auto simp: forward_def)
qed

declare scan.simps [simp del]

definition find_scan :: "byte list \<Rightarrow> nat \<Rightarrow> nat \<Rightarrow> bool \<Rightarrow> u64 \<Rightarrow> (trap + nat option \<times> nat) \<times> u64" where
  "find_scan bs start limit want_else fuel =
     (case rt (reader_seek (reader_new (take limit bs)) start) of
        Inl e \<Rightarrow> (Err e, fuel)
      | Inr r \<Rightarrow> scan want_else limit r 0 None fuel)"

definition find_end :: "byte list \<Rightarrow> nat \<Rightarrow> nat \<Rightarrow> u64 \<Rightarrow> (trap + nat) \<times> u64" where
  "find_end bs start limit fuel =
     (case find_scan bs start limit False fuel of
        (Inl e, fuel) \<Rightarrow> (Err e, fuel)
      | (Inr (_, stop), fuel) \<Rightarrow> (Ok stop, fuel))"

definition find_else :: "byte list \<Rightarrow> nat \<Rightarrow> nat \<Rightarrow> u64 \<Rightarrow> (trap + nat option \<times> nat) \<times> u64" where
  "find_else bs start limit fuel = find_scan bs start limit True fuel"

section \<open>Control\<close>

definition returned :: "bool \<Rightarrow> wframe \<Rightarrow> control" where
  "returned returns_value fr =
     Return (if returns_value then (case f_stack fr of [] \<Rightarrow> None | v # _ \<Rightarrow> Some v) else None)"

definition pop_value :: "wframe \<Rightarrow> trap + wvalue \<times> wframe" where
  "pop_value fr = (case f_stack fr of [] \<Rightarrow> Err Faulted | v # vs \<Rightarrow> Ok (v, fr\<lparr>f_stack := vs\<rparr>))"

definition push_value :: "wvalue \<Rightarrow> wframe \<Rightarrow> wframe" where
  "push_value v fr = fr\<lparr>f_stack := v # f_stack fr\<rparr>"

definition block_returns :: "byte \<Rightarrow> trap + bool" where
  "block_returns b =
     (if b = 0x40 then Ok False else if b = 0x7f \<or> b = 0x7e then Ok True else Err Unsupported)"

definition open_label :: "nat \<Rightarrow> bool \<Rightarrow> bool \<Rightarrow> wframe \<Rightarrow> control" where
  "open_label target is_loop returns fr =
     Go (fr\<lparr>f_labels := \<lparr>l_target = target, l_height = length (f_stack fr), l_is_loop = is_loop,
                        l_returns = returns\<rparr> # f_labels fr\<rparr>)"

definition jump :: "nat \<Rightarrow> wframe \<Rightarrow> trap + wframe" where
  "jump p fr = and_then (rt (reader_seek (f_reader fr) p)) (\<lambda>r. Ok (fr\<lparr>f_reader := r\<rparr>))"

text \<open>The condition of an \<open>if\<close>, once the target of its label is known.\<close>

definition op_if :: "byte list \<Rightarrow> nat \<Rightarrow> nat \<Rightarrow> bool \<Rightarrow> wframe \<Rightarrow> u64 \<Rightarrow> (trap + control) \<times> u64" where
  "op_if bs limit target returns fr fuel =
     (case pop_value fr of
        Inl e \<Rightarrow> (Err e, fuel)
      | Inr (condition, fr) \<Rightarrow>
          if as_i32 condition \<noteq> 0 then (Ok (open_label target False returns fr), fuel)
          else
            (case find_else bs (position (f_reader fr)) limit fuel of
               (Inl e, fuel) \<Rightarrow> (Err e, fuel)
             | (Inr (Some p, _), fuel) \<Rightarrow>
                 (and_then (jump p fr) (\<lambda>fr. Ok (open_label target False returns fr)), fuel)
             | (Inr (None, end_at), fuel) \<Rightarrow> (and_then (jump end_at fr) (\<lambda>fr. Ok (Go fr)), fuel)))"

definition op_block :: "byte list \<Rightarrow> nat \<Rightarrow> byte \<Rightarrow> wframe \<Rightarrow> u64 \<Rightarrow> (trap + control) \<times> u64" where
  "op_block bs limit opcode fr fuel =
     (case rt (reader_byte (f_reader fr)) of
        Inl e \<Rightarrow> (Err e, fuel)
      | Inr (block_type, r) \<Rightarrow>
          let fr = fr\<lparr>f_reader := r\<rparr> in
          case block_returns block_type of
            Inl e \<Rightarrow> (Err e, fuel)
          | Inr returns \<Rightarrow>
              if opcode = 0x03 then (Ok (open_label (position r) True returns fr), fuel)
              else
                (case find_end bs (position r) limit fuel of
                   (Inl e, fuel) \<Rightarrow> (Err e, fuel)
                 | (Inr target, fuel) \<Rightarrow>
                     if opcode = 0x04 then op_if bs limit target returns fr fuel
                     else (Ok (open_label target False returns fr), fuel)))"

definition op_else :: "byte list \<Rightarrow> nat \<Rightarrow> wframe \<Rightarrow> u64 \<Rightarrow> (trap + control) \<times> u64" where
  "op_else bs limit fr fuel =
     (case find_end bs (position (f_reader fr)) limit fuel of
        (Inl e, fuel) \<Rightarrow> (Err e, fuel)
      | (Inr end_at, fuel) \<Rightarrow>
          (and_then (jump end_at fr) (\<lambda>fr.
             case f_labels fr of
               [] \<Rightarrow> Err Malformed
             | _ # ls \<Rightarrow> Ok (Go (fr\<lparr>f_labels := ls\<rparr>))), fuel))"

definition op_end :: "bool \<Rightarrow> wframe \<Rightarrow> control" where
  "op_end returns_value fr =
     (case f_labels fr of
        [] \<Rightarrow> returned returns_value fr
      | _ # ls \<Rightarrow> Go (fr\<lparr>f_labels := ls\<rparr>))"

text \<open>\<open>stack.truncate(height)\<close> on a stack whose top is first.\<close>

definition truncate_stack :: "nat \<Rightarrow> wvalue list \<Rightarrow> wvalue list" where
  "truncate_stack height vs = drop (length vs - height) vs"

definition take_branch :: "bool \<Rightarrow> nat \<Rightarrow> wframe \<Rightarrow> trap + control" where
  "take_branch returns_value depth_index fr =
     (if depth_index \<ge> length (f_labels fr) then Ok (returned returns_value fr)
      else
        let l = f_labels fr ! depth_index;
            carries = l_returns l \<and> \<not> l_is_loop l;
            carried = (if carries then (case f_stack fr of [] \<Rightarrow> None | v # _ \<Rightarrow> Some v) else None);
            vs = truncate_stack (l_height l) (if carries then drop 1 (f_stack fr) else f_stack fr);
            vs = (case carried of None \<Rightarrow> vs | Some v \<Rightarrow> v # vs);
            ls = drop (depth_index + (if l_is_loop l then 0 else 1)) (f_labels fr)
        in and_then (jump (l_target l) (fr\<lparr>f_stack := vs, f_labels := ls\<rparr>)) (\<lambda>fr. Ok (Go fr)))"

definition op_branch :: "bool \<Rightarrow> byte \<Rightarrow> wframe \<Rightarrow> trap + control" where
  "op_branch returns_value opcode fr =
     and_then (rt (reader_u32 (f_reader fr))) (\<lambda>(depth_index, r).
       let fr = fr\<lparr>f_reader := r\<rparr> in
       if opcode = 0x0d then
         and_then (pop_value fr) (\<lambda>(condition, fr).
           if as_i32 condition \<noteq> 0 then take_branch returns_value (unat depth_index) fr else Ok (Go fr))
       else take_branch returns_value (unat depth_index) fr)"

section \<open>Stack, locals and memory\<close>

definition op_select :: "wframe \<Rightarrow> trap + wframe" where
  "op_select fr =
     and_then (pop_value fr) (\<lambda>(condition, fr).
     and_then (pop_value fr) (\<lambda>(alternative, fr).
     and_then (pop_value fr) (\<lambda>(consequent, fr).
       Ok (push_value (if as_i32 condition \<noteq> 0 then consequent else alternative) fr))))"

definition op_local_get :: "wframe \<Rightarrow> trap + wframe" where
  "op_local_get fr =
     and_then (rt (reader_usize (f_reader fr))) (\<lambda>(index, r).
       if index < length (f_vars fr) then Ok (push_value (f_vars fr ! index) (fr\<lparr>f_reader := r\<rparr>))
       else Err Faulted)"

definition op_local_set :: "byte \<Rightarrow> wframe \<Rightarrow> trap + wframe" where
  "op_local_set opcode fr =
     and_then (rt (reader_usize (f_reader fr))) (\<lambda>(index, r).
     and_then (pop_value (fr\<lparr>f_reader := r\<rparr>)) (\<lambda>(v, fr').
       let fr' = (if opcode = 0x21 then fr' else fr\<lparr>f_reader := r\<rparr>) in
       if index < length (f_vars fr') then Ok (fr'\<lparr>f_vars := (f_vars fr')[index := v]\<rparr>)
       else Err Faulted))"

text \<open>\<open>memory.get(address..address + n)\<close>.\<close>

definition memory_get :: "byte list \<Rightarrow> nat \<Rightarrow> nat \<Rightarrow> trap + byte list" where
  "memory_get memory address n =
     (if address + n > length memory then Err OutOfBounds else Ok (slice_of memory address (address + n)))"

definition memory_address :: "wvalue \<Rightarrow> u32 \<Rightarrow> trap + nat" where
  "memory_address base offset =
     and_then (ok_or (checked_add (as_i32 base) offset) OutOfBounds) (\<lambda>a. Ok (unat a))"

definition op_load :: "byte \<Rightarrow> byte list \<Rightarrow> wframe \<Rightarrow> trap + wframe" where
  "op_load opcode memory fr =
     and_then (rt (reader_u32 (f_reader fr))) (\<lambda>(align, r).
     and_then (rt (reader_u32 r)) (\<lambda>(offset, r).
     and_then (pop_value (fr\<lparr>f_reader := r\<rparr>)) (\<lambda>(base, fr).
     and_then (memory_address base offset) (\<lambda>address.
     and_then (memory_get memory address (if opcode = 0x28 then 4 else if opcode = 0x2d then 1 else 2)) (\<lambda>bs.
       Ok (push_value (I32 (from_le_bytes bs)) fr))))))"

definition op_store :: "byte \<Rightarrow> byte list \<Rightarrow> wframe \<Rightarrow> trap + wframe \<times> byte list" where
  "op_store opcode memory fr =
     and_then (rt (reader_u32 (f_reader fr))) (\<lambda>(align, r).
     and_then (rt (reader_u32 r)) (\<lambda>(offset, r).
     and_then (pop_value (fr\<lparr>f_reader := r\<rparr>)) (\<lambda>(v, fr).
     and_then (pop_value fr) (\<lambda>(base, fr).
     and_then (memory_address base offset) (\<lambda>address.
       let bs = (if opcode = 0x36 then to_le_bytes (as_i32 v) else [ucast (as_i32 v)]) in
       if address + length bs > length memory then Err OutOfBounds
       else Ok (fr, copy_into memory address bs))))))"

definition op_memory_size :: "byte list \<Rightarrow> wframe \<Rightarrow> trap + wframe" where
  "op_memory_size memory fr =
     and_then (rt (reader_byte (f_reader fr))) (\<lambda>(_, r).
       Ok (push_value (I32 (of_nat (length memory div PAGE_SIZE))) (fr\<lparr>f_reader := r\<rparr>)))"

definition op_const :: "byte \<Rightarrow> wframe \<Rightarrow> trap + wframe" where
  "op_const opcode fr =
     (if opcode = 0x41 then
        and_then (rt (reader_signed (f_reader fr) 32)) (\<lambda>(v, r).
          Ok (push_value (I32 (ucast v)) (fr\<lparr>f_reader := r\<rparr>)))
      else
        and_then (rt (reader_signed (f_reader fr) 64)) (\<lambda>(v, r).
          Ok (push_value (I64 v) (fr\<lparr>f_reader := r\<rparr>))))"

section \<open>Numbers\<close>

definition bool_value :: "bool \<Rightarrow> wvalue" where
  "bool_value b = I32 (if b then 1 else 0)"

text \<open>The ten comparisons, in the order of their opcodes from the first one on.\<close>

definition compare_op :: "byte \<Rightarrow> 'a::len word \<Rightarrow> 'a word \<Rightarrow> bool" where
  "compare_op k left right =
     (if k = 0 then left = right
      else if k = 1 then left \<noteq> right
      else if k = 2 then sint left < sint right
      else if k = 3 then left < right
      else if k = 4 then sint left > sint right
      else if k = 5 then left > right
      else if k = 6 then sint left \<le> sint right
      else if k = 7 then left \<le> right
      else if k = 8 then sint left \<ge> sint right
      else left \<ge> right)"

text \<open>
  \<open>wrapping_div\<close> and \<open>wrapping_rem\<close> truncate towards zero; the shifts take their amount modulo
  the width.
\<close>

definition i32_arith :: "byte \<Rightarrow> u32 \<Rightarrow> u32 \<Rightarrow> trap + u32" where
  "i32_arith opcode left right =
     (if opcode = 0x6a then Ok (left + right)
      else if opcode = 0x6b then Ok (left - right)
      else if opcode = 0x6c then Ok (left * right)
      else if opcode = 0x6d then
        (if right = 0 then Err Faulted else Ok (word_of_int (sint left sdiv sint right)))
      else if opcode = 0x6e then (if right = 0 then Err Faulted else Ok (left div right))
      else if opcode = 0x6f then
        (if right = 0 then Err Faulted else Ok (word_of_int (sint left smod sint right)))
      else if opcode = 0x70 then (if right = 0 then Err Faulted else Ok (left mod right))
      else if opcode = 0x71 then Ok (left AND right)
      else if opcode = 0x72 then Ok (left OR right)
      else if opcode = 0x73 then Ok (left XOR right)
      else if opcode = 0x74 then Ok (push_bit (unat right mod 32) left)
      else if opcode = 0x75 then Ok (signed_drop_bit (unat right mod 32) left)
      else Ok (drop_bit (unat right mod 32) left))"

definition i64_arith :: "byte \<Rightarrow> u64 \<Rightarrow> u64 \<Rightarrow> trap + u64" where
  "i64_arith opcode left right =
     (if opcode = 0x7c then Ok (left + right)
      else if opcode = 0x7d then Ok (left - right)
      else if opcode = 0x7e then Ok (left * right)
      else if opcode = 0x7f then
        (if right = 0 then Err Faulted else Ok (word_of_int (sint left sdiv sint right)))
      else if opcode = 0x80 then (if right = 0 then Err Faulted else Ok (left div right))
      else if opcode = 0x83 then Ok (left AND right)
      else if opcode = 0x84 then Ok (left OR right)
      else if opcode = 0x85 then Ok (left XOR right)
      else if opcode = 0x86 then Ok (push_bit (unat right mod 64) left)
      else if opcode = 0x87 then Ok (signed_drop_bit (unat right mod 64) left)
      else if opcode = 0x88 then Ok (drop_bit (unat right mod 64) left)
      else Err Unsupported)"

definition op_unary :: "(wvalue \<Rightarrow> wvalue) \<Rightarrow> wframe \<Rightarrow> trap + wframe" where
  "op_unary f fr = and_then (pop_value fr) (\<lambda>(v, fr). Ok (push_value (f v) fr))"

definition op_binary :: "(wvalue \<Rightarrow> wvalue \<Rightarrow> trap + wvalue) \<Rightarrow> wframe \<Rightarrow> trap + wframe" where
  "op_binary f fr =
     and_then (pop_value fr) (\<lambda>(right, fr).
     and_then (pop_value fr) (\<lambda>(left, fr).
     and_then (f left right) (\<lambda>v. Ok (push_value v fr))))"

definition op_numeric :: "byte \<Rightarrow> wframe \<Rightarrow> trap + wframe" where
  "op_numeric opcode fr =
     (if opcode = 0x45 then op_unary (\<lambda>v. bool_value (as_i32 v = 0)) fr
      else if 0x46 \<le> opcode \<and> opcode \<le> 0x4f then
        op_binary (\<lambda>a b. Ok (bool_value (compare_op (opcode - 0x46) (as_i32 a) (as_i32 b)))) fr
      else if opcode = 0x50 then op_unary (\<lambda>v. bool_value (as_i64 v = 0)) fr
      else if 0x51 \<le> opcode \<and> opcode \<le> 0x5a then
        op_binary (\<lambda>a b. Ok (bool_value (compare_op (opcode - 0x51) (as_i64 a) (as_i64 b)))) fr
      else if 0x6a \<le> opcode \<and> opcode \<le> 0x76 then
        op_binary (\<lambda>a b. and_then (i32_arith opcode (as_i32 a) (as_i32 b)) (\<lambda>v. Ok (I32 v))) fr
      else if 0x7c \<le> opcode \<and> opcode \<le> 0x88 then
        op_binary (\<lambda>a b. and_then (i64_arith opcode (as_i64 a) (as_i64 b)) (\<lambda>v. Ok (I64 v))) fr
      else if opcode = 0xa7 then op_unary (\<lambda>v. I32 (ucast (as_i64 v))) fr
      else if opcode = 0xac then op_unary (\<lambda>v. I64 (scast (as_i32 v))) fr
      else if opcode = 0xad then op_unary (\<lambda>v. I64 (ucast (as_i32 v))) fr
      else Err Unsupported)"

section \<open>The loop\<close>

text \<open>What a function call needs from the caller: the result, and what it leaves.\<close>

type_synonym 'h callee =
  "u32 \<Rightarrow> wvalue list \<Rightarrow> winstance \<Rightarrow> 'h \<Rightarrow> (trap + wvalue option) \<times> winstance \<times> 'h"

definition op_call ::
  "wmodule \<Rightarrow> 'h callee \<Rightarrow> wframe \<Rightarrow> winstance \<Rightarrow> 'h \<Rightarrow> (trap + control) \<times> winstance \<times> 'h" where
  "op_call m callee fr inst h =
     (case rt (reader_u32 (f_reader fr)) of
        Inl e \<Rightarrow> (Err e, inst, h)
      | Inr (index, r) \<Rightarrow>
          let fr = fr\<lparr>f_reader := r\<rparr> in
          case func_signature m index of
            None \<Rightarrow> (Err Malformed, inst, h)
          | Some signature \<Rightarrow>
              let count = length (params signature) in
              if length (f_stack fr) < count then (Err Faulted, inst, h)
              else
                let arguments = rev (take count (f_stack fr));
                    fr = fr\<lparr>f_stack := drop count (f_stack fr)\<rparr>
                in case callee index arguments inst h of
                     (Inl e, inst, h) \<Rightarrow> (Err e, inst, h)
                   | (Inr None, inst, h) \<Rightarrow> (Ok (Go fr), inst, h)
                   | (Inr (Some v), inst, h) \<Rightarrow> (Ok (Go (push_value v fr)), inst, h))"

definition with_fuel :: "winstance \<Rightarrow> 'h \<Rightarrow> (trap + control) \<times> u64 \<Rightarrow> (trap + control) \<times> winstance \<times> 'h" where
  "with_fuel inst h x = (fst x, inst\<lparr>i_fuel := snd x\<rparr>, h)"

definition go :: "winstance \<Rightarrow> 'h \<Rightarrow> trap + wframe \<Rightarrow> (trap + control) \<times> winstance \<times> 'h" where
  "go inst h x = (and_then x (\<lambda>fr. Ok (Go fr)), inst, h)"

definition exec_step ::
  "wmodule \<Rightarrow> 'h callee \<Rightarrow> nat \<Rightarrow> bool \<Rightarrow> byte \<Rightarrow> wframe \<Rightarrow> winstance \<Rightarrow> 'h \<Rightarrow>
   (trap + control) \<times> winstance \<times> 'h" where
  "exec_step m callee limit returns_value opcode fr inst h =
     (if opcode = 0x00 then (Err Faulted, inst, h)
      else if opcode = 0x01 then (Ok (Go fr), inst, h)
      else if opcode \<in> {0x02, 0x03, 0x04} then
        with_fuel inst h (op_block (m_bytes m) limit opcode fr (i_fuel inst))
      else if opcode = 0x05 then with_fuel inst h (op_else (m_bytes m) limit fr (i_fuel inst))
      else if opcode = 0x0b then (Ok (op_end returns_value fr), inst, h)
      else if opcode = 0x0c \<or> opcode = 0x0d then (op_branch returns_value opcode fr, inst, h)
      else if opcode = 0x0f then (Ok (returned returns_value fr), inst, h)
      else if opcode = 0x10 then op_call m callee fr inst h
      else if opcode = 0x1a then go inst h (and_then (pop_value fr) (\<lambda>(_, fr). Ok fr))
      else if opcode = 0x1b then go inst h (op_select fr)
      else if opcode = 0x20 then go inst h (op_local_get fr)
      else if opcode = 0x21 \<or> opcode = 0x22 then go inst h (op_local_set opcode fr)
      else if opcode \<in> {0x28, 0x2d, 0x2f} then go inst h (op_load opcode (i_memory inst) fr)
      else if opcode = 0x36 \<or> opcode = 0x3a then
        (case op_store opcode (i_memory inst) fr of
           Inl e \<Rightarrow> (Err e, inst, h)
         | Inr (fr, memory) \<Rightarrow> (Ok (Go fr), inst\<lparr>i_memory := memory\<rparr>, h))
      else if opcode = 0x3f then go inst h (op_memory_size (i_memory inst) fr)
      else if opcode = 0x41 \<or> opcode = 0x42 then go inst h (op_const opcode fr)
      else go inst h (op_numeric opcode fr))"

fun exec_loop ::
  "wmodule \<Rightarrow> 'h callee \<Rightarrow> nat \<Rightarrow> bool \<Rightarrow> nat \<Rightarrow> wframe \<Rightarrow> winstance \<Rightarrow> 'h \<Rightarrow>
   (trap + wvalue option) \<times> winstance \<times> 'h" where
  "exec_loop m callee limit returns_value 0 fr inst h = (Err OutOfFuel, inst, h)"
| "exec_loop m callee limit returns_value (Suc n) fr inst h =
     (if i_fuel inst = 0 then (Err OutOfFuel, inst, h)
      else
        let inst = inst\<lparr>i_fuel := i_fuel inst - 1\<rparr> in
        if length (f_stack fr) > MAX_STACK \<or> length (f_labels fr) > MAX_STACK
        then (Err StackOverflow, inst, h)
        else if position (f_reader fr) \<ge> limit then (Err Malformed, inst, h)
        else
          case rt (reader_byte (f_reader fr)) of
            Inl e \<Rightarrow> (Err e, inst, h)
          | Inr (opcode, r) \<Rightarrow>
              case exec_step m callee limit returns_value opcode (fr\<lparr>f_reader := r\<rparr>) inst h of
                (Inl e, inst, h) \<Rightarrow> (Err e, inst, h)
              | (Inr (Return v), inst, h) \<Rightarrow> (Ok v, inst, h)
              | (Inr (Go fr), inst, h) \<Rightarrow> exec_loop m callee limit returns_value n fr inst h)"

definition execute ::
  "wmodule \<Rightarrow> 'h callee \<Rightarrow> wfunction \<Rightarrow> wvalue list \<Rightarrow> bool \<Rightarrow> winstance \<Rightarrow> 'h \<Rightarrow>
   (trap + wvalue option) \<times> winstance \<times> 'h" where
  "execute m callee f locals returns_value inst h =
     (case rt (reader_seek (reader_new (take (body_end f) (m_bytes m))) (body_start f)) of
        Inl e \<Rightarrow> (Err e, inst, h)
      | Inr r \<Rightarrow> exec_loop m callee (body_end f) returns_value (unat (i_fuel inst))
          \<lparr>f_reader = r, f_stack = [], f_labels = [], f_vars = locals\<rparr> inst h)"

primrec call_function :: "nat \<Rightarrow> 'h host_call \<Rightarrow> wmodule \<Rightarrow> 'h callee" where
  "call_function 0 host m index arguments inst h = (Err StackOverflow, inst, h)"
| "call_function (Suc k) host m index arguments inst h =
    (if unat index < length (m_imports m) then
       (let (res, h) = host (unat index) arguments h in (res, inst, h))
     else
       let i = unat index - length (m_imports m) in
       if i \<ge> length (m_functions m) then (Err Malformed, inst, h)
       else
         let f = m_functions m ! i in
         if unat (f_type_index f) \<ge> length (m_types m) then (Err Malformed, inst, h)
         else
           let signature = m_types m ! unat (f_type_index f) in
           if length arguments \<noteq> length (params signature) then (Err Faulted, inst, h)
           else execute m (call_function k host m) f (arguments @ map zero_value (f_locals f))
                  (results signature \<noteq> []) inst h)"

definition call_export ::
  "'h host_call \<Rightarrow> wmodule \<Rightarrow> str \<Rightarrow> wvalue list \<Rightarrow> winstance \<Rightarrow> 'h \<Rightarrow>
   (trap + wvalue option) \<times> winstance \<times> 'h" where
  "call_export host m name arguments inst h =
     (case module_export m name of
        None \<Rightarrow> (Err Malformed, inst, h)
      | Some index \<Rightarrow> call_function MAX_FRAMES host m index arguments inst h)"

end
