(* ===== verification/Wasm_Build.thy ===== *)
theory Wasm_Build
  imports Wasm_Module
begin

text \<open>
  The assembler of the tests of \<open>libs/wasm/src/lib.rs\<close> (module \<open>build\<close> and the builder
  \<open>Module\<close>), and what the decoder makes of its modules. A \<open>wsource\<close> holds the arguments of the
  builder's calls; \<open>assemble\<close> makes the calls. \<open>reads f xs x\<close> says that \<open>f\<close> reads \<open>x\<close> from the
  bytes \<open>xs\<close> wherever they stand; the lemmas about it follow the decoder's structure.
\<close>

section \<open>The builder\<close>

definition wsection :: "byte \<Rightarrow> byte list \<Rightarrow> byte list" where
  "wsection i payload = i # leb_unsigned (of_nat (length payload)) @ payload"

definition wvector :: "byte list list \<Rightarrow> byte list" where
  "wvector items = leb_unsigned (of_nat (length items)) @ concat items"

definition wname :: "str \<Rightarrow> byte list" where
  "wname s = leb_unsigned (of_nat (str_len s)) @ str_bytes s"

record wbuilder =
  b_types :: "byte list list"
  b_imports :: "byte list list"
  b_functions :: "u32 list"
  b_bodies :: "byte list list"
  b_exports :: "byte list list"
  b_memory :: "u32 option"
  b_data :: "(u32 \<times> byte list) list"

definition builder_new :: wbuilder where
  "builder_new = \<lparr>b_types = [], b_imports = [], b_functions = [], b_bodies = [], b_exports = [],
                  b_memory = None, b_data = []\<rparr>"

definition add_type :: "byte list \<Rightarrow> byte list \<Rightarrow> wbuilder \<Rightarrow> u32 \<times> wbuilder" where
  "add_type ps rs b =
     (let out = [0x60] @ leb_unsigned (of_nat (length ps)) @ ps @ leb_unsigned (of_nat (length rs)) @ rs;
          b = b\<lparr>b_types := b_types b @ [out]\<rparr>
      in (of_nat (length (b_types b)) - 1, b))"

definition add_import :: "str \<Rightarrow> str \<Rightarrow> u32 \<Rightarrow> wbuilder \<Rightarrow> wbuilder" where
  "add_import module_name field type_index b =
     b\<lparr>b_imports := b_imports b @ [wname module_name @ wname field @ [0x00] @ leb_unsigned (ucast type_index)]\<rparr>"

definition add_function :: "u32 \<Rightarrow> (u32 \<times> byte) list \<Rightarrow> byte list \<Rightarrow> wbuilder \<Rightarrow> u32 \<times> wbuilder" where
  "add_function type_index locals code b =
     (let body = leb_unsigned (of_nat (length locals)) @
            concat (map (\<lambda>(count, t). leb_unsigned (ucast count) @ [t]) locals) @ code @ [0x0b];
          sized = leb_unsigned (of_nat (length body)) @ body;
          b = b\<lparr>b_functions := b_functions b @ [type_index], b_bodies := b_bodies b @ [sized]\<rparr>
      in (of_nat (length (b_imports b)) + of_nat (length (b_functions b)) - 1, b))"

definition add_export :: "str \<Rightarrow> u32 \<Rightarrow> wbuilder \<Rightarrow> wbuilder" where
  "add_export field index b =
     b\<lparr>b_exports := b_exports b @ [wname field @ [0x00] @ leb_unsigned (ucast index)]\<rparr>"

definition data_entry :: "u32 \<times> byte list \<Rightarrow> byte list" where
  "data_entry d = (let (offset, bs) = d in
     leb_unsigned 0 @ [0x41] @ leb_signed (ucast offset) @ [0x0b] @ leb_unsigned (of_nat (length bs)) @ bs)"

definition builder_finish :: "wbuilder \<Rightarrow> byte list" where
  "builder_finish b =
     [0x00, 0x61, 0x73, 0x6d, 0x01, 0x00, 0x00, 0x00] @
     (if b_types b = [] then [] else wsection 1 (wvector (b_types b))) @
     (if b_imports b = [] then [] else wsection 2 (wvector (b_imports b))) @
     (if b_functions b = [] then []
      else wsection 3 (wvector (map (\<lambda>i. leb_unsigned (ucast i)) (b_functions b)))) @
     (case b_memory b of None \<Rightarrow> []
      | Some pages \<Rightarrow> wsection 5 (leb_unsigned 1 @ [0x00] @ leb_unsigned (ucast pages))) @
     (if b_exports b = [] then [] else wsection 7 (wvector (b_exports b))) @
     (if b_bodies b = [] then [] else wsection 10 (wvector (b_bodies b))) @
     (if b_data b = [] then [] else wsection 11 (wvector (map data_entry (b_data b))))"

section \<open>Reading what was written\<close>

definition reads :: "(reader \<Rightarrow> 'e + 'a \<times> reader) \<Rightarrow> byte list \<Rightarrow> 'a \<Rightarrow> bool" where
  "reads f xs x \<longleftrightarrow> (\<forall>bs p rest. drop p bs = xs @ rest \<longrightarrow> p \<le> length bs \<longrightarrow> length bs < 2 ^ 32 \<longrightarrow>
     f \<lparr>r_bytes = bs, position = p\<rparr> = Ok (x, \<lparr>r_bytes = bs, position = p + length xs\<rparr>))"

lemma readsI:
  "(\<And>bs p rest. drop p bs = xs @ rest \<Longrightarrow> p \<le> length bs \<Longrightarrow> length bs < 2 ^ 32 \<Longrightarrow>
     f \<lparr>r_bytes = bs, position = p\<rparr> = Ok (x, \<lparr>r_bytes = bs, position = p + length xs\<rparr>)) \<Longrightarrow> reads f xs x"
  by (simp add: reads_def)

lemma readsD:
  assumes "reads f xs x" "drop p bs = xs @ rest" "p \<le> length bs" "length bs < 2 ^ 32"
  shows "f \<lparr>r_bytes = bs, position = p\<rparr> = Ok (x, \<lparr>r_bytes = bs, position = p + length xs\<rparr>)"
    and "drop (p + length xs) bs = rest" "p + length xs \<le> length bs"
proof -
  show "f \<lparr>r_bytes = bs, position = p\<rparr> = Ok (x, \<lparr>r_bytes = bs, position = p + length xs\<rparr>)"
    using assms by (simp add: reads_def)
  from assms(2) have "drop (length xs) (drop p bs) = rest" by simp
  then show "drop (p + length xs) bs = rest" by (simp add: add.commute)
  from assms(2) have "length bs - p = length xs + length rest" by (metis length_append length_drop)
  with assms(3) show "p + length xs \<le> length bs" by simp
qed

lemma reads_bind:
  assumes f: "reads f xs x" and g: "length xs < 2 ^ 32 \<Longrightarrow> reads (g x) ys y"
  shows "reads (\<lambda>r. and_then (f r) (\<lambda>(a, r). g a r)) (xs @ ys) y"
proof (rule readsI)
  fix bs p rest assume a: "drop p bs = (xs @ ys) @ rest" "p \<le> length bs" "length bs < 2 ^ 32"
  then have d: "drop p bs = xs @ (ys @ rest)" by simp
  note r = readsD [OF f d a(2,3)]
  from r(3) a(3) have "length xs < 2 ^ 32" by simp
  from readsD(1) [OF g [OF this] r(2,3) a(3)] r(1)
  show "and_then (f \<lparr>r_bytes = bs, position = p\<rparr>) (\<lambda>(a, r). g a r) =
      Ok (y, \<lparr>r_bytes = bs, position = p + length (xs @ ys)\<rparr>)" by (simp add: add.assoc)
qed

lemma reads_return [simp]: "reads (\<lambda>r. Ok (x, r)) [] x"
  by (simp add: reads_def)

lemma reads_map:
  assumes "reads f xs x" shows "reads (\<lambda>r. and_then (f r) (\<lambda>(a, r). Ok (h a, r))) xs (h x)"
  using reads_bind [OF assms, of "\<lambda>a r. Ok (h a, r)" "[]"] reads_return by fastforce

lemma reads_into:
  "reads f xs x \<Longrightarrow> y = h x \<Longrightarrow> reads (\<lambda>r. and_then (f r) (\<lambda>(a, r). Ok (h a, r))) xs y"
  using reads_map by fast

lemma reads_rd: "reads f xs x \<Longrightarrow> reads (\<lambda>r. rd (f r)) xs x"
  by (simp add: reads_def)

lemma reads_byte: "reads reader_byte [b] b"
proof (rule readsI)
  fix bs p rest assume "drop p bs = [b] @ rest" "p \<le> length bs"
  then have "p < length bs" "bs ! p = b"
    by (metis append_Cons drop_eq_Nil list.distinct(1) not_le, metis append_Cons nth_via_drop)
  then show "reader_byte \<lparr>r_bytes = bs, position = p\<rparr> = Ok (b, \<lparr>r_bytes = bs, position = p + length [b]\<rparr>)"
    by (simp add: reader_byte_def)
qed

lemma reads_slice: "n = length xs \<Longrightarrow> reads (\<lambda>r. reader_slice r n) xs xs"
proof (rule readsI)
  fix bs p rest assume n: "n = length xs" and a: "drop p bs = xs @ rest" "p \<le> length bs" "length bs < 2 ^ 32"
  have "p + length xs \<le> length bs"
    using a(2) arg_cong [where f = length, OF a(1)] by simp
  moreover have "slice_of bs p (p + length xs) = xs" using a(1) by (simp add: slice_of_def)
  ultimately show "reader_slice \<lparr>r_bytes = bs, position = p\<rparr> n =
      Ok (xs, \<lparr>r_bytes = bs, position = p + length xs\<rparr>)"
    using n a(3) by (simp add: reader_slice_def)
qed

lemma reads_unsigned: "unat v < 2 ^ 32 \<Longrightarrow> reads (\<lambda>r. reader_unsigned r 32) (leb_unsigned v) v"
  by (rule readsI, rule reader_unsigned_enc) auto

lemma unat_ucast_32 [simp]: "unat (ucast (v :: u32) :: u64) = unat v"
proof -
  have "unat v < 2 ^ 32" using unsigned_less [of v] by simp
  then show ?thesis by (simp add: unsigned_ucast_eq take_bit_nat_eq_self)
qed

lemma ucast_ucast_32 [simp]: "ucast (ucast (v :: u32) :: u64) = v"
  by (rule bit_word_eqI) (simp add: bit_ucast_iff)

lemma reads_u32: "reads reader_u32 (leb_unsigned (ucast v)) v"
  unfolding reader_u32_def [abs_def]
  proof -
  have "unat v < 2 ^ 32" using unsigned_less [of v] by simp
  then show "reads (\<lambda>r. and_then (reader_unsigned r 32) (\<lambda>(v, r). Ok (ucast v, r))) (leb_unsigned (ucast v)) v"
    using reads_map [OF reads_unsigned, of "ucast v" "ucast :: u64 \<Rightarrow> u32"] by simp
qed

lemma reads_usize: "n < 2 ^ 32 \<Longrightarrow> reads reader_usize (leb_unsigned (of_nat n)) n"
  unfolding reader_usize_def [abs_def]
  using reads_map [OF reads_unsigned, of "of_nat n" unat] by (simp add: unat_of_nat)

lemma reads_name: "str_ok s \<Longrightarrow> str_len s < 2 ^ 32 \<Longrightarrow> reads reader_name (wname s) s"
  unfolding reader_name_def [abs_def] wname_def
proof (rule reads_bind [OF reads_usize])
  assume "str_ok s"
  moreover have "reads (\<lambda>r. and_then (reader_slice r (str_len s)) (\<lambda>(bs, r). Ok (bs, r))) (str_bytes s) (str_bytes s)"
    using reads_map [OF reads_slice, of "str_len s" "str_bytes s" id] by (simp add: str_len_def id_def)
  ultimately show "reads (\<lambda>r. and_then (reader_slice r (str_len s)) (\<lambda>(bs, r).
      case from_utf8 bs of None \<Rightarrow> Err LMalformed | Some s \<Rightarrow> Ok (s, r))) (str_bytes s) s"
    by (auto simp: reads_def result_simps)
qed

lemma reads_count: "n \<le> c \<Longrightarrow> n < 2 ^ 32 \<Longrightarrow> reads (read_count c) (leb_unsigned (of_nat n)) n"
  unfolding read_count_def [abs_def]
  using reads_bind [where g = "\<lambda>n r. if n > c then Err TooLarge else Ok (n, r)" and ys = "[]" and y = n,
      OF reads_rd [OF reads_usize], of n]
  by simp

lemma reads_many:
  assumes "\<And>x. x \<in> set xs \<Longrightarrow> reads f (enc x) x"
  shows "reads (read_many (length xs) f) (concat (map enc xs)) xs"
  using assms
proof (induction xs)
  case Nil
  then show ?case by (simp add: reads_def)
next
  case (Cons x xs)
  then have "reads (read_many (length xs) f) (concat (map enc xs)) xs" by simp
  then have g: "reads (\<lambda>r. and_then (read_many (length xs) f r) (\<lambda>(ys, r). Ok (x # ys, r)))
      (concat (map enc xs)) (x # xs)" by (rule reads_map)
  have "reads f (enc x) x" using Cons.prems by simp
  from reads_bind [where g = "\<lambda>x r. and_then (read_many (length xs) f r) (\<lambda>(ys, r). Ok (x # ys, r))", OF this g]
  show ?case by simp
qed

fun type_byte :: "value_type \<Rightarrow> byte" where
  "type_byte TI32 = 0x7f"
| "type_byte TI64 = 0x7e"

lemma value_type_decode_byte [simp]: "value_type_decode (type_byte t) = Ok t"
  by (cases t) (simp_all add: value_type_decode_def)

lemma reads_value_type: "reads read_value_type [type_byte t] t"
  unfolding read_value_type_def [abs_def]
  using reads_bind [where g = "\<lambda>b r. and_then (value_type_decode b) (\<lambda>t. Ok (t, r))" and ys = "[]" and y = t,
      OF reads_rd [OF reads_byte], of "type_byte t"]
  by simp

lemma reads_value_types:
  "reads (read_many (length ts) read_value_type) (map type_byte ts) ts"
  using reads_many [of ts read_value_type "\<lambda>t. [type_byte t]"] reads_value_type
  by (simp add: concat_map_singleton)

section \<open>The entries of the sections\<close>

text \<open>A guard that the encoding passes, and the reads in front of the rest.\<close>

lemma reads_guard: "\<not> b \<Longrightarrow> reads f xs x \<Longrightarrow> reads (\<lambda>r. if b then Err e else f r) xs x"
  by simp

lemma reads_choice: "b \<Longrightarrow> reads f xs x \<Longrightarrow> reads (\<lambda>r. if b then f r else g r) xs x"
  by simp

lemmas reads_then =
  reads_bind [OF reads_rd [OF reads_byte]]
  reads_bind [OF reads_rd [OF reads_usize]]
  reads_bind [OF reads_rd [OF reads_u32]]
  reads_bind [OF reads_rd [OF reads_name]]
  reads_bind [OF reads_value_types]

definition type_bytes :: "func_type \<Rightarrow> byte list" where
  "type_bytes t = [0x60] @ leb_unsigned (of_nat (length (params t))) @ map type_byte (params t) @
     leb_unsigned (of_nat (length (results t))) @ map type_byte (results t)"

lemma reads_type:
  assumes "length (params t) < 2 ^ 32" "length (results t) \<le> 1"
  shows "reads read_type (type_bytes t) t"
proof -
  have "reads (\<lambda>r. and_then (read_many (length (results t)) read_value_type r)
      (\<lambda>(rs, r). Ok (\<lparr>params = params t, results = rs\<rparr>, r))) (map type_byte (results t)) t"
    by (rule reads_into [OF reads_value_types]) simp_all
  then show ?thesis
    unfolding read_type_def [abs_def] type_bytes_def
    using assms by (intro reads_then reads_guard) simp_all
qed

definition import_bytes :: "import_ref \<Rightarrow> byte list" where
  "import_bytes im = wname (i_module im) @ wname (i_name im) @ [0x00] @ leb_unsigned (ucast (i_type_index im))"

lemma reads_import:
  assumes "str_ok (i_module im)" "str_ok (i_name im)" "str_len (i_module im) < 2 ^ 32" "str_len (i_name im) < 2 ^ 32"
  shows "reads read_import (import_bytes im) im"
proof -
  let ?mk = "\<lambda>ti. \<lparr>i_module = i_module im, i_name = i_name im, i_type_index = ti\<rparr> :: import_ref"
  have "reads (\<lambda>r. and_then (rd (reader_u32 r)) (\<lambda>(ti, r). Ok (?mk ti, r))) (leb_unsigned (ucast (i_type_index im))) im"
    by (rule reads_into [OF reads_rd [OF reads_u32]]) simp_all
  then show ?thesis
    unfolding read_import_def [abs_def] import_bytes_def
    using assms by (intro reads_then reads_choice) simp_all
qed

definition export_bytes :: "wexport \<Rightarrow> byte list" where
  "export_bytes e = wname (x_name e) @ [0x00] @ leb_unsigned (ucast (function_index e))"

lemma reads_export:
  assumes "str_ok (x_name e)" "str_len (x_name e) < 2 ^ 32"
  shows "reads read_export (export_bytes e) (Some e)"
proof -
  let ?mk = "\<lambda>i. Some \<lparr>x_name = x_name e, function_index = i\<rparr> :: wexport option"
  have "reads (\<lambda>r. and_then (rd (reader_u32 r)) (\<lambda>(i, r). Ok (?mk i, r))) (leb_unsigned (ucast (function_index e))) (Some e)"
    by (rule reads_into [OF reads_rd [OF reads_u32]]) simp_all
  then show ?thesis
    unfolding read_export_def [abs_def] export_bytes_def
    using assms by (intro reads_then) simp_all
qed

lemma reads_memory: "pages \<le> 16 \<Longrightarrow> reads read_memory ([0x00] @ leb_unsigned (ucast pages)) (pages, 16)"
proof -
  assume "pages \<le> 16"
  moreover have "reads (\<lambda>r. and_then (rd (reader_u32 r)) (\<lambda>(mn, r). Ok ((mn, 16 :: u32), r))) (leb_unsigned (ucast pages)) (pages, 16)"
    by (rule reads_into [OF reads_rd [OF reads_u32]]) simp_all
  ultimately show ?thesis
    unfolding read_memory_def [abs_def]
    by (intro reads_bind [OF reads_rd [OF reads_byte]]) (auto simp: reads_def MAX_MEMORY_PAGES_def)
qed

lemma reads_signed:
  "- (2 ^ 31) \<le> sint v \<Longrightarrow> sint v < 2 ^ 31 \<Longrightarrow> reads (\<lambda>r. reader_signed r 32) (leb_signed v) v"
  by (rule readsI, rule reader_signed_enc) auto

lemma reads_zero: "reads reader_u32 (leb_unsigned 0) 0"
  using reads_u32 [of 0] by simp

lemma reads_data:
  assumes "unat offset < 2 ^ 31" "length bs < 2 ^ 32"
  shows "reads read_data (data_entry (offset, bs)) (offset, bs)"
proof -
  let ?o = "int (unat offset)"
  have "?o < int (2 ^ 31)" using assms(1) by (simp only: of_nat_less_iff)
  then have lt: "?o < 2 ^ 31" by (simp only: of_nat_power of_nat_numeral)
  have pos: "0 \<le> ?o" by (rule of_nat_0_le_iff)
  have u: "(unsigned offset :: int) = ?o" by simp
  have "signed_take_bit 63 ?o = ?o"
  proof (rule signed_take_bit_int_eq_self)
    show "- (2 ^ 63) \<le> ?o" by (rule order_trans [OF _ pos]) simp
    show "?o < 2 ^ 63" by (rule less_le_trans [OF lt]) simp
  qed
  then have s: "sint (ucast offset :: u64) = ?o" unfolding signed_ucast_eq u by simp
  have range: "- (2 ^ 31) \<le> sint (ucast offset :: u64)" "sint (ucast offset :: u64) < 2 ^ 31"
    unfolding s using lt by (simp_all only:)
  have "reads (\<lambda>r. and_then (rd (reader_slice r (length bs))) (\<lambda>(xs, r). Ok ((offset, xs), r))) bs (offset, bs)"
    by (rule reads_into [OF reads_rd [OF reads_slice]]) simp_all
  then show ?thesis
    unfolding read_data_def [abs_def] data_entry_def Let_def prod.case
    using assms(2)
    by (intro reads_bind [OF reads_rd [OF reads_zero]] reads_then reads_guard
        reads_bind [OF reads_rd [OF reads_signed [OF range]]]) simp_all
qed

section \<open>Function bodies\<close>

definition group_bytes :: "u32 \<times> value_type \<Rightarrow> byte list" where
  "group_bytes g = leb_unsigned (ucast (fst g)) @ [type_byte (snd g)]"

definition expand_locals :: "(u32 \<times> value_type) list \<Rightarrow> value_type list" where
  "expand_locals gs = concat (map (\<lambda>(n, t). replicate (unat n) t) gs)"

lemma reads_locals:
  assumes "length ls + length (expand_locals gs) \<le> MAX_LOCALS"
  shows "reads (read_locals (length gs) ls) (concat (map group_bytes gs)) (ls @ expand_locals gs)"
  using assms
proof (induction gs arbitrary: ls)
  case Nil
  then show ?case by (simp add: expand_locals_def)
next
  case (Cons g gs)
  obtain n t where g: "g = (n, t)" by (metis surj_pair)
  have more: "expand_locals (g # gs) = replicate (unat n) t @ expand_locals gs" by (simp add: expand_locals_def g)
  have "reads (read_locals (length gs) (ls @ replicate (unat n) t)) (concat (map group_bytes gs))
      (ls @ expand_locals (g # gs))"
    using Cons.IH [of "ls @ replicate (unat n) t"] Cons.prems more by simp
  then have rest: "reads (\<lambda>r. if length ls + unat n > MAX_LOCALS then Err TooLarge
      else read_locals (length gs) (ls @ replicate (unat n) t) r) (concat (map group_bytes gs))
      (ls @ expand_locals (g # gs))"
    using Cons.prems more by simp
  have usize: "reads reader_usize (leb_unsigned (ucast n)) (unat n)"
  proof -
    have "of_nat (unat n) = (ucast n :: u64)" by simp
    moreover have "unat n < 2 ^ 32" using unsigned_less [of n] by simp
    ultimately show ?thesis using reads_usize [of "unat n"] by simp
  qed
  have "reads (\<lambda>r. and_then (rd (reader_usize r)) (\<lambda>(count, r). and_then (read_value_type r) (\<lambda>(t, r).
      if length ls + count > MAX_LOCALS then Err TooLarge else read_locals (length gs) (ls @ replicate count t) r)))
      (leb_unsigned (ucast n) @ [type_byte t] @ concat (map group_bytes gs)) (ls @ expand_locals (g # gs))"
    by (intro reads_bind [OF reads_rd [OF usize]] reads_bind [OF reads_value_type] rest)
  moreover have "group_bytes (n, t) = leb_unsigned (ucast n) @ [type_byte t]" by (simp add: group_bytes_def)
  ultimately show ?case by (simp add: g)
qed

definition body_bytes :: "(u32 \<times> value_type) list \<Rightarrow> byte list \<Rightarrow> byte list" where
  "body_bytes gs code = leb_unsigned (of_nat (length gs)) @ concat (map group_bytes gs) @ code @ [0x0b]"

definition sized :: "byte list \<Rightarrow> byte list" where
  "sized bs = leb_unsigned (of_nat (length bs)) @ bs"

text \<open>What a decoded function has to do with its source.\<close>

definition function_from :: "byte list \<Rightarrow> u32 \<times> (u32 \<times> value_type) list \<times> byte list \<Rightarrow> wfunction \<Rightarrow> bool" where
  "function_from bs src f \<longleftrightarrow> (case src of (ti, gs, code) \<Rightarrow>
     f_type_index f = ti \<and> f_locals f = expand_locals gs \<and> body_start f \<le> body_end f \<and> body_end f \<le> length bs \<and>
     slice_of bs (body_start f) (body_end f) = code @ [0x0b])"

lemma length_concat_groups: "length gs \<le> length (concat (map group_bytes gs))"
  by (induction gs) (auto simp: group_bytes_def)

lemma read_body_enc:
  assumes d: "drop p bs = sized (body_bytes gs code) @ rest" "p \<le> length bs" "length bs < 2 ^ 32"
    and l: "length (expand_locals gs) \<le> MAX_LOCALS"
  shows "\<exists>f. read_body (length bs) ti \<lparr>r_bytes = bs, position = p\<rparr> =
      Ok (f, \<lparr>r_bytes = bs, position = p + length (sized (body_bytes gs code))\<rparr>) \<and>
    function_from bs (ti, gs, code) f"
proof -
  let ?body = "body_bytes gs code"
  define p1 where "p1 = p + length (leb_unsigned (of_nat (length ?body)))"
  define p2 where "p2 = p1 + length (leb_unsigned (of_nat (length gs)))"
  define p3 where "p3 = p2 + length (concat (map group_bytes gs))"
  have n: "length (sized ?body @ rest) = length bs - p" by (metis d(1) length_drop)
  have "length gs \<le> length ?body" using length_concat_groups [of gs] by (simp add: body_bytes_def)
  with n d(3) have small: "length ?body < 2 ^ 32" "length gs < 2 ^ 32" by (auto simp: sized_def)
  note s1 = readsD [OF reads_usize [OF small(1)], of p bs "?body @ rest", folded p1_def]
  have r1: "reader_usize \<lparr>r_bytes = bs, position = p\<rparr> = Ok (length ?body, \<lparr>r_bytes = bs, position = p1\<rparr>)"
    "drop p1 bs = ?body @ rest" "p1 \<le> length bs" using s1 d by (simp_all add: sized_def)
  note s2 = readsD [OF reads_usize [OF small(2)], of p1 bs "concat (map group_bytes gs) @ code @ [0x0b] @ rest", folded p2_def]
  have r2: "reader_usize \<lparr>r_bytes = bs, position = p1\<rparr> = Ok (length gs, \<lparr>r_bytes = bs, position = p2\<rparr>)"
    "drop p2 bs = concat (map group_bytes gs) @ code @ [0x0b] @ rest" "p2 \<le> length bs"
    using s2 r1 d by (simp_all add: body_bytes_def)
  have "reads (read_locals (length gs) []) (concat (map group_bytes gs)) (expand_locals gs)"
    using reads_locals [of "[]" gs] l by simp
  note r3 = readsD [OF this r2(2,3) d(3), folded p3_def]
  have stop: "p1 + length ?body = p3 + length (code @ [0x0b])"
    by (simp add: p3_def p2_def body_bytes_def)
  have in_bytes: "p1 + length ?body \<le> length bs"
    using arg_cong [where f = length, OF r1(2)] r1(3) by simp
  have slice: "slice_of bs p3 (p1 + length ?body) = code @ [0x0b]"
    using r3(2) stop by (simp add: slice_of_def)
  let ?f = "\<lparr>f_type_index = ti, f_locals = expand_locals gs, body_start = p3, body_end = p1 + length ?body\<rparr> :: wfunction"
  have "read_body (length bs) ti \<lparr>r_bytes = bs, position = p\<rparr> = Ok (?f, \<lparr>r_bytes = bs, position = p1 + length ?body\<rparr>)"
    using in_bytes d(3) by (simp add: read_body_def r1(1) r2(1) r3(1) Let_def reader_seek_def)
  moreover have "p1 + length ?body = p + length (sized ?body)" by (simp add: p1_def sized_def)
  moreover have "function_from bs (ti, gs, code) ?f"
    using slice in_bytes stop by (simp add: function_from_def)
  ultimately show ?thesis by auto
qed

lemma read_bodies_enc:
  assumes "drop p bs = concat (map (\<lambda>(ti, gs, code). sized (body_bytes gs code)) fs) @ rest"
    and "p \<le> length bs" "length bs < 2 ^ 32"
    and "\<forall>(ti, gs, code) \<in> set fs. length (expand_locals gs) \<le> MAX_LOCALS"
  shows "\<exists>ws. read_bodies (length bs) (map fst fs) \<lparr>r_bytes = bs, position = p\<rparr> = Ok ws \<and>
    list_all2 (function_from bs) fs ws"
  using assms
proof (induction fs arbitrary: p)
  case Nil
  then show ?case by simp
next
  case (Cons x fs)
  obtain ti gs code where x: "x = (ti, gs, code)" by (metis surj_pair)
  let ?s = "sized (body_bytes gs code)"
  let ?r = "concat (map (\<lambda>(ti, gs, code). sized (body_bytes gs code)) fs) @ rest"
  have d: "drop p bs = ?s @ ?r" using Cons.prems(1) x by simp
  from read_body_enc [OF d Cons.prems(2,3), of ti] Cons.prems(4) x obtain f where
    f: "read_body (length bs) ti \<lparr>r_bytes = bs, position = p\<rparr> = Ok (f, \<lparr>r_bytes = bs, position = p + length ?s\<rparr>)"
    "function_from bs (ti, gs, code) f" by auto
  have "drop (length ?s) (drop p bs) = ?r" using d by simp
  then have d2: "drop (p + length ?s) bs = ?r" by (simp add: add.commute)
  have "p + length ?s \<le> length bs" using arg_cong [where f = length, OF d] Cons.prems(2) by simp
  from Cons.IH [OF d2 this Cons.prems(3)] Cons.prems(4) obtain ws where
    "read_bodies (length bs) (map fst fs) \<lparr>r_bytes = bs, position = p + length ?s\<rparr> = Ok ws"
    "list_all2 (function_from bs) fs ws" by auto
  with f x show ?case by auto
qed

section \<open>The sections\<close>

lemma section_step:
  assumes d: "drop p bs = wsection i payload @ rest" "p \<le> length bs" "length bs < 2 ^ 32"
    and order: "previous < i"
    and contents: "\<And>q. q = p + 1 + length (leb_unsigned (of_nat (length payload))) \<Longrightarrow>
      decode_section i \<lparr>r_bytes = bs, position = q\<rparr> s = Ok s'"
  shows "decode_sections previous \<lparr>r_bytes = bs, position = p\<rparr> s =
      decode_sections i \<lparr>r_bytes = bs, position = p + length (wsection i payload)\<rparr> s'"
    and "drop (p + length (wsection i payload)) bs = rest" "p + length (wsection i payload) \<le> length bs"
proof -
  let ?h = "leb_unsigned (of_nat (length payload))"
  define q where "q = p + 1 + length ?h"
  have len: "length bs = p + length (wsection i payload) + length rest"
    using arg_cong [where f = length, OF d(1)] d(2) by simp
  have n: "length payload < 2 ^ 32" using len d(3) by (simp add: wsection_def)
  have d1: "drop p bs = [i] @ (?h @ payload @ rest)" using d(1) by (simp add: wsection_def)
  note b = readsD [OF reads_byte d1 d(2,3)]
  note u = readsD [OF reads_usize [OF n] b(2) b(3) d(3)]
  have q: "p + length [i] + length ?h = q" by (simp add: q_def)
  note u = u [unfolded q]
  have stop: "q + length payload = p + length (wsection i payload)" by (simp add: q_def wsection_def)
  have i: "\<not> (i \<noteq> 0 \<and> i \<le> previous)" "i \<noteq> 0" using order by auto
  have "section_header previous \<lparr>r_bytes = bs, position = p\<rparr> =
      Ok (i, \<lparr>r_bytes = bs, position = q\<rparr>, p + length (wsection i payload))"
    using i len d(3) stop by (simp add: section_header_def b(1) u(1) [simplified] Let_def)
  moreover have "\<not> at_end \<lparr>r_bytes = bs, position = p\<rparr>"
    using len by (simp add: at_end_def wsection_def)
  ultimately show "decode_sections previous \<lparr>r_bytes = bs, position = p\<rparr> s =
      decode_sections i \<lparr>r_bytes = bs, position = p + length (wsection i payload)\<rparr> s'"
    using contents [OF q_def] i by (subst decode_sections.simps) simp
  show "p + length (wsection i payload) \<le> length bs" using len by simp
  have "drop (length (wsection i payload)) (drop p bs) = rest" using d(1) by simp
  then show "drop (p + length (wsection i payload)) bs = rest" by (simp add: add.commute)
qed

text \<open>The decoder in front of \<open>rest\<close>, with no section above \<open>i\<close> passed and the state \<open>s\<close> reached.\<close>

definition ahead :: "byte list \<Rightarrow> byte \<Rightarrow> byte list \<Rightarrow> wmodule \<times> u32 list \<Rightarrow> merror + wmodule \<times> u32 list \<Rightarrow> bool" where
  "ahead bs i rest s out \<longleftrightarrow> (\<exists>previous p. previous \<le> i \<and> drop p bs = rest \<and> p \<le> length bs \<and>
     out = decode_sections previous \<lparr>r_bytes = bs, position = p\<rparr> s)"

lemma ahead_section_ex:
  assumes a: "ahead bs j (chunk @ rest) s out" and "j < i" "length bs < 2 ^ 32"
    and "chunk = (if skip then [] else wsection i payload)"
    and "skip \<Longrightarrow> P s"
    and "\<And>q. \<not> skip \<Longrightarrow> drop q bs = payload @ rest \<Longrightarrow> q \<le> length bs \<Longrightarrow>
      \<exists>s'. decode_section i \<lparr>r_bytes = bs, position = q\<rparr> s = Ok s' \<and> P s'"
  shows "\<exists>s'. P s' \<and> ahead bs i rest s' out"
proof -
  from a obtain previous p where p: "previous \<le> j" "drop p bs = chunk @ rest" "p \<le> length bs"
    and out: "out = decode_sections previous \<lparr>r_bytes = bs, position = p\<rparr> s" by (auto simp: ahead_def)
  from p(1) assms(2) have lt: "previous < i" by (rule le_less_trans)
  show ?thesis
  proof (cases skip)
    case True
    have "drop p bs = rest" using p(2) assms(4) True by simp
    with p(3) out lt have "ahead bs i rest s out" unfolding ahead_def by (metis less_imp_le)
    with True assms(5) show ?thesis by blast
  next
    case False
    with assms(4) p(2) have d: "drop p bs = wsection i payload @ rest" by simp
    define q where "q = p + 1 + length (leb_unsigned (of_nat (length payload)))"
    have q: "drop q bs = payload @ rest" "q \<le> length bs"
    proof -
      have "drop (1 + length (leb_unsigned (of_nat (length payload)))) (drop p bs) = payload @ rest"
        unfolding d by (simp add: wsection_def)
      then show "drop q bs = payload @ rest" by (simp add: q_def algebra_simps)
      show "q \<le> length bs" using arg_cong [where f = length, OF d] p(3) by (simp add: q_def wsection_def)
    qed
    from assms(6) [OF False q] obtain s' where
      s': "decode_section i \<lparr>r_bytes = bs, position = q\<rparr> s = Ok s'" "P s'" by blast
    have one: "decode_section i \<lparr>r_bytes = bs, position = q'\<rparr> s = Ok s'"
      if "q' = p + 1 + length (leb_unsigned (of_nat (length payload)))" for q'
      using s'(1) that by (simp add: q_def)
    from section_step [OF d p(3) assms(3) lt one] out s'(2)
    show ?thesis unfolding ahead_def by (metis order_refl)
  qed
qed

lemma ahead_section:
  assumes "ahead bs j (chunk @ rest) s out" "j < i" "length bs < 2 ^ 32"
    and "chunk = (if skip then [] else wsection i payload)"
    and "skip \<Longrightarrow> s' = s"
    and "\<And>q. drop q bs = payload @ rest \<Longrightarrow> q \<le> length bs \<Longrightarrow>
      decode_section i \<lparr>r_bytes = bs, position = q\<rparr> s = Ok s'"
  shows "ahead bs i rest s' out"
  using ahead_section_ex [OF assms(1-4), of "\<lambda>x. x = s'"] assms(5,6) by blast

lemma ahead_end: "ahead bs i [] s out \<Longrightarrow> out = Ok s"
  by (auto simp: ahead_def at_end_def decode_sections.simps)

lemma read_vector:
  assumes "drop q bs = wvector (map enc xs) @ rest" "q \<le> length bs" "length bs < 2 ^ 32"
    and "length xs \<le> c" "c < 2 ^ 32" "\<forall>x \<in> set xs. reads f (enc x) x"
  shows "\<exists>r r'. read_count c \<lparr>r_bytes = bs, position = q\<rparr> = Ok (length xs, r) \<and>
    read_many (length xs) f r = Ok (xs, r')"
proof -
  have n: "length xs < 2 ^ 32" using assms(4,5) by simp
  have d: "drop q bs = leb_unsigned (of_nat (length xs)) @ (concat (map enc xs) @ rest)"
    using assms(1) by (simp add: wvector_def)
  note c = readsD [OF reads_count [OF assms(4) n] d assms(2,3)]
  have "reads (read_many (length xs) f) (concat (map enc xs)) xs" using assms(6) by (intro reads_many) blast
  from readsD(1) [OF this c(2,3) assms(3)] c(1) show ?thesis by blast
qed

section \<open>Assembling a module\<close>

record wsource =
  s_types :: "func_type list"
  s_imports :: "import_ref list"
  s_functions :: "(u32 \<times> (u32 \<times> value_type) list \<times> byte list) list"
  s_memory :: "u32 option"
  s_exports :: "wexport list"
  s_data :: "(u32 \<times> byte list) list"

definition put_type :: "func_type \<Rightarrow> wbuilder \<Rightarrow> wbuilder" where
  "put_type t b = snd (add_type (map type_byte (params t)) (map type_byte (results t)) b)"

definition put_import :: "import_ref \<Rightarrow> wbuilder \<Rightarrow> wbuilder" where
  "put_import im b = add_import (i_module im) (i_name im) (i_type_index im) b"

definition put_function :: "u32 \<times> (u32 \<times> value_type) list \<times> byte list \<Rightarrow> wbuilder \<Rightarrow> wbuilder" where
  "put_function f b = (case f of (ti, gs, code) \<Rightarrow>
     snd (add_function ti (map (\<lambda>(n, t). (n, type_byte t)) gs) code b))"

definition put_export :: "wexport \<Rightarrow> wbuilder \<Rightarrow> wbuilder" where
  "put_export e b = add_export (x_name e) (function_index e) b"

definition assemble :: "wsource \<Rightarrow> byte list" where
  "assemble src = builder_finish
     (fold put_export (s_exports src)
     (fold put_function (s_functions src)
     (fold put_import (s_imports src)
     (fold put_type (s_types src) (builder_new\<lparr>b_memory := s_memory src, b_data := s_data src\<rparr>)))))"

abbreviation sized_body :: "u32 \<times> (u32 \<times> value_type) list \<times> byte list \<Rightarrow> byte list" where
  "sized_body \<equiv> \<lambda>(ti, gs, code). sized (body_bytes gs code)"

lemma put_simps:
  "put_type t b = b\<lparr>b_types := b_types b @ [type_bytes t]\<rparr>"
  "put_import im b = b\<lparr>b_imports := b_imports b @ [import_bytes im]\<rparr>"
  "put_export e b = b\<lparr>b_exports := b_exports b @ [export_bytes e]\<rparr>"
  "put_function f b = b\<lparr>b_functions := b_functions b @ [fst f], b_bodies := b_bodies b @ [sized_body f]\<rparr>"
proof -
  have "concat (map (\<lambda>(count, t). leb_unsigned (ucast count) @ [t]) (map (\<lambda>(n, t). (n, type_byte t)) gs)) =
      concat (map group_bytes gs)" for gs
    by (induction gs) (auto simp: group_bytes_def)
  then show "put_function f b = b\<lparr>b_functions := b_functions b @ [fst f], b_bodies := b_bodies b @ [sized_body f]\<rparr>"
    by (cases f) (simp add: put_function_def add_function_def Let_def body_bytes_def sized_def)
qed (simp_all add: put_type_def add_type_def type_bytes_def put_import_def add_import_def import_bytes_def
      put_export_def add_export_def export_bytes_def Let_def)

lemma fold_put:
  "fold put_type ts b = b\<lparr>b_types := b_types b @ map type_bytes ts\<rparr>"
  "fold put_import ims b = b\<lparr>b_imports := b_imports b @ map import_bytes ims\<rparr>"
  "fold put_export es b = b\<lparr>b_exports := b_exports b @ map export_bytes es\<rparr>"
  "fold put_function fs b = b\<lparr>b_functions := b_functions b @ map fst fs, b_bodies := b_bodies b @ map sized_body fs\<rparr>"
  subgoal by (induction ts arbitrary: b) (simp_all add: put_simps)
  subgoal by (induction ims arbitrary: b) (simp_all add: put_simps)
  subgoal by (induction es arbitrary: b) (simp_all add: put_simps)
  subgoal by (induction fs arbitrary: b) (simp_all add: put_simps)
  done

lemma assemble_eq:
  "assemble src =
     [0x00, 0x61, 0x73, 0x6d, 0x01, 0x00, 0x00, 0x00] @
     (if s_types src = [] then [] else wsection 1 (wvector (map type_bytes (s_types src)))) @
     (if s_imports src = [] then [] else wsection 2 (wvector (map import_bytes (s_imports src)))) @
     (if s_functions src = [] then []
      else wsection 3 (wvector (map (\<lambda>i. leb_unsigned (ucast i)) (map fst (s_functions src))))) @
     (if s_memory src = None then []
      else wsection 5 (leb_unsigned 1 @ [0x00] @ leb_unsigned (ucast (the (s_memory src))))) @
     (if s_exports src = [] then [] else wsection 7 (wvector (map export_bytes (s_exports src)))) @
     (if s_functions src = [] then [] else wsection 10 (wvector (map sized_body (s_functions src)))) @
     (if s_data src = [] then [] else wsection 11 (wvector (map data_entry (s_data src))))"
  by (simp add: assemble_def builder_finish_def fold_put builder_new_def split: option.split)

text \<open>Sources within the ceilings of the decoder.\<close>

definition fits :: "wsource \<Rightarrow> bool" where
  "fits src \<longleftrightarrow> length (assemble src) \<le> MAX_MODULE_BYTES \<and>
     length (s_types src) \<le> MAX_TYPES \<and> length (s_imports src) \<le> MAX_IMPORTS \<and>
     length (s_functions src) \<le> MAX_FUNCTIONS \<and> length (s_exports src) \<le> MAX_EXPORTS \<and>
     length (s_data src) \<le> MAX_DATA_SEGMENTS \<and>
     (\<forall>t \<in> set (s_types src). length (params t) < 2 ^ 32 \<and> length (results t) \<le> 1) \<and>
     (\<forall>im \<in> set (s_imports src). str_ok (i_module im) \<and> str_ok (i_name im) \<and>
        str_len (i_module im) < 2 ^ 32 \<and> str_len (i_name im) < 2 ^ 32) \<and>
     (\<forall>(ti, gs, code) \<in> set (s_functions src). length (expand_locals gs) \<le> MAX_LOCALS) \<and>
     (\<forall>e \<in> set (s_exports src). str_ok (x_name e) \<and> str_len (x_name e) < 2 ^ 32) \<and>
     (\<forall>pages. s_memory src = Some pages \<longrightarrow> pages \<le> 16) \<and>
     (\<forall>(offset, bs) \<in> set (s_data src). unat offset < 2 ^ 31 \<and> length bs < 2 ^ 32)"

definition decoded_from :: "wsource \<Rightarrow> wmodule \<Rightarrow> bool" where
  "decoded_from src m \<longleftrightarrow> m_bytes m = assemble src \<and> m_types m = s_types src \<and> m_imports m = s_imports src \<and>
     list_all2 (function_from (assemble src)) (s_functions src) (m_functions m) \<and>
     m_exports m = s_exports src \<and> memory_pages m = map_option (\<lambda>p. (p, 16)) (s_memory src) \<and>
     m_data m = s_data src"

lemma map_filter_Some: "List.map_filter id (map Some xs) = xs"
  by (induction xs) (simp_all add: map_filter_simps)

lemma reads_data_pair:
  "unat (fst d) < 2 ^ 31 \<Longrightarrow> length (snd d) < 2 ^ 32 \<Longrightarrow> reads read_data (data_entry d) d"
  using reads_data [of "fst d" "snd d"] by simp

lemma section_contents:
  assumes "q \<le> length bs" "length bs < 2 ^ 32"
  shows "drop q bs = wvector (map type_bytes ts) @ rest \<Longrightarrow> length ts \<le> MAX_TYPES \<Longrightarrow>
      (\<And>t. t \<in> set ts \<Longrightarrow> length (params t) < 2 ^ 32 \<and> length (results t) \<le> 1) \<Longrightarrow>
      decode_section 1 \<lparr>r_bytes = bs, position = q\<rparr> (m, fts) = Ok (m\<lparr>m_types := m_types m @ ts\<rparr>, fts)"
    and "drop q bs = wvector (map import_bytes ims) @ rest \<Longrightarrow> length ims \<le> MAX_IMPORTS \<Longrightarrow>
      (\<And>im. im \<in> set ims \<Longrightarrow> str_ok (i_module im) \<and> str_ok (i_name im) \<and>
         str_len (i_module im) < 2 ^ 32 \<and> str_len (i_name im) < 2 ^ 32) \<Longrightarrow>
      decode_section 2 \<lparr>r_bytes = bs, position = q\<rparr> (m, fts) = Ok (m\<lparr>m_imports := m_imports m @ ims\<rparr>, fts)"
    and "drop q bs = wvector (map (\<lambda>i. leb_unsigned (ucast i)) tis) @ rest \<Longrightarrow> length tis \<le> MAX_FUNCTIONS \<Longrightarrow>
      decode_section 3 \<lparr>r_bytes = bs, position = q\<rparr> (m, fts) = Ok (m, fts @ tis)"
    and "drop q bs = wvector (map export_bytes es) @ rest \<Longrightarrow> length es \<le> MAX_EXPORTS \<Longrightarrow>
      (\<And>e. e \<in> set es \<Longrightarrow> str_ok (x_name e) \<and> str_len (x_name e) < 2 ^ 32) \<Longrightarrow>
      decode_section 7 \<lparr>r_bytes = bs, position = q\<rparr> (m, fts) = Ok (m\<lparr>m_exports := m_exports m @ es\<rparr>, fts)"
    and "drop q bs = wvector (map data_entry ds) @ rest \<Longrightarrow> length ds \<le> MAX_DATA_SEGMENTS \<Longrightarrow>
      (\<And>d. d \<in> set ds \<Longrightarrow> unat (fst d) < 2 ^ 31 \<and> length (snd d) < 2 ^ 32) \<Longrightarrow>
      decode_section 11 \<lparr>r_bytes = bs, position = q\<rparr> (m, fts) = Ok (m\<lparr>m_data := m_data m @ ds\<rparr>, fts)"
proof -
  note c = MAX_TYPES_def MAX_IMPORTS_def MAX_FUNCTIONS_def MAX_EXPORTS_def MAX_DATA_SEGMENTS_def
  show "decode_section 1 \<lparr>r_bytes = bs, position = q\<rparr> (m, fts) = Ok (m\<lparr>m_types := m_types m @ ts\<rparr>, fts)"
    if d: "drop q bs = wvector (map type_bytes ts) @ rest" "length ts \<le> MAX_TYPES"
      "\<And>t. t \<in> set ts \<Longrightarrow> length (params t) < 2 ^ 32 \<and> length (results t) \<le> 1"
  proof -
    have "\<forall>x \<in> set ts. reads read_type (type_bytes x) x" using d reads_type by blast
    from read_vector [OF d(1) assms d(2) _ this] show ?thesis
      by (auto simp: c decode_section_def decode_types_def)
  qed
  show "decode_section 2 \<lparr>r_bytes = bs, position = q\<rparr> (m, fts) = Ok (m\<lparr>m_imports := m_imports m @ ims\<rparr>, fts)"
    if d: "drop q bs = wvector (map import_bytes ims) @ rest" "length ims \<le> MAX_IMPORTS"
      "\<And>im. im \<in> set ims \<Longrightarrow> str_ok (i_module im) \<and> str_ok (i_name im) \<and>
         str_len (i_module im) < 2 ^ 32 \<and> str_len (i_name im) < 2 ^ 32"
  proof -
    have "\<forall>x \<in> set ims. reads read_import (import_bytes x) x" using d reads_import by blast
    from read_vector [OF d(1) assms d(2) _ this] show ?thesis
      by (auto simp: c decode_section_def decode_imports_def)
  qed
  show "decode_section 3 \<lparr>r_bytes = bs, position = q\<rparr> (m, fts) = Ok (m, fts @ tis)"
    if d: "drop q bs = wvector (map (\<lambda>i. leb_unsigned (ucast i)) tis) @ rest" "length tis \<le> MAX_FUNCTIONS"
  proof -
    have "\<forall>x \<in> set tis. reads (\<lambda>r. rd (reader_u32 r)) ((\<lambda>i. leb_unsigned (ucast i)) x) x" using d reads_rd [OF reads_u32] by blast
    from read_vector [OF d(1) assms d(2) _ this] show ?thesis
      by (auto simp: c decode_section_def read_function_types_def)
  qed
  show "decode_section 11 \<lparr>r_bytes = bs, position = q\<rparr> (m, fts) = Ok (m\<lparr>m_data := m_data m @ ds\<rparr>, fts)"
    if d: "drop q bs = wvector (map data_entry ds) @ rest" "length ds \<le> MAX_DATA_SEGMENTS"
      "\<And>d. d \<in> set ds \<Longrightarrow> unat (fst d) < 2 ^ 31 \<and> length (snd d) < 2 ^ 32"
  proof -
    have "\<forall>x \<in> set ds. reads read_data (data_entry x) x" using d reads_data_pair by blast
    from read_vector [OF d(1) assms d(2) _ this] show ?thesis
      by (auto simp: c decode_section_def decode_data_def)
  qed
  show "decode_section 7 \<lparr>r_bytes = bs, position = q\<rparr> (m, fts) = Ok (m\<lparr>m_exports := m_exports m @ es\<rparr>, fts)"
    if d: "drop q bs = wvector (map export_bytes es) @ rest" "length es \<le> MAX_EXPORTS"
      "\<And>e. e \<in> set es \<Longrightarrow> str_ok (x_name e) \<and> str_len (x_name e) < 2 ^ 32"
  proof -
    have m: "map export_bytes es = map (\<lambda>x. export_bytes (the x)) (map Some es)" by simp
    have "\<forall>x \<in> set (map Some es). reads read_export (export_bytes (the x)) x"
      using d(3) reads_export by auto
    from read_vector [OF d(1) [unfolded m] assms _ _ this, of MAX_EXPORTS] d(2) show ?thesis
      by (auto simp: c decode_section_def decode_exports_def map_filter_Some)
  qed
qed

lemma section_memory:
  assumes "q \<le> length bs" "length bs < 2 ^ 32" "pages \<le> 16"
    and "drop q bs = (leb_unsigned 1 @ [0x00] @ leb_unsigned (ucast pages)) @ rest"
  shows "decode_section 5 \<lparr>r_bytes = bs, position = q\<rparr> (m, fts) = Ok (m\<lparr>memory_pages := Some (pages, 16)\<rparr>, fts)"
proof -
  have d: "drop q bs = leb_unsigned (of_nat 1) @ (([0x00] @ leb_unsigned (ucast pages)) @ rest)"
    using assms(4) by simp
  note u = readsD [OF reads_usize d assms(1,2)]
  note p = readsD [OF reads_memory [OF assms(3)] u(2,3) assms(2)]
  show ?thesis
    using u(1) p(1) by (simp add: decode_section_def decode_memory_def)
qed

lemma section_code:
  assumes "q \<le> length bs" "length bs < 2 ^ 32" "m_bytes m = bs" "length fs < 2 ^ 32"
    and "drop q bs = wvector (map sized_body fs) @ rest"
    and "\<forall>(ti, gs, code) \<in> set fs. length (expand_locals gs) \<le> MAX_LOCALS"
  shows "\<exists>ws. decode_section 10 \<lparr>r_bytes = bs, position = q\<rparr> (m, map fst fs) =
      Ok (m\<lparr>m_functions := m_functions m @ ws\<rparr>, map fst fs) \<and> list_all2 (function_from bs) fs ws"
proof -
  have d: "drop q bs = leb_unsigned (of_nat (length fs)) @ (concat (map sized_body fs) @ rest)"
    using assms(5) by (simp add: wvector_def)
  note u = readsD [OF reads_usize [OF assms(4)] d assms(1,2)]
  from read_bodies_enc [OF u(2,3) assms(2,6)] u(1) assms(3) show ?thesis
    by (auto simp: decode_section_def decode_code_def)
qed

text \<open>The bodies are in place, the rest is as written.\<close>

lemma decode_assembled:
  assumes "fits src"
  shows "\<exists>m. module_decode (assemble src) = Ok m \<and> decoded_from src m"
proof -
  let ?bs = "assemble src" and ?fts = "map fst (s_functions src)"
  from assms have small: "length ?bs < 2 ^ 32" "length ?bs \<le> MAX_MODULE_BYTES"
    by (simp_all add: fits_def MAX_MODULE_BYTES_def)
  note fit = assms [unfolded fits_def]
  define out where "out = decode_sections 0 \<lparr>r_bytes = ?bs, position = 8\<rparr> (module_new ?bs, [])"
  define m1 where "m1 = (module_new ?bs)\<lparr>m_types := s_types src\<rparr>"
  define m2 where "m2 = m1\<lparr>m_imports := s_imports src\<rparr>"
  define m3 where "m3 = m2\<lparr>memory_pages := map_option (\<lambda>p. (p, 16)) (s_memory src)\<rparr>"
  define m4 where "m4 = m3\<lparr>m_exports := s_exports src\<rparr>"
  note ms = m1_def m2_def m3_def m4_def module_new_def
  let ?c1 = "if s_types src = [] then [] else wsection 1 (wvector (map type_bytes (s_types src)))"
  let ?c2 = "if s_imports src = [] then [] else wsection 2 (wvector (map import_bytes (s_imports src)))"
  let ?c3 = "if s_functions src = [] then [] else wsection 3 (wvector (map (\<lambda>i. leb_unsigned (ucast i)) ?fts))"
  let ?c5 = "if s_memory src = None then []
    else wsection 5 (leb_unsigned 1 @ [0x00] @ leb_unsigned (ucast (the (s_memory src))))"
  let ?c7 = "if s_exports src = [] then [] else wsection 7 (wvector (map export_bytes (s_exports src)))"
  let ?c10 = "if s_functions src = [] then [] else wsection 10 (wvector (map sized_body (s_functions src)))"
  let ?c11 = "if s_data src = [] then [] else wsection 11 (wvector (map data_entry (s_data src)))"
  have eq: "?bs = (wasm_magic @ [1, 0, 0, 0]) @ ?c1 @ ?c2 @ ?c3 @ ?c5 @ ?c7 @ ?c10 @ ?c11"
    by (simp only: assemble_eq wasm_magic_def append.simps)
  have "drop 8 ?bs = ?c1 @ ?c2 @ ?c3 @ ?c5 @ ?c7 @ ?c10 @ ?c11"
    by (subst eq) (simp only: drop_append, simp add: wasm_magic_def)
  then have a: "ahead ?bs 0 (?c1 @ ?c2 @ ?c3 @ ?c5 @ ?c7 @ ?c10 @ ?c11) (module_new ?bs, []) out"
    unfolding ahead_def out_def
    by (intro exI [of _ 0] exI [of _ 8]) (simp add: assemble_eq)
  have d: "decode_section 1 \<lparr>r_bytes = ?bs, position = q\<rparr> (module_new ?bs, []) = Ok (m1, [])"
    if "drop q ?bs = wvector (map type_bytes (s_types src)) @ rest" "q \<le> length ?bs" for q rest
    using section_contents(1) [OF that(2) small(1) that(1), of "module_new ?bs" "[]"] fit by (simp add: ms)
  have a: "ahead ?bs 1 (?c2 @ ?c3 @ ?c5 @ ?c7 @ ?c10 @ ?c11) (m1, []) out"
    by (rule ahead_section [OF a _ small(1) refl _ d]) (simp_all add: ms)
  have d: "decode_section 2 \<lparr>r_bytes = ?bs, position = q\<rparr> (m1, []) = Ok (m2, [])"
    if "drop q ?bs = wvector (map import_bytes (s_imports src)) @ rest" "q \<le> length ?bs" for q rest
    using section_contents(2) [OF that(2) small(1) that(1), of m1 "[]"] fit by (simp add: ms)
  have a: "ahead ?bs 2 (?c3 @ ?c5 @ ?c7 @ ?c10 @ ?c11) (m2, []) out"
    by (rule ahead_section [OF a _ small(1) refl _ d]) (simp_all add: ms)
  have d: "decode_section 3 \<lparr>r_bytes = ?bs, position = q\<rparr> (m2, []) = Ok (m2, ?fts)"
    if "drop q ?bs = wvector (map (\<lambda>i. leb_unsigned (ucast i)) ?fts) @ rest" "q \<le> length ?bs" for q rest
    using section_contents(3) [OF that(2) small(1) that(1), of m2 "[]"] fit by (simp add: ms)
  have a: "ahead ?bs 3 (?c5 @ ?c7 @ ?c10 @ ?c11) (m2, ?fts) out"
    by (rule ahead_section [OF a _ small(1) refl _ d]) (simp_all add: ms)
  have a: "ahead ?bs 5 (?c7 @ ?c10 @ ?c11) (m3, ?fts) out"
  proof (cases "s_memory src")
    case None
    have "\<exists>s'. s' = (m3, ?fts) \<and> ahead ?bs 5 (?c7 @ ?c10 @ ?c11) s' out"
      by (rule ahead_section_ex [OF a _ small(1) refl]) (simp_all add: None ms)
    then show ?thesis by simp
  next
    case (Some pages)
    with fit have "pages \<le> 16" by simp
    note d = section_memory [OF _ small(1) this]
    show ?thesis by (rule ahead_section [OF a _ small(1) refl]) (simp_all add: Some ms d)
  qed
  have d: "decode_section 7 \<lparr>r_bytes = ?bs, position = q\<rparr> (m3, ?fts) = Ok (m4, ?fts)"
    if "drop q ?bs = wvector (map export_bytes (s_exports src)) @ rest" "q \<le> length ?bs" for q rest
    using section_contents(4) [OF that(2) small(1) that(1), of m3 ?fts] fit by (simp add: ms)
  have a: "ahead ?bs 7 (?c10 @ ?c11) (m4, ?fts) out"
    by (rule ahead_section [OF a _ small(1) refl _ d]) (simp_all add: ms)
  have "length (s_functions src) < 2 ^ 32" "m_bytes m4 = ?bs"
    using fit by (simp_all add: MAX_FUNCTIONS_def ms)
  note d = section_code [OF _ small(1) this(2,1)]
  obtain ws where f: "list_all2 (function_from ?bs) (s_functions src) ws"
    and a: "ahead ?bs 10 (?c11 @ []) (m4\<lparr>m_functions := ws\<rparr>, ?fts) out"
  proof -
    have "\<exists>s'. (\<exists>ws. s' = (m4\<lparr>m_functions := ws\<rparr>, ?fts) \<and> list_all2 (function_from ?bs) (s_functions src) ws) \<and>
        ahead ?bs 10 ?c11 s' out"
    proof (rule ahead_section_ex [OF a _ small(1) refl])
      fix q assume "drop q ?bs = wvector (map sized_body (s_functions src)) @ ?c11" "q \<le> length ?bs"
      from d [OF this(2,1)] fit show "\<exists>s'. decode_section 10 \<lparr>r_bytes = ?bs, position = q\<rparr> (m4, ?fts) = Ok s' \<and>
          (\<exists>ws. s' = (m4\<lparr>m_functions := ws\<rparr>, ?fts) \<and> list_all2 (function_from ?bs) (s_functions src) ws)"
        by (auto simp: ms)
    qed (simp_all add: ms)
    with that show thesis by auto
  qed
  let ?m = "m4\<lparr>m_functions := ws, m_data := s_data src\<rparr>"
  have d: "decode_section 11 \<lparr>r_bytes = ?bs, position = q\<rparr> (m4\<lparr>m_functions := ws\<rparr>, ?fts) = Ok (?m, ?fts)"
    if "drop q ?bs = wvector (map data_entry (s_data src)) @ rest" "q \<le> length ?bs" for q rest
    using section_contents(5) [OF that(2) small(1) that(1), of "m4\<lparr>m_functions := ws\<rparr>" ?fts] fit
    by (simp add: ms case_prod_beta)
  have "ahead ?bs 11 [] (?m, ?fts) out"
    by (rule ahead_section [OF a _ small(1) refl _ d]) (simp_all add: ms)
  then have out: "decode_sections 0 \<lparr>r_bytes = ?bs, position = 8\<rparr> (module_new ?bs, []) = Ok (?m, ?fts)"
    using ahead_end out_def by metis
  have "module_decode ?bs = Ok ?m"
  proof -
    obtain tail where "?bs = (wasm_magic @ [1, 0, 0, 0]) @ tail" using eq by blast
    with small(2) out show ?thesis
      by (simp add: module_decode_def reader_new_def reader_slice_def slice_of_def wasm_magic_def MAX_MODULE_BYTES_def)
  qed
  moreover have "decoded_from src ?m" using f by (simp add: decoded_from_def ms)
  ultimately show ?thesis by blast
qed

section \<open>Properties\<close>

text \<open>
  C20: what the builder assembles, the decoder reads back. For every source within the decoder's
  ceilings, decoding the builder's bytes gives the types, imports, exports, memory and data that
  were written, and a function for every function written, with its type, its locals and a body
  that is its code and the closing \<open>end\<close>.
\<close>

theorem assembled_module_decodes:
  assumes "fits src"
  shows "\<exists>m. module_decode (assemble src) = Ok m \<and> m_types m = s_types src \<and> m_imports m = s_imports src \<and>
    m_exports m = s_exports src \<and> memory_pages m = map_option (\<lambda>p. (p, 16)) (s_memory src) \<and>
    m_data m = s_data src \<and>
    list_all2 (\<lambda>(ti, gs, code) f. f_type_index f = ti \<and> f_locals f = expand_locals gs \<and>
        slice_of (assemble src) (body_start f) (body_end f) = code @ [0x0b])
      (s_functions src) (m_functions m)"
  using decode_assembled [OF assms]
  by (auto simp: decoded_from_def function_from_def elim!: list_all2_mono)

text \<open>The module of the test \<open>data_segments_land_in_memory\<close>, with an import in front.\<close>

definition demo_source :: wsource where
  "demo_source = \<lparr>
     s_types = [\<lparr>params = [TI32], results = [TI32]\<rparr>],
     s_imports = [\<lparr>i_module = lit ''i3ml'', i_name = lit ''journal'', i_type_index = 0\<rparr>],
     s_functions = [(0, [(1, TI32)], [0x20, 0x00, 0x2d, 0x00, 0x00])],
     s_memory = Some 1,
     s_exports = [\<lparr>x_name = lit ''byte'', function_index = 1\<rparr>],
     s_data = [(16, [0x69, 0x33, 0x6d, 0x65, 0x6c])]\<rparr>"

theorem assembled_module_decodes_witness:
  "\<exists>m. module_decode (assemble demo_source) = Ok m \<and> m_data m = [(16, [0x69, 0x33, 0x6d, 0x65, 0x6c])] \<and>
     m_imports m = [\<lparr>i_module = lit ''i3ml'', i_name = lit ''journal'', i_type_index = 0\<rparr>]"
proof -
  have "fits demo_source"
  proof -
    have "length (assemble demo_source) \<le> MAX_MODULE_BYTES" by code_simp
    moreover have "str_ok (lit ''i3ml'')" "str_ok (lit ''journal'')" "str_ok (lit ''byte'')"
      "str_len (lit ''i3ml'') < 2 ^ 32" "str_len (lit ''journal'') < 2 ^ 32" "str_len (lit ''byte'') < 2 ^ 32"
      by code_simp+
    ultimately show ?thesis
      by (simp add: fits_def demo_source_def expand_locals_def MAX_TYPES_def MAX_IMPORTS_def MAX_FUNCTIONS_def
          MAX_EXPORTS_def MAX_DATA_SEGMENTS_def MAX_LOCALS_def)
  qed
  from assembled_module_decodes [OF this] show ?thesis by (auto simp: demo_source_def)
qed

end
