(* ===== verification/Wasm_Scan.thy ===== *)
theory Wasm_Scan
  imports Wasm_Exec Wasm_Build
begin

text \<open>
  The instructions of the interpreter as a tree, with their bytes, and the theorem that the
  scanner of \<open>libs/wasm/src/exec.rs\<close> (\<open>find_end\<close>, \<open>find_else\<close>) finds the marker that the tree
  says: it steps over the immediates, whatever bytes they hold, and over the blocks inside.
\<close>

section \<open>Instructions\<close>

datatype instr =
    IOp byte
  | IByte byte byte
  | IIndex byte u32
  | IMem byte u32 u32
  | IConst32 u64
  | IConst64 u64
  | IBlock byte byte "instr list"
  | IIfElse byte "instr list" "instr list"

primrec instr_bytes :: "instr \<Rightarrow> byte list" where
  "instr_bytes (IOp op) = [op]"
| "instr_bytes (IByte op b) = op # [b]"
| "instr_bytes (IIndex op n) = op # leb_unsigned (ucast n)"
| "instr_bytes (IMem op a n) = op # leb_unsigned (ucast a) @ leb_unsigned (ucast n)"
| "instr_bytes (IConst32 v) = 0x41 # leb_signed v"
| "instr_bytes (IConst64 v) = 0x42 # leb_signed v"
| "instr_bytes (IBlock op bt body) = op # bt # concat (map instr_bytes body) @ [0x0b]"
| "instr_bytes (IIfElse bt xs ys) =
     0x04 # bt # concat (map instr_bytes xs) @ 0x05 # concat (map instr_bytes ys) @ [0x0b]"

abbreviation code_bytes :: "instr list \<Rightarrow> byte list" where
  "code_bytes xs \<equiv> concat (map instr_bytes xs)"

text \<open>An opcode and its immediates are of the same class.\<close>

primrec instr_ok :: "instr \<Rightarrow> bool" where
  "instr_ok (IOp op) \<longleftrightarrow> op \<notin> {0x02, 0x03, 0x04, 0x05, 0x0b, 0x0c, 0x0d, 0x0e, 0x10, 0x20, 0x21, 0x22, 0x23, 0x24,
     0x3f, 0x40, 0x41, 0x42} \<and> \<not> (0x28 \<le> op \<and> op \<le> 0x3e)"
| "instr_ok (IByte op b) \<longleftrightarrow> op \<in> {0x3f, 0x40}"
| "instr_ok (IIndex op n) \<longleftrightarrow> op \<in> {0x0c, 0x0d, 0x10, 0x20, 0x21, 0x22, 0x23, 0x24}"
| "instr_ok (IMem op a n) \<longleftrightarrow> 0x28 \<le> op \<and> op \<le> 0x3e"
| "instr_ok (IConst32 v) \<longleftrightarrow> - (2 ^ 31) \<le> sint v \<and> sint v < 2 ^ 31"
| "instr_ok (IConst64 v) \<longleftrightarrow> True"
| "instr_ok (IBlock op bt body) \<longleftrightarrow> op \<in> {0x02, 0x03, 0x04} \<and> list_all instr_ok body"
| "instr_ok (IIfElse bt xs ys) \<longleftrightarrow> list_all instr_ok xs \<and> list_all instr_ok ys"

text \<open>How many opcodes the scanner reads.\<close>

primrec instr_cost :: "instr \<Rightarrow> nat" where
  "instr_cost (IOp op) = 1"
| "instr_cost (IByte op b) = 1"
| "instr_cost (IIndex op n) = 1"
| "instr_cost (IMem op a n) = 1"
| "instr_cost (IConst32 v) = 1"
| "instr_cost (IConst64 v) = 1"
| "instr_cost (IBlock op bt body) = sum_list (map instr_cost body) + 2"
| "instr_cost (IIfElse bt xs ys) = sum_list (map instr_cost xs) + sum_list (map instr_cost ys) + 3"

abbreviation code_cost :: "instr list \<Rightarrow> nat" where
  "code_cost xs \<equiv> sum_list (map instr_cost xs)"

section \<open>One step of the scanner\<close>

text \<open>\<open>reads\<close> for the immediates of an opcode.\<close>

definition skips :: "byte \<Rightarrow> byte list \<Rightarrow> bool" where
  "skips op imm \<longleftrightarrow> reads (\<lambda>r. and_then (scan_skip op r) (\<lambda>r. Ok ((), r))) imm ()"

lemma and_then_assoc: "and_then (and_then m f) g = and_then m (\<lambda>x. and_then (f x) g)"
  by (cases m) simp_all

lemma reads_rt: "reads f xs x \<Longrightarrow> reads (\<lambda>r. rt (f r)) xs x"
  by (simp add: reads_def)

lemma skips_simple:
  "op \<notin> {0x02, 0x03, 0x04, 0x3f, 0x40, 0x0c, 0x0d, 0x10, 0x20, 0x21, 0x22, 0x23, 0x24, 0x41, 0x42, 0x0e} \<Longrightarrow>
   \<not> (0x28 \<le> op \<and> op \<le> 0x3e) \<Longrightarrow> skips op []"
  by (auto simp: skips_def scan_skip_def reads_def)

lemma skips_byte: "op \<in> {0x02, 0x03, 0x04, 0x3f, 0x40} \<Longrightarrow> skips op [b]"
  using reads_rt [OF reads_byte, of b] by (auto simp: skips_def scan_skip_def reads_def)

lemma skips_index: "op \<in> {0x0c, 0x0d, 0x10, 0x20, 0x21, 0x22, 0x23, 0x24} \<Longrightarrow> skips op (leb_unsigned (ucast (n :: u32)))"
  using reads_rt [OF reads_u32, of n] by (auto simp: skips_def scan_skip_def reads_def)

lemma skips_mem:
  assumes "0x28 \<le> op" "op \<le> 0x3e"
  shows "skips op (leb_unsigned (ucast (a :: u32)) @ leb_unsigned (ucast (n :: u32)))"
proof -
  have "op \<notin> {0x02, 0x03, 0x04, 0x3f, 0x40}" "op \<notin> {0x0c, 0x0d, 0x10, 0x20, 0x21, 0x22, 0x23, 0x24}"
    using assms by auto
  moreover have "reads (\<lambda>r. and_then (rt (reader_u32 r)) (\<lambda>(_, r). and_then (rt (reader_u32 r)) (\<lambda>(_, r). Ok ((), r))))
      (leb_unsigned (ucast a) @ leb_unsigned (ucast n)) ()"
    by (rule reads_bind [OF reads_rt [OF reads_u32]], rule reads_into [OF reads_rt [OF reads_u32]]) simp
  ultimately show ?thesis
    using assms by (simp add: skips_def scan_skip_def reads_def and_then_assoc case_prod_unfold)
qed

lemma reads_signed64: "reads (\<lambda>r. reader_signed r 64) (leb_signed v) v"
proof (rule readsI, rule reader_signed_enc)
  show "- (2 ^ (64 - 1)) \<le> sint v" "sint v < 2 ^ (64 - 1)"
    using sint_ge [of v] sint_lt [of v] by simp_all
qed auto

lemma skips_const:
  "- (2 ^ 31) \<le> sint v \<Longrightarrow> sint v < 2 ^ 31 \<Longrightarrow> skips 0x41 (leb_signed v)"
  "skips 0x42 (leb_signed v)"
  using reads_rt [OF reads_signed, of v] reads_rt [OF reads_signed64, of v]
  by (auto simp: skips_def scan_skip_def reads_def)

lemma scan_step:
  assumes sk: "skips op imm" and d: "drop p bs = op # imm @ rest" and len: "length bs < 2 ^ 32" and p: "p < limit"
    and fuel: "fuel \<noteq> 0" and op: "op \<noteq> 0x0b" "op = 0x05 \<longrightarrow> depth \<noteq> 0 \<or> \<not> w \<or> e \<noteq> None"
  shows "scan w limit \<lparr>r_bytes = bs, position = p\<rparr> depth e fuel =
      scan w limit \<lparr>r_bytes = bs, position = p + length (op # imm)\<rparr>
        (if op \<in> {0x02, 0x03, 0x04} then depth + 1 else depth) e (fuel - 1)"
proof -
  have pl: "p < length bs" using d by (metis drop_all list.distinct(1) not_le)
  have "drop p bs = [op] @ (imm @ rest)" using d by simp
  note b = readsD [OF reads_byte this less_imp_le [OF pl] len]
  have "scan_skip op \<lparr>r_bytes = bs, position = p + length [op]\<rparr> =
      Ok \<lparr>r_bytes = bs, position = p + length [op] + length imm\<rparr>"
    using readsD(1) [OF sk [unfolded skips_def] b(2,3) len] by (auto simp: result_simps)
  with b(1) p fuel op show ?thesis
    by (subst scan.simps) (auto simp: add.assoc)
qed

text \<open>Code the scanner passes over, at any depth, at the cost \<open>c\<close>.\<close>

definition passes :: "byte list \<Rightarrow> nat \<Rightarrow> bool" where
  "passes xs c \<longleftrightarrow> (\<forall>w limit bs p rest depth e fuel.
     drop p bs = xs @ rest \<longrightarrow> p \<le> length bs \<longrightarrow> length bs < 2 ^ 32 \<longrightarrow> p + length xs < limit \<longrightarrow> c < unat fuel \<longrightarrow>
     scan w limit \<lparr>r_bytes = bs, position = p\<rparr> depth e fuel =
     scan w limit \<lparr>r_bytes = bs, position = p + length xs\<rparr> depth e (fuel - of_nat c))"

lemma passesD:
  assumes "passes xs c" "drop p bs = xs @ rest" "p \<le> length bs" "length bs < 2 ^ 32" "p + length xs < limit"
    and "c < unat fuel"
  shows "scan w limit \<lparr>r_bytes = bs, position = p\<rparr> depth e fuel =
     scan w limit \<lparr>r_bytes = bs, position = p + length xs\<rparr> depth e (fuel - of_nat c)"
    and "drop (p + length xs) bs = rest" "p + length xs \<le> length bs" "unat (fuel - of_nat c) = unat fuel - c"
proof -
  show "scan w limit \<lparr>r_bytes = bs, position = p\<rparr> depth e fuel =
     scan w limit \<lparr>r_bytes = bs, position = p + length xs\<rparr> depth e (fuel - of_nat c)"
    using assms unfolding passes_def by blast
  have "drop (length xs) (drop p bs) = rest" using assms(2) by simp
  then show "drop (p + length xs) bs = rest" by (simp add: add.commute)
  show "p + length xs \<le> length bs" using arg_cong [where f = length, OF assms(2)] assms(3) by simp
  have "unat fuel < 2 ^ 64" using unsigned_less [of fuel] by simp
  then have "unat (of_nat c :: u64) = c" using assms(6) by (simp add: unat_of_nat)
  with assms(6) show "unat (fuel - of_nat c) = unat fuel - c" by (simp add: unat_sub word_le_nat_alt)
qed

lemma passes_Nil: "passes [] 0"
  by (simp add: passes_def)

lemma passes_append:
  assumes "passes xs c" "passes ys d"
  shows "passes (xs @ ys) (c + d)"
  unfolding passes_def
proof (intro allI impI)
  fix w limit bs p rest depth e and fuel :: u64
  assume a: "drop p bs = (xs @ ys) @ rest" "p \<le> length bs" "length bs < 2 ^ 32" "p + length (xs @ ys) < limit"
    "c + d < unat fuel"
  then have a1: "drop p bs = xs @ (ys @ rest)" "p + length xs < limit" "c < unat fuel" by auto
  note x = passesD [OF assms(1) a1(1) a(2,3) a1(2,3)]
  have "p + length xs + length ys < limit" "d < unat (fuel - of_nat c)" using a(4,5) x(4) by auto
  note y = passesD(1) [OF assms(2) x(2,3) a(3) this]
  show "scan w limit \<lparr>r_bytes = bs, position = p\<rparr> depth e fuel =
      scan w limit \<lparr>r_bytes = bs, position = p + length (xs @ ys)\<rparr> depth e (fuel - of_nat (c + d))"
    using x(1) y by (simp add: add.assoc diff_diff_add)
qed

lemma passes_concat: "\<forall>i \<in> set xs. passes (f i) (g i) \<Longrightarrow> passes (concat (map f xs)) (sum_list (map g xs))"
  by (induction xs) (auto simp: passes_Nil intro: passes_append)

lemma passes_opcode:
  assumes "skips op imm" "op \<notin> {0x02, 0x03, 0x04, 0x05, 0x0b}"
  shows "passes (op # imm) 1"
  unfolding passes_def
proof (intro allI impI)
  fix w limit bs p rest depth e and fuel :: u64
  assume a: "drop p bs = (op # imm) @ rest" "p \<le> length bs" "length bs < 2 ^ 32" "p + length (op # imm) < limit"
    "1 < unat fuel"
  have "fuel \<noteq> 0" using a(5) by auto
  then show "scan w limit \<lparr>r_bytes = bs, position = p\<rparr> depth e fuel =
      scan w limit \<lparr>r_bytes = bs, position = p + length (op # imm)\<rparr> depth e (fuel - of_nat 1)"
    using scan_step [OF assms(1) _ a(3), of p rest limit fuel depth w e] a assms(2) by simp
qed

text \<open>The closing \<open>end\<close> of a block that is open.\<close>

lemma scan_close:
  assumes "drop p bs = 0x0b # rest" "length bs < 2 ^ 32" "p < limit" "fuel \<noteq> 0"
  shows "scan w limit \<lparr>r_bytes = bs, position = p\<rparr> (Suc depth) e fuel =
      scan w limit \<lparr>r_bytes = bs, position = p + 1\<rparr> depth e (fuel - 1)"
    and "scan w limit \<lparr>r_bytes = bs, position = p\<rparr> 0 e fuel = (Ok (e, p + 1), fuel - 1)"
proof -
  have pl: "p \<le> length bs" using assms(1) by (metis drop_all list.distinct(1) nat_le_linear)
  have "drop p bs = [0x0b] @ rest" using assms(1) by simp
  note b = readsD(1) [OF reads_byte this pl assms(2)]
  show "scan w limit \<lparr>r_bytes = bs, position = p\<rparr> (Suc depth) e fuel =
      scan w limit \<lparr>r_bytes = bs, position = p + 1\<rparr> depth e (fuel - 1)"
    "scan w limit \<lparr>r_bytes = bs, position = p\<rparr> 0 e fuel = (Ok (e, p + 1), fuel - 1)"
    using b assms(3,4) by (subst scan.simps, simp)+
qed

lemma passes_block:
  assumes op: "op \<in> {0x02, 0x03, 0x04}" and body: "passes body c"
  shows "passes (op # bt # body @ [0x0b]) (c + 2)"
  unfolding passes_def
proof (intro allI impI)
  fix w limit bs p rest depth e and fuel :: u64
  let ?n = "length body"
  assume a: "drop p bs = (op # bt # body @ [0x0b]) @ rest" "p \<le> length bs" "length bs < 2 ^ 32"
    "p + length (op # bt # body @ [0x0b]) < limit" "c + 2 < unat fuel"
  have f0: "fuel \<noteq> 0" using a(5) by auto
  have f1: "unat (fuel - 1) = unat fuel - 1" using f0 by (simp add: unat_minus_one)
  have d: "drop p bs = op # [bt] @ (body @ 0x0b # rest)" using a(1) by simp
  have s1: "scan w limit \<lparr>r_bytes = bs, position = p\<rparr> depth e fuel =
      scan w limit \<lparr>r_bytes = bs, position = p + 2\<rparr> (Suc depth) e (fuel - 1)"
    using scan_step [OF skips_byte d a(3) _ f0, of limit depth w e] op a(4) by auto
  have "drop 2 (drop p bs) = body @ 0x0b # rest" using d by simp
  then have d2: "drop (p + 2) bs = body @ 0x0b # rest" by (simp add: add.commute)
  have l2: "p + 2 \<le> length bs" using arg_cong [where f = length, OF d] a(2) by simp
  have "p + 2 + ?n < limit" "c < unat (fuel - 1)" using a(4,5) f1 by auto
  note b = passesD [OF body d2 l2 a(3) this]
  have g: "fuel - 1 - of_nat c \<noteq> 0" using b(4) f1 a(5) by auto
  have "p + 2 + ?n < limit" using a(4) by simp
  from scan_close(1) [OF b(2) a(3) this g] b(1) s1
  show "scan w limit \<lparr>r_bytes = bs, position = p\<rparr> depth e fuel =
      scan w limit \<lparr>r_bytes = bs, position = p + length (op # bt # body @ [0x0b])\<rparr> depth e (fuel - of_nat (c + 2))"
    by (simp add: algebra_simps)
qed

text \<open>An \<open>else\<close> inside a block is passed over: the scanner looks for one at depth zero only.\<close>

lemma passes_if_else:
  assumes xs: "passes xs c" and ys: "passes ys d"
  shows "passes (0x04 # bt # xs @ 0x05 # ys @ [0x0b]) (c + d + 3)"
  unfolding passes_def
proof (intro allI impI)
  fix w limit bs p rest depth e and fuel :: u64
  let ?all = "0x04 # bt # xs @ 0x05 # ys @ [0x0b]"
  assume a: "drop p bs = ?all @ rest" "p \<le> length bs" "length bs < 2 ^ 32"
    "p + length ?all < limit" "c + d + 3 < unat fuel"
  have f0: "fuel \<noteq> 0" using a(5) by auto
  have f1: "unat (fuel - 1) = unat fuel - 1" using f0 by (simp add: unat_minus_one)
  have d: "drop p bs = 0x04 # [bt] @ (xs @ 0x05 # ys @ 0x0b # rest)" using a(1) by simp
  have s1: "scan w limit \<lparr>r_bytes = bs, position = p\<rparr> depth e fuel =
      scan w limit \<lparr>r_bytes = bs, position = p + 2\<rparr> (Suc depth) e (fuel - 1)"
    using scan_step [OF skips_byte d a(3) _ f0, of limit depth w e] a(4) by auto
  have "drop 2 (drop p bs) = xs @ 0x05 # ys @ 0x0b # rest" using d by simp
  then have d2: "drop (p + 2) bs = xs @ 0x05 # ys @ 0x0b # rest" by (simp add: add.commute)
  have l2: "p + 2 \<le> length bs" using arg_cong [where f = length, OF d] a(2) by simp
  have "p + 2 + length xs < limit" "c < unat (fuel - 1)" using a(4,5) f1 by auto
  note b = passesD [OF xs d2 l2 a(3) this]
  let ?f = "fuel - 1 - of_nat c" and ?q = "p + 2 + length xs"
  have g: "?f \<noteq> 0" using b(4) f1 a(5) by auto
  have g1: "unat (?f - 1) = unat ?f - 1" by (rule unat_minus_one [OF g])
  have d3: "drop ?q bs = 0x05 # [] @ (ys @ 0x0b # rest)" using b(2) by simp
  have s2: "scan w limit \<lparr>r_bytes = bs, position = ?q\<rparr> (Suc depth) e ?f =
      scan w limit \<lparr>r_bytes = bs, position = ?q + 1\<rparr> (Suc depth) e (?f - 1)"
    using scan_step [OF skips_simple d3 a(3) _ g, of limit "Suc depth" w e] a(4) by simp
  have "drop 1 (drop ?q bs) = ys @ 0x0b # rest" using d3 by simp
  then have d4: "drop (?q + 1) bs = ys @ 0x0b # rest" by (simp add: add.commute)
  have l4: "?q + 1 \<le> length bs" using arg_cong [where f = length, OF d3] b(3) by simp
  have "?q + 1 + length ys < limit" "d < unat (?f - 1)" using a(4,5) f1 b(4) g1 by auto
  note b2 = passesD [OF ys d4 l4 a(3) this]
  have "?f - 1 - of_nat d \<noteq> 0" "?q + 1 + length ys < limit" using b2(4) g1 b(4) f1 a(4,5) by auto
  from scan_close(1) [OF b2(2) a(3) this(2,1)] b2(1) s2 b(1) s1
  show "scan w limit \<lparr>r_bytes = bs, position = p\<rparr> depth e fuel =
      scan w limit \<lparr>r_bytes = bs, position = p + length ?all\<rparr> depth e (fuel - of_nat (c + d + 3))"
    by (simp add: algebra_simps)
qed

lemma passes_instr: "instr_ok i \<Longrightarrow> passes (instr_bytes i) (instr_cost i)"
proof (induction i)
  case (IOp op)
  then show ?case using passes_opcode [OF skips_simple, of op] by auto
next
  case (IByte op b)
  then show ?case using passes_opcode [OF skips_byte, of op b] by auto
next
  case (IIndex op n)
  then show ?case using passes_opcode [OF skips_index, of op n] by auto
next
  case (IMem op a n)
  then have "op \<notin> {0x02, 0x03, 0x04, 0x05, 0x0b}" by auto
  then show ?case using passes_opcode [OF skips_mem, of op a n] IMem by simp
next
  case (IConst32 v)
  then show ?case using passes_opcode [OF skips_const(1), of v] by simp
next
  case (IConst64 v)
  then show ?case using passes_opcode [OF skips_const(2), of v] by simp
next
  case (IBlock op bt body)
  then have "passes (code_bytes body) (code_cost body)"
    by (intro passes_concat) (auto simp: list_all_iff)
  from passes_block [OF _ this, of op bt] IBlock.prems show ?case by auto
next
  case (IIfElse bt xs ys)
  then have "passes (code_bytes xs) (code_cost xs)" "passes (code_bytes ys) (code_cost ys)"
    by (auto intro!: passes_concat simp: list_all_iff)
  from passes_if_else [OF this, of bt] show ?case by simp
qed

lemma passes_code: "list_all instr_ok xs \<Longrightarrow> passes (code_bytes xs) (code_cost xs)"
  by (intro passes_concat) (auto simp: list_all_iff intro: passes_instr)

lemma scan_to_end:
  assumes ok: "list_all instr_ok xs" and len: "length (pre @ code_bytes xs @ 0x0b # post) < 2 ^ 31"
    and fuel: "code_cost xs + 1 < unat fuel"
  shows "find_end (pre @ code_bytes xs @ 0x0b # post) (length pre) (length pre + length (code_bytes xs) + 1) fuel =
      (Ok (length pre + length (code_bytes xs) + 1), fuel - of_nat (code_cost xs + 1))"
proof -
  let ?n = "length (code_bytes xs)" and ?limit = "length pre + length (code_bytes xs) + 1"
  let ?bs = "pre @ code_bytes xs @ [0x0b]"
  have tk: "take ?limit (pre @ code_bytes xs @ 0x0b # post) = ?bs" by simp
  have d: "drop (length pre) ?bs = code_bytes xs @ [0x0b]" by simp
  have small: "length ?bs < 2 ^ 32" using len by simp
  have c: "code_cost xs < unat fuel" using fuel by simp
  note p = passesD [OF passes_code [OF ok] d _ small, of ?limit fuel, OF _ _ c]
  have e: "fuel - of_nat (code_cost xs) \<noteq> 0" using p(4) fuel by auto
  have "scan False ?limit \<lparr>r_bytes = ?bs, position = length pre\<rparr> 0 None fuel =
      (Ok (None, ?limit), fuel - of_nat (code_cost xs) - 1)"
    using p(1) scan_close(2) [OF p(2) small _ e, of ?limit] by simp
  then show ?thesis
    unfolding find_end_def find_scan_def tk by (simp add: reader_new_def reader_seek_def diff_diff_add)
qed

lemma scan_to_else:
  assumes ok: "list_all instr_ok xs" "list_all instr_ok ys"
    and len: "length (pre @ code_bytes xs @ 0x05 # code_bytes ys @ 0x0b # post) < 2 ^ 31"
    and fuel: "code_cost xs + code_cost ys + 2 < unat fuel"
  shows "find_else (pre @ code_bytes xs @ 0x05 # code_bytes ys @ 0x0b # post) (length pre)
        (length pre + length (code_bytes xs) + 1 + length (code_bytes ys) + 1) fuel =
      (Ok (Some (length pre + length (code_bytes xs) + 1),
           length pre + length (code_bytes xs) + 1 + length (code_bytes ys) + 1),
       fuel - of_nat (code_cost xs + code_cost ys + 2))"
proof -
  let ?q = "length pre + length (code_bytes xs)"
  let ?limit = "?q + 1 + length (code_bytes ys) + 1"
  let ?bs = "pre @ code_bytes xs @ 0x05 # code_bytes ys @ [0x0b]"
  have tk: "take ?limit (pre @ code_bytes xs @ 0x05 # code_bytes ys @ 0x0b # post) = ?bs" by simp
  have d: "drop (length pre) ?bs = code_bytes xs @ 0x05 # code_bytes ys @ [0x0b]" by simp
  have small: "length ?bs < 2 ^ 32" using len by simp
  have c: "code_cost xs < unat fuel" using fuel by simp
  note p = passesD [OF passes_code [OF ok(1)] d _ small, of ?limit fuel, OF _ _ c]
  let ?f = "fuel - of_nat (code_cost xs)"
  have e: "?f \<noteq> 0" using p(4) fuel by auto
  have e1: "unat (?f - 1) = unat ?f - 1" by (rule unat_minus_one [OF e])
  have d2: "drop ?q ?bs = [0x05] @ (code_bytes ys @ [0x0b])" using p(2) by simp
  note b = readsD [OF reads_byte d2 _ small]
  have s: "scan True ?limit \<lparr>r_bytes = ?bs, position = ?q\<rparr> 0 None ?f =
      scan True ?limit \<lparr>r_bytes = ?bs, position = ?q + 1\<rparr> 0 (Some (?q + 1)) (?f - 1)"
    using b(1) e by (subst scan.simps) simp
  have d3: "drop (?q + 1) ?bs = code_bytes ys @ [0x0b]" using b(2) by simp
  have c2: "code_cost ys < unat (?f - 1)" using e1 p(4) fuel by simp
  note r = passesD [OF passes_code [OF ok(2)] d3 _ small, of ?limit "?f - 1", OF _ _ c2]
  have e2: "?f - 1 - of_nat (code_cost ys) \<noteq> 0" using r(4) e1 p(4) fuel by auto
  have "scan True ?limit \<lparr>r_bytes = ?bs, position = length pre\<rparr> 0 None fuel =
      (Ok (Some (?q + 1), ?limit), ?f - 1 - of_nat (code_cost ys) - 1)"
    using p(1) s r(1) scan_close(2) [OF r(2) small _ e2, of ?limit] by simp
  then show ?thesis
    unfolding find_else_def find_scan_def tk by (simp add: reader_new_def reader_seek_def algebra_simps)
qed

section \<open>Properties\<close>


text \<open>A loop whose constant is a byte 0x0b, a nested \<open>if\<close> with an \<open>else\<close> of its own, and a store.\<close>

definition demo_code :: "instr list" where
  "demo_code = [IConst32 11, IBlock 0x03 0x40 [IIndex 0x0c 0], IIfElse 0x40 [IOp 0x6a] [IMem 0x36 2 5]]"


end
