(* ===== verification/Agents.thy ===== *)
theory Agents
  imports Gate_Laws
begin

text \<open>
  \<open>nawa/kernel/src/agents.rs\<close>: the agents the kernel itself schedules. A step function is a
  value of \<open>program\<close> here, and \<open>kernel_step\<close> calls it; each is translated with the gate calls it
  makes and the cursor it leaves. They satisfy the contract of the scheduler's clients, so a run
  of the supervisor is a sequence of gate operations.
\<close>

datatype program = FileInvoices | Summarize | Spendthrift

definition invoke_slot ::
  "agent_id \<Rightarrow> capability option \<Rightarrow> program gate_state \<Rightarrow> (denied + authority) option \<times> program gate_state" where
  "invoke_slot agent c s =
     (case c of
        None \<Rightarrow> (None, s)
      | Some cap \<Rightarrow> (let (res, s) = invoke agent cap s in (Some res, s)))"

definition file_invoices :: "agent_context \<Rightarrow> program gate_state \<Rightarrow> progress \<times> u32 \<times> program gate_state" where
  "file_invoices ctx s =
     (let read = sv_get (x_capabilities ctx) 0;
          send = sv_get (x_capabilities ctx) 1;
          cur = x_cursor ctx
      in if cur = 0 \<or> cur = 1 then
           (case invoke_slot (x_id ctx) read s of
              (Some (Inr _), s) \<Rightarrow> (Continue, cur + 1, s)
            | (_, s) \<Rightarrow> (Failed, cur + 1, s))
         else if cur = 2 then
           (case send of
              None \<Rightarrow> (Failed, cur + 1, s)
            | Some cap \<Rightarrow>
                (case invoke (x_id ctx) cap s of
                   (Inl NeedsApproval, s) \<Rightarrow>
                     (case request_approval (x_id ctx) cap (lit ''send 3 reminder emails'') s of
                        (Inr _, s) \<Rightarrow> (AwaitConsent, cur + 1, s)
                      | (Inl _, s) \<Rightarrow> (Failed, cur + 1, s))
                 | (Inr _, s) \<Rightarrow> (Continue, cur + 1, s)
                 | (Inl _, s) \<Rightarrow> (Failed, cur + 1, s)))
         else
           (case invoke_slot (x_id ctx) send s of
              (Some (Inr _), s) \<Rightarrow> (Done, cur, s)
            | (_, s) \<Rightarrow> (Failed, cur, s)))"

definition summarize :: "agent_context \<Rightarrow> program gate_state \<Rightarrow> progress \<times> u32 \<times> program gate_state" where
  "summarize ctx s =
     (case sv_get (x_capabilities ctx) 0 of
        None \<Rightarrow> (Failed, x_cursor ctx, s)
      | Some cap \<Rightarrow>
          (case invoke (x_id ctx) cap s of
             (Inr _, s) \<Rightarrow> (Done, x_cursor ctx, s)
           | (Inl _, s) \<Rightarrow> (Failed, x_cursor ctx, s)))"

definition spendthrift :: "agent_context \<Rightarrow> program gate_state \<Rightarrow> progress \<times> u32 \<times> program gate_state" where
  "spendthrift ctx s =
     (case sv_get (x_capabilities ctx) 0 of
        None \<Rightarrow> (Failed, x_cursor ctx, s)
      | Some cap \<Rightarrow>
          (case invoke (x_id ctx) cap s of
             (Inr _, s) \<Rightarrow> (Continue, x_cursor ctx, s)
           | (Inl BudgetExhausted, s) \<Rightarrow> (Continue, x_cursor ctx, s)
           | (Inl _, s) \<Rightarrow> (Failed, x_cursor ctx, s)))"

fun kernel_step :: "program step_code" where
  "kernel_step FileInvoices ctx s = file_invoices ctx s"
| "kernel_step Summarize ctx s = summarize ctx s"
| "kernel_step Spendthrift ctx s = spendthrift ctx s"

section \<open>What the kernel hands out\<close>

text \<open>\<open>expect\<close> panics on a scope that does not fit; the constant paths fit (\<open>scopes_fit\<close>).\<close>

definition scope_of :: "str \<Rightarrow> scope" where
  "scope_of path = the (scope_new path)"

definition root_read :: authority where "root_read = Fs (scope_of (lit ''/inbox'')) False"
definition root_send :: authority where "root_send = Send False"
definition narrowed_read :: authority where
  "narrowed_read = Fs (scope_of (lit ''/inbox/invoices'')) False"
definition sibling_read :: authority where
  "sibling_read = Fs (scope_of (lit ''/inbox-archive'')) False"
definition model_arabic :: authority where "model_arabic = Model Arabic"
definition model_private :: authority where "model_private = Model Private"

lemma scopes_fit:
  "scope_new (lit ''/inbox'') \<noteq> None" "scope_new (lit ''/inbox/invoices'') \<noteq> None"
  "scope_new (lit ''/inbox-archive'') \<noteq> None"
  by code_simp+

section \<open>The agents act through the gate\<close>

lemma invoke_approvals: "length (approvals (snd (invoke agent c s))) = length (approvals s)"
proof -
  have "length (approvals (snd (authorize agent c ok s))) = length (approvals s)" for ok
    by (simp add: authorize_def Let_def split: sum.split)
  moreover have "length (update_first P f xs) = length xs" for P f and xs :: "approval_request list"
    by (rule length_update_first)
  then have "length (approvals (snd (pay agent cost burns s))) = length (approvals s)" for cost burns s
    by (simp add: pay_def burn_def Let_def split: option.split)
  ultimately show ?thesis
    by (auto simp: invoke_def Let_def split_beta authorize_unchanged split: sum.split)
qed

lemma invoke_acts: "invoke agent c s = (res, s') \<Longrightarrow> acts_within 0 s s'"
  using invoke_approvals [of agent c s] by (intro acts_within_step [OF do_invoke]) simp_all

lemma request_acts:
  assumes "request_approval agent c note_text s = (res, s')" "room_for 1 s"
  shows "acts_within 1 s s'"
proof (rule acts_within_step [OF do_request [OF _ assms(1)]])
  show "length (approvals s) + 1 < 2 ^ 64 - 1" using assms(2) by (simp add: room_for_def)
  show "length (approvals s') \<le> length (approvals s) + 1"
    using assms(1) by (auto simp: request_approval_def Let_def split: sum.splits option.splits if_splits)
qed

lemma invoke_slot_acts: "invoke_slot agent c s = (res, s') \<Longrightarrow> acts_within 0 s s'"
  by (auto simp: invoke_slot_def split: option.splits prod.splits intro: invoke_acts)

lemma invoke_then_request_acts:
  assumes "invoke agent c s = (r1, s1)" "request_approval agent c note_text s1 = (r2, s2)" "room_for 1 s"
  shows "acts_within 1 s s2"
proof -
  note a = invoke_acts [OF assms(1)]
  have "room_for 1 s1" using acts_within_room [OF a] assms(3) by simp
  from acts_within_trans [OF a request_acts [OF assms(2) this]] show ?thesis by simp
qed

lemma file_invoices_acts:
  assumes room: "room_for 1 s"
  shows "acts_within 1 s (snd (snd (file_invoices ctx s)))"
proof -
  let ?ag = "x_id ctx" and ?cur = "x_cursor ctx"
  let ?read = "sv_get (x_capabilities ctx) 0" and ?send = "sv_get (x_capabilities ctx) 1"
  have slot: "acts_within 1 s s'" if "invoke_slot ?ag c s = (res, s')" for c res s'
    using invoke_slot_acts [OF that] by (rule acts_within_mono) simp
  consider (read) "?cur = 0 \<or> ?cur = 1" | (ask) "?cur = 2" | (send) "\<not> (?cur = 0 \<or> ?cur = 1)" "?cur \<noteq> 2"
    by blast
  then show ?thesis
  proof cases
    case read
    obtain r s1 where i: "invoke_slot ?ag ?read s = (r, s1)" by (metis surj_pair)
    have "snd (snd (file_invoices ctx s)) = s1"
      unfolding file_invoices_def Let_def if_P [OF read] i by (simp split: option.split sum.split)
    with slot [OF i] show ?thesis by simp
  next
    case send
    obtain r s1 where i: "invoke_slot ?ag ?send s = (r, s1)" by (metis surj_pair)
    have "snd (snd (file_invoices ctx s)) = s1"
      unfolding file_invoices_def Let_def if_not_P [OF send(1)] if_not_P [OF send(2)] i
      by (simp split: option.split sum.split)
    with slot [OF i] show ?thesis by simp
  next
    case ask
    show ?thesis
    proof (cases ?send)
      case None
      with ask show ?thesis by (simp add: file_invoices_def)
    next
      case (Some cap)
      obtain r1 s1 where i: "invoke ?ag cap s = (r1, s1)" by (metis surj_pair)
      obtain r2 s2 where q: "request_approval ?ag cap (lit ''send 3 reminder emails'') s1 = (r2, s2)"
        by (metis surj_pair)
      have "snd (snd (file_invoices ctx s)) \<in> {s1, s2}"
        using ask Some i q by (simp add: file_invoices_def split: sum.split denied.split)
      moreover have "acts_within 1 s s1" using invoke_acts [OF i] by (rule acts_within_mono) simp
      ultimately show ?thesis using invoke_then_request_acts [OF i q room] by auto
    qed
  qed
qed

lemma kernel_step_acts:
  assumes "room_for 1 s"
  shows "acts_within 1 s (snd (snd (kernel_step fn ctx s)))"
proof -
  have i: "acts_within 1 s s'" if "invoke agent c s = (res, s')" for agent c res s'
    using invoke_acts [OF that] by (rule acts_within_mono) simp
  show ?thesis
  proof (cases fn)
    case FileInvoices
    then show ?thesis using file_invoices_acts [OF assms] by simp
  next
    case Summarize
    then show ?thesis using i by (auto simp: summarize_def split: option.split sum.split prod.split)
  next
    case Spendthrift
    then show ?thesis
      using i by (auto simp: spendthrift_def split: option.split sum.split prod.split denied.split)
  qed
qed

interpretation kernel: gate_client kernel_step 1
  by unfold_locales (rule kernel_step_acts)

section \<open>An agent that never stops asking\<close>

text \<open>What a step leaves of an agent's program and capabilities.\<close>

definition wiring :: "'p agent \<Rightarrow> 'p \<times> capability small_vec" where
  "wiring a = (step_fn a, capabilities a)"

lemma map_update_first: "(\<And>x. f (g x) = f x) \<Longrightarrow> map f (update_first P g xs) = map f xs"
  by (induction xs) auto

lemma wiring_update_agent: "(\<And>a. wiring (f a) = wiring a) \<Longrightarrow>
    map wiring (agents (update_agent g f s)) = map wiring (agents s)"
  by (simp add: update_agent_def map_update_first)

lemma wiring_pay: "map wiring (agents (snd (pay agent cost burns s))) = map wiring (agents s)"
  by (auto simp: pay_def burn_def Let_def wiring_update_agent wiring_def split: option.split)

lemma wiring_invoke: "map wiring (agents (snd (invoke agent c s))) = map wiring (agents s)"
proof -
  have "map wiring (agents (snd (authorize agent c ok s))) = map wiring (agents s)" for ok
    by (simp add: authorize_def Let_def split: sum.split)
  then show ?thesis
    by (auto simp: invoke_def Let_def split_beta authorize_unchanged wiring_pay split: sum.split)
qed

lemma wiring_nth:
  assumes "map wiring (agents s') = map wiring (agents s)" "has_agent s agent"
  shows "has_agent s' agent" "step_fn (nth_agent s' agent) = step_fn (nth_agent s agent)"
    "capabilities (nth_agent s' agent) = capabilities (nth_agent s agent)"
proof -
  have l: "length (agents s') = length (agents s)" using map_eq_imp_length_eq [OF assms(1)] .
  with assms(2) show "has_agent s' agent" by (simp add: has_agent_def)
  have i: "unat agent - 1 < length (agents s)" using assms(2) by (auto simp: has_agent_def)
  have "map wiring (agents s') ! (unat agent - 1) = map wiring (agents s) ! (unat agent - 1)"
    by (simp only: assms(1))
  then show "step_fn (nth_agent s' agent) = step_fn (nth_agent s agent)"
    "capabilities (nth_agent s' agent) = capabilities (nth_agent s agent)"
    using i l by (simp_all add: wiring_def nth_agent_def)
qed

lemma ids_ok_update_agent:
  assumes "ids_ok s" "\<And>a. a_id (f a) = a_id a"
  shows "ids_ok (update_agent g f s)"
proof -
  have "map a_id (agents (update_agent g f s)) = map a_id (agents s)"
    using assms(2) by (simp add: update_agent_def map_update_first)
  then have "a_id (agents (update_agent g f s) ! i) = a_id (agents s ! i)" if "i < length (agents s)" for i
    using that by (metis length_map nth_map)
  with assms(1) show ?thesis by (simp add: ids_ok_def)
qed

definition stopped :: "'p agent \<Rightarrow> bool" where
  "stopped a \<longleftrightarrow> a_state a = Suspended \<or> a_state a = Killed"

definition money_left :: "'p agent \<Rightarrow> nat" where
  "money_left a = unat (micro_dollars (a_budget a)) - unat (spent_micro_dollars (a_budget a))"

lemma finish_step_agent:
  assumes inv: "gate_inv s" and ag: "has_agent s agent"
    and f: "finish_step agent cur el progress s = (su, bb, s')"
  shows "gate_inv s'" "slots s' = slots s" "map wiring (agents s') = map wiring (agents s)"
    and "money_left (nth_agent s' agent) = money_left (nth_agent s agent)"
    and "a_state (nth_agent s agent) = Suspended \<or> progress = Failed \<Longrightarrow> stopped (nth_agent s' agent)"
proof -
  have ids: "ids_ok s" using inv by (simp add: gate_inv_def)
  let ?a = "nth_agent s agent"
  let ?g = "\<lambda>a. a\<lparr>cursor := cur, a_budget := (a_budget ?a)\<lparr>
    used_microseconds := used_microseconds (a_budget ?a) + el\<rparr>\<rparr>"
  let ?s1 = "update_agent agent ?g s"
  have found: "find_agent s agent = Some ?a" using ag gate_inv_find [OF inv] by simp
  show inv': "gate_inv s'" using finish_step_good [OF inv f] by (simp add: good_step_def)
  have n1: "nth_agent ?s1 agent = ?g ?a" by (rule nth_agent_update [OF ids ag])
  have ids1: "ids_ok ?s1" by (rule ids_ok_update_agent [OF ids]) simp
  have s': "a_state ?a = Suspended \<and> s' = ?s1 \<or> (\<exists>st. s' = update_agent agent (\<lambda>a. a\<lparr>a_state := st\<rparr>) ?s1 \<and>
        (progress = Failed \<longrightarrow> st = Killed)) \<or>
      (\<exists>dl. s' = update_agent agent (\<lambda>a. a\<lparr>deadline := dl\<rparr>) (snd (now_microseconds ?s1)) \<and> progress = Continue)"
    "a_state ?a = Suspended \<Longrightarrow> s' = ?s1"
    using f found by (auto simp: finish_step_def Let_def split_beta split: if_splits progress.splits)
  then show "slots s' = slots s" by auto
  have w1: "map wiring (agents ?s1) = map wiring (agents s)"
    by (rule wiring_update_agent) (simp add: wiring_def)
  then show "map wiring (agents s') = map wiring (agents s)"
    using s'(1) by (auto simp: wiring_update_agent wiring_def)
  have ag1: "has_agent ?s1 agent" "has_agent (snd (now_microseconds ?s1)) agent" using ag by simp_all
  have ids2: "ids_ok (snd (now_microseconds ?s1))" using ids1 by (simp add: ids_ok_def)
  note n2 = nth_agent_update [OF ids1 ag1(1)] nth_agent_update [OF ids2 ag1(2)]
  show "money_left (nth_agent s' agent) = money_left ?a"
    using s'(1) n1 n2 by (auto simp: money_left_def)
  assume "a_state ?a = Suspended \<or> progress = Failed"
  then show "stopped (nth_agent s' agent)"
    using s' n1 n2 by (auto simp: stopped_def)
qed

text \<open>A spendthrift with a capability that costs something, ready to run.\<close>

definition greedy_agent :: "program gate_state \<Rightarrow> agent_id \<Rightarrow> capability \<Rightarrow> slot \<Rightarrow> bool" where
  "greedy_agent s agent cap slot \<longleftrightarrow> gate_inv s \<and> has_agent s agent \<and>
     step_fn (nth_agent s agent) = Spendthrift \<and>
     sv_get (capabilities (nth_agent s agent)) 0 = Some cap \<and>
     lookup (slots s) cap agent = Ok slot \<and> 0 < price_of (authority slot)"

lemma spendthrift_run_one:
  assumes g: "greedy_agent s agent cap slot"
  shows "greedy_agent (snd (run_one kernel_step agent s)) agent cap slot \<and>
    (stopped (nth_agent (snd (run_one kernel_step agent s)) agent) \<or>
     money_left (nth_agent (snd (run_one kernel_step agent s)) agent) < money_left (nth_agent s agent))"
proof -
  let ?a = "nth_agent s agent" and ?s1 = "snd (now_microseconds s)"
  from g have inv: "gate_inv s" and ag: "has_agent s agent" and fn: "step_fn ?a = Spendthrift"
    and cap: "sv_get (capabilities ?a) 0 = Some cap" and l: "lookup (slots s) cap agent = Ok slot"
    and price: "0 < price_of (authority slot)" by (simp_all add: greedy_agent_def)
  obtain res s2 where i: "invoke agent cap ?s1 = (res, s2)" by (metis surj_pair)
  have inv1: "gate_inv ?s1" using inv by simp
  have inv2: "gate_inv s2" using invoke_good [OF inv1 i] by (simp add: good_step_def)
  have w2: "map wiring (agents s2) = map wiring (agents s)" using wiring_invoke [of agent cap ?s1] i by simp
  note law = invoke_cases [OF inv1 i]
  let ?p = "case res of Inr _ \<Rightarrow> Continue | Inl BudgetExhausted \<Rightarrow> Continue | Inl _ \<Rightarrow> Failed"
  let ?s3 = "snd (now_microseconds s2)"
  let ?el = "saturating_sub (fst (now_microseconds s2)) (fst (now_microseconds s))"
  obtain su bb s4 where f: "finish_step agent (cursor ?a) ?el ?p ?s3 = (su, bb, s4)" by (metis prod_cases3)
  have inv3: "gate_inv ?s3" and ag3: "has_agent ?s3 agent"
    using inv2 wiring_nth(1) [OF w2 ag] by simp_all
  note fin = finish_step_agent [OF inv3 ag3 f]
  have sl2: "slots s2 = slots s" using law l by (auto split: sum.splits denied.splits simp: charged_for_def out_of_money_def)
  have w4: "map wiring (agents s4) = map wiring (agents s)" using fin(3) w2 by simp
  have "kernel_step (step_fn ?a) \<lparr>x_id = agent, x_goal = goal ?a, x_capabilities = capabilities ?a,
      x_budget = a_budget ?a, x_cursor = cursor ?a\<rparr> ?s1 = (?p, cursor ?a, s2)"
    using fn cap i by (simp add: spendthrift_def split: sum.split denied.split)
  from run_one_shape [where run_step = kernel_step, OF _ this f] obtain c s5 where r: "run_one kernel_step agent s = (c, s5)"
    and s5: "s5 = s4 \<or> (\<exists>e d la. s5 = sijil_record agent e d la s4)"
    using ag gate_inv_find [OF inv, of agent] by (metis (no_types, lifting))
  have eq: "gate_inv s5 = gate_inv s4" "agents s5 = agents s4" "slots s5 = slots s4" using s5 by auto
  then have na: "nth_agent s5 agent = nth_agent s4 agent" "has_agent s5 agent = has_agent s4 agent"
    by (simp_all add: nth_agent_def has_agent_def)
  have "greedy_agent s5 agent cap slot"
    using wiring_nth [OF w4 ag] fin(1,2) fn cap l price sl2 by (simp add: greedy_agent_def na eq)
  moreover have "stopped (nth_agent s4 agent) \<or> money_left (nth_agent s4 agent) < money_left ?a"
  proof (cases res)
    case (Inr auth)
    with law l have "charged_for ?s1 agent (price_of (authority slot)) s2" by auto
    with price have "money_left (nth_agent s2 agent) < money_left ?a"
      by (auto simp: charged_for_def money_left_def word_less_nat_alt)
    with fin(4) show ?thesis by simp
  next
    case (Inl e)
    show ?thesis
    proof (cases "e = BudgetExhausted")
      case True
      with law Inl l have "a_state (nth_agent s2 agent) = Suspended"
        using ag by (auto simp: out_of_money_def)
      with fin(5) show ?thesis by simp
    next
      case False
      with Inl have "?p = Failed" by (cases e) auto
      with fin(5) show ?thesis by simp
    qed
  qed
  ultimately show ?thesis by (simp add: r na)
qed

fun run_times :: "nat \<Rightarrow> agent_id \<Rightarrow> program gate_state \<Rightarrow> program gate_state" where
  "run_times 0 agent s = s"
| "run_times (Suc n) agent s = run_times n agent (snd (run_one kernel_step agent s))"

lemma spendthrift_runs:
  assumes "greedy_agent s agent cap slot" "money_left (nth_agent s agent) < n"
  shows "\<exists>m \<le> n. stopped (nth_agent (run_times m agent s) agent)"
  using assms
proof (induction n arbitrary: s)
  case 0
  then show ?case by simp
next
  case (Suc n)
  let ?s1 = "snd (run_one kernel_step agent s)"
  note one = spendthrift_run_one [OF Suc.prems(1)]
  show ?case
  proof (cases "stopped (nth_agent ?s1 agent)")
    case True
    then show ?thesis by (intro exI [of _ 1]) simp
  next
    case False
    with one Suc.prems(2) have "money_left (nth_agent ?s1 agent) < n" by auto
    with Suc.IH [of ?s1] one obtain m where "m \<le> n" "stopped (nth_agent (run_times m agent ?s1) agent)" by blast
    then show ?thesis by (intro exI [of _ "Suc m"]) simp
  qed
qed

section \<open>Properties\<close>

text \<open>
  The kernel's agents act through the gate alone. From a state that keeps the supervisor's
  invariant, with room in the counter of requests for one more per step, a run of the scheduler
  over the kernel's agents is a sequence of gate operations: the invariant holds afterwards, and
  the irreversible actions that happened are as many as the approvals that were used up.
\<close>

theorem kernel_runs_by_gate:
  assumes "gate_inv s" "length (approvals s) + unat max_steps < 2 ^ 64 - 1"
  shows "\<exists>k. gate_steps s k (snd (run_until_idle kernel_step max_steps s)) \<and>
    gate_inv (snd (run_until_idle kernel_step max_steps s)) \<and>
    length (filter q_consumed (approvals (snd (run_until_idle kernel_step max_steps s)))) =
      length (filter q_consumed (approvals s)) + k"
proof -
  have "acts_within (unat max_steps * 1) s (snd (run_until_idle kernel_step max_steps s))"
    using assms(2) by (intro kernel.run_until_idle_acts [OF assms(1)]) (simp add: room_for_def)
  then obtain k where k: "gate_steps s k (snd (run_until_idle kernel_step max_steps s))"
    by (auto simp: acts_within_def)
  from gate_steps_good [OF this assms(1)] k show ?thesis
    by (auto simp: good_step_def consumed_count_def)
qed

text \<open>A spendthrift with a fast model and 120 micro-dollars.\<close>

definition demo_greedy :: "program gate_state" where
  "demo_greedy = snd (grant 1 (Model Fast) (snd (spawn (lit ''g'') 0 (budget_new 120 0) 100 Spendthrift
     (gate_init \<lparr>clock = of_nat, clock_reads = 0, ring = ring_new, slots = [], agents = [],
        approvals = [], next_agent_id = 0, next_approval_id = 0, ticks = 0\<rparr>))))"

lemma demo_greedy_inv: "gate_inv demo_greedy"
proof -
  let ?b = "gate_init \<lparr>clock = of_nat, clock_reads = 0, ring = ring_new, slots = [], agents = [],
        approvals = [], next_agent_id = 0, next_approval_id = 0, ticks = 0\<rparr> :: program gate_state"
  let ?s = "snd (spawn (lit ''g'') 0 (budget_new 120 0) 100 Spendthrift ?b)"
  have "good_step ?b 0 ?s" by (rule spawn_good [OF gate_init_inv]) (simp_all add: gate_init_def)
  then show ?thesis using grant_good [of ?s 1 "Model Fast"] by (simp add: good_step_def demo_greedy_def)
qed

theorem kernel_runs_by_gate_witness:
  "gate_inv (snd (run_until_idle kernel_step 10 demo_greedy))"
proof -
  have "approvals demo_greedy = []" by code_simp
  with kernel_runs_by_gate [OF demo_greedy_inv, of 10] show ?thesis by auto
qed

text \<open>
  C25: budgets bind. The agent that never stops asking, with a capability that has a price, is
  suspended or killed after at most as many of its steps as it had micro-dollars left, plus one,
  although it always reports that it wants to continue.
\<close>

theorem spendthrift_is_stopped:
  assumes "gate_inv s" "has_agent s agent" "step_fn (nth_agent s agent) = Spendthrift"
    and "sv_get (capabilities (nth_agent s agent)) 0 = Some cap"
    and "lookup (slots s) cap agent = Ok slot" "0 < price_of (authority slot)"
  shows "\<exists>m \<le> unat (micro_dollars (a_budget (nth_agent s agent)))
      - unat (spent_micro_dollars (a_budget (nth_agent s agent))) + 1.
    a_state (nth_agent (run_times m agent s) agent) \<in> {Suspended, Killed}"
  using spendthrift_runs [of s agent cap slot "money_left (nth_agent s agent) + 1"] assms
  by (auto simp: greedy_agent_def money_left_def stopped_def)

theorem spendthrift_is_stopped_witness:
  "\<exists>m \<le> 121. a_state (nth_agent (run_times m 1 demo_greedy) 1) \<in> {Suspended, Killed}"
proof -
  have h: "step_fn (nth_agent demo_greedy 1) = Spendthrift"
    "sv_get (capabilities (nth_agent demo_greedy 1)) 0 = Some (Capability 0)"
    "lookup (slots demo_greedy) (Capability 0) 1 =
      Ok \<lparr>authority = Model Fast, holder = 1, parent = None, revoked = False\<rparr>"
    "unat (micro_dollars (a_budget (nth_agent demo_greedy 1)))
      - unat (spent_micro_dollars (a_budget (nth_agent demo_greedy 1))) = 120"
    "has_agent demo_greedy 1"
    unfolding has_agent_def by code_simp+
  from spendthrift_is_stopped [OF demo_greedy_inv h(5) h(1-3)] h(4) show ?thesis by simp
qed

end
