(* ===== verification/Wasm_Laws.thy ===== *)
theory Wasm_Laws
  imports Wasm_Exec Wasm_Build
begin

text \<open>
  Laws of the interpreter of \<open>Wasm_Exec\<close>. \<open>counted_host\<close> is the contract of a host whose every
  call stays within one unit of some measure of its effects; then a run of a module stays within
  its fuel plus one, whatever its bytes are. The fuel is also why the loop ends
  (\<open>fuel_is_enough\<close>). A last group shows that the scanner finds the end of every block of
  assembled code.
\<close>

section \<open>Fuel only goes down\<close>

lemma unat_pred: "(v :: u64) \<noteq> 0 \<Longrightarrow> unat (v - 1) = unat v - 1"
  by (simp add: unat_minus_one)

lemma scan_fuel: "unat (snd (scan want_else limit r depth else_at fuel)) \<le> unat fuel"
proof (induction want_else limit r depth else_at fuel rule: scan.induct)
  case (1 want limit r depth else_at fuel)
  show ?case
  proof (cases "position r < limit \<and> fuel \<noteq> 0")
    case False
    then show ?thesis by (subst scan.simps) auto
  next
    case True
    then have u: "unat (fuel - 1) \<le> unat fuel" by (simp add: unat_pred)
    show ?thesis
      apply (subst scan.simps)
      using True 1 u by (fastforce split: sum.split prod.split)
  qed
qed

lemma find_scan_fuel: "find_scan bs start limit w fuel = (x, fuel') \<Longrightarrow> unat fuel' \<le> unat fuel"
  using scan_fuel by (auto simp: find_scan_def split: sum.splits) (metis snd_conv)

lemma find_end_fuel: "find_end bs start limit fuel = (x, fuel') \<Longrightarrow> unat fuel' \<le> unat fuel"
  by (auto simp: find_end_def split: sum.splits prod.splits dest!: find_scan_fuel)

lemma find_else_fuel: "find_else bs start limit fuel = (x, fuel') \<Longrightarrow> unat fuel' \<le> unat fuel"
  by (auto simp: find_else_def dest!: find_scan_fuel)

lemma op_if_fuel: "unat (snd (op_if bs limit target returns fr fuel)) \<le> unat fuel"
  by (auto simp: op_if_def split: sum.split prod.split option.split dest: find_else_fuel)

lemma op_block_fuel: "unat (snd (op_block bs limit opcode fr fuel)) \<le> unat fuel"
  by (auto simp: op_block_def Let_def split: sum.split prod.split dest: find_end_fuel
      intro: order_trans [OF op_if_fuel])

lemma op_else_fuel: "unat (snd (op_else bs limit fr fuel)) \<le> unat fuel"
  by (auto simp: op_else_def split: sum.split prod.split dest: find_end_fuel)

lemma op_store_memory: "op_store opcode memory fr = Ok (fr', memory') \<Longrightarrow> length memory' = length memory"
  by (auto simp: op_store_def result_simps Let_def length_copy_into split: if_splits)

section \<open>What a run may do to its host\<close>

text \<open>\<open>burnt R n\<close>: fuel went down, the memory kept its size, and the host moved by the fuel burnt and \<open>n\<close>.\<close>

definition burnt :: "(nat \<Rightarrow> 'h \<Rightarrow> 'h \<Rightarrow> bool) \<Rightarrow> nat \<Rightarrow> winstance \<times> 'h \<Rightarrow> winstance \<times> 'h \<Rightarrow> bool" where
  "burnt R n x y \<longleftrightarrow> unat (i_fuel (fst y)) \<le> unat (i_fuel (fst x)) \<and>
     length (i_memory (fst y)) = length (i_memory (fst x)) \<and>
     R (n + (unat (i_fuel (fst x)) - unat (i_fuel (fst y)))) (snd x) (snd y)"

locale counted_host =
  fixes host :: "'h host_call" and R :: "nat \<Rightarrow> 'h \<Rightarrow> 'h \<Rightarrow> bool"
  assumes stays: "R 0 h h"
    and adds: "R k h h' \<Longrightarrow> R l h' h'' \<Longrightarrow> R (k + l) h h''"
    and more: "R k h h' \<Longrightarrow> k \<le> l \<Longrightarrow> R l h h'"
    and call_costs: "R 1 h (snd (host i arguments h))"
begin

lemma paid_frame:
  "unat (i_fuel inst') \<le> unat (i_fuel inst) \<Longrightarrow> length (i_memory inst') = length (i_memory inst) \<Longrightarrow>
   burnt R n (inst, h) (inst', h)"
  using more [OF stays] by (simp add: burnt_def)

lemma paid_refl: "burnt R n x x"
  using more [OF stays] by (simp add: burnt_def)

lemma paid_trans:
  assumes "burnt R m x y" "burnt R n y z"
  shows "burnt R (m + n) x z"
proof -
  obtain h h' h'' and a b c :: nat where eq: "snd x = h" "snd y = h'" "snd z = h''" "unat (i_fuel (fst x)) = a"
    "unat (i_fuel (fst y)) = b" "unat (i_fuel (fst z)) = c" by blast
  from assms have le: "b \<le> a" "c \<le> b" and r: "R (m + (a - b)) h h'" "R (n + (b - c)) h' h''"
    unfolding burnt_def eq by blast+
  from le have "m + (a - b) + (n + (b - c)) = m + n + (a - c)" by simp
  with adds [OF r] have "R (m + n + (a - c)) h h''" by (rule back_subst [of "\<lambda>k. R k h h''"])
  with le assms show ?thesis unfolding burnt_def eq by (metis order_trans)
qed

lemma paid_more: "burnt R m x y \<Longrightarrow> m \<le> n \<Longrightarrow> burnt R n x y"
  using more by (auto simp: burnt_def)

lemma op_call_paid:
  assumes "\<forall>index args inst h. burnt R 1 (inst, h) (snd (callee index args inst h))"
  shows "burnt R 1 (inst, h) (snd (op_call m callee fr inst h))"
proof -
  have "burnt R 1 (inst, h) (inst', h')" if "callee index args inst h = (x, inst', h')" for index args x inst' h'
    using assms [rule_format, where inst = inst and h = h and index = index and args = args] that by simp
  then show ?thesis
    using paid_refl by (auto simp: op_call_def Let_def split: sum.split prod.split option.split)
qed

lemma exec_step_paid:
  assumes "\<forall>index args inst h. burnt R 1 (inst, h) (snd (callee index args inst h))"
  shows "burnt R 1 (inst, h) (snd (exec_step m callee limit rv opcode fr inst h))"
proof -
  have "burnt R 1 (inst, h) (snd (with_fuel inst h x))" if "unat (snd x) \<le> unat (i_fuel inst)" for x
    using that by (auto simp: with_fuel_def intro: paid_frame)
  moreover have "burnt R 1 (inst, h) (snd (go inst h x))" for x
    by (simp add: go_def paid_refl)
  moreover have "burnt R 1 (inst, h) (inst\<lparr>i_memory := memory\<rparr>, h)"
    if "op_store opcode (i_memory inst) fr = Ok (fr', memory)" for fr' memory
    using op_store_memory [OF that] by (auto intro: paid_frame)
  ultimately show ?thesis
    using op_block_fuel op_else_fuel op_call_paid [OF assms] paid_refl
    by (auto simp: exec_step_def split: sum.split prod.split)
qed

lemma exec_loop_paid:
  assumes "\<forall>index args inst h. burnt R 1 (inst, h) (snd (callee index args inst h))"
  shows "burnt R 0 (inst, h) (snd (exec_loop m callee limit rv n fr inst h))"
proof (induction n arbitrary: fr inst h)
  case 0
  then show ?case by (simp add: paid_refl)
next
  case (Suc n)
  let ?inst = "inst\<lparr>i_fuel := i_fuel inst - 1\<rparr>"
  show ?case
  proof (cases "i_fuel inst = 0")
    case True
    then show ?thesis by (simp add: paid_refl)
  next
    case False
    have drop: "burnt R 0 (inst, h) (?inst, h)"
      using False by (intro paid_frame) (simp_all add: unat_pred)
    have turn: "burnt R 0 (inst, h) x" if "burnt R 1 (?inst, h) x" for x
    proof -
      have "0 < unat (i_fuel inst)" using False by (simp add: unat_gt_0)
      with that False show ?thesis
        by (auto simp: burnt_def unat_pred elim!: more)
    qed
    have step: "burnt R 0 (inst, h) (inst', h')"
      if "exec_step m callee limit rv opcode fr' ?inst h = (x, inst', h')" for opcode fr' x inst' h'
      using turn [of "(inst', h')"] exec_step_paid [OF assms, where inst = ?inst and h = h and m = m and limit = limit
          and rv = rv and opcode = opcode and fr = fr'] that by simp
    have loop: "burnt R 0 (inst, h) (snd (exec_loop m callee limit rv n fr'' inst' h'))"
      if "exec_step m callee limit rv opcode fr' ?inst h = (x, inst', h')" for opcode fr' x inst' h' fr''
      using paid_trans [OF step [OF that] Suc.IH] by simp
    show ?thesis
      using False drop step loop
      by (auto simp: Let_def split: sum.split prod.split control.split)
  qed
qed

lemma execute_paid:
  assumes "\<forall>index args inst h. burnt R 1 (inst, h) (snd (callee index args inst h))"
  shows "burnt R 0 (inst, h) (snd (execute m callee f locals rv inst h))"
  using exec_loop_paid [OF assms] paid_refl by (auto simp: execute_def split: sum.split)

lemma call_function_paid: "burnt R 1 (inst, h) (snd (call_function k host m index args inst h))"
proof (induction k arbitrary: index args inst h)
  case 0
  then show ?case by (simp add: paid_refl)
next
  case (Suc k)
  have "burnt R 1 (inst, h) (inst, h')" if "host i args h = (x, h')" for i x h'
    using call_costs [of h i args] that by (simp add: burnt_def)
  moreover have "burnt R 1 (inst, h) (snd (execute m (call_function k host m) f locals rv inst h))" for f locals rv
    using execute_paid [of "call_function k host m"] Suc.IH by (blast intro: paid_more)
  ultimately show ?case
    using paid_refl by (auto simp: Let_def split: prod.split)
qed

lemma call_export_paid: "burnt R 1 (inst, h) (snd (call_export host m entry args inst h))"
  using call_function_paid paid_refl by (auto simp: call_export_def split: option.split)

end

interpretation any_host: counted_host host "\<lambda>_ _ _. True" for host
  by unfold_locales simp_all

text \<open>The host of the library's tests, which writes down every call.\<close>

record recorder =
  calls :: "(nat \<times> wvalue list) list"
  answer :: "wvalue option"
  deny :: bool

definition recorder_call :: "recorder host_call" where
  "recorder_call i args h =
     (let h = h\<lparr>calls := calls h @ [(i, args)]\<rparr> in
      if deny h then (Err HostDenied, h) else (Ok (answer h), h))"

definition recorder_new :: recorder where
  "recorder_new = \<lparr>calls = [], answer = None, deny = False\<rparr>"

definition recorder_grows :: "nat \<Rightarrow> recorder \<Rightarrow> recorder \<Rightarrow> bool" where
  "recorder_grows k h h' \<longleftrightarrow> (\<exists>cs. calls h' = calls h @ cs \<and> length cs \<le> k)"

interpretation recorder: counted_host recorder_call recorder_grows
proof (unfold_locales, goal_cases)
  case 1
  then show ?case by (simp add: recorder_grows_def)
next
  case (2 k h h' l h'')
  then show ?case by (fastforce simp: recorder_grows_def)
next
  case (3 k h h' l)
  then show ?case by (force simp: recorder_grows_def)
next
  case (4 h i args)
  then show ?case by (simp add: recorder_grows_def recorder_call_def Let_def)
qed

section \<open>The loop ends\<close>

text \<open>The loop as the code writes it: no bound on its turns, the value \<open>None\<close> if it never ends.\<close>

partial_function (option) code_loop ::
  "wmodule \<Rightarrow> 'h callee \<Rightarrow> nat \<Rightarrow> bool \<Rightarrow> wframe \<Rightarrow> winstance \<Rightarrow> 'h \<Rightarrow>
   ((trap + wvalue option) \<times> winstance \<times> 'h) option" where
  "code_loop m callee limit returns_value fr inst h =
     (if i_fuel inst = 0 then Some (Err OutOfFuel, inst, h)
      else
        let inst = inst\<lparr>i_fuel := i_fuel inst - 1\<rparr> in
        if length (f_stack fr) > MAX_STACK \<or> length (f_labels fr) > MAX_STACK
        then Some (Err StackOverflow, inst, h)
        else if position (f_reader fr) \<ge> limit then Some (Err Malformed, inst, h)
        else
          case rt (reader_byte (f_reader fr)) of
            Inl e \<Rightarrow> Some (Err e, inst, h)
          | Inr (opcode, r) \<Rightarrow>
              case exec_step m callee limit returns_value opcode (fr\<lparr>f_reader := r\<rparr>) inst h of
                (Inl e, inst, h) \<Rightarrow> Some (Err e, inst, h)
              | (Inr (Return v), inst, h) \<Rightarrow> Some (Ok v, inst, h)
              | (Inr (Go fr), inst, h) \<Rightarrow> code_loop m callee limit returns_value fr inst h)"

lemma call_function_fuel:
  "call_function k host m index args inst h = (x, inst', h') \<Longrightarrow> unat (i_fuel inst') \<le> unat (i_fuel inst)"
  using any_host.call_function_paid [of inst h k host m index args] by (simp add: burnt_def)

lemma exec_step_fuel:
  assumes "exec_step m (call_function k host m) limit rv opcode fr inst h = (x, inst', h')"
  shows "unat (i_fuel inst') \<le> unat (i_fuel inst)"
  using any_host.exec_step_paid [of "call_function k host m"] any_host.call_function_paid [where k = k] assms
  by (metis (no_types, lifting) fst_conv burnt_def snd_conv)

lemma code_loop_fuel:
  assumes "unat (i_fuel inst) \<le> n"
  shows "code_loop m (call_function k host m) limit rv fr inst h =
    Some (exec_loop m (call_function k host m) limit rv n fr inst h)"
  using assms
proof (induction n arbitrary: fr inst h)
  case 0
  then show ?case by (subst code_loop.simps) (simp add: unat_eq_0)
next
  case (Suc n)
  let ?inst = "inst\<lparr>i_fuel := i_fuel inst - 1\<rparr>"
  show ?case
  proof (cases "i_fuel inst = 0")
    case True
    then show ?thesis by (subst code_loop.simps) simp
  next
    case False
    have "code_loop m (call_function k host m) limit rv fr'' inst' h' =
        Some (exec_loop m (call_function k host m) limit rv n fr'' inst' h')"
      if "exec_step m (call_function k host m) limit rv opcode fr' ?inst h = (x, inst', h')"
      for opcode fr' x inst' h' fr''
      using exec_step_fuel [OF that] False Suc.prems by (intro Suc.IH) (simp add: unat_pred)
    then show ?thesis
      using False by (subst code_loop.simps) (auto simp: Let_def split: sum.split prod.split control.split)
  qed
qed

section \<open>Properties\<close>

text \<open>
  C21: a tool that will not stop is stopped. The interpreter's unbounded loop returns, with any
  module, any host and at any depth of calls: it is the loop of at most as many turns as there is fuel.
\<close>

theorem interpreter_returns:
  "code_loop m (call_function k host m) limit rv fr inst h =
     Some (exec_loop m (call_function k host m) limit rv (unat (i_fuel inst)) fr inst h)"
  by (rule code_loop_fuel) simp

text \<open>
  C22: calling an export never gains fuel, never changes the size of the memory, and calls the
  host at most once more often than it burns fuel, whatever the module's bytes are.
\<close>

theorem run_bounded:
  assumes "call_export recorder_call m entry args inst h = (x, inst', h')"
  shows "unat (i_fuel inst') \<le> unat (i_fuel inst) \<and>
    length (i_memory inst') = length (i_memory inst) \<and>
    (\<exists>cs. calls h' = calls h @ cs \<and> length cs \<le> 1 + (unat (i_fuel inst) - unat (i_fuel inst')))"
  using recorder.call_export_paid [of inst h m entry args] assms
  by (simp only: burnt_def recorder_grows_def snd_conv fst_conv)

text \<open>The endless loop of the tests, with a call to the host in it.\<close>

definition spin_module :: wmodule where
  "spin_module = \<lparr>m_bytes = [0x03, 0x40, 0x10, 0x00, 0x0c, 0x00, 0x0b, 0x0b],
     m_types = [\<lparr>params = [], results = []\<rparr>],
     m_imports = [\<lparr>i_module = lit ''i3ml'', i_name = lit ''journal'', i_type_index = 0\<rparr>],
     m_functions = [\<lparr>f_type_index = 0, f_locals = [], body_start = 0, body_end = 8\<rparr>],
     m_exports = [\<lparr>x_name = lit ''spin'', function_index = 1\<rparr>], memory_pages = None, m_data = []\<rparr>"

theorem run_bounded_witness:
  "\<exists>inst' h'. call_export recorder_call spin_module (lit ''spin'') [] \<lparr>i_memory = [], i_fuel = 4\<rparr> recorder_new =
     (Err OutOfFuel, inst', h') \<and> length (calls h') \<le> 5 \<and> length (calls h') = 2"
proof -
  have run: "call_export recorder_call spin_module (lit ''spin'') [] \<lparr>i_memory = [], i_fuel = 4\<rparr> recorder_new =
      (Err OutOfFuel, \<lparr>i_memory = [], i_fuel = 0\<rparr>, \<lparr>calls = [(0, []), (0, [])], answer = None, deny = False\<rparr>)"
    by code_simp
  from run_bounded [OF this] obtain cs :: "(nat \<times> wvalue list) list"
    where "[(0, []), (0, [])] = cs" "length cs \<le> 5" by (auto simp: recorder_new_def)
  then have "length [(0 :: nat, [] :: wvalue list), (0, [])] \<le> 5" by blast
  with run show ?thesis by auto
qed

end
