(* ===== verification/Tool.thy ===== *)
theory Tool
  imports Agents Wasm_Laws
begin

text \<open>
  \<open>nawa/kernel/src/tool.rs\<close>: an agent that is a WebAssembly module. \<open>bind\<close> resolves a module's
  imports against the capabilities granted; \<open>gate_host_call\<close> is the interpreter's host, its state
  the \<open>GateHost\<close> and the gate's state; \<open>tool_run\<close> runs an entry point under a fuel ceiling. The
  host satisfies the contract of the interpreter's hosts (\<open>counted_host\<close>), so whatever a module
  does is a short sequence of crossings that its grants allow.
\<close>

definition VERBS :: "str list" where
  "VERBS = [lit ''invoke'', lit ''journal'', lit ''approve'']"

definition MAX_NOTES :: u32 where "MAX_NOTES = 8"

record gate_host =
  g_agent :: agent_id
  bindings :: "capability option list"
  verbs :: "nat option list"
  host_crossings :: u32
  refusals :: u32
  note_total :: u32

datatype load_error = UnauthorizedImport

definition refuse :: "gate_host \<Rightarrow> gate_host" where
  "refuse g = g\<lparr>refusals := refusals g + 1\<rparr>"

text \<open>
  The three verbs. \<open>bind\<close> stores indices below three, so \<open>VERBS ! verb\<close> is in range for the
  hosts it makes.
\<close>

definition call_invoke :: "nat \<Rightarrow> gate_host \<Rightarrow> 'p gate_state \<Rightarrow>
    (trap + wvalue option) \<times> gate_host \<times> 'p gate_state" where
  "call_invoke verb g s =
     (case bindings g ! verb of
        None \<Rightarrow> (Err HostDenied, refuse g, s)
      | Some cap \<Rightarrow>
          (case invoke (g_agent g) cap s of
             (Inr _, s) \<Rightarrow> (Ok (Some (I32 0)), g, s)
           | (Inl _, s) \<Rightarrow> (Ok (Some (I32 (- 1))), refuse g, s)))"

definition call_journal :: "wvalue list \<Rightarrow> gate_host \<Rightarrow> 'p gate_state \<Rightarrow>
    (trap + wvalue option) \<times> gate_host \<times> 'p gate_state" where
  "call_journal arguments g s =
     (if note_total g \<ge> MAX_NOTES then (Ok (Some (I32 (- 1))), refuse g, s)
      else
        let g = g\<lparr>note_total := note_total g + 1\<rparr>;
            detail = (case arguments of [] \<Rightarrow> 0 | v # _ \<Rightarrow> as_i64 v)
        in (Ok (Some (I32 0)), g, sijil_record (g_agent g) Noted detail (lit ''wasm:note'') s))"

definition call_approve :: "nat \<Rightarrow> gate_host \<Rightarrow> 'p gate_state \<Rightarrow>
    (trap + wvalue option) \<times> gate_host \<times> 'p gate_state" where
  "call_approve verb g s =
     (case bindings g ! verb of
        None \<Rightarrow> (Err HostDenied, refuse g, s)
      | Some cap \<Rightarrow>
          (case request_approval (g_agent g) cap (lit ''requested by a wasm tool'') s of
             (Inr i, s) \<Rightarrow> (Ok (Some (I32 (ucast i))), g, s)
           | (Inl _, s) \<Rightarrow> (Ok (Some (I32 (- 1))), refuse g, s)))"

definition gate_host_call :: "(gate_host \<times> 'p gate_state) host_call" where
  "gate_host_call import arguments gs =
     (let (g, s) = gs; g = g\<lparr>host_crossings := host_crossings g + 1\<rparr> in
      case (if import < length (verbs g) then verbs g ! import else None) of
        None \<Rightarrow> (Err HostDenied, refuse g, s)
      | Some verb \<Rightarrow>
          if VERBS ! verb = lit ''invoke'' then call_invoke verb g s
          else if VERBS ! verb = lit ''journal'' then call_journal arguments g s
          else if VERBS ! verb = lit ''approve'' then call_approve verb g s
          else (Err HostDenied, refuse g, s))"

section \<open>Binding and running\<close>

fun position_of :: "str list \<Rightarrow> str \<Rightarrow> nat option" where
  "position_of [] x = None"
| "position_of (y # ys) x = (if y = x then Some 0 else map_option Suc (position_of ys x))"

fun bind_each :: "(str \<times> capability) list \<Rightarrow> requirement list \<Rightarrow> gate_host \<Rightarrow> load_error + gate_host" where
  "bind_each grants [] g = Ok g"
| "bind_each grants (q # qs) g =
     (if rq_module q \<noteq> lit ''i3ml'' \<or> rq_index q \<ge> length (verbs g) then Err UnauthorizedImport
      else
        case position_of VERBS (rq_name q) of
          None \<Rightarrow> Err UnauthorizedImport
        | Some verb \<Rightarrow>
            and_then
              (if VERBS ! verb \<noteq> lit ''journal'' then
                 (case map_of grants (rq_name q) of
                    None \<Rightarrow> Err UnauthorizedImport
                  | Some cap \<Rightarrow> Ok (g\<lparr>bindings := (bindings g)[verb := Some cap]\<rparr>))
               else Ok g)
              (\<lambda>g. bind_each grants qs (g\<lparr>verbs := (verbs g)[rq_index q := Some verb]\<rparr>)))"

definition tool_bind :: "wmodule \<Rightarrow> agent_id \<Rightarrow> (str \<times> capability) list \<Rightarrow> load_error + gate_host" where
  "tool_bind m agent grants =
     bind_each grants (manifest m)
       \<lparr>g_agent = agent, bindings = replicate 3 None, verbs = replicate 8 None, host_crossings = 0,
        refusals = 0, note_total = 0\<rparr>"

definition tool_run :: "wmodule \<Rightarrow> str \<Rightarrow> u64 \<Rightarrow> gate_host \<times> 'p gate_state \<Rightarrow>
    (trap + wvalue option) \<times> gate_host \<times> 'p gate_state" where
  "tool_run m entry fuel gs =
     (case instance_new m fuel of
        Inl e \<Rightarrow> (Err e, gs)
      | Inr inst \<Rightarrow> (let (res, _, gs) = call_export gate_host_call m entry [] inst gs in (res, gs)))"

section \<open>What a tool does to the gate\<close>

datatype crossing = CInvoke capability | CNote u64 | CAsk capability

fun perform :: "agent_id \<Rightarrow> crossing \<Rightarrow> 'p gate_state \<Rightarrow> 'p gate_state" where
  "perform agent (CInvoke cap) s = snd (invoke agent cap s)"
| "perform agent (CNote detail) s = sijil_record agent Noted detail (lit ''wasm:note'') s"
| "perform agent (CAsk cap) s = snd (request_approval agent cap (lit ''requested by a wasm tool'') s)"

fun is_note :: "crossing \<Rightarrow> bool" where
  "is_note (CNote _) = True"
| "is_note _ = False"

definition note_count :: "crossing list \<Rightarrow> nat" where
  "note_count cs = length (filter is_note cs)"

text \<open>A host that \<open>bind\<close> could have made, some notes later.\<close>

definition host_ok :: "gate_host \<Rightarrow> bool" where
  "host_ok g \<longleftrightarrow> length (bindings g) = 3 \<and> (\<forall>v \<in> set (verbs g). \<forall>verb. v = Some verb \<longrightarrow> verb < 3) \<and> note_total g \<le> 8"

definition allowed :: "gate_host \<Rightarrow> crossing \<Rightarrow> bool" where
  "allowed g c \<longleftrightarrow> (case c of CInvoke cap \<Rightarrow> bindings g ! 0 = Some cap | CAsk cap \<Rightarrow> bindings g ! 2 = Some cap
     | CNote _ \<Rightarrow> True)"

definition same_binding :: "gate_host \<Rightarrow> gate_host \<Rightarrow> bool" where
  "same_binding g g' \<longleftrightarrow> g_agent g' = g_agent g \<and> bindings g' = bindings g \<and> verbs g' = verbs g"

definition tool_moves :: "nat \<Rightarrow> gate_host \<times> 'p gate_state \<Rightarrow> gate_host \<times> 'p gate_state \<Rightarrow> bool" where
  "tool_moves k x y \<longleftrightarrow> (host_ok (fst x) \<longrightarrow> host_ok (fst y) \<and> same_binding (fst x) (fst y) \<and>
     (\<exists>cs. length cs \<le> k \<and> snd y = fold (perform (g_agent (fst x))) cs (snd x) \<and>
        list_all (allowed (fst x)) cs \<and> unat (note_total (fst y)) = unat (note_total (fst x)) + note_count cs))"

lemma verb_names: "lit ''invoke'' \<noteq> lit ''journal''" "lit ''invoke'' \<noteq> lit ''approve''" "lit ''journal'' \<noteq> lit ''approve''"
  by code_simp+

lemma verb_cases: "verb < 3 \<Longrightarrow> verb = 0 \<or> verb = 1 \<or> verb = (2 :: nat)"
  by auto

lemma refuse_simps [simp]:
  "host_ok (refuse g) = host_ok g" "same_binding g (refuse g')  = same_binding g g'"
  "note_total (refuse g) = note_total g" "bindings (refuse g) = bindings g"
  by (simp_all add: refuse_def host_ok_def same_binding_def)

lemma tool_moves_frame:
  assumes "host_ok g \<Longrightarrow> host_ok g'" "same_binding g g'" "note_total g' = note_total g"
  shows "tool_moves k (g, s) (g', s)"
  using assms unfolding tool_moves_def by (auto intro!: exI [of _ "[]"] simp: note_count_def)

lemma tool_moves_one:
  assumes "host_ok g \<Longrightarrow> host_ok g'" "same_binding g g'" "host_ok g \<Longrightarrow> allowed g c"
    and "host_ok g \<Longrightarrow> unat (note_total g') = unat (note_total g) + (if is_note c then 1 else 0)"
    and "s' = perform (g_agent g) c s"
  shows "tool_moves 1 (g, s) (g', s')"
  using assms unfolding tool_moves_def by (auto intro!: exI [of _ "[c]"] simp: note_count_def)

lemma gate_host_call_moves: "tool_moves 1 gs (snd (gate_host_call i arguments gs))"
proof -
  obtain g s where gs: "gs = (g, s)" by (metis surj_pair)
  let ?g = "g\<lparr>host_crossings := host_crossings g + 1\<rparr>"
  have same: "host_ok ?g = host_ok g" "same_binding g ?g" "note_total ?g = note_total g"
    by (simp_all add: host_ok_def same_binding_def)
  have frame: "tool_moves 1 (g, s) (refuse ?g, s)" "tool_moves 1 (g, s) (?g, s)"
    using same by (auto intro!: tool_moves_frame)
  show ?thesis
  proof (cases "if i < length (verbs g) then verbs g ! i else None")
    case None
    with frame(1) gs show ?thesis by (simp add: gate_host_call_def Let_def split: if_splits)
  next
    case (Some verb)
    then have v: "verbs g ! i = Some verb" "i < length (verbs g)" by (auto split: if_splits)
    show ?thesis
    proof (cases "host_ok g")
      case False
      with gs show ?thesis by (simp add: tool_moves_def)
    next
      case True
      with v have "verb < 3" unfolding host_ok_def by (metis nth_mem)
      then consider "verb = 0" | "verb = 1" | "verb = 2" by (auto dest: verb_cases)
      then show ?thesis
      proof cases
        case 1
        then have "snd (gate_host_call i arguments gs) = snd (call_invoke 0 ?g s)"
          using v gs by (simp add: gate_host_call_def VERBS_def)
        moreover have "tool_moves 1 (g, s) (snd (call_invoke 0 ?g s))"
        proof (cases "bindings g ! 0")
          case None
          with frame show ?thesis by (simp add: call_invoke_def)
        next
          case (Some cap)
          obtain r s1 where inv: "invoke (g_agent g) cap s = (r, s1)" by (metis surj_pair)
          have "tool_moves 1 (g, s) (g', s1)" if "g' = ?g \<or> g' = refuse ?g" for g'
            using that Some inv same
            by (intro tool_moves_one [where c = "CInvoke cap"]) (auto simp: allowed_def)
          with Some inv show ?thesis by (cases r) (simp_all add: call_invoke_def)
        qed
        ultimately show ?thesis using gs by simp
      next
        case 2
        then have eq: "snd (gate_host_call i arguments gs) = snd (call_journal arguments ?g s)"
          using v gs verb_names by (simp add: gate_host_call_def VERBS_def)
        show ?thesis
        proof (cases "note_total g \<ge> 8")
          case True
          with frame eq gs show ?thesis by (simp add: call_journal_def MAX_NOTES_def)
        next
          case False
          let ?d = "case arguments of [] \<Rightarrow> 0 | v # _ \<Rightarrow> as_i64 v"
          have "unat (note_total g) < 8" using False by (simp add: word_le_nat_alt)
          then have n: "unat (note_total g + 1) = unat (note_total g) + 1" by (simp add: unat_add_small)
          then have "tool_moves 1 (g, s) (?g\<lparr>note_total := note_total g + 1\<rparr>, sijil_record (g_agent g) Noted ?d (lit ''wasm:note'') s)"
            using False by (intro tool_moves_one [where c = "CNote ?d"])
              (auto simp: host_ok_def same_binding_def allowed_def word_le_nat_alt)
          with False eq gs show ?thesis by (simp add: call_journal_def MAX_NOTES_def Let_def)
        qed
      next
        case 3
        then have "snd (gate_host_call i arguments gs) = snd (call_approve 2 ?g s)"
          using v gs verb_names by (simp add: gate_host_call_def VERBS_def)
        moreover have "tool_moves 1 (g, s) (snd (call_approve 2 ?g s))"
        proof (cases "bindings g ! 2")
          case None
          with frame show ?thesis by (simp add: call_approve_def)
        next
          case (Some cap)
          obtain r s1 where req: "request_approval (g_agent g) cap (lit ''requested by a wasm tool'') s = (r, s1)"
            by (metis surj_pair)
          have "tool_moves 1 (g, s) (g', s1)" if "g' = ?g \<or> g' = refuse ?g" for g'
            using that Some req same
            by (intro tool_moves_one [where c = "CAsk cap"]) (auto simp: allowed_def)
          with Some req show ?thesis by (cases r) (simp_all add: call_approve_def)
        qed
        ultimately show ?thesis using gs by simp
      qed
    qed
  qed
qed

interpretation tool_host: counted_host gate_host_call tool_moves
proof (unfold_locales, goal_cases)
  case (1 h)
  then show ?case by (cases h) (auto intro!: tool_moves_frame simp: same_binding_def)
next
  case (2 k h h' l h'')
  show ?case
  proof (cases "host_ok (fst h)")
    case False
    then show ?thesis by (simp add: tool_moves_def)
  next
    case True
    with 2(1) obtain cs where a: "host_ok (fst h')" "same_binding (fst h) (fst h')" "length cs \<le> k"
      "snd h' = fold (perform (g_agent (fst h))) cs (snd h)" "list_all (allowed (fst h)) cs"
      "unat (note_total (fst h')) = unat (note_total (fst h)) + note_count cs" by (auto simp: tool_moves_def)
    with 2(2) obtain ds where b: "host_ok (fst h'')" "same_binding (fst h') (fst h'')" "length ds \<le> l"
      "snd h'' = fold (perform (g_agent (fst h'))) ds (snd h')" "list_all (allowed (fst h')) ds"
      "unat (note_total (fst h'')) = unat (note_total (fst h')) + note_count ds" by (auto simp: tool_moves_def)
    have al: "allowed (fst h') = allowed (fst h)"
      using a(2) by (intro ext) (simp add: allowed_def same_binding_def split: crossing.split)
    show ?thesis
      using a b al unfolding tool_moves_def
      by (auto intro!: exI [of _ "cs @ ds"] simp: same_binding_def note_count_def)
  qed
next
  case (3 k h h' l)
  then show ?case unfolding tool_moves_def by (meson le_trans)
next
  case (4 h i arguments)
  show ?case by (rule gate_host_call_moves)
qed

section \<open>What binding admits\<close>

lemma position_of_Some: "position_of ys x = Some i \<Longrightarrow> i < length ys \<and> ys ! i = x"
  by (induction ys arbitrary: i) (auto split: if_splits)

lemma position_of_None: "position_of ys x = None \<longleftrightarrow> x \<notin> set ys"
  by (induction ys) auto

text \<open>An import the host may have: in the gate's vocabulary, and granted unless it is \<open>journal\<close>.\<close>

definition resolvable :: "(str \<times> capability) list \<Rightarrow> requirement \<Rightarrow> bool" where
  "resolvable grants q \<longleftrightarrow> rq_module q = lit ''i3ml'' \<and> rq_index q < 8 \<and> rq_name q \<in> set VERBS \<and>
     (rq_name q \<noteq> lit ''journal'' \<longrightarrow> map_of grants (rq_name q) \<noteq> None)"

text \<open>A host whose bindings come from the grants.\<close>

definition bound_by :: "(str \<times> capability) list \<Rightarrow> gate_host \<Rightarrow> bool" where
  "bound_by grants g \<longleftrightarrow> host_ok g \<and> length (verbs g) = 8 \<and>
     (\<forall>verb < 3. \<forall>cap. bindings g ! verb = Some cap \<longrightarrow> map_of grants (VERBS ! verb) = Some cap)"

lemma length_VERBS [simp]: "length VERBS = 3"
  by (simp add: VERBS_def)

lemma bind_each_bound:
  assumes "bound_by grants g"
  shows "case bind_each grants qs g of
      Inl _ \<Rightarrow> \<exists>q \<in> set qs. \<not> resolvable grants q
    | Inr g' \<Rightarrow> (\<forall>q \<in> set qs. resolvable grants q) \<and> bound_by grants g' \<and> g_agent g' = g_agent g \<and>
        note_total g' = note_total g"
  using assms
proof (induction qs arbitrary: g)
  case Nil
  then show ?case by simp
next
  case (Cons q qs)
  have v8: "length (verbs g) = 8" using Cons.prems by (simp add: bound_by_def)
  show ?case
  proof (cases "resolvable grants q")
    case False
    have "bind_each grants (q # qs) g = Err UnauthorizedImport"
      using False v8 position_of_Some [of VERBS "rq_name q"] position_of_None [of VERBS "rq_name q"]
      by (auto simp: resolvable_def split: option.split)
    with False show ?thesis by auto
  next
    case True
    then obtain verb where verb: "position_of VERBS (rq_name q) = Some verb"
      using position_of_None [of VERBS "rq_name q"] by (auto simp: resolvable_def)
    note p = position_of_Some [OF verb]
    let ?cap = "map_of grants (rq_name q)"
    define g1 where "g1 = (if rq_name q = lit ''journal'' then g else g\<lparr>bindings := (bindings g)[verb := ?cap]\<rparr>)"
    define g2 where "g2 = g1\<lparr>verbs := (verbs g1)[rq_index q := Some verb]\<rparr>"
    have run: "bind_each grants (q # qs) g = bind_each grants qs g2"
      using True v8 verb p by (auto simp: resolvable_def g1_def g2_def split: option.split)
    have "bound_by grants g1"
      using Cons.prems p by (auto simp: bound_by_def g1_def host_ok_def nth_list_update)
    then have "bound_by grants g2"
      using p by (auto simp: bound_by_def g2_def host_ok_def dest!: set_update_subset_insert [THEN subsetD])
    moreover have "g_agent g2 = g_agent g" "note_total g2 = note_total g" by (simp_all add: g1_def g2_def)
    ultimately show ?thesis using Cons.IH [of g2] True run by (auto split: sum.splits)
  qed
qed

lemma tool_bind_bound:
  "case tool_bind m agent grants of
      Inl _ \<Rightarrow> \<exists>q \<in> set (manifest m). \<not> resolvable grants q
    | Inr g \<Rightarrow> (\<forall>q \<in> set (manifest m). resolvable grants q) \<and> bound_by grants g \<and> g_agent g = agent \<and> note_total g = 0"
proof -
  let ?g = "\<lparr>g_agent = agent, bindings = replicate 3 None, verbs = replicate 8 None, host_crossings = 0,
    refusals = 0, note_total = 0\<rparr>"
  have "bound_by grants ?g" by (simp add: bound_by_def host_ok_def)
  from bind_each_bound [OF this, of "manifest m"] show ?thesis
    unfolding tool_bind_def by (cases "bind_each grants (manifest m) ?g") simp_all
qed

lemma set_manifest:
  "set (manifest m) = {\<lparr>rq_index = i, rq_module = i_module (m_imports m ! i), rq_name = i_name (m_imports m ! i)\<rparr> | i.
     i < length (m_imports m)}"
  by (auto simp: manifest_def in_set_enumerate_eq image_iff)

lemma manifest_resolvable:
  "(\<forall>q \<in> set (manifest m). resolvable grants q) \<longleftrightarrow> length (m_imports m) \<le> 8 \<and>
     (\<forall>im \<in> set (m_imports m). i_module im = lit ''i3ml'' \<and> (i_name im = lit ''journal'' \<or>
        i_name im \<in> {lit ''invoke'', lit ''approve''} \<and> map_of grants (i_name im) \<noteq> None))"
proof -
  have "(\<forall>q \<in> set (manifest m). resolvable grants q) \<longleftrightarrow> (\<forall>i < length (m_imports m). i < 8 \<and>
      i_module (m_imports m ! i) = lit ''i3ml'' \<and> (i_name (m_imports m ! i) = lit ''journal'' \<or>
        i_name (m_imports m ! i) \<in> {lit ''invoke'', lit ''approve''} \<and> map_of grants (i_name (m_imports m ! i)) \<noteq> None))"
    by (auto simp: set_manifest resolvable_def VERBS_def verb_names)
  moreover have "(\<forall>i < length (m_imports m). i < 8) \<longleftrightarrow> length (m_imports m) \<le> 8" by (auto intro: leI)
  ultimately show ?thesis by (auto simp: all_set_conv_all_nth)
qed

section \<open>Running\<close>

lemma tool_run_moves: "tool_moves (unat fuel + 1) gs (snd (tool_run m entry fuel gs))"
proof (cases "instance_new m fuel")
  case (Inl e)
  then show ?thesis using tool_host.more [OF tool_host.stays] by (simp add: tool_run_def)
next
  case (Inr inst)
  then have fuel: "i_fuel inst = fuel" by (auto simp: instance_new_def result_simps Let_def)
  obtain res inst' gs' where run: "call_export gate_host_call m entry [] inst gs = (res, inst', gs')"
    by (metis prod_cases3)
  have "burnt tool_moves 1 (inst, gs) (inst', gs')"
    using tool_host.call_export_paid [of inst gs m entry "[]"] run by simp
  then have "tool_moves (1 + (unat fuel - unat (i_fuel inst'))) gs gs'" by (simp only: burnt_def fst_conv snd_conv fuel)
  from tool_host.more [OF this, of "unat fuel + 1"] Inr run show ?thesis by (simp add: tool_run_def)
qed

lemma perform_acts:
  assumes "room_for (length cs) s"
  shows "acts_within (length cs) s (fold (perform agent) cs s)"
  using assms
proof (induction cs arbitrary: s)
  case Nil
  then show ?case by simp
next
  case (Cons c cs)
  have "room_for 1 s" using Cons.prems by (simp add: room_for_def)
  then have one: "acts_within 1 s (perform agent c s)"
  proof (cases c)
    case (CInvoke cap)
    have "acts_within 0 s (snd (invoke agent cap s))" by (rule invoke_acts [OF surjective_pairing])
    then show ?thesis using CInvoke acts_within_mono [of 0 s _ 1] by simp
  next
    case (CNote detail)
    then show ?thesis by simp
  next
    case (CAsk cap)
    then show ?thesis using request_acts [OF surjective_pairing \<open>room_for 1 s\<close>] by simp
  qed
  have "room_for (length cs) (perform agent c s)"
    using acts_within_room [OF one, of "length cs"] Cons.prems by simp
  from acts_within_trans [OF one Cons.IH [OF this]] show ?case by simp
qed

section \<open>Properties\<close>

text \<open>
  The manifest is closed. A module binds exactly when it has at most eight imports, all from
  \<open>i3ml\<close>, each \<open>journal\<close>, or \<open>invoke\<close> or \<open>approve\<close> with a capability granted under that name.
\<close>

theorem manifest_is_closed:
  "is_ok (tool_bind m agent grants) \<longleftrightarrow> length (m_imports m) \<le> 8 \<and>
     (\<forall>im \<in> set (m_imports m). i_module im = lit ''i3ml'' \<and> (i_name im = lit ''journal'' \<or>
        i_name im \<in> {lit ''invoke'', lit ''approve''} \<and> map_of grants (i_name im) \<noteq> None))"
  using tool_bind_bound [of m grants agent] unfolding manifest_resolvable [symmetric, of m grants]
  by (auto split: sum.splits)

text \<open>The endless tool imports \<open>journal\<close> alone and binds without a grant; renamed to \<open>invoke\<close>, it does not.\<close>

theorem manifest_is_closed_witness:
  "is_ok (tool_bind spin_module 1 []) \<and>
   \<not> is_ok (tool_bind (spin_module\<lparr>m_imports := [\<lparr>i_module = lit ''i3ml'', i_name = lit ''invoke'', i_type_index = 0\<rparr>]\<rparr>) 1 [])"
  unfolding manifest_is_closed using verb_names by (simp add: spin_module_def)

text \<open>
  C18: a tool is confined. Whatever its bytes are, a run of a bound tool with \<open>fuel\<close> changes the
  gate's state by at most \<open>fuel + 1\<close> crossings in its agent's name: invocations of the capability
  granted for \<open>invoke\<close>, requests for the one granted for \<open>approve\<close>, and at most eight notes.
\<close>

theorem tool_is_confined:
  assumes "tool_bind m agent grants = Ok g" "tool_run m entry fuel (g, s) = (res, g', s')"
  shows "\<exists>cs. s' = fold (perform agent) cs s \<and> length cs \<le> unat fuel + 1 \<and> length (filter is_note cs) \<le> 8 \<and>
    (\<forall>cap. CInvoke cap \<in> set cs \<longrightarrow> map_of grants (lit ''invoke'') = Some cap) \<and>
    (\<forall>cap. CAsk cap \<in> set cs \<longrightarrow> map_of grants (lit ''approve'') = Some cap)"
proof -
  from tool_bind_bound [of m grants agent] assms(1)
  have b: "bound_by grants g" "g_agent g = agent" "note_total g = 0" by auto
  from tool_run_moves [of fuel "(g, s)" m entry] assms(2) b(1) obtain cs where
    cs: "length cs \<le> unat fuel + 1" "s' = fold (perform agent) cs s" "list_all (allowed g) cs"
    "host_ok g'" "unat (note_total g') = note_count cs"
    using b(2,3) by (auto simp: tool_moves_def bound_by_def)
  have grant: "map_of grants (VERBS ! verb) = Some cap" if "verb < 3" "bindings g ! verb = Some cap" for verb cap
    using b(1) that by (simp add: bound_by_def)
  have "note_count cs \<le> 8" using cs(4,5) by (simp add: host_ok_def word_le_nat_alt)
  moreover have "map_of grants (lit ''invoke'') = Some cap" if "CInvoke cap \<in> set cs" for cap
    using that cs(3) grant [of 0] by (auto simp: list_all_iff allowed_def VERBS_def dest!: bspec)
  moreover have "map_of grants (lit ''approve'') = Some cap" if "CAsk cap \<in> set cs" for cap
    using that cs(3) grant [of 2] by (auto simp: list_all_iff allowed_def VERBS_def dest!: bspec)
  ultimately show ?thesis using cs(1,2) by (auto simp: note_count_def)
qed

text \<open>
  C19: a tool cannot get around the gate. A run of a bound tool is a sequence of gate operations:
  it keeps the supervisor's invariant, and the irreversible actions that happened are as many as
  the approvals it used up.
\<close>

theorem tool_runs_by_gate:
  assumes "tool_bind m agent grants = Ok g" "tool_run m entry fuel (g, s) = (res, g', s')"
    and "gate_inv s" "length (approvals s) + unat fuel + 1 < 2 ^ 64 - 1"
  shows "\<exists>k. gate_steps s k s' \<and> gate_inv s' \<and>
    length (filter q_consumed (approvals s')) = length (filter q_consumed (approvals s)) + k"
proof -
  from tool_bind_bound [of m grants agent] assms(1)
  have b: "bound_by grants g" "g_agent g = agent" by auto
  from tool_run_moves [of fuel "(g, s)" m entry] assms(2) b obtain cs where
    cs: "length cs \<le> unat fuel + 1" "s' = fold (perform agent) cs s"
    by (auto simp: tool_moves_def bound_by_def)
  have "room_for (length cs) s" using assms(4) cs(1) by (simp add: room_for_def)
  from perform_acts [OF this, of agent] cs(2) obtain k where k: "gate_steps s k s'"
    by (auto simp: acts_within_def)
  from gate_steps_good [OF this assms(3)] k show ?thesis
    by (auto simp: good_step_def consumed_count_def)
qed

text \<open>The endless tool, with a grant it does not use, in the name of the demo's agent.\<close>

definition spin_host :: gate_host where
  "spin_host = \<lparr>g_agent = 1, bindings = [None, None, None],
     verbs = [Some 1, None, None, None, None, None, None, None], host_crossings = 0, refusals = 0, note_total = 0\<rparr>"

lemma spin_binds: "tool_bind spin_module 1 [(lit ''invoke'', Capability 0)] = Ok spin_host"
  by code_simp

theorem tool_is_confined_witness:
  "\<exists>cs. snd (snd (tool_run spin_module (lit ''spin'') 4 (spin_host, demo_greedy))) = fold (perform 1) cs demo_greedy \<and>
     length cs \<le> 5 \<and> length (filter is_note cs) \<le> 8"
proof -
  obtain res g' s' where run: "tool_run spin_module (lit ''spin'') 4 (spin_host, demo_greedy) = (res, g', s')"
    by (metis prod_cases3)
  from tool_is_confined [OF spin_binds run] show ?thesis unfolding run by auto
qed

theorem tool_runs_by_gate_witness:
  "gate_inv (snd (snd (tool_run spin_module (lit ''spin'') 4 (spin_host, demo_greedy))))"
proof -
  have "approvals demo_greedy = []" by code_simp
  then have "length (approvals demo_greedy) + unat (4 :: u64) + 1 < 2 ^ 64 - 1" by simp
  from tool_runs_by_gate [OF spin_binds _ demo_greedy_inv this, of "lit ''spin''"] show ?thesis
    by (metis prod.collapse)
qed

end
