(* ===== verification/Frames.thy ===== *)
theory Frames
  imports Prelude
begin

text \<open>
  The physical-frame allocator (\<open>nawa/core/src/mem.rs\<close>): a bitmap over the largest
  conventional region of the UEFI memory map. A memory-map region is a record of the fields
  the allocator reads. The bitmap, which the code keeps in the first frames of the region it
  manages, is a list of bytes; frame numbers and physical addresses are \<open>nat\<close> (the code's
  \<open>usize\<close>), and the region is taken to lie inside the address space, so that
  \<open>base + run_start * PAGE_SIZE\<close> does not wrap. A panic of \<open>free_frames\<close> is a value of
  \<open>free_panic\<close>.
\<close>

unbundle bit_operations_syntax

section \<open>The memory map and the allocator's state\<close>

definition PAGE_SIZE :: nat where "PAGE_SIZE = 4096"

definition EFI_CONVENTIONAL_MEMORY :: u32 where "EFI_CONVENTIONAL_MEMORY = 7"

record mem_region =
  region_type :: u32
  physical_start :: u64
  pages :: u64

record memory_stats =
  usable_bytes :: u64
  managed_bytes :: u64

record frame_allocator =
  frame_base :: nat
  frames :: nat
  bitmap :: "byte list"
  next_hint :: nat

definition frame_bit :: "nat \<Rightarrow> byte" where
  "frame_bit frame = push_bit (frame mod 8) 1"

definition is_used :: "frame_allocator \<Rightarrow> nat \<Rightarrow> bool" where
  "is_used a frame \<longleftrightarrow> bitmap a ! (frame div 8) AND frame_bit frame \<noteq> 0"

definition mark_used :: "nat \<Rightarrow> frame_allocator \<Rightarrow> frame_allocator" where
  "mark_used frame a =
     a\<lparr>bitmap := (bitmap a)[frame div 8 := bitmap a ! (frame div 8) OR frame_bit frame]\<rparr>"

definition mark_free :: "nat \<Rightarrow> frame_allocator \<Rightarrow> frame_allocator" where
  "mark_free frame a =
     a\<lparr>bitmap := (bitmap a)[frame div 8 := bitmap a ! (frame div 8) AND NOT (frame_bit frame)]\<rparr>"

text \<open>The two counters and the choice of the largest region, in the order of the map.\<close>

fun survey_regions :: "mem_region list \<Rightarrow> u64 \<Rightarrow> u64 \<Rightarrow> u64 \<Rightarrow> u64 \<times> u64 \<times> u64" where
  "survey_regions [] usable base largest = (usable, base, largest)"
| "survey_regions (r # rs) usable base largest =
     (if region_type r = EFI_CONVENTIONAL_MEMORY
      then (let usable' = usable + pages r * of_nat PAGE_SIZE in
            if largest < pages r then survey_regions rs usable' (physical_start r) (pages r)
            else survey_regions rs usable' base largest)
      else survey_regions rs usable base largest)"

definition bitmap_bytes :: "nat \<Rightarrow> nat" where
  "bitmap_bytes n = div_ceil n 8"

definition bitmap_frames :: "nat \<Rightarrow> nat" where
  "bitmap_frames n = div_ceil (bitmap_bytes n) PAGE_SIZE"

definition fresh_allocator :: "u64 \<Rightarrow> nat \<Rightarrow> frame_allocator" where
  "fresh_allocator base n =
     \<lparr>frame_base = unat base, frames = n, bitmap = replicate (bitmap_bytes n) 0, next_hint = 0\<rparr>"

definition mem_init :: "mem_region list \<Rightarrow> frame_allocator \<times> memory_stats" where
  "mem_init regions =
     (case survey_regions regions 0 0 0 of (usable, base, largest) \<Rightarrow>
        let n = unat largest;
            a = fold mark_used [0..<bitmap_frames n] (fresh_allocator base n)
        in (a, \<lparr>usable_bytes = usable,
                managed_bytes = of_nat ((n - bitmap_frames n) * PAGE_SIZE)\<rparr>))"

section \<open>Allocation and release\<close>

text \<open>
  The loop of \<open>allocate_contiguous\<close> from \<open>frame\<close> on: the start and the last frame of the
  first run that reaches \<open>count\<close>.
\<close>

function find_run :: "frame_allocator \<Rightarrow> nat \<Rightarrow> nat \<Rightarrow> nat \<Rightarrow> nat \<Rightarrow> (nat \<times> nat) option" where
  "find_run a count frame run_start run_length =
     (if frames a \<le> frame then None
      else if is_used a frame then find_run a count (frame + 1) (frame + 1) 0
      else if run_length + 1 = count then Some (run_start, frame)
      else find_run a count (frame + 1) run_start (run_length + 1))"
  by pat_completeness auto
termination
  by (relation "measure (\<lambda>(a, _, frame, _). frames a - frame)") auto

declare find_run.simps [simp del]

function allocate_contiguous :: "frame_allocator \<Rightarrow> nat \<Rightarrow> nat option \<times> frame_allocator" where
  "allocate_contiguous a count =
     (case find_run a count (next_hint a) (next_hint a) 0 of
        Some (run_start, frame) \<Rightarrow>
          (Some (frame_base a + run_start * PAGE_SIZE),
           (fold mark_used [run_start..<frame + 1] a)\<lparr>next_hint := frame + 1\<rparr>)
      | None \<Rightarrow>
          if next_hint a \<noteq> 0 then allocate_contiguous (a\<lparr>next_hint := 0\<rparr>) count
          else (None, a))"
  by pat_completeness auto
termination
  by (relation "measure (\<lambda>(a, _). next_hint a)") auto

declare allocate_contiguous.simps [simp del]

definition allocate_frames :: "frame_allocator option \<Rightarrow> nat \<Rightarrow> nat option \<times> frame_allocator option" where
  "allocate_frames slot count =
     (case slot of
        None \<Rightarrow> (None, None)
      | Some a \<Rightarrow> (case allocate_contiguous a count of (r, a') \<Rightarrow> (r, Some a')))"

datatype free_panic =
    BeforeInit | EmptyRange | Unaligned | BelowRegion | PastRegion | DoubleFree nat

text \<open>The loop of \<open>free_frames\<close> over \<open>first..end\<close>, its assertion in front of every frame.\<close>

fun release :: "nat list \<Rightarrow> frame_allocator \<Rightarrow> free_panic + frame_allocator" where
  "release [] a = Ok a"
| "release (f # fs) a = (if is_used a f then release fs (mark_free f a) else Err (DoubleFree f))"

definition free_frames ::
  "frame_allocator option \<Rightarrow> nat \<Rightarrow> nat \<Rightarrow> free_panic + frame_allocator option" where
  "free_frames slot address count =
     (case slot of
        None \<Rightarrow> Err BeforeInit
      | Some a \<Rightarrow>
          if count = 0 then Err EmptyRange
          else if address mod PAGE_SIZE \<noteq> 0 then Err Unaligned
          else if address < frame_base a then Err BelowRegion
          else
            let first = (address - frame_base a) div PAGE_SIZE in
            if 2 ^ 64 \<le> first + count \<or> frames a < first + count then Err PastRegion
            else and_then (release [first..<first + count] a) (\<lambda>a'. Ok (Some a')))"

section \<open>The bitmap as a set of frames\<close>

definition used_frames :: "frame_allocator \<Rightarrow> nat set" where
  "used_frames a = {f. f < frames a \<and> is_used a f}"

definition frames_wf :: "frame_allocator \<Rightarrow> bool" where
  "frames_wf a \<longleftrightarrow>
     length (bitmap a) = bitmap_bytes (frames a) \<and> next_hint a \<le> frames a \<and>
     bitmap_frames (frames a) \<le> frames a \<and> {..<bitmap_frames (frames a)} \<subseteq> used_frames a"

text \<open>A run of \<open>count\<close> free frames from \<open>s\<close>.\<close>

definition free_run :: "frame_allocator \<Rightarrow> nat \<Rightarrow> nat \<Rightarrow> bool" where
  "free_run a s count \<longleftrightarrow> s + count \<le> frames a \<and> {s..<s + count} \<inter> used_frames a = {}"

lemma bit_frame_bit: "bit (frame_bit f) k \<longleftrightarrow> k = f mod 8"
proof -
  have "f mod 8 < 8" by simp
  then show ?thesis by (auto simp: frame_bit_def push_bit_of_1 bit_exp_iff bit_simps)
qed

lemma and_frame_bit: "b AND frame_bit f \<noteq> 0 \<longleftrightarrow> bit b (f mod 8)"
proof
  assume "b AND frame_bit f \<noteq> 0"
  then obtain k where "bit (b AND frame_bit f) k" using bit_eqI [of "b AND frame_bit f" 0] by auto
  then show "bit b (f mod 8)" by (auto simp: bit_and_iff bit_frame_bit)
next
  assume "bit b (f mod 8)"
  then have "bit (b AND frame_bit f) (f mod 8)" by (simp add: bit_and_iff bit_frame_bit)
  then show "b AND frame_bit f \<noteq> 0" by auto
qed

lemma is_used_bit: "is_used a f \<longleftrightarrow> bit (bitmap a ! (f div 8)) (f mod 8)"
  by (simp add: is_used_def and_frame_bit)

lemma div_mod_8_eq: "(f :: nat) div 8 = g div 8 \<Longrightarrow> f mod 8 = g mod 8 \<Longrightarrow> f = g"
  by (metis div_mult_mod_eq)

lemma in_bitmap:
  assumes "length (bitmap a) = bitmap_bytes (frames a)" "f < frames a"
  shows "f div 8 < length (bitmap a)"
proof -
  have "frames a \<le> bitmap_bytes (frames a) * 8"
    unfolding bitmap_bytes_def by (rule div_ceil_bounds) simp
  with assms show ?thesis by (simp add: less_mult_imp_div_less)
qed

lemma is_used_mark_used:
  assumes "f div 8 < length (bitmap a)"
  shows "is_used (mark_used f a) g \<longleftrightarrow> g = f \<or> is_used a g"
  using assms by (auto simp: is_used_bit mark_used_def nth_list_update bit_or_iff bit_frame_bit
    dest: div_mod_8_eq)

lemma is_used_mark_free:
  assumes "f div 8 < length (bitmap a)"
  shows "is_used (mark_free f a) g \<longleftrightarrow> g \<noteq> f \<and> is_used a g"
proof -
  have "g mod 8 < 8" by simp
  with assms show ?thesis
    by (auto simp: is_used_bit mark_free_def nth_list_update bit_and_iff bit_not_iff bit_frame_bit
      dest: div_mod_8_eq)
qed

lemma mark_frame [state_simps]:
  "frames (mark_used f a) = frames a" "frame_base (mark_used f a) = frame_base a"
  "next_hint (mark_used f a) = next_hint a" "length (bitmap (mark_used f a)) = length (bitmap a)"
  "frames (mark_free f a) = frames a" "frame_base (mark_free f a) = frame_base a"
  "next_hint (mark_free f a) = next_hint a" "length (bitmap (mark_free f a)) = length (bitmap a)"
  by (simp_all add: mark_used_def mark_free_def)

lemma mark_all_frame [state_simps]:
  "frames (fold mark_used fs a) = frames a" "frame_base (fold mark_used fs a) = frame_base a"
  "next_hint (fold mark_used fs a) = next_hint a"
  "length (bitmap (fold mark_used fs a)) = length (bitmap a)"
  by (induction fs arbitrary: a) (simp_all add: state_simps)

lemma is_used_mark_all:
  assumes "\<And>f. f \<in> set fs \<Longrightarrow> f div 8 < length (bitmap a)"
  shows "is_used (fold mark_used fs a) g \<longleftrightarrow> g \<in> set fs \<or> is_used a g"
  using assms
  by (induction fs arbitrary: a) (auto simp: is_used_mark_used state_simps)

lemma used_mark_all:
  assumes "length (bitmap a) = bitmap_bytes (frames a)" "set fs \<subseteq> {..<frames a}"
  shows "used_frames (fold mark_used fs a) = used_frames a \<union> set fs"
  using assms in_bitmap [of a]
  by (auto simp: used_frames_def is_used_mark_all state_simps subset_iff)

lemma used_hint [simp]: "used_frames (a\<lparr>next_hint := h\<rparr>) = used_frames a"
  by (simp add: used_frames_def is_used_def)

section \<open>The search\<close>

lemma find_run_step:
  "frames a \<le> frame \<Longrightarrow> find_run a count frame s l = None"
  "frame < frames a \<Longrightarrow> is_used a frame \<Longrightarrow>
     find_run a count frame s l = find_run a count (frame + 1) (frame + 1) 0"
  "frame < frames a \<Longrightarrow> \<not> is_used a frame \<Longrightarrow> l + 1 = count \<Longrightarrow>
     find_run a count frame s l = Some (s, frame)"
  "frame < frames a \<Longrightarrow> \<not> is_used a frame \<Longrightarrow> l + 1 \<noteq> count \<Longrightarrow>
     find_run a count frame s l = find_run a count (frame + 1) s (l + 1)"
  by (simp_all add: find_run.simps [of a count frame])

lemma find_run_sound:
  assumes "find_run a count frame s l = Some (s', f')"
    and "s + l = frame" "l < count" "\<And>f. s \<le> f \<Longrightarrow> f < frame \<Longrightarrow> \<not> is_used a f"
  shows "s' + count = f' + 1 \<and> free_run a s' count \<and> s \<le> s'"
  using assms
proof (induction a count frame s l rule: find_run.induct)
  case (1 a count frame s l)
  consider (over) "frames a \<le> frame"
    | (used) "frame < frames a" "is_used a frame"
    | (hit) "frame < frames a" "\<not> is_used a frame" "l + 1 = count"
    | (more) "frame < frames a" "\<not> is_used a frame" "l + 1 \<noteq> count"
    by linarith
  then show ?case
  proof cases
    case over
    with "1.prems"(1) show ?thesis by (simp add: find_run_step)
  next
    case used
    with "1.prems"(1) have "find_run a count (frame + 1) (frame + 1) 0 = Some (s', f')"
      by (simp add: find_run_step)
    moreover have "0 < count" using "1.prems"(3) by simp
    ultimately have "s' + count = f' + 1 \<and> free_run a s' count \<and> frame + 1 \<le> s'"
      using used by (intro "1.IH"(1)) auto
    with "1.prems"(2) show ?thesis by simp
  next
    case hit
    with "1.prems"(1) have "s' = s" "f' = frame" by (simp_all add: find_run_step)
    with hit "1.prems"(2,4) show ?thesis
      by (auto simp: free_run_def used_frames_def less_Suc_eq)
  next
    case more
    with "1.prems"(1) have "find_run a count (frame + 1) s (l + 1) = Some (s', f')"
      by (simp add: find_run_step)
    moreover have "\<not> is_used a f" if "s \<le> f" "f < frame + 1" for f
      using that "1.prems"(4) [of f] more by (cases "f = frame") auto
    ultimately show ?thesis using more "1.prems"(2,3) by (intro "1.IH"(2)) auto
  qed
qed

lemma find_run_complete:
  assumes "find_run a count frame s l = None"
    and "s + l = frame" "l < count" "s \<le> s'"
  shows "\<not> free_run a s' count"
  using assms
proof (induction a count frame s l arbitrary: s' rule: find_run.induct)
  case (1 a count frame s l)
  show ?case
  proof
    assume run: "free_run a s' count"
    then have f: "frame < frames a" using "1.prems" by (auto simp: free_run_def)
    show False
    proof (cases "is_used a frame")
      case True
      then have "frame \<notin> {s'..<s' + count}" using run f by (auto simp: free_run_def used_frames_def)
      with "1.prems"(2-4) have "frame + 1 \<le> s'" by auto
      moreover have "find_run a count (frame + 1) (frame + 1) 0 = None"
        using "1.prems"(1) f True by (simp add: find_run_step)
      moreover have "0 < count" using "1.prems"(3) by simp
      ultimately have "\<not> free_run a s' count" using f True by (intro "1.IH"(1)) auto
      with run show False by simp
    next
      case False
      have "l + 1 \<noteq> count" using "1.prems"(1) f False find_run_step(3) by fastforce
      moreover from this have "find_run a count (frame + 1) s (l + 1) = None"
        using "1.prems"(1) f False by (simp add: find_run_step)
      ultimately have "\<not> free_run a s' count"
        using f False "1.prems"(2-4) by (intro "1.IH"(2)) auto
      with run show False by simp
    qed
  qed
qed

lemma find_run_empty: "find_run a 0 frame s l = None"
proof (induction a "0 :: nat" frame s l rule: find_run.induct)
  case (1 a frame s l)
  then show ?case by (simp add: find_run.simps [of a 0 frame])
qed

lemma find_run_hint: "find_run (a\<lparr>next_hint := h\<rparr>) count frame s l = find_run a count frame s l"
proof (induction a count frame s l rule: find_run.induct)
  case (1 a count frame s l)
  have u: "is_used (a\<lparr>next_hint := h\<rparr>) f = is_used a f" for f by (simp add: is_used_def)
  show ?case
    using 1 by (simp add: u find_run.simps [of _ count frame])
qed

lemma free_run_hint [simp]: "free_run (a\<lparr>next_hint := h\<rparr>) = free_run a"
  by (simp add: free_run_def fun_eq_iff)

lemma hint_same: "next_hint a = h \<Longrightarrow> a\<lparr>next_hint := h\<rparr> = a"
  by (cases a) simp

lemma mark_used_hint: "mark_used f (a\<lparr>next_hint := h\<rparr>) = (mark_used f a)\<lparr>next_hint := h\<rparr>"
  by (cases a) (simp add: mark_used_def)

text \<open>What a successful search leaves: the run marked, and the hint behind it.\<close>

definition taken_run :: "frame_allocator \<Rightarrow> nat \<Rightarrow> nat \<Rightarrow> frame_allocator" where
  "taken_run a s count = (fold mark_used [s..<s + count] a)\<lparr>next_hint := s + count\<rparr>"

lemma taken_run_frame [state_simps]:
  "frames (taken_run a s count) = frames a" "frame_base (taken_run a s count) = frame_base a"
  "next_hint (taken_run a s count) = s + count"
  "length (bitmap (taken_run a s count)) = length (bitmap a)"
  "taken_run (a\<lparr>next_hint := h\<rparr>) s count = taken_run a s count"
proof -
  have "fold mark_used fs (a\<lparr>next_hint := h\<rparr>) = (fold mark_used fs a)\<lparr>next_hint := h\<rparr>" for fs
    by (induction fs arbitrary: a) (simp_all add: mark_used_hint)
  then show "taken_run (a\<lparr>next_hint := h\<rparr>) s count = taken_run a s count" by (simp add: taken_run_def)
qed (simp_all add: taken_run_def state_simps)

lemma used_taken_run:
  assumes "frames_wf a" "free_run a s count"
  shows "used_frames (taken_run a s count) = used_frames a \<union> {s..<s + count}"
proof -
  have "set [s..<s + count] \<subseteq> {..<frames a}" using assms(2) by (auto simp: free_run_def)
  from used_mark_all [OF _ this] assms(1) show ?thesis
    by (simp add: taken_run_def frames_wf_def)
qed

lemma taken_run_wf:
  assumes "frames_wf a" "free_run a s count"
  shows "frames_wf (taken_run a s count)"
  using assms used_taken_run [OF assms]
  by (auto simp: frames_wf_def state_simps free_run_def)

lemma allocate_contiguous_cases:
  assumes "frames_wf a" "0 < count"
  obtains (taken) s where "free_run a s count"
      "allocate_contiguous a count = (Some (frame_base a + s * PAGE_SIZE), taken_run a s count)"
    | (full) "\<And>s. \<not> free_run a s count"
      "allocate_contiguous a count = (None, a\<lparr>next_hint := 0\<rparr>)"
proof -
  have step: "(\<exists>s. free_run b s count \<and>
      allocate_contiguous b count = (Some (frame_base b + s * PAGE_SIZE), taken_run b s count)) \<or>
      find_run b count (next_hint b) (next_hint b) 0 = None" for b
  proof (cases "find_run b count (next_hint b) (next_hint b) 0")
    case (Some r)
    obtain s f where r: "r = (s, f)" by (cases r)
    with find_run_sound [of b count "next_hint b" "next_hint b" 0 s f] Some assms(2)
    have "s + count = f + 1" "free_run b s count" by auto
    moreover have "allocate_contiguous b count =
        (Some (frame_base b + s * PAGE_SIZE), taken_run b s count)"
      using Some r \<open>s + count = f + 1\<close>
      by (simp add: allocate_contiguous.simps [of b] taken_run_def)
    ultimately show ?thesis by auto
  qed simp
  let ?b = "a\<lparr>next_hint := 0\<rparr>"
  have none: "(\<forall>s. \<not> free_run a s count) \<and> allocate_contiguous ?b count = (None, ?b)"
    if "find_run ?b count 0 0 0 = None"
    using that find_run_complete [of a count 0 0 0] assms(2)
    by (simp add: find_run_hint allocate_contiguous.simps [of ?b])
  have wrap: "(\<exists>s. free_run a s count \<and>
      allocate_contiguous ?b count = (Some (frame_base a + s * PAGE_SIZE), taken_run a s count)) \<or>
      ((\<forall>s. \<not> free_run a s count) \<and> allocate_contiguous ?b count = (None, ?b))"
    using step [of ?b] none by (auto simp: state_simps)
  show ?thesis
  proof (cases "find_run a count (next_hint a) (next_hint a) 0 = None")
    case True
    then have "allocate_contiguous a count = allocate_contiguous ?b count"
      by (cases "next_hint a = 0") (simp_all add: hint_same allocate_contiguous.simps [of a])
    with wrap that show ?thesis by auto
  next
    case False
    with step [of a] that(1) show ?thesis by auto
  qed
qed

section \<open>Release\<close>

lemma release_used:
  assumes "length (bitmap a) = bitmap_bytes (frames a)" "distinct fs" "set fs \<subseteq> used_frames a"
  shows "\<exists>a'. release fs a = Ok a' \<and> used_frames a' = used_frames a - set fs \<and>
     frames a' = frames a \<and> frame_base a' = frame_base a \<and> next_hint a' = next_hint a \<and>
     length (bitmap a') = length (bitmap a)"
  using assms
proof (induction fs arbitrary: a)
  case Nil
  then show ?case by simp
next
  case (Cons f fs)
  then have f: "f \<in> used_frames a" by simp
  then have "f div 8 < length (bitmap a)" "is_used a f"
    using in_bitmap [OF Cons.prems(1)] by (auto simp: used_frames_def)
  then have u: "used_frames (mark_free f a) = used_frames a - {f}"
    by (auto simp: used_frames_def is_used_mark_free state_simps)
  have "\<exists>a'. release fs (mark_free f a) = Ok a' \<and>
      used_frames a' = used_frames (mark_free f a) - set fs \<and>
      frames a' = frames (mark_free f a) \<and> frame_base a' = frame_base (mark_free f a) \<and>
      next_hint a' = next_hint (mark_free f a) \<and>
      length (bitmap a') = length (bitmap (mark_free f a))"
    by (rule Cons.IH) (use Cons.prems in \<open>auto simp: u state_simps\<close>)
  with \<open>is_used a f\<close> show ?case
    by (auto simp: u state_simps)
qed

lemma release_double:
  assumes "release fs a = Err p"
  shows "\<exists>f \<in> set fs. p = DoubleFree f"
  using assms by (induction fs arbitrary: a) (auto split: if_splits)

section \<open>What the allocator promises\<close>

lemma div_ceil_mono_one: "0 < b \<Longrightarrow> div_ceil n b \<le> n"
proof -
  assume b: "0 < b"
  show "div_ceil n b \<le> n"
  proof (rule ccontr)
    assume "\<not> div_ceil n b \<le> n"
    then have "n * b < n" using div_ceil_bounds(2) [OF b, of n n] by simp
    with b show False by simp
  qed
qed

lemma bitmap_frames_le: "bitmap_frames n \<le> n"
  unfolding bitmap_frames_def bitmap_bytes_def
  by (rule order.trans [OF div_ceil_mono_one div_ceil_mono_one]) (simp_all add: PAGE_SIZE_def)

lemma div_ceil_pos: "0 < m \<Longrightarrow> 0 < b \<Longrightarrow> 0 < div_ceil m b"
  using div_ceil_bounds(1) [of b m] by (cases "div_ceil m b") auto

lemma bitmap_frames_pos: "0 < n \<Longrightarrow> 0 < bitmap_frames n"
  unfolding bitmap_frames_def bitmap_bytes_def
  by (intro div_ceil_pos) (simp_all add: PAGE_SIZE_def)

lemma fresh_allocator_used:
  "used_frames (fold mark_used [0..<bitmap_frames n] (fresh_allocator base n)) = {..<bitmap_frames n}"
proof -
  have "length (bitmap (fresh_allocator base n)) = bitmap_bytes (frames (fresh_allocator base n))"
    by (simp add: fresh_allocator_def)
  moreover have "set [0..<bitmap_frames n] \<subseteq> {..<frames (fresh_allocator base n)}"
    using bitmap_frames_le [of n] by (auto simp: fresh_allocator_def)
  ultimately have "used_frames (fold mark_used [0..<bitmap_frames n] (fresh_allocator base n)) =
      used_frames (fresh_allocator base n) \<union> set [0..<bitmap_frames n]"
    by (rule used_mark_all)
  moreover have "used_frames (fresh_allocator base n) = {}"
    using in_bitmap [of "fresh_allocator base n"]
    by (auto simp: used_frames_def is_used_bit fresh_allocator_def)
  ultimately show ?thesis by auto
qed

lemma mem_init_allocator:
  "\<exists>base n. fst (mem_init regions) = fold mark_used [0..<bitmap_frames n] (fresh_allocator base n)"
  by (cases "survey_regions regions 0 0 0") (auto simp: mem_init_def Let_def)

lemma mem_init_wf: "frames_wf (fst (mem_init regions))"
proof -
  obtain base n where i: "fst (mem_init regions) = fold mark_used [0..<bitmap_frames n] (fresh_allocator base n)"
    using mem_init_allocator by blast
  show ?thesis
    unfolding i frames_wf_def fresh_allocator_used state_simps
    using bitmap_frames_le [of n] by (simp add: fresh_allocator_def)
qed

lemma mem_init_used:
  "used_frames (fst (mem_init regions)) = {..<bitmap_frames (frames (fst (mem_init regions)))}"
proof -
  obtain base n where i: "fst (mem_init regions) = fold mark_used [0..<bitmap_frames n] (fresh_allocator base n)"
    using mem_init_allocator by blast
  show ?thesis unfolding i fresh_allocator_used state_simps by (simp add: fresh_allocator_def)
qed

text \<open>
  An allocation succeeds exactly when some run of that many free frames exists, wherever the
  search starts; what it hands out is such a run, inside the region and clear of the bitmap's own
  frames, and it marks those frames and no other.
\<close>

theorem allocation_takes_free_run:
  assumes "frames_wf a"
  shows "case allocate_contiguous a count of
      (None, a') \<Rightarrow> count = 0 \<or> (\<nexists>s. free_run a s count)
    | (Some p, a') \<Rightarrow> \<exists>s. p = frame_base a + s * PAGE_SIZE \<and> 0 < count \<and>
        bitmap_frames (frames a) \<le> s \<and> s + count \<le> frames a \<and>
        {s..<s + count} \<inter> used_frames a = {} \<and>
        used_frames a' = used_frames a \<union> {s..<s + count} \<and> frames_wf a'"
proof (cases "count = 0")
  case True
  then have "allocate_contiguous a count = (None, if next_hint a = 0 then a else a\<lparr>next_hint := 0\<rparr>)"
    by (simp add: allocate_contiguous.simps find_run_empty)
  with True show ?thesis by simp
next
  case False
  then have "0 < count" by simp
  with assms show ?thesis
  proof (cases rule: allocate_contiguous_cases)
    case (taken s)
    have "bitmap_frames (frames a) \<le> s"
      using taken(1) assms \<open>0 < count\<close> by (fastforce simp: free_run_def frames_wf_def)
    with taken \<open>0 < count\<close> taken_run_wf [OF assms taken(1)] used_taken_run [OF assms taken(1)]
    show ?thesis by (auto simp: free_run_def intro!: exI [of _ s])
  next
    case full
    then show ?thesis by simp
  qed
qed

text \<open>A region of forty frames, of which the bitmap occupies the first.\<close>

definition small_map :: "mem_region list" where
  "small_map =
     [\<lparr>region_type = 3, physical_start = 0, pages = 160\<rparr>,
      \<lparr>region_type = 7, physical_start = 0x1000, pages = 9\<rparr>,
      \<lparr>region_type = 7, physical_start = 0x100000, pages = 40\<rparr>]"

lemma small_map_init:
  "fst (mem_init small_map) =
     \<lparr>frame_base = 0x100000, frames = 40, bitmap = [1, 0, 0, 0, 0], next_hint = 0\<rparr>"
proof -
  have b: "bitmap_bytes 40 = 5" "bitmap_frames 40 = 1"
    by (simp_all add: bitmap_frames_def bitmap_bytes_def div_ceil_def PAGE_SIZE_def)
  have five: "replicate 5 (0 :: byte) = [0, 0, 0, 0, 0]" by (simp add: eval_nat_numeral)
  show ?thesis
    by (simp add: small_map_def mem_init_def fresh_allocator_def Let_def EFI_CONVENTIONAL_MEMORY_def b five
        mark_used_def frame_bit_def)
qed

lemma small_map_allocation:
  "fst (allocate_contiguous (fst (mem_init small_map)) 3) = Some 0x101000"
  by (simp add: small_map_init allocate_contiguous.simps find_run.simps is_used_bit PAGE_SIZE_def)

theorem allocation_takes_free_run_witness:
  "\<exists>a' s. allocate_contiguous (fst (mem_init small_map)) 3 = (Some 0x101000, a') \<and>
     used_frames a' = used_frames (fst (mem_init small_map)) \<union> {s..<s + 3}"
proof -
  obtain a' where a: "allocate_contiguous (fst (mem_init small_map)) 3 = (Some 0x101000, a')"
    using small_map_allocation by (metis prod.collapse)
  with allocation_takes_free_run [OF mem_init_wf [of small_map], of 3] show ?thesis by auto
qed

lemma div_page: "(s * PAGE_SIZE) div PAGE_SIZE = s"
  by (simp add: PAGE_SIZE_def)

lemma free_frames_used:
  assumes "frames_wf a" "frame_base a mod PAGE_SIZE = 0" "frames a < 2 ^ 64"
    and "0 < count" "s + count \<le> frames a" "{s..<s + count} \<subseteq> used_frames a"
  shows "\<exists>a'. free_frames (Some a) (frame_base a + s * PAGE_SIZE) count = Ok (Some a') \<and>
     used_frames a' = used_frames a - {s..<s + count} \<and> frames a' = frames a \<and>
     frame_base a' = frame_base a"
proof -
  have "(frame_base a + s * PAGE_SIZE) mod PAGE_SIZE = 0" using assms(2) by simp
  moreover obtain a' where "release [s..<s + count] a = Ok a'"
    "used_frames a' = used_frames a - {s..<s + count}" "frames a' = frames a"
    "frame_base a' = frame_base a"
    using release_used [of a "[s..<s + count]"] assms(1,6) by (auto simp: frames_wf_def)
  ultimately show ?thesis
    using assms(3-5) by (simp add: free_frames_def div_page Let_def not_le)
qed

text \<open>
  Frames an allocation handed out go back without a panic, and the set of used frames is
  what it was before the allocation.
\<close>

theorem free_undoes_allocation:
  assumes "frames_wf a" "frame_base a mod PAGE_SIZE = 0" "frames a < 2 ^ 64"
    and "allocate_contiguous a count = (Some p, a')"
  shows "\<exists>a''. free_frames (Some a') p count = Ok (Some a'') \<and> used_frames a'' = used_frames a"
proof -
  have "0 < count"
    using assms(4) by (cases "count = 0") (auto simp: allocate_contiguous.simps find_run_empty split: if_splits)
  with assms(1) show ?thesis
  proof (cases rule: allocate_contiguous_cases)
    case (taken s)
    have p: "p = frame_base a + s * PAGE_SIZE" "a' = taken_run a s count"
      using taken(2) assms(4) by auto
    have u: "used_frames a' = used_frames a \<union> {s..<s + count}"
      using used_taken_run [OF assms(1) taken(1)] p by simp
    obtain a'' where "free_frames (Some a') p count = Ok (Some a'')"
      "used_frames a'' = used_frames a' - {s..<s + count}"
      using free_frames_used [of a' count s] taken_run_wf [OF assms(1) taken(1)] assms(2,3)
        \<open>0 < count\<close> taken(1) p u by (auto simp: state_simps free_run_def)
    with u taken(1) show ?thesis by (auto simp: free_run_def)
  next
    case full
    with assms(4) show ?thesis by simp
  qed
qed

theorem free_undoes_allocation_witness:
  "\<exists>a' a''. allocate_contiguous (fst (mem_init small_map)) 3 = (Some 0x101000, a') \<and>
     free_frames (Some a') 0x101000 3 = Ok (Some a'') \<and>
     used_frames a'' = used_frames (fst (mem_init small_map))"
proof -
  obtain a' where a: "allocate_contiguous (fst (mem_init small_map)) 3 = (Some 0x101000, a')"
    using small_map_allocation by (metis prod.collapse)
  have "frame_base (fst (mem_init small_map)) = 0x100000" "frames (fst (mem_init small_map)) = 40"
    by (simp_all add: small_map_init)
  with free_undoes_allocation [OF mem_init_wf _ _ a] a show ?thesis by (auto simp: PAGE_SIZE_def)
qed

text \<open>
  The assertions of \<open>free_frames\<close> do not cover the bitmap's own frames: they are marked used,
  so releasing the first frame of the region is accepted, and the allocator may then hand out the
  memory its bitmap lives in.
\<close>

lemma bitmap_frame_can_be_released:
  assumes "frames_wf a" "frame_base a mod PAGE_SIZE = 0" "frames a < 2 ^ 64" "0 < frames a"
  shows "\<exists>a'. free_frames (Some a) (frame_base a) 1 = Ok (Some a') \<and> 0 \<notin> used_frames a' \<and>
     0 < bitmap_frames (frames a')"
proof -
  have b: "0 < bitmap_frames (frames a)" using assms(4) by (rule bitmap_frames_pos)
  then have "{0..<0 + 1} \<subseteq> used_frames a" using assms(1) by (auto simp: frames_wf_def)
  with free_frames_used [of a 1 0] assms b show ?thesis by auto
qed

lemma free_frames_refuses:
  "count = 0 \<Longrightarrow> free_frames (Some a) p count = Err EmptyRange"
  "0 < count \<Longrightarrow> p mod PAGE_SIZE \<noteq> 0 \<Longrightarrow> free_frames (Some a) p count = Err Unaligned"
  "0 < count \<Longrightarrow> p mod PAGE_SIZE = 0 \<Longrightarrow> p < frame_base a \<Longrightarrow>
     free_frames (Some a) p count = Err BelowRegion"
  "0 < count \<Longrightarrow> p mod PAGE_SIZE = 0 \<Longrightarrow> frame_base a \<le> p \<Longrightarrow>
     frames a < (p - frame_base a) div PAGE_SIZE + count \<Longrightarrow>
     free_frames (Some a) p count = Err PastRegion"
  by (simp_all add: free_frames_def Let_def)

end
