(* ===== verification/Heap.thy ===== *)
theory Heap
  imports Frames "HOL-Library.Multiset"
begin

text \<open>
  The kernel heap (\<open>nawa/core/src/heap.rs\<close>): a first-fit free list over frames of
  \<open>Frames\<close>. A free block's header lives in the free memory itself; the list the headers form
  is the list of \<open>(address, size)\<close> pairs in link order, and splicing through \<open>link\<close> replaces
  one element of it. Addresses and sizes are \<open>nat\<close>, for a heap inside the address space.
\<close>

section \<open>The free list\<close>

definition HEAP_PAGES :: nat where "HEAP_PAGES = 1024"

text \<open>\<open>size_of::<FreeBlock>()\<close>: a \<open>usize\<close> and a pointer.\<close>

definition MIN_BLOCK :: nat where "MIN_BLOCK = 16"

type_synonym free_block = "nat \<times> nat"

record layout =
  layout_size :: nat
  layout_align :: nat

definition heap_init ::
  "frame_allocator option \<Rightarrow> (bool \<times> free_block list) \<times> frame_allocator option" where
  "heap_init slot =
     (case allocate_frames slot HEAP_PAGES of
        (None, slot') \<Rightarrow> ((False, []), slot')
      | (Some base, slot') \<Rightarrow> ((True, [(base, HEAP_PAGES * PAGE_SIZE)]), slot'))"

text \<open>\<open>usize::next_multiple_of\<close>.\<close>

definition next_multiple_of :: "nat \<Rightarrow> nat \<Rightarrow> nat" where
  "next_multiple_of n m = (if n mod m = 0 then n else n + (m - n mod m))"

definition effective_layout :: "layout \<Rightarrow> nat \<times> nat" where
  "effective_layout l =
     (let align = max (layout_align l) MIN_BLOCK;
          need = next_multiple_of (max (layout_size l) MIN_BLOCK) MIN_BLOCK
      in (need, align))"

text \<open>
  Taking a block out: the left padding and then the right remainder are pushed in front of the
  rest of the list.
\<close>

definition split_block ::
  "nat \<Rightarrow> nat \<Rightarrow> nat \<Rightarrow> nat \<Rightarrow> free_block list \<Rightarrow> free_block list" where
  "split_block block_address block_size padding need rest =
     (let rest1 = if MIN_BLOCK \<le> padding then (block_address, padding) # rest else rest;
          used = padding + need
      in if MIN_BLOCK \<le> block_size - used
         then (block_address + used, block_size - used) # rest1 else rest1)"

text \<open>The first-fit walk: the payload's address, and the list that is left.\<close>

fun alloc_walk :: "nat \<Rightarrow> nat \<Rightarrow> free_block list \<Rightarrow> (nat \<times> free_block list) option" where
  "alloc_walk need align [] = None"
| "alloc_walk need align ((block_address, block_size) # rest) =
     (let payload = next_multiple_of block_address align;
          padding = payload - block_address
      in if padding \<noteq> 0 \<and> padding < MIN_BLOCK \<or> block_size < padding + need
         then (case alloc_walk need align rest of
                 None \<Rightarrow> None
               | Some (p, rest') \<Rightarrow> Some (p, (block_address, block_size) # rest'))
         else Some (payload, split_block block_address block_size padding need rest))"

text \<open>\<open>alloc\<close>: a null pointer is \<open>None\<close>, and leaves the list as it was.\<close>

definition heap_alloc :: "layout \<Rightarrow> free_block list \<Rightarrow> nat option \<times> free_block list" where
  "heap_alloc l list =
     (case effective_layout l of (need, align) \<Rightarrow>
        (case alloc_walk need align list of
           None \<Rightarrow> (None, list)
         | Some (p, list') \<Rightarrow> (Some p, list')))"

definition heap_dealloc :: "nat \<Rightarrow> layout \<Rightarrow> free_block list \<Rightarrow> free_block list" where
  "heap_dealloc p l list = (p, fst (effective_layout l)) # list"

section \<open>The quantum\<close>

definition on_quantum :: "free_block \<Rightarrow> bool" where
  "on_quantum b \<longleftrightarrow> fst b mod MIN_BLOCK = 0 \<and> snd b mod MIN_BLOCK = 0 \<and> MIN_BLOCK \<le> snd b"

text \<open>Rust's layouts: the alignment is a power of two.\<close>

definition valid_layout :: "layout \<Rightarrow> bool" where
  "valid_layout l \<longleftrightarrow> (\<exists>k. layout_align l = 2 ^ k)"

lemma next_multiple_of_mod: "0 < m \<Longrightarrow> next_multiple_of n m mod m = 0"
proof (cases "n mod m = 0")
  case False
  assume m: "0 < m"
  then have "n + (m - n mod m) = n div m * m + m"
    using mod_less_divisor [OF m, of n] div_mult_mod_eq [of n m] by linarith
  with False show ?thesis by (simp add: next_multiple_of_def)
qed (simp add: next_multiple_of_def)

lemma next_multiple_of_ge: "n \<le> next_multiple_of n m"
  by (simp add: next_multiple_of_def)

lemma next_multiple_of_less: "0 < m \<Longrightarrow> next_multiple_of n m < n + m"
  by (auto simp: next_multiple_of_def)

lemma effective_size:
  "fst (effective_layout l) mod MIN_BLOCK = 0" "MIN_BLOCK \<le> fst (effective_layout l)"
  "layout_size l \<le> fst (effective_layout l)"
proof -
  let ?n = "max (layout_size l) MIN_BLOCK"
  have s: "fst (effective_layout l) = next_multiple_of ?n MIN_BLOCK"
    by (simp add: effective_layout_def Let_def)
  show "fst (effective_layout l) mod MIN_BLOCK = 0"
    unfolding s by (rule next_multiple_of_mod) (simp add: MIN_BLOCK_def)
  show "MIN_BLOCK \<le> fst (effective_layout l)" "layout_size l \<le> fst (effective_layout l)"
    unfolding s using next_multiple_of_ge [of ?n MIN_BLOCK] by simp_all
qed

lemma effective_align:
  assumes "valid_layout l"
  shows "MIN_BLOCK dvd snd (effective_layout l)" "0 < snd (effective_layout l)"
    "layout_align l dvd snd (effective_layout l)"
proof -
  obtain k where k: "layout_align l = 2 ^ k" using assms by (auto simp: valid_layout_def)
  have m: "MIN_BLOCK = 2 ^ 4" by (simp add: MIN_BLOCK_def)
  have "snd (effective_layout l) = max (2 ^ k) (2 ^ 4)"
    by (simp add: effective_layout_def Let_def k m)
  moreover have "max (2 ^ k) (2 ^ 4) = (2 :: nat) ^ max k 4"
  proof (cases "k \<le> 4")
    case True
    then have "(2 :: nat) ^ k \<le> 2 ^ 4" by (intro power_increasing) simp_all
    with True show ?thesis by (simp only: max_absorb2)
  next
    case False
    then have "(2 :: nat) ^ 4 \<le> 2 ^ k" by (intro power_increasing) simp_all
    moreover from False have "4 \<le> k" by simp
    ultimately show ?thesis by (simp only: max_absorb1)
  qed
  ultimately have "snd (effective_layout l) = 2 ^ max k 4" by simp
  moreover have "(2 :: nat) ^ 4 dvd 2 ^ max k 4" "(2 :: nat) ^ k dvd 2 ^ max k 4"
    by (rule le_imp_power_dvd; simp)+
  ultimately show "MIN_BLOCK dvd snd (effective_layout l)" "0 < snd (effective_layout l)"
    "layout_align l dvd snd (effective_layout l)"
    by (simp_all only: m k zero_less_power zero_less_numeral)
qed

lemma quantum_diff: "a mod MIN_BLOCK = 0 \<Longrightarrow> b mod MIN_BLOCK = 0 \<Longrightarrow> (a - b) mod MIN_BLOCK = 0"
  by (metis dvd_diff_nat mod_0_imp_dvd dvd_imp_mod_0)

lemma quantum_add: "a mod MIN_BLOCK = 0 \<Longrightarrow> b mod MIN_BLOCK = 0 \<Longrightarrow> (a + b) mod MIN_BLOCK = 0"
  by (metis add_0 mod_0 mod_add_eq)

lemma quantum_ge: "n mod MIN_BLOCK = 0 \<Longrightarrow> n \<noteq> 0 \<Longrightarrow> MIN_BLOCK \<le> n"
  by (metis dvd_imp_le gr0I mod_0_imp_dvd)

section \<open>The bytes of a block\<close>

definition block_bytes :: "free_block \<Rightarrow> nat list" where
  "block_bytes b = [fst b..<fst b + snd b]"

definition all_bytes :: "free_block list \<Rightarrow> nat multiset" where
  "all_bytes bs = mset (concat (map block_bytes bs))"

lemma all_bytes_simps [simp]:
  "all_bytes [] = {#}"
  "all_bytes (b # bs) = mset (block_bytes b) + all_bytes bs"
  "all_bytes (bs @ cs) = all_bytes bs + all_bytes cs"
  by (simp_all add: all_bytes_def)

lemma block_bytes_split:
  assumes "n = i + j"
  shows "mset (block_bytes (a, n)) = mset (block_bytes (a, i)) + mset (block_bytes (a + i, j))"
proof -
  have "[a..<a + (i + j)] = [a..<a + i] @ [a + i..<a + i + j]"
    using upt_add_eq_append [of a "a + i" j] by (simp add: add.assoc)
  then show ?thesis by (simp only: block_bytes_def fst_conv snd_conv assms mset_append)
qed

lemma split_block_bytes:
  assumes "on_quantum (a, n)" "need mod MIN_BLOCK = 0" "padding mod MIN_BLOCK = 0" "padding + need \<le> n"
  shows "all_bytes (split_block a n padding need rest) + mset (block_bytes (a + padding, need)) =
     mset (block_bytes (a, n)) + all_bytes rest"
    and "Ball (set rest) on_quantum \<Longrightarrow> Ball (set (split_block a n padding need rest)) on_quantum"
proof -
  let ?u = "padding + need"
  have u: "?u mod MIN_BLOCK = 0" using assms(2,3) by (rule quantum_add [rotated])
  then have q: "(n - ?u) mod MIN_BLOCK = 0" using assms(1) by (auto intro: quantum_diff simp: on_quantum_def)
  have "n = padding + (need + (n - ?u))" using assms(4) by simp
  then have b: "mset (block_bytes (a, n)) = mset (block_bytes (a, padding)) +
      (mset (block_bytes (a + padding, need)) + mset (block_bytes (a + ?u, n - ?u)))"
    using block_bytes_split [of n padding "need + (n - ?u)" a]
      block_bytes_split [of "need + (n - ?u)" need "n - ?u" "a + padding"] by (simp add: add.assoc)
  have z: "block_bytes (x, 0) = []" for x by (simp add: block_bytes_def)
  have p: "padding = 0 \<or> MIN_BLOCK \<le> padding" "n - ?u = 0 \<or> MIN_BLOCK \<le> n - ?u"
    using quantum_ge [OF assms(3)] quantum_ge [OF q] by blast+
  have m: "\<not> MIN_BLOCK \<le> 0" by (simp add: MIN_BLOCK_def)
  show "all_bytes (split_block a n padding need rest) + mset (block_bytes (a + padding, need)) =
     mset (block_bytes (a, n)) + all_bytes rest"
    using p b by (auto simp: split_block_def Let_def z m)
  have "(a + ?u) mod MIN_BLOCK = 0" using assms(1) u by (auto intro: quantum_add simp: on_quantum_def)
  then show "Ball (set rest) on_quantum \<Longrightarrow> Ball (set (split_block a n padding need rest)) on_quantum"
    using assms(1,3) q by (auto simp: split_block_def Let_def on_quantum_def)
qed

text \<open>What a walk that succeeds hands out.\<close>

lemma alloc_walk_sound:
  assumes "alloc_walk need align list = Some (p, list')" "Ball (set list) on_quantum"
    and "need mod MIN_BLOCK = 0" "MIN_BLOCK dvd align" "0 < align"
  shows "all_bytes list' + mset (block_bytes (p, need)) = all_bytes list \<and>
     Ball (set list') on_quantum \<and> p mod align = 0"
  using assms
proof (induction list arbitrary: list')
  case Nil
  then show ?case by simp
next
  case (Cons b rest)
  obtain a n where b: "b = (a, n)" by (cases b)
  let ?p = "next_multiple_of a align"
  have pm: "?p mod align = 0" using Cons.prems(5) by (rule next_multiple_of_mod)
  then have "?p mod MIN_BLOCK = 0" using Cons.prems(4) by (meson dvd_trans mod_0_imp_dvd dvd_imp_mod_0)
  then have pad: "(?p - a) mod MIN_BLOCK = 0"
    using Cons.prems(2) b by (auto intro: quantum_diff simp: on_quantum_def)
  show ?case
  proof (cases "?p - a \<noteq> 0 \<and> ?p - a < MIN_BLOCK \<or> n < ?p - a + need")
    case True
    with Cons.prems(1) b obtain r where r: "alloc_walk need align rest = Some (p, r)" "list' = b # r"
      by (auto simp: Let_def split: option.splits)
    with Cons.IH [OF r(1)] Cons.prems show ?thesis by (auto simp: ac_simps)
  next
    case False
    then have "?p - a + need \<le> n" by simp
    moreover have "p = ?p" "list' = split_block a n (?p - a) need rest"
      using Cons.prems(1) b False by (auto simp: Let_def split: if_splits)
    moreover have "a + (?p - a) = ?p" using next_multiple_of_ge [of a align] by simp
    moreover have q: "on_quantum (a, n)" "Ball (set rest) on_quantum" using Cons.prems(2) b by auto
    ultimately show ?thesis
      using split_block_bytes(1) [OF q(1) Cons.prems(3) pad, of rest]
        split_block_bytes(2) [OF q(1) Cons.prems(3) pad _ q(2)] b pm
      by simp
  qed
qed

text \<open>A walk that fails found no block that the aligned request fits in.\<close>

definition fits :: "nat \<Rightarrow> nat \<Rightarrow> free_block \<Rightarrow> bool" where
  "fits need align b \<longleftrightarrow> (\<exists>p. p mod align = 0 \<and> fst b \<le> p \<and> p + need \<le> fst b + snd b)"

lemma next_multiple_of_least:
  assumes "0 < m" "p mod m = 0" "n \<le> p"
  shows "next_multiple_of n m \<le> p"
proof (rule ccontr)
  assume "\<not> next_multiple_of n m \<le> p"
  then have l: "p < next_multiple_of n m" by simp
  let ?q = "next_multiple_of n m"
  have "?q mod m = 0" using assms(1) by (rule next_multiple_of_mod)
  then obtain i where i: "?q = m * i" by auto
  obtain j where j: "p = m * j" using assms(2) by auto
  have "j < i" using l i j by simp
  then have "m * (j + 1) \<le> m * i" by (intro mult_le_mono2) simp
  then have "p + m \<le> ?q" using i j by simp
  with next_multiple_of_less [OF assms(1), of n] assms(3) show False by simp
qed

lemma alloc_walk_complete:
  assumes "Ball (set list) on_quantum" "MIN_BLOCK dvd align" "0 < align"
  shows "alloc_walk need align list = None \<longleftrightarrow> (\<forall>b \<in> set list. \<not> fits need align b)"
  using assms(1)
proof (induction list)
  case Nil
  then show ?case by simp
next
  case (Cons b rest)
  obtain a n where b: "b = (a, n)" by (cases b)
  let ?p = "next_multiple_of a align"
  have pm: "?p mod align = 0" using assms(3) by (rule next_multiple_of_mod)
  then have "?p mod MIN_BLOCK = 0" using assms(2) by (meson dvd_trans mod_0_imp_dvd dvd_imp_mod_0)
  then have "(?p - a) mod MIN_BLOCK = 0"
    using Cons.prems b by (auto intro: quantum_diff simp: on_quantum_def)
  then have pad: "\<not> (?p - a \<noteq> 0 \<and> ?p - a < MIN_BLOCK)" using quantum_ge by force
  have "fits need align b \<longleftrightarrow> ?p + need \<le> a + n"
  proof
    assume "fits need align b"
    then obtain p where "p mod align = 0" "a \<le> p" "p + need \<le> a + n"
      using b unfolding fits_def by (metis fst_conv snd_conv)
    with next_multiple_of_least [OF assms(3), of p a] show "?p + need \<le> a + n" by simp
  next
    assume "?p + need \<le> a + n"
    with pm next_multiple_of_ge [of a align] b show "fits need align b"
      unfolding fits_def by (intro exI [of _ ?p]) simp
  qed
  moreover have "n < ?p - a + need \<longleftrightarrow> \<not> ?p + need \<le> a + n"
    using next_multiple_of_ge [of a align] by linarith
  ultimately show ?case
    using Cons b pad by (auto simp: Let_def split: option.splits)
qed

section \<open>The heap and its live blocks\<close>

text \<open>
  The heap with the blocks it has handed out and not got back. The safe code above the allocator
  gives a block back once, with the layout it asked for.
\<close>

record heap =
  free_blocks :: "free_block list"
  live :: "(nat \<times> layout) list"

datatype heap_call = Alloc layout | Dealloc nat layout

inductive heap_step :: "heap \<Rightarrow> heap_call \<Rightarrow> heap \<Rightarrow> bool" where
  alloc_done: "heap_alloc l (free_blocks h) = (Some p, list') \<Longrightarrow>
    heap_step h (Alloc l) \<lparr>free_blocks = list', live = (p, l) # live h\<rparr>"
| alloc_null: "heap_alloc l (free_blocks h) = (None, list') \<Longrightarrow>
    heap_step h (Alloc l) (h\<lparr>free_blocks := list'\<rparr>)"
| dealloc_done: "(p, l) \<in> set (live h) \<Longrightarrow>
    heap_step h (Dealloc p l)
      \<lparr>free_blocks = heap_dealloc p l (free_blocks h), live = remove1 (p, l) (live h)\<rparr>"

inductive_cases heap_step_cases: "heap_step h c h'"

inductive heap_run :: "heap \<Rightarrow> heap_call list \<Rightarrow> heap \<Rightarrow> bool" where
  run_none: "heap_run h [] h"
| run_more: "heap_step h c h' \<Longrightarrow> heap_run h' cs h'' \<Longrightarrow> heap_run h (c # cs) h''"

text \<open>The block a live allocation occupies.\<close>

definition live_block :: "nat \<times> layout \<Rightarrow> free_block" where
  "live_block b = (fst b, fst (effective_layout (snd b)))"

definition fresh_heap :: "nat \<Rightarrow> heap" where
  "fresh_heap base = \<lparr>free_blocks = [(base, HEAP_PAGES * PAGE_SIZE)], live = []\<rparr>"

fun call_layout :: "heap_call \<Rightarrow> layout" where
  "call_layout (Alloc l) = l"
| "call_layout (Dealloc p l) = l"

definition heap_bytes :: "heap \<Rightarrow> nat multiset" where
  "heap_bytes h = all_bytes (free_blocks h) + all_bytes (map live_block (live h))"

definition heap_wf :: "heap \<Rightarrow> bool" where
  "heap_wf h \<longleftrightarrow> Ball (set (free_blocks h)) on_quantum \<and>
     (\<forall>b \<in> set (live h). valid_layout (snd b) \<and> on_quantum (live_block b) \<and> fst b mod layout_align (snd b) = 0)"

lemma heap_alloc_sound:
  assumes "heap_alloc l list = (Some p, list')" "Ball (set list) on_quantum" "valid_layout l"
  shows "all_bytes list' + mset (block_bytes (live_block (p, l))) = all_bytes list"
    "Ball (set list') on_quantum" "on_quantum (live_block (p, l))" "p mod layout_align l = 0"
proof -
  obtain n a where e: "effective_layout l = (n, a)" by (cases "effective_layout l")
  then have w: "alloc_walk n a list = Some (p, list')"
    using assms(1) by (auto simp: heap_alloc_def split: option.splits)
  have n: "n mod MIN_BLOCK = 0" "MIN_BLOCK \<le> n" using effective_size [of l] e by simp_all
  have a: "MIN_BLOCK dvd a" "0 < a" "layout_align l dvd a" using effective_align [OF assms(3)] e by simp_all
  note s = alloc_walk_sound [OF w assms(2) n(1) a(1,2)]
  from s e show "all_bytes list' + mset (block_bytes (live_block (p, l))) = all_bytes list"
    "Ball (set list') on_quantum" by (simp_all add: live_block_def)
  from s have "a dvd p" by auto
  with a have "MIN_BLOCK dvd p" "layout_align l dvd p" by (auto intro: dvd_trans)
  then show "on_quantum (live_block (p, l))" "p mod layout_align l = 0"
    using n e by (simp_all add: on_quantum_def live_block_def)
qed

lemma all_bytes_remove1:
  "b \<in> set bs \<Longrightarrow> all_bytes (map live_block bs) =
     mset (block_bytes (live_block b)) + all_bytes (map live_block (remove1 b bs))"
  by (induction bs) (auto simp: ac_simps)

lemma heap_step_invariant:
  assumes "heap_step h c h'" "heap_wf h" "valid_layout (call_layout c)"
  shows "heap_wf h' \<and> heap_bytes h' = heap_bytes h"
  using assms
proof (cases rule: heap_step.cases)
  case (alloc_done l p list')
  with heap_alloc_sound [of l "free_blocks h" p list'] assms(2,3)
  show ?thesis by (auto simp: heap_wf_def heap_bytes_def ac_simps)
next
  case (alloc_null l list')
  then have "list' = free_blocks h" by (auto simp: heap_alloc_def split: prod.splits option.splits)
  with alloc_null assms(2) show ?thesis by simp
next
  case (dealloc_done p l)
  have f: "(p, fst (effective_layout l)) = live_block (p, l)" by (simp add: live_block_def)
  have "heap_wf h'"
    using assms(2) dealloc_done
    by (auto simp: heap_wf_def heap_dealloc_def f dest: notin_set_remove1)
  with dealloc_done all_bytes_remove1 [OF dealloc_done(3)] show ?thesis
    by (simp add: heap_bytes_def heap_dealloc_def f ac_simps)
qed

lemma heap_run_invariant:
  assumes "heap_run h cs h'" "heap_wf h" "\<forall>c \<in> set cs. valid_layout (call_layout c)"
  shows "heap_wf h' \<and> heap_bytes h' = heap_bytes h"
  using assms by (induction rule: heap_run.induct) (auto dest: heap_step_invariant)

lemma fresh_heap_wf: "base mod MIN_BLOCK = 0 \<Longrightarrow> heap_wf (fresh_heap base)"
  by (simp add: heap_wf_def fresh_heap_def on_quantum_def MIN_BLOCK_def HEAP_PAGES_def PAGE_SIZE_def)

lemma heap_pages_pos: "0 < HEAP_PAGES"
  by (simp add: HEAP_PAGES_def)

text \<open>What \<open>heap_init\<close> takes from the frame allocator.\<close>

lemma heap_init_takes_frames:
  assumes "frames_wf a" "frame_base a mod PAGE_SIZE = 0" "heap_init (Some a) = ((True, blocks), slot')"
  obtains base a' s where "blocks = free_blocks (fresh_heap base)" "base mod MIN_BLOCK = 0"
    "base = frame_base a + s * PAGE_SIZE" "free_run a s HEAP_PAGES" "slot' = Some a'" "frames_wf a'"
    "used_frames a' = used_frames a \<union> {s..<s + HEAP_PAGES}"
  using assms(1) heap_pages_pos
proof (cases rule: allocate_contiguous_cases)
  case (taken s)
  let ?base = "frame_base a + s * PAGE_SIZE"
  have "PAGE_SIZE dvd ?base" using assms(2) by auto
  moreover have "MIN_BLOCK dvd PAGE_SIZE" by (simp add: MIN_BLOCK_def PAGE_SIZE_def)
  ultimately have "?base mod MIN_BLOCK = 0" by (metis dvd_trans dvd_imp_mod_0)
  moreover have "blocks = free_blocks (fresh_heap ?base)" "slot' = Some (taken_run a s HEAP_PAGES)"
    using taken(2) assms(3) by (auto simp: heap_init_def allocate_frames_def fresh_heap_def)
  ultimately show ?thesis
    using taken(1) taken_run_wf [OF assms(1) taken(1)] used_taken_run [OF assms(1) taken(1)]
    by (intro that [of ?base s "taken_run a s HEAP_PAGES"]) simp_all
next
  case full
  with assms(3) show ?thesis by (simp add: heap_init_def allocate_frames_def)
qed

text \<open>
  C26: whatever sequence of allocations and releases runs on the heap that \<open>init\<close> carved out of
  the frame allocator, the free blocks and the live ones partition its bytes: no byte is handed
  out twice and none is lost; every live block has the alignment its layout asked for, and all of
  them lie in the frames \<open>init\<close> took, which were free.
\<close>

theorem heap_conserves_bytes:
  assumes "frames_wf a" "frame_base a mod PAGE_SIZE = 0" "heap_init (Some a) = ((True, blocks), slot')"
    and "heap_run \<lparr>free_blocks = blocks, live = []\<rparr> cs h"
    and "\<forall>c \<in> set cs. valid_layout (call_layout c)"
  shows "\<exists>s. free_run a s HEAP_PAGES \<and>
     heap_bytes h = mset [frame_base a + s * PAGE_SIZE..<frame_base a + (s + HEAP_PAGES) * PAGE_SIZE] \<and>
     (\<forall>b \<in> set (live h). fst b mod layout_align (snd b) = 0)"
proof -
  obtain base s where b: "blocks = free_blocks (fresh_heap base)" "base mod MIN_BLOCK = 0"
    "base = frame_base a + s * PAGE_SIZE" "free_run a s HEAP_PAGES"
    using heap_init_takes_frames [OF assms(1-3)] by metis
  then have "heap_run (fresh_heap base) cs h" using assms(4) by (simp add: fresh_heap_def)
  with heap_run_invariant fresh_heap_wf [OF b(2)] assms(5)
  have "heap_wf h" "heap_bytes h = heap_bytes (fresh_heap base)" by blast+
  moreover have "heap_bytes (fresh_heap base) = mset [base..<base + HEAP_PAGES * PAGE_SIZE]"
    by (simp add: heap_bytes_def fresh_heap_def block_bytes_def)
  ultimately show ?thesis using b(3,4) by (auto simp: heap_wf_def algebra_simps intro!: exI [of _ s])
qed

text \<open>Two live blocks of a reachable heap share no byte.\<close>

lemma live_blocks_disjoint:
  assumes "heap_bytes h = mset [base..<e]" "live h = xs @ b # ys @ c # zs"
  shows "set (block_bytes (live_block b)) \<inter> set (block_bytes (live_block c)) = {}"
proof (rule ccontr)
  assume "\<not> ?thesis"
  then obtain x where "x \<in> set (block_bytes (live_block b))" "x \<in> set (block_bytes (live_block c))" by auto
  then have "1 \<le> count (mset (block_bytes (live_block b))) x" "1 \<le> count (mset (block_bytes (live_block c))) x"
    by (simp_all add: Suc_le_eq)
  moreover have "count (heap_bytes h) x \<le> 1"
    unfolding assms(1) using distinct_count_atmost_1 [of "[base..<e]"] by (simp del: mset_upt)
  ultimately show False
    unfolding heap_bytes_def assms(2) map_append list.map all_bytes_simps count_union by linarith
qed

text \<open>
  C2: an allocation is refused exactly when no free block has room for it at its alignment; a
  refusal changes nothing.
\<close>

theorem heap_alloc_refusal:
  assumes "Ball (set list) on_quantum" "valid_layout l"
  shows "fst (heap_alloc l list) = None \<longleftrightarrow>
     (\<forall>b \<in> set list. \<not> fits (fst (effective_layout l)) (snd (effective_layout l)) b)"
  using alloc_walk_complete [OF assms(1) effective_align(1,2) [OF assms(2)], of "fst (effective_layout l)"]
  by (auto simp: heap_alloc_def split: prod.splits option.splits)

text \<open>A machine with one region of 2048 frames at 1 MiB, and two requests.\<close>

definition heap_region :: frame_allocator where
  "heap_region = fst (mem_init [\<lparr>region_type = 7, physical_start = 0x100000, pages = 2048\<rparr>])"

lemma heap_region_frames: "frames heap_region = 2048" "frame_base heap_region = 0x100000"
  by (simp_all add: heap_region_def mem_init_def fresh_allocator_def EFI_CONVENTIONAL_MEMORY_def Let_def state_simps)

lemma heap_region_wf: "frames_wf heap_region"
  by (simp add: heap_region_def mem_init_wf)

lemma heap_region_used: "used_frames heap_region = {..<1}"
proof -
  have "bitmap_frames 2048 = 1"
    by (simp add: bitmap_frames_def bitmap_bytes_def div_ceil_def PAGE_SIZE_def)
  then show ?thesis
    using mem_init_used heap_region_frames(1) by (simp add: heap_region_def)
qed

lemma heap_region_init:
  "\<exists>s slot'. heap_init (Some heap_region) =
     ((True, free_blocks (fresh_heap (0x100000 + s * PAGE_SIZE))), slot')"
  using heap_region_wf heap_pages_pos
proof (cases rule: allocate_contiguous_cases)
  case (taken s)
  then show ?thesis
    by (auto simp: heap_init_def allocate_frames_def fresh_heap_def heap_region_frames)
next
  case full
  have "free_run heap_region 1 HEAP_PAGES"
    by (auto simp: free_run_def heap_region_used heap_region_frames HEAP_PAGES_def)
  with full show ?thesis by blast
qed

definition two_requests :: "heap_call list" where
  "two_requests = [Alloc \<lparr>layout_size = 40, layout_align = 8\<rparr>, Alloc \<lparr>layout_size = 5, layout_align = 64\<rparr>]"

lemma heap_call_returns: "\<exists>h'. heap_step h (Alloc l) h'"
proof (cases "heap_alloc l (free_blocks h)")
  case (Pair r list')
  then show ?thesis by (cases r) (auto intro: heap_step.intros)
qed

theorem heap_conserves_bytes_witness:
  "\<exists>blocks slot' h s. heap_init (Some heap_region) = ((True, blocks), slot') \<and>
     heap_run \<lparr>free_blocks = blocks, live = []\<rparr> two_requests h \<and>
     heap_bytes h = mset [0x100000 + s * PAGE_SIZE..<0x100000 + (s + HEAP_PAGES) * PAGE_SIZE]"
proof -
  obtain blocks slot' where i: "heap_init (Some heap_region) = ((True, blocks), slot')"
    using heap_region_init by blast
  obtain h1 h2 where "heap_step \<lparr>free_blocks = blocks, live = []\<rparr> (two_requests ! 0) h1"
    "heap_step h1 (two_requests ! 1) h2"
    using heap_call_returns by (fastforce simp: two_requests_def)
  then have r: "heap_run \<lparr>free_blocks = blocks, live = []\<rparr> two_requests h2"
    by (auto simp: two_requests_def intro: heap_run.intros)
  have v: "\<forall>c \<in> set two_requests. valid_layout (call_layout c)"
    by (auto simp: two_requests_def valid_layout_def intro: exI [of _ 3] exI [of _ 6])
  from heap_conserves_bytes [OF heap_region_wf _ i r v] i r show ?thesis
    by (auto simp: heap_region_frames PAGE_SIZE_def)
qed

text \<open>One free block of 64 bytes takes a request of 48 bytes, and none of 65.\<close>

theorem heap_alloc_refusal_witness:
  "fst (heap_alloc \<lparr>layout_size = 40, layout_align = 8\<rparr> [(4096, 64)]) \<noteq> None \<and>
   fst (heap_alloc \<lparr>layout_size = 65, layout_align = 1\<rparr> [(4096, 64)]) = None"
proof -
  have q: "Ball (set [(4096, 64)]) on_quantum" by (simp add: on_quantum_def MIN_BLOCK_def)
  have v: "valid_layout \<lparr>layout_size = 40, layout_align = 8\<rparr>" "valid_layout \<lparr>layout_size = 65, layout_align = 1\<rparr>"
    by (auto simp: valid_layout_def intro: exI [of _ 3] exI [of _ 0])
  have "effective_layout \<lparr>layout_size = 40, layout_align = 8\<rparr> = (48, 16)"
    "effective_layout \<lparr>layout_size = 65, layout_align = 1\<rparr> = (80, 16)"
    by (simp_all add: effective_layout_def Let_def MIN_BLOCK_def next_multiple_of_def)
  with heap_alloc_refusal [OF q v(1)] heap_alloc_refusal [OF q v(2)] show ?thesis
    by (auto simp: fits_def intro!: exI [of _ 4096])
qed

end
