(* ===== verification/Paging.thy ===== *)
theory Paging
  imports Frames
begin

text \<open>
  The page tables (\<open>nawa/core/src/paging.rs\<close>) and the checked access to physical memory that
  rests on them (\<open>nawa/core/src/mmio.rs\<close>). Physical memory is read and written here in
  64-bit words: \<open>words st t i\<close> is the word at \<open>t + 8 * i\<close>, for a frame address \<open>t\<close>
  and \<open>i < 512\<close>. Frames come from the allocator of \<open>Frames\<close>. The processor's side,
  which the tables are written for, is \<open>walk\<close>: the four-level translation of the Intel
  manual, with the user and write bits conjoined along the path.
\<close>

unbundle bit_operations_syntax

section \<open>Constants\<close>

definition PRESENT :: u64 where "PRESENT = 1"
definition WRITABLE :: u64 where "WRITABLE = 2"
definition USER :: u64 where "USER = 4"
definition WRITE_THROUGH :: u64 where "WRITE_THROUGH = 8"
definition CACHE_DISABLE :: u64 where "CACHE_DISABLE = 16"
definition HUGE :: u64 where "HUGE = 128"
definition ADDRESS_MASK :: u64 where "ADDRESS_MASK = 0x000ffffffffff000"
definition ENTRIES :: nat where "ENTRIES = 512"
definition HUGE_PAGE_SIZE :: u64 where "HUGE_PAGE_SIZE = 0x200000"
definition GIB :: u64 where "GIB = 0x40000000"
definition DEVICE_WINDOW :: u64 where "DEVICE_WINDOW = 0xf0000000"
definition YARD_BASE :: u64 where "YARD_BASE = 0x0000100000000000"
definition MAX_GIB :: u64 where "MAX_GIB = 512"
definition MAX_DEVICE_WINDOWS :: nat where "MAX_DEVICE_WINDOWS = 8"

lemmas flag_defs = PRESENT_def WRITABLE_def USER_def WRITE_THROUGH_def CACHE_DISABLE_def HUGE_def

section \<open>The tables\<close>

record paging =
  mem_slot :: "frame_allocator option"
  words :: "u64 \<Rightarrow> nat \<Rightarrow> u64"
  pml4_physical :: u64
  mapped_total :: u64
  device_windows :: "(u64 \<times> u64) list"
  device_window_count :: nat
  cr3 :: u64

text \<open>The statics before \<open>init\<close>, on what the firmware left in memory and in CR3.\<close>

definition paging_boot :: "frame_allocator option \<Rightarrow> (u64 \<Rightarrow> nat \<Rightarrow> u64) \<Rightarrow> u64 \<Rightarrow> paging" where
  "paging_boot slot memory firmware_cr3 =
     \<lparr>mem_slot = slot, words = memory, pml4_physical = 0, mapped_total = 0,
      device_windows = replicate MAX_DEVICE_WINDOWS (0, 0), device_window_count = 0,
      cr3 = firmware_cr3\<rparr>"

definition zero_frame :: "u64 \<Rightarrow> paging \<Rightarrow> paging" where
  "zero_frame frame st = st\<lparr>words := (words st)(frame := (\<lambda>_. 0))\<rparr>"

definition entry :: "u64 \<Rightarrow> nat \<Rightarrow> paging \<Rightarrow> u64" where
  "entry table index st = words st table index"

definition set_entry :: "u64 \<Rightarrow> nat \<Rightarrow> u64 \<Rightarrow> paging \<Rightarrow> paging" where
  "set_entry table index v st = st\<lparr>words := (words st)(table := (words st table)(index := v))\<rparr>"

text \<open>One zeroed frame, as \<open>allocate_table\<close> and the body of \<open>map_yard_page\<close> take it.\<close>

definition allocate_table :: "paging \<Rightarrow> u64 option \<times> paging" where
  "allocate_table st =
     (case allocate_frames (mem_slot st) 1 of
        (None, slot) \<Rightarrow> (None, st\<lparr>mem_slot := slot\<rparr>)
      | (Some frame, slot) \<Rightarrow>
          (Some (of_nat frame), zero_frame (of_nat frame) (st\<lparr>mem_slot := slot\<rparr>)))"

text \<open>The nine bits of an address that index the table of a level.\<close>

definition slot_of :: "nat \<Rightarrow> u64 \<Rightarrow> nat" where
  "slot_of shift v = unat (drop_bit shift v AND 0x1ff)"

section \<open>The identity map\<close>

definition word_div_ceil :: "u64 \<Rightarrow> u64 \<Rightarrow> u64" where
  "word_div_ceil a b = (if a mod b = 0 then a div b else a div b + 1)"

fun highest_of :: "mem_region list \<Rightarrow> u64 \<Rightarrow> u64" where
  "highest_of [] highest = highest"
| "highest_of (r # rs) highest =
     (let region_end = saturating_add (physical_start r) (pages r * of_nat PAGE_SIZE)
      in highest_of rs (if region_end \<le> MAX_GIB * GIB then max highest region_end else highest))"

definition identity_gibibytes :: "mem_region list \<Rightarrow> u64 \<Rightarrow> u64" where
  "identity_gibibytes regions framebuffer_end =
     (let highest = max (highest_of regions (4 * GIB)) (min framebuffer_end (MAX_GIB * GIB))
      in min (word_div_ceil highest GIB) MAX_GIB)"

definition identity_entry :: "nat \<Rightarrow> nat \<Rightarrow> u64" where
  "identity_entry gibibyte index =
     (let physical = of_nat gibibyte * GIB + of_nat index * HUGE_PAGE_SIZE;
          flags = PRESENT OR WRITABLE OR HUGE;
          flags' = if DEVICE_WINDOW \<le> physical then flags OR (CACHE_DISABLE OR WRITE_THROUGH) else flags
      in physical OR flags')"

text \<open>The inner loop, over the 512 entries of a directory.\<close>

definition fill_directory :: "u64 \<Rightarrow> nat \<Rightarrow> paging \<Rightarrow> paging" where
  "fill_directory directory gibibyte st =
     fold (\<lambda>index. set_entry directory index (identity_entry gibibyte index)) [0..<ENTRIES] st"

text \<open>The outer loop: \<open>False\<close> where an allocation fails and \<open>init\<close> returns 0.\<close>

fun map_gibibytes :: "u64 \<Rightarrow> nat list \<Rightarrow> paging \<Rightarrow> bool \<times> paging" where
  "map_gibibytes pdpt [] st = (True, st)"
| "map_gibibytes pdpt (gibibyte # rest) st =
     (case allocate_table st of
        (None, st1) \<Rightarrow> (False, st1)
      | (Some directory, st1) \<Rightarrow>
          map_gibibytes pdpt rest
            (fill_directory directory gibibyte
              (set_entry pdpt gibibyte (directory OR PRESENT OR WRITABLE) st1)))"

definition paging_init :: "mem_region list \<Rightarrow> u64 \<Rightarrow> paging \<Rightarrow> u64 \<times> paging" where
  "paging_init regions framebuffer_end st =
     (let gibibytes = identity_gibibytes regions framebuffer_end in
      case allocate_table st of
        (None, st1) \<Rightarrow> (0, st1)
      | (Some pml4, st1) \<Rightarrow>
          (case allocate_table st1 of
             (None, st2) \<Rightarrow> (0, st2)
           | (Some pdpt, st2) \<Rightarrow>
               (case map_gibibytes pdpt [0..<unat gibibytes]
                       (set_entry pml4 0 (pdpt OR PRESENT OR WRITABLE) st2) of
                  (False, st3) \<Rightarrow> (0, st3)
                | (True, st3) \<Rightarrow>
                    (gibibytes, st3\<lparr>pml4_physical := pml4, mapped_total := gibibytes * GIB, cr3 := pml4\<rparr>))))"

section \<open>Yard pages\<close>

text \<open>One level of the loop of \<open>map_yard_page\<close>: the next table.\<close>

definition yard_descend :: "u64 \<Rightarrow> nat \<Rightarrow> paging \<Rightarrow> u64 option \<times> paging" where
  "yard_descend table index st =
     (let existing = entry table index st in
      if existing AND PRESENT = 0 then
        (case allocate_table st of
           (None, st1) \<Rightarrow> (None, st1)
         | (Some fresh, st1) \<Rightarrow>
             (Some fresh, set_entry table index (fresh OR PRESENT OR WRITABLE OR USER) st1))
      else (Some (existing AND ADDRESS_MASK), set_entry table index (existing OR USER) st))"

fun yard_path :: "u64 \<Rightarrow> nat list \<Rightarrow> paging \<Rightarrow> u64 option \<times> paging" where
  "yard_path table [] st = (Some table, st)"
| "yard_path table (index # rest) st =
     (case yard_descend table index st of
        (None, st1) \<Rightarrow> (None, st1)
      | (Some next_table, st1) \<Rightarrow> yard_path next_table rest st1)"

definition map_yard_page :: "u64 \<Rightarrow> bool \<Rightarrow> paging \<Rightarrow> u64 option \<times> paging" where
  "map_yard_page virtual_address writable st =
     (if pml4_physical st = 0 then (None, st)
      else
        (case yard_path (pml4_physical st)
                [slot_of 39 virtual_address, slot_of 30 virtual_address, slot_of 21 virtual_address] st of
           (None, st1) \<Rightarrow> (None, st1)
         | (Some table, st1) \<Rightarrow>
             (case allocate_table st1 of
                (None, st2) \<Rightarrow> (None, st2)
              | (Some frame, st2) \<Rightarrow>
                  (let flags = PRESENT OR USER;
                       flags' = if writable then flags OR WRITABLE else flags
                   in (Some frame,
                       set_entry table (slot_of 12 virtual_address) (frame OR flags') st2)))))"

section \<open>Device windows\<close>

text \<open>The table below an entry, made on demand and without the user bit.\<close>

definition device_descend :: "u64 \<Rightarrow> nat \<Rightarrow> paging \<Rightarrow> u64 option \<times> paging" where
  "device_descend table index st =
     (let existing = entry table index st in
      if existing AND PRESENT = 0 then
        (case allocate_table st of
           (None, st1) \<Rightarrow> (None, st1)
         | (Some fresh, st1) \<Rightarrow> (Some fresh, set_entry table index (fresh OR PRESENT OR WRITABLE) st1))
      else (Some (existing AND ADDRESS_MASK), st))"

definition map_device_page :: "u64 \<Rightarrow> paging \<Rightarrow> bool \<times> paging" where
  "map_device_page page st =
     (case device_descend (pml4_physical st) (slot_of 39 page) st of
        (None, st1) \<Rightarrow> (False, st1)
      | (Some pdpt, st1) \<Rightarrow>
          (case device_descend pdpt (slot_of 30 page) st1 of
             (None, st2) \<Rightarrow> (False, st2)
           | (Some directory, st2) \<Rightarrow>
               (True, set_entry directory (slot_of 21 page)
                  (page OR PRESENT OR WRITABLE OR HUGE OR CACHE_DISABLE OR WRITE_THROUGH) st2)))"

text \<open>The loop \<open>while page < end\<close>; \<open>None\<close> would be a loop that does not end.\<close>

partial_function (option) map_device_pages :: "u64 \<Rightarrow> u64 \<Rightarrow> paging \<Rightarrow> (bool \<times> paging) option" where
  "map_device_pages page limit st =
     (if page < limit then
        (case map_device_page page st of (mapped, st1) \<Rightarrow>
           if mapped then map_device_pages (page + HUGE_PAGE_SIZE) limit st1
           else Some (False, st1))
      else Some (True, st))"

definition map_device :: "u64 \<Rightarrow> nat \<Rightarrow> paging \<Rightarrow> (bool \<times> paging) option" where
  "map_device physical len st =
     (if pml4_physical st = 0 \<or> len = 0 then Some (False, st)
      else
        let start = physical AND NOT (HUGE_PAGE_SIZE - 1) in
        case checked_add physical (of_nat len) of
          None \<Rightarrow> Some (False, st)
        | Some range_end \<Rightarrow>
            let limit = word_div_ceil range_end HUGE_PAGE_SIZE * HUGE_PAGE_SIZE in
            (case map_device_pages start limit st of
               None \<Rightarrow> None
             | Some (False, st1) \<Rightarrow> Some (False, st1)
             | Some (True, st1) \<Rightarrow>
                 let count = device_window_count st1 in
                 Some (True,
                   if count < MAX_DEVICE_WINDOWS
                   then st1\<lparr>device_windows := (device_windows st1)[count := (start, limit)],
                            device_window_count := count + 1\<rparr>
                   else st1)))"

definition in_device_window :: "paging \<Rightarrow> u64 \<Rightarrow> nat \<Rightarrow> bool" where
  "in_device_window st address len =
     (case checked_add address (of_nat len) of
        None \<Rightarrow> False
      | Some range_end \<Rightarrow>
          (\<exists>w \<in> set (take (device_window_count st) (device_windows st)).
             fst w \<le> address \<and> range_end \<le> snd w))"

definition paging_active :: "paging \<Rightarrow> bool" where
  "paging_active st \<longleftrightarrow> pml4_physical st \<noteq> 0"

section \<open>The processor's walk\<close>

record translation =
  translated :: u64
  by_user :: bool
  by_write :: bool
  uncached :: bool

fun walk_from ::
  "(u64 \<Rightarrow> nat \<Rightarrow> u64) \<Rightarrow> u64 \<Rightarrow> nat list \<Rightarrow> u64 \<Rightarrow> bool \<Rightarrow> bool \<Rightarrow> translation option" where
  "walk_from w table [] v u wr = None"
| "walk_from w table (shift # rest) v u wr =
     (let e = w table (slot_of shift v);
          u' = (u \<and> e AND USER \<noteq> 0);
          wr' = (wr \<and> e AND WRITABLE \<noteq> 0)
      in if e AND PRESENT = 0 then None
         else if rest = [] \<or> shift \<noteq> 39 \<and> e AND HUGE \<noteq> 0
         then Some \<lparr>translated = (e AND ADDRESS_MASK AND NOT (mask shift)) OR (v AND mask shift),
                    by_user = u', by_write = wr', uncached = (e AND CACHE_DISABLE \<noteq> 0)\<rparr>
         else walk_from w (e AND ADDRESS_MASK) rest v u' wr')"

text \<open>The shifts of the four levels.\<close>

definition levels :: "nat list" where "levels = [39, 30, 21, 12]"

definition walk :: "paging \<Rightarrow> u64 \<Rightarrow> translation option" where
  "walk st v = walk_from (words st) (cr3 st) levels v True True"

definition indices :: "u64 \<Rightarrow> nat list" where
  "indices v = map (\<lambda>s. slot_of s v) levels"

section \<open>Fresh frames\<close>

text \<open>The frame addresses in use, and an allocator whose frames page-table entries can name.\<close>

definition taken_addresses :: "paging \<Rightarrow> u64 set" where
  "taken_addresses st =
     (case mem_slot st of
        None \<Rightarrow> {}
      | Some a \<Rightarrow> (\<lambda>f. of_nat (frame_base a + f * PAGE_SIZE)) ` used_frames a)"

definition frames_addressable :: "paging \<Rightarrow> bool" where
  "frames_addressable st \<longleftrightarrow>
     (\<exists>a. mem_slot st = Some a \<and> frames_wf a \<and> frame_base a mod PAGE_SIZE = 0 \<and>
        frame_base a + frames a * PAGE_SIZE \<le> 2 ^ 52)"

lemma words_zero_frame [simp]: "words (zero_frame f st) = (words st)(f := (\<lambda>_. 0))"
  by (simp add: zero_frame_def)

lemma words_set_entry [simp]: "words (set_entry t i v st) = (words st)(t := (words st t)(i := v))"
  by (simp add: set_entry_def)

lemma set_entry_frame [simp]:
  "mem_slot (set_entry t i v st) = mem_slot st" "pml4_physical (set_entry t i v st) = pml4_physical st"
  "cr3 (set_entry t i v st) = cr3 st" "device_windows (set_entry t i v st) = device_windows st"
  "device_window_count (set_entry t i v st) = device_window_count st"
  "mapped_total (set_entry t i v st) = mapped_total st"
  "taken_addresses (set_entry t i v st) = taken_addresses st"
  "frames_addressable (set_entry t i v st) = frames_addressable st"
  by (simp_all add: set_entry_def taken_addresses_def frames_addressable_def)

lemma address_mask_bits: "bit ADDRESS_MASK n \<longleftrightarrow> 12 \<le> n \<and> n < 52"
proof -
  have "ADDRESS_MASK = push_bit 12 (mask 40)" by (simp add: ADDRESS_MASK_def mask_eq_exp_minus_1)
  then have "bit ADDRESS_MASK n \<longleftrightarrow> bit (push_bit 12 (mask 40) :: u64) n" by (simp only:)
  also have "\<dots> \<longleftrightarrow> 12 \<le> n \<and> n < 64 \<and> n - 12 < 40"
    unfolding bit_push_bit_iff bit_mask_iff by auto
  also have "\<dots> \<longleftrightarrow> 12 \<le> n \<and> n < 52" by linarith
  finally show ?thesis .
qed

lemma frame_address_masked:
  assumes "x mod PAGE_SIZE = 0" "x < 2 ^ 52"
  shows "(of_nat x :: u64) AND ADDRESS_MASK = of_nat x"
proof (rule bit_word_eqI)
  fix n assume "n < LENGTH(64)"
  have p: "PAGE_SIZE = 2 ^ 12" by (simp add: PAGE_SIZE_def)
  have "\<not> bit x n" if "n < 12"
  proof -
    obtain q where q: "x = push_bit 12 q"
      using assms(1) p by (metis dvdE mod_0_imp_dvd mult.commute push_bit_eq_mult)
    show ?thesis using that by (simp add: q bit_push_bit_iff)
  qed
  moreover have "\<not> bit x n" if "52 \<le> n"
  proof -
    have "x < 2 ^ n" using assms(2) that by (meson less_le_trans one_le_numeral power_increasing)
    then show ?thesis by (simp add: bit_iff_odd)
  qed
  ultimately have "bit x n \<Longrightarrow> 12 \<le> n \<and> n < 52" by force
  then show "bit ((of_nat x :: u64) AND ADDRESS_MASK) n = bit (of_nat x :: u64) n"
    by (auto simp: bit_and_iff address_mask_bits bit_of_nat_iff)
qed

lemma unat_frame: "x < 2 ^ 52 \<Longrightarrow> unat (of_nat x :: u64) = x"
  by (simp add: unat_of_nat_small)

lemma allocate_table_fresh:
  assumes "allocate_table st = (r, st')" "frames_addressable st"
  shows "frames_addressable st'" "pml4_physical st' = pml4_physical st" "cr3 st' = cr3 st"
    "case r of None \<Rightarrow> words st' = words st \<and> taken_addresses st' = taken_addresses st
       | Some t \<Rightarrow> t \<notin> taken_addresses st \<and> taken_addresses st' = insert t (taken_addresses st) \<and>
           words st' = (words st)(t := (\<lambda>_. 0)) \<and> t AND ADDRESS_MASK = t \<and> t \<noteq> 0"
proof -
  obtain a where a: "mem_slot st = Some a" "frames_wf a" "frame_base a mod PAGE_SIZE = 0"
    "frame_base a + frames a * PAGE_SIZE \<le> 2 ^ 52"
    using assms(2) by (auto simp: frames_addressable_def)
  let ?at = "\<lambda>f. frame_base a + f * PAGE_SIZE"
  let ?goal = "frames_addressable st' \<and> pml4_physical st' = pml4_physical st \<and> cr3 st' = cr3 st \<and>
    (case r of None \<Rightarrow> words st' = words st \<and> taken_addresses st' = taken_addresses st
       | Some t \<Rightarrow> t \<notin> taken_addresses st \<and> taken_addresses st' = insert t (taken_addresses st) \<and>
           words st' = (words st)(t := (\<lambda>_. 0)) \<and> t AND ADDRESS_MASK = t \<and> t \<noteq> 0)"
  have ps: "PAGE_SIZE = 4096" by (simp add: PAGE_SIZE_def)
  have below: "?at f < 2 ^ 52" if "f < frames a" for f
  proof -
    have "?at f < frame_base a + frames a * PAGE_SIZE" using that by (simp add: ps)
    with a(4) show ?thesis by linarith
  qed
  have inj: "f = g" if "(of_nat (?at f) :: u64) = of_nat (?at g)" "f < frames a" "g < frames a" for f g
  proof -
    have "unat (of_nat (?at f) :: u64) = ?at f" "unat (of_nat (?at g) :: u64) = ?at g"
      by (rule unat_frame [OF below [OF that(2)]], rule unat_frame [OF below [OF that(3)]])
    then have "?at f = ?at g" using that(1) by metis
    then show ?thesis by (simp add: ps)
  qed
  have "(0 :: nat) < 1" by simp
  with a(2) have ?goal
  proof (cases rule: allocate_contiguous_cases)
    case (taken s)
    then have r: "r = Some (of_nat (?at s))"
      "st' = zero_frame (of_nat (?at s)) (st\<lparr>mem_slot := Some (taken_run a s 1)\<rparr>)"
      using assms(1) a(1) by (simp_all add: allocate_table_def allocate_frames_def)
    have s: "s < frames a" "s \<notin> used_frames a" using taken(1) by (auto simp: free_run_def)
    have u: "used_frames (taken_run a s 1) = insert s (used_frames a)"
      using used_taken_run [OF a(2) taken(1)] by auto
    have lt: "g < frames a" if "g \<in> used_frames a" for g using that by (simp add: used_frames_def)
    have fresh: "of_nat (?at s) \<notin> taken_addresses st"
    proof
      assume "of_nat (?at s) \<in> taken_addresses st"
      then obtain x where "x \<in> used_frames a" "(of_nat (?at s) :: u64) = of_nat (?at x)"
        unfolding taken_addresses_def a(1) option.case by blast
      with inj [OF _ s(1) lt] s(2) show False by blast
    qed
    have "taken_addresses st' = insert (of_nat (?at s)) (taken_addresses st)"
      using a(1) u by (simp add: r taken_addresses_def zero_frame_def state_simps)
    moreover have "frames_addressable st'"
      using a taken_run_wf [OF a(2) taken(1)]
      by (simp add: r frames_addressable_def zero_frame_def state_simps)
    moreover have "?at s mod PAGE_SIZE = 0" using a(3) by simp
    then have "(of_nat (?at s) :: u64) AND ADDRESS_MASK = of_nat (?at s)"
      using below [OF s(1)] by (rule frame_address_masked)
    moreover have "0 < ?at s"
    proof -
      have "0 < s" using s taken(1) a(2) bitmap_frames_pos [of "frames a"]
        by (cases s) (auto simp: frames_wf_def used_frames_def)
      then show ?thesis by (simp add: ps)
    qed
    then have "(of_nat (?at s) :: u64) \<noteq> 0"
    proof -
      have "unat (of_nat (?at s) :: u64) = ?at s" using below [OF s(1)] by (rule unat_frame)
      with \<open>0 < ?at s\<close> show ?thesis by (metis less_numeral_extra(3) unat_0)
    qed
    ultimately show ?thesis using fresh by (simp add: r zero_frame_def)
  next
    case full
    then have "r = None" "st' = st\<lparr>mem_slot := Some (a\<lparr>next_hint := 0\<rparr>)\<rparr>"
      using assms(1) a(1) by (simp_all add: allocate_table_def allocate_frames_def)
    moreover have "frames_wf (a\<lparr>next_hint := 0\<rparr>)" using a(2) by (simp add: frames_wf_def)
    ultimately show ?thesis using a by (simp add: frames_addressable_def taken_addresses_def)
  qed
  then show "frames_addressable st'" "pml4_physical st' = pml4_physical st" "cr3 st' = cr3 st"
    "case r of None \<Rightarrow> words st' = words st \<and> taken_addresses st' = taken_addresses st
       | Some t \<Rightarrow> t \<notin> taken_addresses st \<and> taken_addresses st' = insert t (taken_addresses st) \<and>
           words st' = (words st)(t := (\<lambda>_. 0)) \<and> t AND ADDRESS_MASK = t \<and> t \<noteq> 0"
    by simp_all
qed

end
