(* ===== verification/Paging_Laws.thy ===== *)
theory Paging_Laws
  imports Paging
begin

text \<open>
  What the page tables of \<open>Paging\<close> translate: the tables form a tree, which a colouring of
  the frames by the path that leads to them makes explicit; \<open>init\<close> builds the identity map,
  and \<open>map_yard_page\<close> opens one page to user code and changes the translation of no other
  address.
\<close>

unbundle bit_operations_syntax

section \<open>The tree the tables form\<close>

text \<open>
  A colouring gives every table the indices that lead to it from the PML4. An entry that is present
  points to the table of its own path, unless it is a large page, and is writable; the entries under
  one PML4 slot, the yard's, carry the user bit and hold no large page, and no other entry above
  the last level has the user bit.
\<close>

definition entry_ok :: "nat \<Rightarrow> (u64 \<Rightarrow> nat list option) \<Rightarrow> nat list \<Rightarrow> nat \<Rightarrow> u64 \<Rightarrow> bool" where
  "entry_ok slot c p i e \<longleftrightarrow>
     (if p \<noteq> [] \<and> e AND HUGE \<noteq> 0 then length p = 2 \<and> hd p \<noteq> slot
      else c (e AND ADDRESS_MASK) = Some (p @ [i])) \<and>
     e AND WRITABLE \<noteq> 0 \<and>
     (if hd (p @ [i]) = slot then e AND USER \<noteq> 0 \<and> e AND HUGE = 0 else e AND USER = 0)"

definition yard_tree :: "nat \<Rightarrow> (u64 \<Rightarrow> nat list option) \<Rightarrow> paging \<Rightarrow> bool" where
  "yard_tree slot c st \<longleftrightarrow>
     frames_addressable st \<and> pml4_physical st = cr3 st \<and> cr3 st \<noteq> 0 \<and> c (cr3 st) = Some [] \<and>
     dom c \<subseteq> taken_addresses st \<and>
     (\<forall>t p i. c t = Some p \<and> length p < 3 \<and> i < ENTRIES \<and> words st t i AND PRESENT \<noteq> 0 \<longrightarrow>
        entry_ok slot c p i (words st t i))"

lemma slot_of_less: "slot_of s v < ENTRIES"
proof -
  have "drop_bit s v AND 0x1ff \<le> 0x1ff" by (rule word_and_le1)
  then have "unat (drop_bit s v AND 0x1ff) \<le> unat (0x1ff :: u64)" by (simp only: word_le_nat_alt)
  then show ?thesis by (simp add: slot_of_def ENTRIES_def)
qed

lemma levels_length: "length levels = 4"
  by (simp add: levels_def)

lemma length_indices [simp]: "length (indices v) = 4"
  by (simp add: indices_def levels_def)

lemma walk_zero: "(\<And>i. w t i = 0) \<Longrightarrow> walk_from w t ss v u wr = None"
  by (cases ss) (simp_all add: Let_def)

lemma walk_step_cong:
  assumes "w t (slot_of shift v) = w' t (slot_of shift v)"
    and "w' t (slot_of shift v) AND PRESENT \<noteq> 0 \<Longrightarrow> rest \<noteq> [] \<Longrightarrow>
      shift = 39 \<or> w' t (slot_of shift v) AND HUGE = 0 \<Longrightarrow>
      (\<And>u wr. walk_from w (w' t (slot_of shift v) AND ADDRESS_MASK) rest v u wr =
        walk_from w' (w' t (slot_of shift v) AND ADDRESS_MASK) rest v u wr)"
  shows "walk_from w t (shift # rest) v u wr = walk_from w' t (shift # rest) v u wr"
  using assms by (simp add: Let_def)

lemma drop_levels:
  "drop n levels = shift # rest \<Longrightarrow> n < 4 \<and> rest = drop (n + 1) levels \<and>
     shift = levels ! n \<and> (rest = [] \<longleftrightarrow> n = 3) \<and> (shift = 39 \<longleftrightarrow> n = 0)"
  by (cases "n < 4") (auto simp: levels_def numeral_eq_Suc less_Suc_eq)

lemma tree_child:
  assumes "yard_tree slot c st" "c t = Some p" "length p < 3" "i < ENTRIES"
    and "words st t i AND PRESENT \<noteq> 0" "p = [] \<or> words st t i AND HUGE = 0"
  shows "c (words st t i AND ADDRESS_MASK) = Some (p @ [i])"
  using assms unfolding yard_tree_def entry_ok_def by (metis (no_types, lifting))

text \<open>Linking an empty table under an absent entry translates no new address.\<close>

lemma walk_link:
  assumes "yard_tree slot c st" "c t0 = Some p0" "length p0 < 3"
    and "words st t0 i0 AND PRESENT = 0" "fresh \<notin> taken_addresses st"
    and "link AND ADDRESS_MASK = fresh" "link AND HUGE = 0"
    and "c t = Some p" "ss = drop (length p) levels"
  shows "walk_from ((words st)(fresh := (\<lambda>_. 0), t0 := (words st t0)(i0 := link))) t ss v u wr =
     walk_from (words st) t ss v u wr"
  using assms(8,9)
proof (induction ss arbitrary: t p u wr)
  case Nil
  then show ?case by simp
next
  case (Cons shift rest)
  define w where "w = (words st)(fresh := (\<lambda>_. 0), t0 := (words st t0)(i0 := link))"
  have d: "dom c \<subseteq> taken_addresses st" using assms(1) by (simp add: yard_tree_def)
  then have t: "t \<noteq> fresh" "t0 \<noteq> fresh" using assms(2,5) Cons.prems(1) by auto
  note IH = Cons.IH [folded w_def]
  note l = drop_levels [OF Cons.prems(2) [symmetric]]
  have "walk_from w t (shift # rest) v u wr = walk_from (words st) t (shift # rest) v u wr"
  proof (cases "t = t0 \<and> slot_of shift v = i0")
    case True
    have "w fresh = (\<lambda>_. 0)" using t by (simp add: w_def)
    then have "walk_from w fresh rest v u' wr' = None" for u' wr' by (simp add: walk_zero)
    moreover have "rest \<noteq> []" using l True assms(2,3) Cons.prems(1) by auto
    moreover have "w t0 i0 = link" by (simp add: w_def)
    ultimately show ?thesis using True assms(4,6,7) by (simp add: Let_def)
  next
    case False
    then have e: "w t (slot_of shift v) = words st t (slot_of shift v)" using t by (auto simp: w_def)
    show ?thesis
    proof (rule walk_step_cong, rule e)
      fix u wr
      assume inner: "words st t (slot_of shift v) AND PRESENT \<noteq> 0" "rest \<noteq> []"
        "shift = 39 \<or> words st t (slot_of shift v) AND HUGE = 0"
      have "length p < 3" "p = [] \<or> words st t (slot_of shift v) AND HUGE = 0"
        using l inner(2,3) by auto
      from tree_child [OF assms(1) Cons.prems(1) this(1) slot_of_less inner(1) this(2)]
      have "c (words st t (slot_of shift v) AND ADDRESS_MASK) = Some (p @ [slot_of shift v])" .
      moreover have "rest = drop (length (p @ [slot_of shift v])) levels" using l by simp
      ultimately show "walk_from w (words st t (slot_of shift v) AND ADDRESS_MASK) rest v u wr =
          walk_from (words st) (words st t (slot_of shift v) AND ADDRESS_MASK) rest v u wr"
        by (rule IH)
    qed
  qed
  then show ?case unfolding w_def .
qed

text \<open>Writing one entry changes the translation of the addresses whose path ends there, and no other.\<close>

lemma walk_leaf:
  assumes "yard_tree slot c st" "c t0 = Some p0"
    and "\<And>t i. c t \<noteq> None \<Longrightarrow> \<not> (t = t0 \<and> i = i0) \<Longrightarrow> w t i = words st t i"
    and "p0 @ [i0] \<noteq> take (length p0 + 1) (indices v)"
    and "c t = Some p" "ss = drop (length p) levels" "p = take (length p) (indices v)"
  shows "walk_from w t ss v u wr = walk_from (words st) t ss v u wr"
  using assms(5-7)
proof (induction ss arbitrary: t p u wr)
  case Nil
  then show ?case by simp
next
  case (Cons shift rest)
  note l = drop_levels [OF Cons.prems(2) [symmetric]]
  have s: "indices v ! length p = slot_of shift v" using l by (simp add: indices_def levels_length)
  have next_prefix: "p @ [slot_of shift v] = take (length (p @ [slot_of shift v])) (indices v)"
    using l Cons.prems(3) s by (simp add: take_Suc_conv_app_nth)
  have "\<not> (t = t0 \<and> slot_of shift v = i0)"
  proof
    assume "t = t0 \<and> slot_of shift v = i0"
    with next_prefix assms(2) Cons.prems(1) have "p0 @ [i0] = take (length p0 + 1) (indices v)" by simp
    with assms(4) show False by simp
  qed
  then have e: "w t (slot_of shift v) = words st t (slot_of shift v)" using assms(3) Cons.prems(1) by auto
  show ?case
  proof (rule walk_step_cong, rule e)
    fix u wr
    assume inner: "words st t (slot_of shift v) AND PRESENT \<noteq> 0" "rest \<noteq> []"
      "shift = 39 \<or> words st t (slot_of shift v) AND HUGE = 0"
    have "length p < 3" "p = [] \<or> words st t (slot_of shift v) AND HUGE = 0"
      using l inner(2,3) by auto
    from tree_child [OF assms(1) Cons.prems(1) this(1) slot_of_less inner(1) this(2)]
    have "c (words st t (slot_of shift v) AND ADDRESS_MASK) = Some (p @ [slot_of shift v])" .
    moreover have "rest = drop (length (p @ [slot_of shift v])) levels" using l by simp
    ultimately show "walk_from w (words st t (slot_of shift v) AND ADDRESS_MASK) rest v u wr =
        walk_from (words st) (words st t (slot_of shift v) AND ADDRESS_MASK) rest v u wr"
      using next_prefix by (rule Cons.IH)
  qed
qed

section \<open>The path to a yard page\<close>

text \<open>The entries a walk follows, each open to user code.\<close>

fun open_path :: "(u64 \<Rightarrow> nat \<Rightarrow> u64) \<Rightarrow> u64 \<Rightarrow> nat list \<Rightarrow> u64 \<Rightarrow> bool" where
  "open_path w t [] target = (t = target)"
| "open_path w t (i # rest) target =
     (w t i AND PRESENT \<noteq> 0 \<and> w t i AND USER \<noteq> 0 \<and> w t i AND WRITABLE \<noteq> 0 \<and>
      w t i AND HUGE = 0 \<and> open_path w (w t i AND ADDRESS_MASK) rest target)"

lemma flag_masks:
  "PRESENT AND ADDRESS_MASK = 0" "WRITABLE AND ADDRESS_MASK = 0" "USER AND ADDRESS_MASK = 0"
  "HUGE AND ADDRESS_MASK = 0" "CACHE_DISABLE AND ADDRESS_MASK = 0" "WRITE_THROUGH AND ADDRESS_MASK = 0"
  by (simp_all add: flag_defs ADDRESS_MASK_def)

lemma masked_flag:
  assumes "t AND ADDRESS_MASK = t" "f AND ADDRESS_MASK = 0"
  shows "t AND f = 0"
proof -
  have "t AND f = t AND (f AND ADDRESS_MASK)" using assms(1) by (metis and.assoc and.commute)
  then show ?thesis by (simp add: assms(2))
qed

lemma flags_apart:
  "PRESENT AND PRESENT = PRESENT" "PRESENT \<noteq> 0" "WRITABLE \<noteq> 0" "USER \<noteq> 0" "HUGE \<noteq> 0" "CACHE_DISABLE \<noteq> 0"
  "PRESENT AND WRITABLE = 0" "WRITABLE AND PRESENT = 0" "PRESENT AND USER = 0" "USER AND PRESENT = 0"
  "PRESENT AND HUGE = 0" "HUGE AND PRESENT = 0" "WRITABLE AND USER = 0" "USER AND WRITABLE = 0"
  "WRITABLE AND HUGE = 0" "HUGE AND WRITABLE = 0" "USER AND HUGE = 0" "HUGE AND USER = 0"
  "PRESENT AND CACHE_DISABLE = 0" "WRITABLE AND CACHE_DISABLE = 0" "USER AND CACHE_DISABLE = 0"
  "HUGE AND CACHE_DISABLE = 0" "CACHE_DISABLE AND PRESENT = 0" "CACHE_DISABLE AND WRITABLE = 0"
  "CACHE_DISABLE AND USER = 0" "CACHE_DISABLE AND HUGE = 0"
  "WRITE_THROUGH AND PRESENT = 0" "WRITE_THROUGH AND WRITABLE = 0" "WRITE_THROUGH AND USER = 0"
  "WRITE_THROUGH AND HUGE = 0" "WRITE_THROUGH AND CACHE_DISABLE = 0"
  by (simp_all add: flag_defs)

lemmas flag_simps = flag_masks flags_apart bit.conj_disj_distrib2

lemma entry_bits:
  assumes "t AND ADDRESS_MASK = t"
  shows "(t OR PRESENT OR WRITABLE OR USER) AND ADDRESS_MASK = t"
    "(t OR PRESENT OR WRITABLE OR USER) AND PRESENT \<noteq> 0" "(t OR PRESENT OR WRITABLE OR USER) AND WRITABLE \<noteq> 0"
    "(t OR PRESENT OR WRITABLE OR USER) AND USER \<noteq> 0" "(t OR PRESENT OR WRITABLE OR USER) AND HUGE = 0"
    "(t OR PRESENT OR WRITABLE OR USER) AND CACHE_DISABLE = 0"
  using assms by (simp_all add: flag_simps masked_flag)

lemma user_bit_idem:
  assumes "e AND USER \<noteq> 0"
  shows "e OR USER = e"
proof -
  have u2: "USER = 2 ^ 2" by (simp add: USER_def)
  have u: "bit USER n \<longleftrightarrow> n = 2" for n
    unfolding u2 bit_exp_iff by auto
  obtain n where "bit (e AND USER) n" using assms bit_eqI [of "e AND USER" 0] by auto
  then have "bit e 2" using u by (auto simp: bit_and_iff)
  then show ?thesis by (intro bit_word_eqI) (auto simp: bit_or_iff u)
qed

lemma entry_ok_mono: "entry_ok slot c p i e \<Longrightarrow> c \<subseteq>\<^sub>m c' \<Longrightarrow> entry_ok slot c' p i e"
  by (auto simp: entry_ok_def map_le_def dom_def split: if_splits)

lemma tree_after_failure:
  assumes "yard_tree slot c st" "allocate_table st = (None, st')"
  shows "yard_tree slot c st' \<and> walk st' = walk st"
proof -
  have "frames_addressable st" using assms(1) by (simp add: yard_tree_def)
  note f = allocate_table_fresh [OF assms(2) this]
  then have "words st' = words st" by simp
  with f assms(1) show ?thesis unfolding yard_tree_def walk_def by simp
qed

text \<open>A fresh table under an absent entry extends the tree and translates nothing new.\<close>

lemma tree_link:
  assumes "yard_tree slot c st" "c t = Some p" "length p < 3" "i < ENTRIES"
    and "words st t i AND PRESENT = 0" "allocate_table st = (Some n, st1)"
    and "link AND ADDRESS_MASK = n" "link AND HUGE = 0" "link AND WRITABLE \<noteq> 0"
    and "link AND USER \<noteq> 0 \<longleftrightarrow> hd (p @ [i]) = slot"
  shows "yard_tree slot (c(n \<mapsto> p @ [i])) (set_entry t i link st1)"
    "c \<subseteq>\<^sub>m c(n \<mapsto> p @ [i])" "walk (set_entry t i link st1) = walk st"
    "words (set_entry t i link st1) t i = link"
    "\<And>t'. c t' \<noteq> None \<Longrightarrow> t' \<noteq> t \<Longrightarrow> words (set_entry t i link st1) t' = words st t'"
    "taken_addresses st \<subseteq> taken_addresses (set_entry t i link st1)"
proof -
  have fa: "frames_addressable st" and d: "dom c \<subseteq> taken_addresses st" and root: "c (cr3 st) = Some []"
    using assms(1) by (simp_all add: yard_tree_def)
  note f = allocate_table_fresh [OF assms(6) fa]
  have n: "n \<notin> taken_addresses st" "taken_addresses st1 = insert n (taken_addresses st)"
    "words st1 = (words st)(n := (\<lambda>_. 0))" "n AND ADDRESS_MASK = n"
    using f(4) by simp_all
  let ?st = "set_entry t i link st1"
  let ?c = "c(n \<mapsto> p @ [i])"
  have t: "t \<noteq> n" "t \<in> dom c" using d n(1) assms(2) by auto
  have w: "words ?st = (words st)(n := (\<lambda>_. 0), t := (words st t)(i := link))"
    using t by (simp add: n(3))
  show le: "c \<subseteq>\<^sub>m ?c" using d n(1) by (auto simp: map_le_def)
  show "walk ?st = walk st"
  proof
    fix v
    show "walk ?st v = walk st v"
      using walk_link [OF assms(1-3,5) n(1) assms(7,8) root, of levels v True True]
      unfolding walk_def w by (simp add: f(3))
  qed
  have "entry_ok slot ?c p' j (words ?st t' j)"
    if c': "?c t' = Some p'" "length p' < 3" "j < ENTRIES" "words ?st t' j AND PRESENT \<noteq> 0" for t' p' j
  proof -
    consider "t' = n" | "t' = t" "j = i" | "t' \<noteq> n" "\<not> (t' = t \<and> j = i)" by blast
    then show ?thesis
    proof cases
      case 1
      then show ?thesis using c'(4) t unfolding w by simp
    next
      case 2
      then have "p' = p" using c'(1) assms(2) t by simp
      with 2 assms(7-10) show ?thesis by (auto simp: w entry_ok_def)
    next
      case 3
      then have "words ?st t' j = words st t' j" "c t' = Some p'" using w c'(1) by auto
      with assms(1) c'(2-4) have "entry_ok slot c p' j (words ?st t' j)" by (simp add: yard_tree_def)
      then show ?thesis using le by (rule entry_ok_mono)
    qed
  qed
  then show "yard_tree slot ?c ?st"
    using assms(1) f(1-3) n d by (auto simp: yard_tree_def)
  show "words ?st t i = link" by simp
  show "words ?st t' = words st t'" if "c t' \<noteq> None" "t' \<noteq> t" for t'
    using that d n(1) unfolding w by auto
  show "taken_addresses st \<subseteq> taken_addresses ?st" using n(2) by auto
qed

lemma yard_descend_spec:
  assumes "yard_tree slot c st" "c t = Some p" "length p < 3" "i < ENTRIES" "hd (p @ [i]) = slot"
    and "yard_descend t i st = (r, st')"
  shows "case r of None \<Rightarrow> yard_tree slot c st' \<and> walk st' = walk st
    | Some n \<Rightarrow> \<exists>c'. yard_tree slot c' st' \<and> c' n = Some (p @ [i]) \<and> c \<subseteq>\<^sub>m c' \<and> walk st' = walk st \<and>
        open_path (words st') t [i] n \<and> (\<forall>t'. c t' \<noteq> None \<and> t' \<noteq> t \<longrightarrow> words st' t' = words st t') \<and>
        taken_addresses st \<subseteq> taken_addresses st'"
proof (cases "words st t i AND PRESENT = 0")
  case absent: True
  obtain r1 st1 where a: "allocate_table st = (r1, st1)" by (cases "allocate_table st")
  show ?thesis
  proof (cases r1)
    case None
    with absent assms(6) a have "r = None" "st' = st1" by (simp_all add: yard_descend_def entry_def Let_def)
    with tree_after_failure [OF assms(1)] a None show ?thesis by simp
  next
    case (Some n)
    let ?link = "n OR PRESENT OR WRITABLE OR USER"
    have r: "r = Some n" "st' = set_entry t i ?link st1"
      using absent assms(6) a Some by (simp_all add: yard_descend_def entry_def Let_def)
    have "frames_addressable st" using assms(1) by (simp add: yard_tree_def)
    from allocate_table_fresh(4) [OF a this] Some have "n AND ADDRESS_MASK = n" by simp
    note bits = entry_bits [OF this]
    have "?link AND USER \<noteq> 0 \<longleftrightarrow> hd (p @ [i]) = slot" using bits(4) assms(5) by simp
    note link = tree_link [OF assms(1-4) absent a [unfolded Some] bits(1,5,3) this]
    show ?thesis
      unfolding r option.case
      by (intro exI [of _ "c(n \<mapsto> p @ [i])"] conjI) (use link bits in auto)
  qed
next
  case present: False
  have ok: "entry_ok slot c p i (words st t i)"
    using assms(1-4) present unfolding yard_tree_def by blast
  with ok assms(5) have e: "words st t i AND USER \<noteq> 0" "words st t i AND WRITABLE \<noteq> 0"
    "words st t i AND HUGE = 0" "c (words st t i AND ADDRESS_MASK) = Some (p @ [i])"
    by (auto simp: entry_ok_def split: if_splits)
  have r: "r = Some (words st t i AND ADDRESS_MASK)" "st' = st"
    using present assms(6) user_bit_idem [OF e(1)]
    by (auto simp: yard_descend_def entry_def Let_def set_entry_def)
  have le: "c \<subseteq>\<^sub>m c" by simp
  show ?thesis
    unfolding r option.case
    by (intro exI [of _ c] conjI) (use assms(1) e present le in simp_all)
qed

lemma allocate_table_keeps:
  "allocate_table st = (r, st') \<Longrightarrow> cr3 st' = cr3 st \<and> pml4_physical st' = pml4_physical st \<and>
     device_windows st' = device_windows st \<and> device_window_count st' = device_window_count st \<and>
     mapped_total st' = mapped_total st"
  by (auto simp: allocate_table_def zero_frame_def split: prod.splits option.splits)

lemma yard_path_cr3: "yard_path t is st = (r, st') \<Longrightarrow> cr3 st' = cr3 st"
  by (induction "is" arbitrary: t st)
    (auto simp: yard_descend_def Let_def dest: allocate_table_keeps split: prod.splits option.splits if_splits)

lemma yard_path_spec:
  assumes "yard_tree slot c st" "c t = Some p" "length p + length is \<le> 3"
    and "\<forall>i \<in> set is. i < ENTRIES" "is \<noteq> [] \<Longrightarrow> hd (p @ is) = slot"
    and "yard_path t is st = (r, st')"
  shows "case r of None \<Rightarrow> walk st' = walk st \<and> (\<exists>c'. yard_tree slot c' st')
    | Some n \<Rightarrow> \<exists>c'. yard_tree slot c' st' \<and> c' n = Some (p @ is) \<and> c \<subseteq>\<^sub>m c' \<and> walk st' = walk st \<and>
        open_path (words st') t is n \<and>
        (\<forall>t' p'. c t' = Some p' \<and> length p' < length p \<longrightarrow> words st' t' = words st t') \<and>
        taken_addresses st \<subseteq> taken_addresses st'"
  using assms
proof (induction "is" arbitrary: st c t p)
  case Nil
  then show ?case by (auto intro!: exI [of _ c])
next
  case (Cons i rest)
  obtain r1 st1 where d: "yard_descend t i st = (r1, st1)" by (cases "yard_descend t i st")
  have slot: "hd (p @ [i]) = slot" using Cons.prems(5) by (cases p) auto
  have "length p < 3" "i < ENTRIES" using Cons.prems(3,4) by auto
  note one = yard_descend_spec [OF Cons.prems(1,2) this slot d]
  show ?case
  proof (cases r1)
    case None
    with one d Cons.prems(6) show ?thesis by auto
  next
    case (Some n)
    with one obtain c1 where c1: "yard_tree slot c1 st1" "c1 n = Some (p @ [i])" "c \<subseteq>\<^sub>m c1"
      "walk st1 = walk st" "open_path (words st1) t [i] n"
      "\<forall>t'. c t' \<noteq> None \<and> t' \<noteq> t \<longrightarrow> words st1 t' = words st t'"
      "taken_addresses st \<subseteq> taken_addresses st1"
      by auto
    have y: "yard_path n rest st1 = (r, st')" using Cons.prems(6) d Some by simp
    have s1: "rest \<noteq> [] \<Longrightarrow> hd ((p @ [i]) @ rest) = slot" using slot by (cases p) auto
    have "length (p @ [i]) + length rest \<le> 3" "\<forall>i \<in> set rest. i < ENTRIES"
      using Cons.prems(3,4) by auto
    note IH = Cons.IH [OF c1(1,2) this s1 y]
    show ?thesis
    proof (cases r)
      case None
      with IH c1(4) show ?thesis by simp
    next
      case (Some m)
      with IH obtain c2 where c2: "yard_tree slot c2 st'" "c2 m = Some ((p @ [i]) @ rest)" "c1 \<subseteq>\<^sub>m c2"
        "walk st' = walk st1" "open_path (words st') n rest m"
        "\<forall>t' p'. c1 t' = Some p' \<and> length p' < length (p @ [i]) \<longrightarrow> words st' t' = words st1 t'"
        "taken_addresses st1 \<subseteq> taken_addresses st'"
        by auto
      have up: "c1 t' = Some p'" if "c t' = Some p'" for t' p'
        using that c1(3) by (auto simp: map_le_def dom_def)
      have "words st' t = words st1 t" using c2(6) up [OF Cons.prems(2)] by simp
      then have "open_path (words st') t (i # rest) m" using c1(5) c2(5) by simp
      moreover have "\<forall>t' p'. c t' = Some p' \<and> length p' < length p \<longrightarrow> words st' t' = words st t'"
      proof (intro allI impI)
        fix t' p' assume a: "c t' = Some p' \<and> length p' < length p"
        then have "t' \<noteq> t" using Cons.prems(2) by auto
        with a c1(6) have "words st1 t' = words st t'" by auto
        moreover have "words st' t' = words st1 t'" using c2(6) up a by (metis length_append_singleton less_Suc_eq)
        ultimately show "words st' t' = words st t'" by simp
      qed
      moreover have "c \<subseteq>\<^sub>m c2" using c1(3) c2(3) by (rule map_le_trans)
      ultimately show ?thesis
        unfolding Some option.case using c1(4,7) c2 by (intro exI [of _ c2]) auto
    qed
  qed
qed

lemma open_path_cong:
  assumes "yard_tree slot c st" "c t = Some p" "length p + length is \<le> 3"
    and "\<forall>i \<in> set is. i < ENTRIES" "open_path (words st) t is n"
    and "\<And>t' p'. c t' = Some p' \<Longrightarrow> length p' < 3 \<Longrightarrow> w' t' = words st t'"
  shows "open_path w' t is n"
  using assms(2-5)
proof (induction "is" arbitrary: t p)
  case Nil
  then show ?case by simp
next
  case (Cons i rest)
  have "length p < 3" "i < ENTRIES" using Cons.prems(2,3) by auto
  then have "c (words st t i AND ADDRESS_MASK) = Some (p @ [i])"
    using Cons.prems(1,4) by (intro tree_child [OF assms(1)]) auto
  moreover have "w' t = words st t" using assms(6) Cons.prems(1) \<open>length p < 3\<close> by blast
  ultimately show ?case using Cons by auto
qed

lemma walk_open_path:
  assumes "open_path w t (map (\<lambda>s. slot_of s v) shifts) n" "ss \<noteq> []"
  shows "walk_from w t (shifts @ ss) v u wr = walk_from w n ss v u wr"
  using assms by (induction shifts arbitrary: t) (auto simp: Let_def)

text \<open>The statics only \<open>init\<close> and \<open>map_device\<close> write.\<close>

definition same_statics :: "paging \<Rightarrow> paging \<Rightarrow> bool" where
  "same_statics st st' \<longleftrightarrow> cr3 st' = cr3 st \<and> pml4_physical st' = pml4_physical st \<and>
     device_windows st' = device_windows st \<and> device_window_count st' = device_window_count st \<and>
     mapped_total st' = mapped_total st"

lemma yard_descend_statics: "yard_descend t i st = (r, st') \<Longrightarrow> same_statics st st'"
  by (auto simp: same_statics_def yard_descend_def Let_def dest!: allocate_table_keeps
      split: prod.splits option.splits if_splits)

lemma same_statics_trans: "same_statics a b \<Longrightarrow> same_statics b c \<Longrightarrow> same_statics a c"
  by (simp add: same_statics_def)

lemma yard_path_statics: "yard_path t is st = (r, st') \<Longrightarrow> same_statics st st'"
proof (induction "is" arbitrary: t st)
  case Nil
  then show ?case by (simp add: same_statics_def)
next
  case (Cons i rest)
  then show ?case
    by (auto dest: yard_descend_statics intro: same_statics_trans split: prod.splits option.splits)
qed

lemma map_yard_page_statics: "map_yard_page v writable st = (r, st') \<Longrightarrow> same_statics st st'"
  by (auto simp: map_yard_page_def Let_def same_statics_def simp del: yard_path.simps
      dest!: allocate_table_keeps yard_path_statics split: prod.splits option.splits if_splits)

lemma yard_page_translation:
  assumes "yard_tree slot c st" "slot_of 39 v = slot"
  shows "case map_yard_page v writable st of
      (None, st') \<Rightarrow> walk st' = walk st \<and> (\<exists>c'. yard_tree slot c' st')
    | (Some frame, st') \<Rightarrow> frame \<notin> taken_addresses st \<and>
        walk st' v = Some \<lparr>translated = frame OR (v AND mask 12), by_user = True,
          by_write = writable, uncached = False\<rparr> \<and>
        (\<forall>v'. indices v' = indices v \<or> walk st' v' = walk st v') \<and> (\<exists>c'. yard_tree slot c' st')"
proof -
  have root: "c (cr3 st) = Some []" "pml4_physical st = cr3 st" "cr3 st \<noteq> 0"
    using assms(1) by (simp_all add: yard_tree_def)
  let ?is = "[slot_of 39 v, slot_of 30 v, slot_of 21 v]"
  obtain r st1 where y: "yard_path (cr3 st) ?is st = (r, st1)" by (cases "yard_path (cr3 st) ?is st")
  have "\<forall>i \<in> set ?is. i < ENTRIES" by (simp add: slot_of_less)
  from yard_path_spec [OF assms(1) root(1) _ this _ y] assms(2)
  have path: "case r of None \<Rightarrow> walk st1 = walk st \<and> (\<exists>c'. yard_tree slot c' st1)
    | Some n \<Rightarrow> \<exists>c'. yard_tree slot c' st1 \<and> c' n = Some ?is \<and> walk st1 = walk st \<and>
        open_path (words st1) (cr3 st) ?is n \<and> taken_addresses st \<subseteq> taken_addresses st1"
    by (auto split: option.splits)
  show ?thesis
  proof (cases r)
    case None
    with path y root show ?thesis by (simp add: map_yard_page_def)
  next
    case (Some n)
    with path obtain c1 where c1: "yard_tree slot c1 st1" "c1 n = Some ?is" "walk st1 = walk st"
      "open_path (words st1) (cr3 st) ?is n" "taken_addresses st \<subseteq> taken_addresses st1"
      by auto
    obtain r2 st2 where a: "allocate_table st1 = (r2, st2)" by (cases "allocate_table st1")
    show ?thesis
    proof (cases r2)
      case None
      with tree_after_failure [OF c1(1)] a y root Some c1(3) show ?thesis
        by (auto simp: map_yard_page_def)
    next
      case frame: (Some frame)
      have tree1: "frames_addressable st1" "dom c1 \<subseteq> taken_addresses st1" "c1 (cr3 st1) = Some []"
        using c1(1) by (simp_all add: yard_tree_def)
      note f = allocate_table_fresh [OF a tree1(1)]
      have n: "frame \<notin> taken_addresses st1" "taken_addresses st2 = insert frame (taken_addresses st1)"
        "words st2 = (words st1)(frame := (\<lambda>_. 0))" "frame AND ADDRESS_MASK = frame"
        using f(4) frame by simp_all
      let ?i = "slot_of 12 v"
      define e where "e = frame OR (if writable then PRESENT OR USER OR WRITABLE else PRESENT OR USER)"
      define st3 where "st3 = set_entry n ?i e st2"
      have m: "map_yard_page v writable st = (Some frame, st3)"
        using y root Some a frame
        by (simp add: map_yard_page_def st3_def e_def Let_def or.assoc)
      have nf: "n \<noteq> frame" using tree1(2) n(1) c1(2) by auto
      have w: "words st3 = (words st1)(frame := (\<lambda>_. 0), n := (words st1 n)(?i := e))"
        using nf by (simp add: st3_def n(3))
      have c3: "cr3 st3 = cr3 st1" "pml4_physical st3 = pml4_physical st1"
        "frames_addressable st3" "taken_addresses st3 = insert frame (taken_addresses st1)"
        using f n(2) by (simp_all add: st3_def)
      have others: "walk st3 v' = walk st v'" if "indices v' \<noteq> indices v" for v'
      proof -
        have i: "?is @ [?i] \<noteq> take (length ?is + 1) (indices v')"
          using that by (auto simp: indices_def levels_def)
        have "words st3 t i = words st1 t i" if "c1 t \<noteq> None" "\<not> (t = n \<and> i = ?i)" for t i
          using that tree1(2) n(1) by (auto simp: w)
        from walk_leaf [OF c1(1,2) this i tree1(3), of levels True True]
        show ?thesis unfolding c1(3) [symmetric] walk_def c3(1) by simp
      qed
      have same: "words st3 t' = words st1 t'" if "c1 t' = Some p'" "length p' < 3" for t' p'
        using that tree1(2) n(1) c1(2) by (auto simp: w)
      have cr: "cr3 st = cr3 st1" using yard_path_cr3 [OF y] by simp
      have "open_path (words st3) (cr3 st1) ?is n"
        using c1(4) unfolding cr
        by (intro open_path_cong [OF c1(1) tree1(3) _ _ _ same]) (simp_all add: slot_of_less)
      then have "walk st3 v = walk_from (words st3) n [12] v True True"
        using walk_open_path [of "words st3" "cr3 st1" v "[39, 30, 21]" n "[12]"]
        by (simp add: walk_def levels_def c3(1))
      moreover have "walk_from (words st3) n [12] v True True =
          Some \<lparr>translated = frame OR (v AND mask 12), by_user = True, by_write = writable, uncached = False\<rparr>"
      proof -
        have "frame AND NOT (mask 12) = frame"
        proof -
          have "ADDRESS_MASK AND NOT (mask 12) = ADDRESS_MASK"
            by (simp add: ADDRESS_MASK_def mask_eq_exp_minus_1)
          then show ?thesis using n(4) by (metis and.assoc)
        qed
        moreover have "e AND ADDRESS_MASK = frame" using n(4) by (simp add: e_def flag_simps)
        moreover have "e AND PRESENT \<noteq> 0" "e AND USER \<noteq> 0" "(e AND WRITABLE \<noteq> 0) = writable"
          "e AND CACHE_DISABLE = 0"
          using n(4) by (auto simp: e_def flag_simps masked_flag)
        moreover from calculation(1,2) have "e AND (ADDRESS_MASK AND NOT (mask 12)) = frame"
          by (metis and.assoc)
        ultimately show ?thesis by (simp add: w Let_def)
      qed
      moreover have "yard_tree slot c1 st3"
        using c1(1) same c3 unfolding yard_tree_def by (auto simp: subset_insertI2)
      ultimately show ?thesis
        using others n(1) c1(5) m by auto
    qed
  qed
qed

text \<open>
  C28: mapping a yard page either fails and translates nothing differently, or it opens the one
  page to user code, backed by a frame that was free and writable only if asked; the translation
  of every address outside that page is what it was.
\<close>

theorem yard_page_opens_one_page:
  assumes "yard_tree slot c st" "slot_of 39 v = slot"
  shows "case map_yard_page v writable st of
      (None, st') \<Rightarrow> walk st' = walk st \<and> (\<exists>c'. yard_tree slot c' st')
    | (Some frame, st') \<Rightarrow> frame \<notin> taken_addresses st \<and>
        walk st' v = Some \<lparr>translated = frame OR (v AND mask 12), by_user = True,
          by_write = writable, uncached = False\<rparr> \<and>
        (\<forall>v'. indices v' = indices v \<or> walk st' v' = walk st v') \<and> (\<exists>c'. yard_tree slot c' st')"
  using assms by (rule yard_page_translation)

section \<open>The identity map\<close>

lemma unat_drop: "unat (drop_bit n (v :: u64)) = unat v div 2 ^ n"
  unfolding unat_drop_bit_eq by (rule drop_bit_eq_div)

lemma unat_take: "unat (take_bit n (v :: u64)) = unat v mod 2 ^ n"
  unfolding unsigned_take_bit_eq by (rule take_bit_eq_mod)

lemma slot_of_div: "slot_of s v = (unat v div 2 ^ s) mod 512"
proof -
  have m: "(0x1ff :: u64) = mask 9" by (simp add: mask_eq_exp_minus_1)
  have "slot_of s v = unat (take_bit 9 (drop_bit s v))"
    unfolding slot_of_def m take_bit_eq_mask ..
  then show ?thesis by (simp only: unat_drop unat_take) simp
qed

lemma page_of_push: "v AND NOT (mask n) = push_bit n (drop_bit n (v :: u64))"
  by (rule bit_word_eqI) (auto simp: bit_and_iff bit_not_iff bit_mask_iff bit_push_bit_iff bit_drop_bit_eq)

lemma page_and_offset: "(v AND NOT (mask n)) OR (v AND mask n) = (v :: u64)"
  by (rule bit_word_eqI) (auto simp: bit_and_iff bit_or_iff bit_not_iff bit_mask_iff)

text \<open>The start of the large page an address lies in, from its indices.\<close>

lemma identity_page:
  assumes "unat v < 2 ^ 39"
  shows "of_nat (slot_of 30 v) * GIB + of_nat (slot_of 21 v) * HUGE_PAGE_SIZE = v AND NOT (mask 21)"
proof -
  let ?q = "unat v div 2 ^ 21"
  have q: "?q < 2 ^ 18" using assms by simp
  have "slot_of 30 v = ?q div 512"
  proof -
    have "unat v div 2 ^ 30 = ?q div 512" by (simp flip: div_mult2_eq)
    moreover have "?q div 512 < 512" using q by simp
    ultimately show ?thesis by (simp add: slot_of_div)
  qed
  moreover have "slot_of 21 v = ?q mod 512" by (simp add: slot_of_div)
  ultimately have "slot_of 30 v * 512 + slot_of 21 v = ?q" by simp
  moreover have "of_nat (slot_of 30 v) * GIB + of_nat (slot_of 21 v) * HUGE_PAGE_SIZE =
      of_nat (slot_of 30 v * 512 + slot_of 21 v) * (2 ^ 21 :: u64)"
    by (simp add: GIB_def HUGE_PAGE_SIZE_def algebra_simps)
  moreover have "(of_nat ?q :: u64) = drop_bit 21 v"
  proof (rule word_unat_eq_iff [THEN iffD2])
    have "?q < 2 ^ LENGTH(64)" using q by simp
    then show "unat (of_nat ?q :: u64) = unat (drop_bit 21 v)"
      unfolding unat_drop by (rule unat_of_nat_small)
  qed
  ultimately show ?thesis
    unfolding page_of_push by (simp add: push_bit_eq_mult)
qed

definition identity_flags :: "u64 \<Rightarrow> u64" where
  "identity_flags page =
     (if DEVICE_WINDOW \<le> page then PRESENT OR WRITABLE OR HUGE OR CACHE_DISABLE OR WRITE_THROUGH
      else PRESENT OR WRITABLE OR HUGE)"

lemma identity_entry_page:
  "identity_entry g i = (of_nat g * GIB + of_nat i * HUGE_PAGE_SIZE) OR
     identity_flags (of_nat g * GIB + of_nat i * HUGE_PAGE_SIZE)"
  by (simp add: identity_entry_def identity_flags_def Let_def or.assoc)

lemma identity_flags_bits:
  "identity_flags page AND PRESENT \<noteq> 0" "identity_flags page AND HUGE \<noteq> 0"
  "identity_flags page AND WRITABLE \<noteq> 0" "identity_flags page AND USER = 0"
  "identity_flags page AND CACHE_DISABLE \<noteq> 0 \<longleftrightarrow> DEVICE_WINDOW \<le> page"
  "identity_flags page AND ADDRESS_MASK = 0"
  by (auto simp: identity_flags_def flag_simps)

lemma masked_page:
  assumes "n \<le> 52" "unat v < 2 ^ 52"
  shows "(v AND NOT (mask n)) AND (ADDRESS_MASK AND NOT (mask n)) = v AND NOT (mask 12) AND NOT (mask n)"
proof (rule bit_word_eqI)
  fix k
  have "bit v k \<Longrightarrow> k < 52"
  proof -
    assume "bit v k"
    moreover have "v = take_bit 52 v"
    proof (rule word_unat_eq_iff [THEN iffD2])
      show "unat v = unat (take_bit 52 v)" unfolding unat_take using assms(2) by (simp only: mod_less)
    qed
    ultimately show "k < 52" by (metis bit_take_bit_iff)
  qed
  then show "bit ((v AND NOT (mask n)) AND (ADDRESS_MASK AND NOT (mask n))) k =
      bit (v AND NOT (mask 12) AND NOT (mask n)) k"
    by (auto simp: bit_and_iff bit_not_iff bit_mask_iff address_mask_bits dest: bit_imp_le_length)
qed

lemma wide_page: "12 \<le> n \<Longrightarrow> v AND NOT (mask 12) AND NOT (mask n) = v AND NOT (mask n :: u64)"
  by (rule bit_word_eqI) (auto simp: bit_and_iff bit_not_iff bit_mask_iff)

lemma page_no_flag: "f AND NOT (mask 21) = 0 \<Longrightarrow> (v AND NOT (mask 21)) AND f = (0 :: u64)"
  by (metis and.assoc and.commute and_zero_eq)

lemma or_and: "p AND f = 0 \<Longrightarrow> (p OR x) AND f = x AND (f :: u64)"
  by (simp add: bit.conj_disj_distrib2)

lemma low_flags:
  "PRESENT AND NOT (mask 21) = 0" "WRITABLE AND NOT (mask 21) = 0" "USER AND NOT (mask 21) = 0"
  "HUGE AND NOT (mask 21) = 0" "CACHE_DISABLE AND NOT (mask 21) = 0"
  by (simp_all add: flag_defs mask_eq_exp_minus_1)

text \<open>A multiple of a large page has no flag bit.\<close>

lemma page_user_bit: "(of_nat g * GIB + of_nat i * HUGE_PAGE_SIZE) AND USER = 0"
proof -
  have "of_nat g * GIB + of_nat i * HUGE_PAGE_SIZE = push_bit 21 (of_nat g * 512 + of_nat i :: u64)"
    by (simp add: GIB_def HUGE_PAGE_SIZE_def push_bit_eq_mult algebra_simps)
  moreover have "push_bit 21 x AND NOT (mask 21) = push_bit 21 (x :: u64)" for x
    by (rule bit_word_eqI) (auto simp: bit_and_iff bit_not_iff bit_mask_iff bit_push_bit_iff)
  ultimately show ?thesis using page_no_flag [OF low_flags(3)] by metis
qed

lemma unat_page: "unat (v AND NOT (mask 21) :: u64) = unat v div 2 ^ 21 * 2 ^ 21"
proof -
  have "unat v div 2 ^ 21 * 2 ^ 21 \<le> unat v" by simp
  also have "unat v < 2 ^ 64" using unsigned_less [of v] by simp
  finally have "unat v div 2 ^ 21 * 2 ^ 21 < 2 ^ LENGTH(64)" by simp
  moreover have two: "unat (2 ^ 21 :: u64) = 2 ^ 21" by simp
  ultimately have "unat (drop_bit 21 v) * unat (2 ^ 21 :: u64) < 2 ^ LENGTH(64)"
    by (simp only: unat_drop two)
  from unat_mult_small [OF this] show ?thesis
    unfolding page_of_push push_bit_eq_mult unat_drop two .
qed

lemma device_page: "DEVICE_WINDOW \<le> v AND NOT (mask 21) \<longleftrightarrow> DEVICE_WINDOW \<le> v"
proof -
  have d: "unat DEVICE_WINDOW = 1920 * 2 ^ 21" by (simp add: DEVICE_WINDOW_def)
  have "1920 * 2 ^ 21 \<le> unat v div 2 ^ 21 * 2 ^ 21 \<longleftrightarrow> 1920 \<le> unat v div 2 ^ 21"
    by (rule mult_le_cancel2 [THEN trans]) simp
  also have "\<dots> \<longleftrightarrow> 1920 * 2 ^ 21 \<le> unat v"
    by (rule less_eq_div_iff_mult_less_eq) simp
  finally show ?thesis unfolding word_le_nat_alt unat_page d .
qed

text \<open>An entry of the identity map translates its page to itself, for the supervisor.\<close>

lemma walk_identity_entry:
  assumes "unat v < 2 ^ 39" "w t (slot_of 21 v) = identity_entry (slot_of 30 v) (slot_of 21 v)"
  shows "walk_from w t [21, 12] v u wr =
     Some \<lparr>translated = v, by_user = False, by_write = wr, uncached = (DEVICE_WINDOW \<le> v)\<rparr>"
proof -
  define page where "page = v AND NOT (mask 21)"
  have e: "w t (slot_of 21 v) = page OR identity_flags page"
    unfolding assms(2) identity_entry_page identity_page [OF assms(1)] page_def ..
  have "unat v < 2 ^ 52" using assms(1) by simp
  then have "page AND (ADDRESS_MASK AND NOT (mask 21)) = page"
    unfolding page_def using masked_page [of 21 v] wide_page [of 21 v] by simp
  moreover have "identity_flags page AND (ADDRESS_MASK AND NOT (mask 21)) = 0"
    unfolding and.assoc [symmetric] identity_flags_bits(6) by simp
  ultimately have "(page OR identity_flags page) AND (ADDRESS_MASK AND NOT (mask 21)) = page"
    by (simp add: bit.conj_disj_distrib2)
  moreover have p0: "page AND f = 0" if "f AND NOT (mask 21) = 0" for f
    unfolding page_def using that by (rule page_no_flag)
  have "(page OR identity_flags page) AND PRESENT \<noteq> 0" "(page OR identity_flags page) AND HUGE \<noteq> 0"
    "(page OR identity_flags page) AND WRITABLE \<noteq> 0" "(page OR identity_flags page) AND USER = 0"
    "(page OR identity_flags page) AND CACHE_DISABLE \<noteq> 0 \<longleftrightarrow> DEVICE_WINDOW \<le> page"
    unfolding or_and [OF p0 [OF low_flags(1)]] or_and [OF p0 [OF low_flags(2)]]
      or_and [OF p0 [OF low_flags(3)]] or_and [OF p0 [OF low_flags(4)]] or_and [OF p0 [OF low_flags(5)]]
    by (rule identity_flags_bits)+
  moreover have "page OR (v AND mask 21) = v" unfolding page_def by (rule page_and_offset)
  moreover have "DEVICE_WINDOW \<le> page \<longleftrightarrow> DEVICE_WINDOW \<le> v" unfolding page_def by (rule device_page)
  ultimately show ?thesis
    by (simp add: e)
qed

lemma fill_directory_words:
  "words (fill_directory d g st) =
     (words st)(d := (\<lambda>i. if i < ENTRIES then identity_entry g i else words st d i))"
proof -
  have "words (fold (\<lambda>index. set_entry d index (identity_entry g index)) [0..<n] st) =
      (words st)(d := (\<lambda>i. if i < n then identity_entry g i else words st d i))" for n
    by (induction n) (auto simp: fun_eq_iff less_Suc_eq)
  then show ?thesis by (simp add: fill_directory_def)
qed

lemma fill_directory_frame [simp]:
  "mem_slot (fill_directory d g st) = mem_slot st" "cr3 (fill_directory d g st) = cr3 st"
  "pml4_physical (fill_directory d g st) = pml4_physical st"
  "device_windows (fill_directory d g st) = device_windows st"
  "device_window_count (fill_directory d g st) = device_window_count st"
  "taken_addresses (fill_directory d g st) = taken_addresses st"
  "frames_addressable (fill_directory d g st) = frames_addressable st"
proof -
  have "mem_slot (fold (\<lambda>index. set_entry d index (identity_entry g index)) is st) = mem_slot st \<and>
    cr3 (fold (\<lambda>index. set_entry d index (identity_entry g index)) is st) = cr3 st \<and>
    pml4_physical (fold (\<lambda>index. set_entry d index (identity_entry g index)) is st) = pml4_physical st \<and>
    device_windows (fold (\<lambda>index. set_entry d index (identity_entry g index)) is st) = device_windows st \<and>
    device_window_count (fold (\<lambda>index. set_entry d index (identity_entry g index)) is st) =
      device_window_count st" for "is"
    by (induction "is" arbitrary: st) simp_all
  then show "mem_slot (fill_directory d g st) = mem_slot st" "cr3 (fill_directory d g st) = cr3 st"
    "pml4_physical (fill_directory d g st) = pml4_physical st"
    "device_windows (fill_directory d g st) = device_windows st"
    "device_window_count (fill_directory d g st) = device_window_count st"
    by (simp_all add: fill_directory_def)
  then show "taken_addresses (fill_directory d g st) = taken_addresses st"
    "frames_addressable (fill_directory d g st) = frames_addressable st"
    by (simp_all add: taken_addresses_def frames_addressable_def)
qed

section \<open>The space \<open>init\<close> builds\<close>

lemma map_gibibytes_spec:
  assumes "frames_addressable st" "pdpt \<in> taken_addresses st" "distinct gs"
    and "map_gibibytes pdpt gs st = (True, st')"
  shows "\<exists>d. inj_on d (set gs) \<and> d ` set gs \<subseteq> taken_addresses st' - taken_addresses st \<and>
     (\<forall>g \<in> set gs. d g AND ADDRESS_MASK = d g \<and> words st' pdpt g = d g OR PRESENT OR WRITABLE \<and>
        (\<forall>i < ENTRIES. words st' (d g) i = identity_entry g i)) \<and>
     frames_addressable st' \<and> cr3 st' = cr3 st \<and> taken_addresses st \<subseteq> taken_addresses st' \<and>
     (\<forall>t \<in> taken_addresses st - {pdpt}. words st' t = words st t) \<and>
     (\<forall>j. j \<in> set gs \<or> words st' pdpt j = words st pdpt j)"
  using assms
proof (induction gs arbitrary: st)
  case Nil
  then show ?case by auto
next
  case (Cons g gs)
  obtain r st1 where a: "allocate_table st = (r, st1)" by (cases "allocate_table st")
  with Cons.prems(4) obtain n where r: "r = Some n" by (cases r) auto
  note f = allocate_table_fresh [OF a Cons.prems(1)]
  have n: "n \<notin> taken_addresses st" "taken_addresses st1 = insert n (taken_addresses st)"
    "words st1 = (words st)(n := (\<lambda>_. 0))" "n AND ADDRESS_MASK = n"
    using f(4) r by simp_all
  define st2 where "st2 = fill_directory n g (set_entry pdpt g (n OR PRESENT OR WRITABLE) st1)"
  have np: "n \<noteq> pdpt" using n(1) Cons.prems(2) by auto
  have w2: "words st2 pdpt = (words st pdpt)(g := n OR PRESENT OR WRITABLE)"
    "\<And>i. i < ENTRIES \<Longrightarrow> words st2 n i = identity_entry g i"
    "\<And>t. t \<noteq> n \<Longrightarrow> t \<noteq> pdpt \<Longrightarrow> words st2 t = words st t"
    using np by (auto simp: st2_def fill_directory_words n(3))
  have t2: "taken_addresses st2 = insert n (taken_addresses st)" "frames_addressable st2" "cr3 st2 = cr3 st"
    using n(2) f by (simp_all add: st2_def)
  have "map_gibibytes pdpt gs st2 = (True, st')" using Cons.prems(4) a r by (simp add: st2_def)
  moreover have "pdpt \<in> taken_addresses st2" using t2 Cons.prems(2) by simp
  moreover have "distinct gs" "g \<notin> set gs" using Cons.prems(3) by auto
  ultimately obtain d where d: "inj_on d (set gs)" "d ` set gs \<subseteq> taken_addresses st' - taken_addresses st2"
    "\<forall>g \<in> set gs. d g AND ADDRESS_MASK = d g \<and> words st' pdpt g = d g OR PRESENT OR WRITABLE \<and>
       (\<forall>i < ENTRIES. words st' (d g) i = identity_entry g i)"
    "frames_addressable st'" "cr3 st' = cr3 st2" "taken_addresses st2 \<subseteq> taken_addresses st'"
    "\<forall>t \<in> taken_addresses st2 - {pdpt}. words st' t = words st2 t"
    "\<forall>j. j \<in> set gs \<or> words st' pdpt j = words st2 pdpt j"
    using Cons.IH [OF t2(2)] by blast
  let ?d = "d(g := n)"
  have same: "?d g' = d g'" if "g' \<in> set gs" for g' using that \<open>g \<notin> set gs\<close> by auto
  have "words st' n = words st2 n" using d(7) t2(1) np by simp
  moreover have "words st' pdpt g = n OR PRESENT OR WRITABLE" using d(8) \<open>g \<notin> set gs\<close> w2(1) by (metis fun_upd_same)
  ultimately have "\<forall>g' \<in> set (g # gs). ?d g' AND ADDRESS_MASK = ?d g' \<and>
      words st' pdpt g' = ?d g' OR PRESENT OR WRITABLE \<and> (\<forall>i < ENTRIES. words st' (?d g') i = identity_entry g' i)"
    using d(3) w2(2) n(4) same by simp
  moreover have "inj_on ?d (set (g # gs))"
    using d(1,2) t2(1) \<open>g \<notin> set gs\<close> by (auto simp: inj_on_def)
  moreover have "?d ` set (g # gs) \<subseteq> taken_addresses st' - taken_addresses st"
    using d(2,6) t2(1) n(1) by auto
  moreover have "\<forall>t \<in> taken_addresses st - {pdpt}. words st' t = words st t"
  proof
    fix t assume t: "t \<in> taken_addresses st - {pdpt}"
    then have "t \<noteq> n" "t \<noteq> pdpt" using n(1) by auto
    moreover have "words st' t = words st2 t" using t d(7) t2(1) by simp
    ultimately show "words st' t = words st t" using w2(3) by simp
  qed
  moreover have "\<forall>j. j \<in> set (g # gs) \<or> words st' pdpt j = words st pdpt j"
    using d(8) w2(1) by auto
  moreover have "cr3 st' = cr3 st" "taken_addresses st \<subseteq> taken_addresses st'" using d(5,6) t2 by auto
  moreover note d(4)
  ultimately show ?case by - (intro exI [of _ ?d] conjI; assumption)
qed

text \<open>The two entries above a directory, as a walk meets them.\<close>

lemma table_entry_bits:
  assumes "t AND ADDRESS_MASK = t"
  shows "(t OR PRESENT OR WRITABLE) AND ADDRESS_MASK = t" "(t OR PRESENT OR WRITABLE) AND PRESENT \<noteq> 0"
    "(t OR PRESENT OR WRITABLE) AND WRITABLE \<noteq> 0" "(t OR PRESENT OR WRITABLE) AND USER = 0"
    "(t OR PRESENT OR WRITABLE) AND HUGE = 0"
  using assms by (simp_all add: flag_simps masked_flag)


lemma gibibytes_bounds:
  "4 \<le> unat (identity_gibibytes regions fb)" "unat (identity_gibibytes regions fb) \<le> 512"
proof -
  have h: "4 * GIB \<le> highest_of regions h" if "4 * GIB \<le> h" for h
    using that
    by (induction regions h rule: highest_of.induct) (simp_all add: Let_def le_max_iff_disj)
  define x where "x = max (highest_of regions (4 * GIB)) (min fb (MAX_GIB * GIB))"
  have "4 * GIB \<le> x" using h [of "4 * GIB"] by (simp add: x_def le_max_iff_disj)
  then have "unat (4 * GIB) \<le> unat x" by (simp only: word_le_nat_alt)
  then have "4 * 2 ^ 30 \<le> unat x" by (simp add: GIB_def)
  then have "4 \<le> unat x div 2 ^ 30" by (simp add: less_eq_div_iff_mult_less_eq)
  moreover have u: "unat (x div GIB) = unat x div 2 ^ 30" by (simp add: unat_div GIB_def)
  moreover have "unat (x div GIB + 1) = unat (x div GIB) + 1"
  proof -
    have "unat x < 2 ^ 64" using unsigned_less [of x] by simp
    then have "unat x div 2 ^ 30 < 2 ^ 34" by (simp add: div_less_iff_less_mult)
    then have "unat (x div GIB) + unat (1 :: u64) < 2 ^ LENGTH(64)" using u by simp
    from unat_add_small [OF this] show ?thesis by simp
  qed
  ultimately have "4 \<le> unat (word_div_ceil x GIB)" by (simp add: word_div_ceil_def)
  moreover have "identity_gibibytes regions fb = min (word_div_ceil x GIB) MAX_GIB"
    by (simp add: identity_gibibytes_def x_def Let_def)
  ultimately show "4 \<le> unat (identity_gibibytes regions fb)" "unat (identity_gibibytes regions fb) \<le> 512"
    by (auto simp: MAX_GIB_def min_def word_le_nat_alt)
qed

lemma map_gibibytes_cr3: "cr3 (snd (map_gibibytes pdpt gs st)) = cr3 st"
  by (induction pdpt gs st rule: map_gibibytes.induct)
    (auto dest: allocate_table_keeps split: prod.splits option.splits)

lemma map_gibibytes_windows:
  "device_windows (snd (map_gibibytes pdpt gs st)) = device_windows st \<and>
   device_window_count (snd (map_gibibytes pdpt gs st)) = device_window_count st"
  by (induction pdpt gs st rule: map_gibibytes.induct)
    (auto dest: allocate_table_keeps split: prod.splits option.splits)

lemma paging_init_windows:
  "paging_init regions fb st = (gib, st') \<Longrightarrow>
     device_windows st' = device_windows st \<and> device_window_count st' = device_window_count st"
proof -
  have k: "map_gibibytes pdpt gs st1 = (ok, st2) \<Longrightarrow> device_windows st2 = device_windows st1 \<and>
      device_window_count st2 = device_window_count st1" for pdpt gs st1 ok st2
    using map_gibibytes_windows [of pdpt gs st1] by simp
  show "paging_init regions fb st = (gib, st') \<Longrightarrow>
     device_windows st' = device_windows st \<and> device_window_count st' = device_window_count st"
    by (auto simp: paging_init_def Let_def dest!: allocate_table_keeps k
        split: prod.splits option.splits bool.splits)
qed

lemma paging_init_failure: "paging_init regions fb st = (0, st') \<Longrightarrow> cr3 st' = cr3 st"
proof -
  assume i: "paging_init regions fb st = (0, st')"
  have nz: "identity_gibibytes regions fb \<noteq> 0" using gibibytes_bounds(1) [of regions fb] by auto
  obtain r1 st1 where a: "allocate_table st = (r1, st1)" by (cases "allocate_table st")
  obtain r2 st2 where b: "allocate_table st1 = (r2, st2)" by (cases "allocate_table st1")
  have c: "cr3 st1 = cr3 st" "cr3 st2 = cr3 st" using allocate_table_keeps [OF a] allocate_table_keeps [OF b] by simp_all
  show ?thesis
  proof (cases "r1 = None \<or> r2 = None")
    case True
    with i a b c show ?thesis by (auto simp: paging_init_def Let_def split: option.splits)
  next
    case False
    then obtain pml4 pdpt where r: "r1 = Some pml4" "r2 = Some pdpt" by auto
    let ?s = "set_entry pml4 0 (pdpt OR PRESENT OR WRITABLE) st2"
    let ?gs = "[0..<unat (identity_gibibytes regions fb)]"
    obtain ok st3 where m: "map_gibibytes pdpt ?gs ?s = (ok, st3)" by (cases "map_gibibytes pdpt ?gs ?s")
    with map_gibibytes_cr3 [of pdpt ?gs ?s] c have "cr3 st3 = cr3 st" by simp
    with i a b r m nz show ?thesis by (cases ok) (auto simp: paging_init_def Let_def)
  qed
qed

text \<open>The tables of a successful \<open>init\<close>.\<close>

lemma paging_init_tables:
  assumes "frames_addressable st" "paging_init regions fb st = (gib, st')" "gib \<noteq> 0"
  obtains pml4 pdpt d where
    "gib = identity_gibibytes regions fb" "cr3 st' = pml4" "pml4_physical st' = pml4" "pml4 \<noteq> 0"
    "mapped_total st' = gib * GIB" "frames_addressable st'"
    "distinct [pml4, pdpt]" "inj_on d {..<unat gib}"
    "d ` {..<unat gib} \<inter> {pml4, pdpt} = {}" "{pml4, pdpt} \<union> d ` {..<unat gib} \<subseteq> taken_addresses st'"
    "pdpt AND ADDRESS_MASK = pdpt"
    "words st' pml4 = (\<lambda>_. 0)(0 := pdpt OR PRESENT OR WRITABLE)"
    "\<And>g. g < unat gib \<Longrightarrow> d g AND ADDRESS_MASK = d g \<and> words st' pdpt g = d g OR PRESENT OR WRITABLE"
    "\<And>g i. g < unat gib \<Longrightarrow> i < ENTRIES \<Longrightarrow> words st' (d g) i = identity_entry g i"
    "\<And>g. unat gib \<le> g \<Longrightarrow> words st' pdpt g = 0"
proof -
  let ?n = "unat (identity_gibibytes regions fb)"
  obtain r1 st1 where a: "allocate_table st = (r1, st1)" by (cases "allocate_table st")
  with assms(2,3) obtain pml4 where r1: "r1 = Some pml4" by (cases r1) (auto simp: paging_init_def Let_def)
  obtain r2 st2 where b: "allocate_table st1 = (r2, st2)" by (cases "allocate_table st1")
  with assms(2,3) a r1 obtain pdpt where r2: "r2 = Some pdpt"
    by (cases r2) (auto simp: paging_init_def Let_def)
  note f1 = allocate_table_fresh [OF a assms(1)]
  note f2 = allocate_table_fresh [OF b f1(1)]
  define s where "s = set_entry pml4 0 (pdpt OR PRESENT OR WRITABLE) st2"
  obtain ok st3 where m: "map_gibibytes pdpt [0..<?n] s = (ok, st3)" by (cases "map_gibibytes pdpt [0..<?n] s")
  have g: "ok" "gib = identity_gibibytes regions fb"
    "st' = st3\<lparr>pml4_physical := pml4, mapped_total := gib * GIB, cr3 := pml4\<rparr>"
    using assms(2,3) a b r1 r2 m by (cases ok; auto simp: paging_init_def Let_def s_def)+
  have p: "pml4 \<in> taken_addresses st1" "pml4 \<noteq> 0" "pdpt \<notin> taken_addresses st1" "pdpt AND ADDRESS_MASK = pdpt"
    "words st2 pdpt = (\<lambda>_. 0)" "taken_addresses st2 = insert pdpt (taken_addresses st1)"
    "words st1 pml4 = (\<lambda>_. 0)" "words st2 = (words st1)(pdpt := (\<lambda>_. 0))"
    using f1(4) f2(4) r1 r2 by simp_all
  then have ne: "pml4 \<noteq> pdpt" by auto
  have s: "frames_addressable s" "pdpt \<in> taken_addresses s" "pml4 \<in> taken_addresses s"
    "words s pml4 = (\<lambda>_. 0)(0 := pdpt OR PRESENT OR WRITABLE)" "words s pdpt = (\<lambda>_. 0)"
    using f2(1) p ne by (simp_all add: s_def)
  from map_gibibytes_spec [OF s(1,2) distinct_upt, of 0 ?n st3] m g(1)
  obtain d where d: "inj_on d (set [0..<?n])" "d ` set [0..<?n] \<subseteq> taken_addresses st3 - taken_addresses s"
    "\<forall>g \<in> set [0..<?n]. d g AND ADDRESS_MASK = d g \<and> words st3 pdpt g = d g OR PRESENT OR WRITABLE \<and>
       (\<forall>i < ENTRIES. words st3 (d g) i = identity_entry g i)"
    "frames_addressable st3" "taken_addresses s \<subseteq> taken_addresses st3"
    "\<forall>t \<in> taken_addresses s - {pdpt}. words st3 t = words s t"
    "\<forall>j. j \<in> set [0..<?n] \<or> words st3 pdpt j = words s pdpt j"
    by auto
  have t3: "taken_addresses st' = taken_addresses st3" "frames_addressable st'" "words st' = words st3"
    using d(4) by (simp_all add: g(3) taken_addresses_def frames_addressable_def)
  have "words st3 pml4 = words s pml4" using d(6) s(3) ne by simp
  moreover have "words st3 pdpt g = 0" if "?n \<le> g" for g
    using d(7) that s(5) by (metis atLeastLessThan_iff not_le set_upt)
  ultimately show ?thesis using d(1-5) s g p(2,4) ne t3
    by (intro that [of pml4 pdpt d]) (auto simp: atLeast0LessThan)
qed

lemma or_nonzero: "y AND f \<noteq> 0 \<Longrightarrow> (x OR y) AND (f :: u64) \<noteq> 0"
proof -
  assume "y AND f \<noteq> 0"
  then obtain n where "bit (y AND f) n" using bit_eqI [of "y AND f" 0] by auto
  then have "bit ((x OR y) AND f) n" by (simp add: bit_and_iff bit_or_iff)
  then show ?thesis by auto
qed

lemma init_tree:
  assumes "frames_addressable st" "paging_init regions fb st = (gib, st')" "gib \<noteq> 0" "slot \<noteq> 0"
  shows "\<exists>c. yard_tree slot c st'"
  using assms(1-3)
proof (cases rule: paging_init_tables)
  case (1 pml4 pdpt d)
  let ?dirs = "map_of (map (\<lambda>g. (d g, [0, g])) [0..<unat gib])"
  let ?c = "?dirs(pdpt \<mapsto> [0], pml4 \<mapsto> [])"
  have dir: "?dirs t = Some p \<Longrightarrow> \<exists>g < unat gib. t = d g \<and> p = [0, g]" for t p
    by (auto dest!: map_of_SomeD)
  have "distinct (map fst (map (\<lambda>g. (d g, [0, g])) [0..<unat gib]))"
    using 1(8) by (simp add: comp_def distinct_map atLeast0LessThan)
  then have dg: "?dirs (d g) = Some [0, g]" if "g < unat gib" for g
    using that by (intro map_of_is_SomeI) auto
  have ok: "entry_ok slot ?c p i (words st' t i)"
    if c: "?c t = Some p" "length p < 3" "i < ENTRIES" "words st' t i AND PRESENT \<noteq> 0" for t p i
  proof -
    consider (root) "t = pml4" | (pdpt) "t = pdpt" | (directory) "t \<noteq> pml4" "t \<noteq> pdpt" by blast
    then show ?thesis
    proof cases
      case root
      with c 1(12) have "p = []" "i = 0" by (auto split: if_splits)
      with root 1(7,12) table_entry_bits [OF 1(11)] assms(4) show ?thesis by (simp add: entry_ok_def)
    next
      case pdpt
      with c 1(7) have p: "p = [0]" by simp
      have i: "i < unat gib" using c(4) 1(15) pdpt by (cases "i < unat gib") auto
      then have "d i \<noteq> pml4" "d i \<noteq> pdpt" using 1(9) by auto
      with dg [OF i] have "?c (d i) = Some [0, i]" by simp
      with p pdpt 1(13) [OF i] table_entry_bits [of "d i"] assms(4) show ?thesis by (simp add: entry_ok_def)
    next
      case directory
      with c(1) dir [of t p] obtain g where g: "g < unat gib" "t = d g" "p = [0, g]" by auto
      with 1(14) c(3) have e: "words st' t i = identity_entry g i" by simp
      have "identity_entry g i AND HUGE \<noteq> 0" "identity_entry g i AND WRITABLE \<noteq> 0"
        unfolding identity_entry_page
        by (rule or_nonzero [OF identity_flags_bits(2)], rule or_nonzero [OF identity_flags_bits(3)])
      moreover have "identity_entry g i AND USER = 0"
        unfolding identity_entry_page or_and [OF page_user_bit] by (rule identity_flags_bits(4))
      ultimately show ?thesis using g assms(4) e by (simp add: entry_ok_def)
    qed
  qed
  have "dom ?dirs \<subseteq> d ` {..<unat gib}"
  proof
    fix x assume "x \<in> dom ?dirs"
    then obtain y where "?dirs x = Some y" by blast
    with dir [of x y] show "x \<in> d ` {..<unat gib}" by blast
  qed
  with 1(10) have "dom ?c \<subseteq> taken_addresses st'" by auto
  with ok 1 show ?thesis unfolding yard_tree_def by (intro exI [of _ ?c]) auto
qed

lemma init_identity:
  assumes "frames_addressable st" "paging_init regions fb st = (gib, st')"
  shows "if gib = 0 then cr3 st' = cr3 st
    else 4 \<le> unat gib \<and>
      (\<forall>v. unat v < 2 ^ 48 \<longrightarrow> walk st' v =
         (if unat v < unat gib * 2 ^ 30
          then Some \<lparr>translated = v, by_user = False, by_write = True, uncached = (DEVICE_WINDOW \<le> v)\<rparr>
          else None)) \<and>
      (\<exists>c. yard_tree (slot_of 39 YARD_BASE) c st')"
proof (cases "gib = 0")
  case True
  with paging_init_failure assms(2) show ?thesis by simp
next
  case gib: False
  have "slot_of 39 YARD_BASE \<noteq> 0" by (simp add: slot_of_div YARD_BASE_def)
  note tree = init_tree [OF assms gib this]
  from assms gib show ?thesis
  proof (cases rule: paging_init_tables)
    case (1 pml4 pdpt d)
    have n: "4 \<le> unat gib" "unat gib \<le> 512" using gibibytes_bounds [of regions fb] 1(1) by simp_all
    have "walk st' v = (if unat v < unat gib * 2 ^ 30
          then Some \<lparr>translated = v, by_user = False, by_write = True, uncached = (DEVICE_WINDOW \<le> v)\<rparr>
          else None)" if v: "unat v < 2 ^ 48" for v
    proof (cases "unat v < 2 ^ 39")
      case False
      then have "slot_of 39 v \<noteq> 0" using v by (simp add: slot_of_div div_eq_0_iff)
      moreover have "\<not> unat v < unat gib * 2 ^ 30"
      proof -
        have "unat gib * 2 ^ 30 \<le> 512 * 2 ^ 30" using n(2) by (rule mult_le_mono1)
        with False show ?thesis by simp
      qed
      ultimately show ?thesis using 1(2,12) by (simp add: walk_def levels_def)
    next
      case low: True
      then have s: "slot_of 39 v = 0" "slot_of 30 v = unat v div 2 ^ 30"
        using v by (simp_all add: slot_of_div div_eq_0_iff)
      have root: "walk st' v = walk_from (words st') pdpt [30, 21, 12] v False True"
        using 1(2,12) s(1) table_entry_bits [OF 1(11)] by (simp add: walk_def levels_def)
      show ?thesis
      proof (cases "unat v < unat gib * 2 ^ 30")
        case True
        then have g: "slot_of 30 v < unat gib" unfolding s(2) by (simp add: div_less_iff_less_mult)
        note e = 1(13) [OF g]
        have "walk_from (words st') pdpt [30, 21, 12] v False True =
            walk_from (words st') (d (slot_of 30 v)) [21, 12] v False True"
          using e table_entry_bits [of "d (slot_of 30 v)"] by simp
        note step = this
        have id: "walk_from (words st') (d (slot_of 30 v)) [21, 12] v False True =
            Some \<lparr>translated = v, by_user = False, by_write = True, uncached = (DEVICE_WINDOW \<le> v)\<rparr>"
          by (rule walk_identity_entry [OF low]) (rule 1(14) [OF g slot_of_less])
        show ?thesis unfolding root step id using True by simp
      next
        case False
        then have "unat gib \<le> slot_of 30 v" unfolding s(2) by (simp add: less_eq_div_iff_mult_less_eq)
        with root False 1(15) show ?thesis by simp
      qed
    qed
    with tree n(1) gib show ?thesis by simp
  qed
qed

text \<open>
  C27: \<open>init\<close> returns 0 and leaves CR3 alone, or it maps at least the low 4 GiB (the local APIC
  among them) to themselves for the supervisor only, uncached from the device window on, and no
  other address; the slot of the yard is still empty, ready for \<open>map_yard_page\<close>.
\<close>

theorem init_maps_identity:
  assumes "frames_addressable st" "paging_init regions fb st = (gib, st')"
  shows "if gib = 0 then cr3 st' = cr3 st
    else 4 \<le> unat gib \<and>
      (\<forall>v. unat v < 2 ^ 48 \<longrightarrow> walk st' v =
         (if unat v < unat gib * 2 ^ 30
          then Some \<lparr>translated = v, by_user = False, by_write = True, uncached = (DEVICE_WINDOW \<le> v)\<rparr>
          else None)) \<and>
      (\<exists>c. yard_tree (slot_of 39 YARD_BASE) c st')"
  using assms by (rule init_identity)

section \<open>Enough frames\<close>

text \<open>With frames to spare, every step succeeds.\<close>

definition spare :: "paging \<Rightarrow> nat \<Rightarrow> bool" where
  "spare st n \<longleftrightarrow> (\<exists>a. mem_slot st = Some a \<and> frames_wf a \<and> card (used_frames a) + n \<le> frames a)"

lemma spare_set_entry [simp]: "spare (set_entry t i e st) = spare st"
  by (simp add: spare_def fun_eq_iff)

lemma spare_fill [simp]: "spare (fill_directory d g st) = spare st"
  by (simp add: spare_def fun_eq_iff)

lemma spare_mono: "spare st n \<Longrightarrow> m \<le> n \<Longrightarrow> spare st m"
  by (auto simp: spare_def)

lemma allocate_table_succeeds:
  assumes "spare st (Suc n)"
  shows "\<exists>t st'. allocate_table st = (Some t, st') \<and> spare st' n"
proof -
  obtain a where a: "mem_slot st = Some a" "frames_wf a" "card (used_frames a) + Suc n \<le> frames a"
    using assms by (auto simp: spare_def)
  have fin: "finite (used_frames a)" by (simp add: used_frames_def)
  have "(0 :: nat) < 1" by simp
  with a(2) show ?thesis
  proof (cases rule: allocate_contiguous_cases)
    case (taken s)
    let ?t = "of_nat (frame_base a + s * PAGE_SIZE)"
    let ?st = "zero_frame ?t (st\<lparr>mem_slot := Some (taken_run a s 1)\<rparr>)"
    have "used_frames (taken_run a s 1) = insert s (used_frames a)"
      using used_taken_run [OF a(2) taken(1)] by auto
    then have "card (used_frames (taken_run a s 1)) + n \<le> frames (taken_run a s 1)"
      using a(3) fin by (simp add: card_insert_if state_simps)
    then have "spare ?st n"
      using taken_run_wf [OF a(2) taken(1)] by (auto simp: spare_def zero_frame_def)
    moreover have "allocate_table st = (Some ?t, ?st)"
      using taken(2) a(1) by (simp add: allocate_table_def allocate_frames_def)
    ultimately show ?thesis by blast
  next
    case full
    have "\<exists>f. f < frames a \<and> f \<notin> used_frames a"
    proof (rule ccontr)
      assume "\<not> ?thesis"
      then have "{..<frames a} \<subseteq> used_frames a" by auto
      from card_mono [OF fin this] a(3) show False by simp
    qed
    then obtain f where "f < frames a" "f \<notin> used_frames a" by blast
    then have "free_run a f 1" by (simp add: free_run_def)
    with full show ?thesis by blast
  qed
qed

lemma map_gibibytes_succeeds:
  "spare st (length gs + n) \<Longrightarrow> \<exists>st'. map_gibibytes pdpt gs st = (True, st') \<and> spare st' n"
proof (induction gs arbitrary: st)
  case Nil
  then show ?case by simp
next
  case (Cons g gs)
  then obtain d st1 where "allocate_table st = (Some d, st1)" "spare st1 (length gs + n)"
    using allocate_table_succeeds [of st "length gs + n"] by auto
  with Cons.IH [of "fill_directory d g (set_entry pdpt g (d OR PRESENT OR WRITABLE) st1)"]
  show ?case by simp
qed

lemma paging_init_succeeds:
  assumes "spare st (unat (identity_gibibytes regions fb) + n + 2)"
  shows "\<exists>st'. paging_init regions fb st = (identity_gibibytes regions fb, st') \<and> spare st' n"
proof -
  let ?k = "unat (identity_gibibytes regions fb)"
  have "spare st (Suc (Suc (?k + n)))" using assms by (simp add: spare_def)
  from allocate_table_succeeds [OF this] obtain pml4 st1
    where a: "allocate_table st = (Some pml4, st1)" "spare st1 (Suc (?k + n))" by blast
  from allocate_table_succeeds [OF a(2)] obtain pdpt st2
    where b: "allocate_table st1 = (Some pdpt, st2)" "spare st2 (?k + n)" by blast
  let ?s = "set_entry pml4 0 (pdpt OR PRESENT OR WRITABLE) st2"
  obtain st3 where "map_gibibytes pdpt [0..<?k] ?s = (True, st3)" "spare st3 n"
    using map_gibibytes_succeeds [of ?s "[0..<?k]" n pdpt] b(2) by auto
  with a b show ?thesis by (simp add: paging_init_def Let_def spare_def)
qed

lemma yard_path_succeeds:
  "spare st (length is + n) \<Longrightarrow> \<exists>t' st'. yard_path t is st = (Some t', st') \<and> spare st' n"
proof (induction "is" arbitrary: t st)
  case Nil
  then show ?case by simp
next
  case (Cons i rest)
  have "\<exists>n1 st1. yard_descend t i st = (Some n1, st1) \<and> spare st1 (length rest + n)"
  proof (cases "words st t i AND PRESENT = 0")
    case True
    obtain f st1 where "allocate_table st = (Some f, st1)" "spare st1 (length rest + n)"
      using allocate_table_succeeds [of st "length rest + n"] Cons.prems by auto
    with True show ?thesis by (simp add: yard_descend_def entry_def Let_def)
  next
    case False
    with Cons.prems show ?thesis
      by (auto simp: yard_descend_def entry_def Let_def elim: spare_mono)
  qed
  with Cons.IH show ?case by fastforce
qed

lemma map_yard_page_succeeds:
  assumes "pml4_physical st \<noteq> 0" "spare st (4 + n)"
  shows "\<exists>f st'. map_yard_page v wr st = (Some f, st') \<and> spare st' n"
proof -
  let ?is = "[slot_of 39 v, slot_of 30 v, slot_of 21 v]"
  obtain t st1 where p: "yard_path (pml4_physical st) ?is st = (Some t, st1)" "spare st1 (Suc n)"
    using yard_path_succeeds [OF spare_mono [OF assms(2)], of ?is "Suc n" "pml4_physical st"] by auto
  from allocate_table_succeeds [OF p(2)] obtain f st2
    where "allocate_table st1 = (Some f, st2)" "spare st2 n" by blast
  with p assms(1) show ?thesis by (simp add: map_yard_page_def Let_def)
qed

text \<open>A small machine: 64 frames at 1 MiB, and firmware memory that is all ones.\<close>

definition small_machine :: paging where
  "small_machine = paging_boot (Some (fst (mem_init [\<lparr>region_type = 7, physical_start = 0x100000, pages = 64\<rparr>])))
     (\<lambda>_ _. - 1) 0x1000"

lemma small_machine_ready: "frames_addressable small_machine" "spare small_machine 20"
proof -
  let ?a = "fst (mem_init [\<lparr>region_type = 7, physical_start = 0x100000, pages = 64\<rparr>])"
  have f: "frames ?a = 64" "frame_base ?a = 0x100000"
    by (simp_all add: mem_init_def fresh_allocator_def EFI_CONVENTIONAL_MEMORY_def Let_def state_simps)
  have "bitmap_frames 64 = 1"
    by (simp add: bitmap_frames_def bitmap_bytes_def div_ceil_def PAGE_SIZE_def)
  then have "used_frames ?a = {..<1}" using mem_init_used f(1) by metis
  with f mem_init_wf show "frames_addressable small_machine" "spare small_machine 20"
    by (simp_all add: frames_addressable_def spare_def small_machine_def paging_boot_def PAGE_SIZE_def)
qed

lemma small_machine_gibibytes: "identity_gibibytes [] 0 = 4"
  by (simp add: identity_gibibytes_def word_div_ceil_def GIB_def MAX_GIB_def Let_def)

theorem init_maps_identity_witness:
  "\<exists>st'. paging_init [] 0 small_machine = (4, st') \<and>
     walk st' 0xfee00000 = Some \<lparr>translated = 0xfee00000, by_user = False, by_write = True, uncached = True\<rparr> \<and>
     walk st' 0x100000000 = None"
proof -
  obtain st' where i: "paging_init [] 0 small_machine = (4, st')"
    using paging_init_succeeds [OF spare_mono [OF small_machine_ready(2)], of "[]" 0 0]
    by (auto simp: small_machine_gibibytes)
  with init_maps_identity [OF small_machine_ready(1) i] show ?thesis by (simp add: DEVICE_WINDOW_def)
qed

theorem yard_page_opens_one_page_witness:
  "\<exists>st frame st'. map_yard_page YARD_BASE True st = (Some frame, st') \<and>
     walk st' YARD_BASE = Some \<lparr>translated = frame, by_user = True, by_write = True, uncached = False\<rparr> \<and>
     walk st' 0x100000 = walk st 0x100000"
proof -
  obtain st where i: "paging_init [] 0 small_machine = (4, st)" "spare st 4"
    using paging_init_succeeds [OF spare_mono [OF small_machine_ready(2)], of "[]" 0 4]
    by (auto simp: small_machine_gibibytes)
  have nz: "slot_of 39 YARD_BASE \<noteq> 0" by (simp add: slot_of_div YARD_BASE_def)
  obtain c where c: "yard_tree (slot_of 39 YARD_BASE) c st"
    using init_tree [OF small_machine_ready(1) i(1) _ nz] by auto
  then have "pml4_physical st \<noteq> 0" by (auto simp: yard_tree_def)
  then obtain frame st' where m: "map_yard_page YARD_BASE True st = (Some frame, st')"
    using map_yard_page_succeeds [of st 0 YARD_BASE True] i(2) by auto
  have "indices 0x100000 \<noteq> indices YARD_BASE"
    by (simp add: indices_def levels_def slot_of_div YARD_BASE_def)
  moreover have "YARD_BASE AND mask 12 = 0" by (simp add: YARD_BASE_def mask_eq_exp_minus_1)
  ultimately show ?thesis
    using yard_page_opens_one_page [OF c refl, of True] m
    by (intro exI [of _ st] exI [of _ frame] exI [of _ st']) auto
qed

end
