(* ===== verification/Mmio.thy ===== *)
theory Mmio
  imports Paging_Laws
begin

text \<open>
  Checked access to physical memory (\<open>nawa/core/src/mmio.rs\<close>), and what the check is worth:
  the histories of the address space (\<open>init\<close>, then yard pages and device windows in any order)
  as a step relation, with the invariant that every byte the check admits translates to itself.
  Memory is a function from addresses to bytes; a device that changes its registers on its own is
  another such function between two accesses.
\<close>

unbundle bit_operations_syntax

section \<open>Access\<close>

type_synonym memory = "u64 \<Rightarrow> byte"

definition in_range :: "paging \<Rightarrow> u64 \<Rightarrow> nat \<Rightarrow> bool" where
  "in_range st address len =
     (case checked_add address (of_nat len) of
        None \<Rightarrow> False
      | Some range_end \<Rightarrow> range_end \<le> mapped_total st \<or> in_device_window st address len)"

text \<open>The bytes at an address, and memory with bytes written there.\<close>

definition peek :: "memory \<Rightarrow> u64 \<Rightarrow> nat \<Rightarrow> byte list" where
  "peek m address len = map (\<lambda>i. m (address + of_nat i)) [0..<len]"

definition poke :: "memory \<Rightarrow> u64 \<Rightarrow> byte list \<Rightarrow> memory" where
  "poke m address bytes =
     (\<lambda>a. if unat (a - address) < length bytes then bytes ! unat (a - address) else m a)"

definition read8 :: "paging \<Rightarrow> memory \<Rightarrow> u64 \<Rightarrow> byte" where
  "read8 st m address = (if \<not> in_range st address 1 then 0 else m address)"

definition read16 :: "paging \<Rightarrow> memory \<Rightarrow> u64 \<Rightarrow> u16" where
  "read16 st m address = (if \<not> in_range st address 2 then 0 else from_le_bytes (peek m address 2))"

definition read32 :: "paging \<Rightarrow> memory \<Rightarrow> u64 \<Rightarrow> u32" where
  "read32 st m address = (if \<not> in_range st address 4 then 0 else from_le_bytes (peek m address 4))"

definition write8 :: "paging \<Rightarrow> u64 \<Rightarrow> byte \<Rightarrow> memory \<Rightarrow> memory" where
  "write8 st address v m = (if in_range st address 1 then poke m address [v] else m)"

definition write16 :: "paging \<Rightarrow> u64 \<Rightarrow> u16 \<Rightarrow> memory \<Rightarrow> memory" where
  "write16 st address v m = (if in_range st address 2 then poke m address (to_le_bytes v) else m)"

definition write32 :: "paging \<Rightarrow> u64 \<Rightarrow> u32 \<Rightarrow> memory \<Rightarrow> memory" where
  "write32 st address v m = (if in_range st address 4 then poke m address (to_le_bytes v) else m)"

definition read_into :: "paging \<Rightarrow> memory \<Rightarrow> u64 \<Rightarrow> byte list \<Rightarrow> byte list" where
  "read_into st m address out =
     (if \<not> in_range st address (length out) then out else peek m address (length out))"

definition write_from :: "paging \<Rightarrow> u64 \<Rightarrow> byte list \<Rightarrow> memory \<Rightarrow> memory" where
  "write_from st address bytes m =
     (if \<not> in_range st address (length bytes) then m else poke m address bytes)"

definition zero_range :: "paging \<Rightarrow> u64 \<Rightarrow> nat \<Rightarrow> memory \<Rightarrow> memory" where
  "zero_range st address len m =
     (if \<not> in_range st address len then m else poke m address (replicate len 0))"

text \<open>
  A \<open>repr(C)\<close> value is the bytes of its layout; \<open>read_struct\<close> takes the reader of the
  layout, its size and the default.
\<close>

definition write_struct :: "paging \<Rightarrow> u64 \<Rightarrow> byte list \<Rightarrow> memory \<Rightarrow> memory" where
  "write_struct st address layout m =
     (if \<not> in_range st address (length layout) then m else poke m address layout)"

definition read_struct :: "paging \<Rightarrow> memory \<Rightarrow> u64 \<Rightarrow> nat \<Rightarrow> (byte list \<Rightarrow> 'a) \<Rightarrow> 'a \<Rightarrow> 'a" where
  "read_struct st m address len reader dflt =
     (if \<not> in_range st address len then dflt else reader (peek m address len))"

section \<open>What is written is what is read\<close>

lemma length_peek [simp]: "length (peek m a n) = n"
  by (simp add: peek_def)

lemma peek_poke_same:
  assumes "length bytes < 2 ^ 64"
  shows "peek (poke m a bytes) a (length bytes) = bytes"
proof (rule nth_equalityI)
  fix i assume "i < length (peek (poke m a bytes) a (length bytes))"
  then have i: "i < length bytes" by simp
  with assms have "unat (of_nat i :: u64) = i" by (intro unat_of_nat_small) simp
  with i show "peek (poke m a bytes) a (length bytes) ! i = bytes ! i"
    by (simp add: peek_def poke_def)
qed simp

lemma poke_elsewhere: "length bytes \<le> unat (x - a) \<Longrightarrow> poke m a bytes x = m x"
  by (simp add: poke_def)

lemma mmio_refused:
  assumes "\<not> in_range st a (length bytes)"
  shows "write_from st a bytes m = m" "read_into st m a bytes = bytes"
  using assms by (simp_all add: write_from_def read_into_def)

lemma mmio_round_trip:
  assumes "in_range st a (length bytes)" "length bytes < 2 ^ 64" "length out = length bytes"
  shows "read_into st (write_from st a bytes m) a out = bytes"
    "length bytes \<le> unat (x - a) \<Longrightarrow> write_from st a bytes m x = m x"
  using assms by (simp_all add: read_into_def write_from_def peek_poke_same poke_elsewhere)

lemma word_access_round_trip:
  "in_range st a 2 \<Longrightarrow> read16 st (write16 st a v m) a = v"
  "in_range st a 4 \<Longrightarrow> read32 st (write32 st a w m) a = w"
  using peek_poke_same [of "to_le_bytes v" m a] peek_poke_same [of "to_le_bytes w" m a]
  by (simp_all add: read16_def write16_def read32_def write32_def)

section \<open>What a device window translates to\<close>

text \<open>The number of the large page an address lies in.\<close>

definition page_number :: "u64 \<Rightarrow> nat" where
  "page_number v = unat v div 2 ^ 21"

lemma page_number_slots:
  "slot_of 39 v = (page_number v div 512 div 512) mod 512"
  "slot_of 30 v = (page_number v div 512) mod 512"
  "slot_of 21 v = page_number v mod 512"
  by (simp_all add: slot_of_div page_number_def flip: div_mult2_eq)

lemma page_number_indices:
  assumes "unat v < 2 ^ 48" "unat v' < 2 ^ 48"
  shows "take 3 (indices v) = take 3 (indices v') \<longleftrightarrow> page_number v = page_number v'"
proof
  assume "take 3 (indices v) = take 3 (indices v')"
  then have "slot_of 39 v = slot_of 39 v'" "slot_of 30 v = slot_of 30 v'" "slot_of 21 v = slot_of 21 v'"
    by (simp_all add: indices_def levels_def)
  moreover have "page_number v div 512 div 512 < 512" "page_number v' div 512 div 512 < 512"
    using assms by (simp_all add: page_number_def div_less_iff_less_mult)
  ultimately have "page_number v div 512 div 512 = page_number v' div 512 div 512"
    "(page_number v div 512) mod 512 = (page_number v' div 512) mod 512"
    "page_number v mod 512 = page_number v' mod 512"
    by (simp_all add: page_number_slots)
  then show "page_number v = page_number v'" by (metis div_mult_mod_eq)
next
  assume "page_number v = page_number v'"
  then show "take 3 (indices v) = take 3 (indices v')"
    by (simp add: indices_def levels_def page_number_slots)
qed

lemma page_start:
  assumes "unat page = page_number v * 2 ^ 21"
  shows "v AND NOT (mask 21) = page"
  by (rule word_unat_eq_iff [THEN iffD2]) (simp only: assms unat_page page_number_def)

text \<open>An entry of a path only the supervisor takes.\<close>

definition supervisor_entry :: "nat list \<Rightarrow> u64 \<Rightarrow> u64 \<Rightarrow> bool" where
  "supervisor_entry p e n \<longleftrightarrow> e AND PRESENT \<noteq> 0 \<and> e AND WRITABLE \<noteq> 0 \<and> e AND USER = 0 \<and>
     (p = [] \<or> e AND HUGE = 0) \<and> e AND ADDRESS_MASK = n"

lemma device_descend_statics:
  "device_descend t i st = (r, st') \<Longrightarrow> same_statics st st'"
  by (auto simp: device_descend_def Let_def same_statics_def dest: allocate_table_keeps
      split: prod.splits option.splits if_splits)

lemma device_descend_spec:
  assumes "yard_tree slot c st" "c t = Some p" "length p < 2" "i < ENTRIES" "hd (p @ [i]) \<noteq> slot"
    and "device_descend t i st = (r, st')"
  shows "case r of None \<Rightarrow> yard_tree slot c st' \<and> walk st' = walk st
    | Some n \<Rightarrow> \<exists>c'. yard_tree slot c' st' \<and> c' n = Some (p @ [i]) \<and> c \<subseteq>\<^sub>m c' \<and> walk st' = walk st \<and>
        supervisor_entry p (words st' t i) n \<and>
        (\<forall>t'. c t' \<noteq> None \<and> t' \<noteq> t \<longrightarrow> words st' t' = words st t')"
proof (cases "words st t i AND PRESENT = 0")
  case absent: True
  obtain r1 st1 where a: "allocate_table st = (r1, st1)" by (cases "allocate_table st")
  show ?thesis
  proof (cases r1)
    case None
    with absent assms(6) a have "r = None" "st' = st1" by (simp_all add: device_descend_def entry_def Let_def)
    with tree_after_failure [OF assms(1)] a None show ?thesis by simp
  next
    case (Some n)
    let ?link = "n OR PRESENT OR WRITABLE"
    have r: "r = Some n" "st' = set_entry t i ?link st1"
      using absent assms(6) a Some by (simp_all add: device_descend_def entry_def Let_def)
    have "frames_addressable st" using assms(1) by (simp add: yard_tree_def)
    from allocate_table_fresh(4) [OF a this] Some have "n AND ADDRESS_MASK = n" by simp
    note bits = table_entry_bits [OF this]
    have u: "?link AND USER \<noteq> 0 \<longleftrightarrow> hd (p @ [i]) = slot" using bits(4) assms(5) by simp
    have three: "length p < 3" using assms(3) by simp
    note link = tree_link [OF assms(1,2) three assms(4) absent a [unfolded Some] bits(1,5,3) u]
    show ?thesis
      unfolding r option.case
      by (intro exI [of _ "c(n \<mapsto> p @ [i])"] conjI)
        (use link bits in \<open>auto simp: supervisor_entry_def\<close>)
  qed
next
  case present: False
  have "entry_ok slot c p i (words st t i)"
    using assms(1-4) present unfolding yard_tree_def by auto
  with assms(3,5) have "supervisor_entry p (words st t i) (words st t i AND ADDRESS_MASK)"
    "c (words st t i AND ADDRESS_MASK) = Some (p @ [i])"
    using present by (auto simp: entry_ok_def supervisor_entry_def split: if_splits)
  moreover have "r = Some (words st t i AND ADDRESS_MASK)" "st' = st"
    using present assms(6) by (auto simp: device_descend_def entry_def Let_def)
  ultimately show ?thesis using assms(1) by (auto intro!: exI [of _ c])
qed

definition device_entry :: "u64 \<Rightarrow> u64" where
  "device_entry page = page OR PRESENT OR WRITABLE OR HUGE OR CACHE_DISABLE OR WRITE_THROUGH"

lemma device_entry_bits:
  assumes "page AND NOT (mask 21) = page"
  shows "device_entry page AND PRESENT \<noteq> 0" "device_entry page AND WRITABLE \<noteq> 0"
    "device_entry page AND HUGE \<noteq> 0" "device_entry page AND CACHE_DISABLE \<noteq> 0"
    "device_entry page AND USER = 0"
proof -
  have p0: "page AND f = 0" if "f AND NOT (mask 21) = 0" for f
    using page_no_flag [OF that, of page] by (simp add: assms)
  show "device_entry page AND PRESENT \<noteq> 0" "device_entry page AND WRITABLE \<noteq> 0"
    "device_entry page AND HUGE \<noteq> 0" "device_entry page AND CACHE_DISABLE \<noteq> 0"
    "device_entry page AND USER = 0"
    unfolding device_entry_def or_and [OF p0 [OF low_flags(1)]] or_and [OF p0 [OF low_flags(2)]]
      or_and [OF p0 [OF low_flags(3)]] or_and [OF p0 [OF low_flags(4)]] or_and [OF p0 [OF low_flags(5)]]
    by (simp_all add: flag_defs)
qed

lemma device_entry_address:
  assumes "page AND NOT (mask 21) = page" "unat page < 2 ^ 52"
  shows "device_entry page AND (ADDRESS_MASK AND NOT (mask 21)) = page"
proof -
  have "page AND (ADDRESS_MASK AND NOT (mask 21)) = page"
    using masked_page [of 21 page] wide_page [of 21 page] assms by simp
  moreover have "(PRESENT OR WRITABLE OR HUGE OR CACHE_DISABLE OR WRITE_THROUGH) AND
      (ADDRESS_MASK AND NOT (mask 21)) = 0"
    by (simp add: flag_defs ADDRESS_MASK_def mask_eq_exp_minus_1)
  ultimately show ?thesis by (simp add: device_entry_def bit.conj_disj_distrib2)
qed

text \<open>The translation a device page gets: itself, for the supervisor, uncached.\<close>

definition device_translation :: "u64 \<Rightarrow> translation" where
  "device_translation v = \<lparr>translated = v, by_user = False, by_write = True, uncached = True\<rparr>"

lemma walk_device_page:
  assumes "supervisor_entry [] (w t0 (slot_of 39 v)) t1" "supervisor_entry [slot_of 39 v] (w t1 (slot_of 30 v)) t2"
    and "w t2 (slot_of 21 v) = device_entry page" "v AND NOT (mask 21) = page" "unat page < 2 ^ 52"
  shows "walk_from w t0 levels v True True = Some (device_translation v)"
proof -
  have p: "page AND NOT (mask 21) = page" using assms(4) by (metis and.assoc and.idem)
  have "page OR (v AND mask 21) = v" using page_and_offset [of v 21] assms(4) by simp
  with assms(1-3) device_entry_bits [OF p] device_entry_address [OF p assms(5)] show ?thesis
    by (simp add: levels_def supervisor_entry_def Let_def device_translation_def)
qed

lemma map_device_page_spec:
  assumes "yard_tree slot c st" "slot_of 39 page \<noteq> slot"
    and "unat page = page_number page * 2 ^ 21" "unat page < 2 ^ 48"
    and "map_device_page page st = (ok, st')"
  shows "(\<exists>c'. yard_tree slot c' st') \<and>
     (\<forall>v. unat v < 2 ^ 48 \<longrightarrow> walk st' v =
        (if ok \<and> page_number v = page_number page then Some (device_translation v) else walk st v))"
proof -
  let ?i = "slot_of 39 page" and ?j = "slot_of 30 page" and ?k = "slot_of 21 page"
  have root: "c (cr3 st) = Some []" "pml4_physical st = cr3 st" using assms(1) by (simp_all add: yard_tree_def)
  obtain r1 st1 where d1: "device_descend (cr3 st) ?i st = (r1, st1)" by (cases "device_descend (cr3 st) ?i st")
  note one = device_descend_spec [OF assms(1) root(1) _ slot_of_less _ d1, simplified, OF assms(2)]
  show ?thesis
  proof (cases r1)
    case None
    with one assms(5) d1 root(2) show ?thesis by (auto simp: map_device_page_def)
  next
    case (Some t1)
    with one obtain c1 where c1: "yard_tree slot c1 st1" "c1 t1 = Some [?i]" "c \<subseteq>\<^sub>m c1" "walk st1 = walk st"
      "supervisor_entry [] (words st1 (cr3 st) ?i) t1" by auto
    obtain r2 st2 where d2: "device_descend t1 ?j st1 = (r2, st2)" by (cases "device_descend t1 ?j st1")
    note two = device_descend_spec [OF c1(1,2) _ slot_of_less _ d2, simplified, OF assms(2)]
    show ?thesis
    proof (cases r2)
      case None
      with two assms(5) d1 d2 root(2) Some c1(4) show ?thesis by (auto simp: map_device_page_def)
    next
      case r2: (Some t2)
      with two obtain c2 where c2: "yard_tree slot c2 st2" "c2 t2 = Some [?i, ?j]" "c1 \<subseteq>\<^sub>m c2" "walk st2 = walk st1"
        "supervisor_entry [?i] (words st2 t1 ?j) t2"
        "\<forall>t'. c1 t' \<noteq> None \<and> t' \<noteq> t1 \<longrightarrow> words st2 t' = words st1 t'" by auto
      have res: "ok" "st' = set_entry t2 ?k (device_entry page) st2"
        using assms(5) d1 d2 root(2) Some r2 by (simp_all add: map_device_page_def device_entry_def)
      have cr: "cr3 st2 = cr3 st" "cr3 st' = cr3 st"
        using device_descend_statics [OF d1] device_descend_statics [OF d2] by (simp_all add: same_statics_def res)
      have r1c: "c1 (cr3 st) = Some []" using root(1) c1(3) by (auto simp: map_le_def dom_def)
      have r2c: "c2 (cr3 st) = Some []" "c2 t1 = Some [?i]" using r1c c1(2) c2(3) by (auto simp: map_le_def dom_def)
      have ne: "cr3 st \<noteq> t1" "cr3 st \<noteq> t2" "t1 \<noteq> t2" using r2c c2(2) by auto
      have e: "words st' (cr3 st) ?i = words st1 (cr3 st) ?i" "words st' t1 ?j = words st2 t1 ?j"
        "words st' t2 ?k = device_entry page"
        using ne c2(6) r1c by (simp_all add: res)
      have aligned: "page AND NOT (mask 21) = page" using assms(3) by (rule page_start)
      have "yard_tree slot c2 st'"
      proof -
        have "entry_ok slot c2 p i (words st' t i)"
          if "c2 t = Some p" "length p < 3" "i < ENTRIES" "words st' t i AND PRESENT \<noteq> 0" for t p i
        proof (cases "t = t2 \<and> i = ?k")
          case True
          then have "p = [?i, ?j]" using that(1) c2(2) by simp
          with True e(3) device_entry_bits [OF aligned] assms(2) show ?thesis by (simp add: entry_ok_def)
        next
          case False
          then have "words st' t i = words st2 t i" by (auto simp: res)
          with that c2(1) show ?thesis by (simp add: yard_tree_def)
        qed
        with c2(1) show ?thesis by (simp add: yard_tree_def res)
      qed
      moreover have "walk st' v = (if page_number v = page_number page then Some (device_translation v) else walk st v)"
        if v: "unat v < 2 ^ 48" for v
      proof (cases "page_number v = page_number page")
        case True
        then have "v AND NOT (mask 21) = page" using assms(3) by (intro page_start) simp
        moreover have "slot_of 39 v = ?i" "slot_of 30 v = ?j" "slot_of 21 v = ?k"
          using True by (simp_all add: page_number_slots)
        ultimately show ?thesis
          using True c1(5) c2(5) e assms(4) walk_device_page [of "words st'" "cr3 st" v t1 t2 page]
          by (simp add: walk_def cr)
      next
        case False
        then have "take 3 (indices v) \<noteq> take 3 (indices page)" using page_number_indices [OF v assms(4)] by simp
        then have i: "[?i, ?j] @ [?k] \<noteq> take (length [?i, ?j] + 1) (indices v)"
          by (simp add: indices_def levels_def eq_commute)
        have "words st' t i = words st2 t i" if "c2 t \<noteq> None" "\<not> (t = t2 \<and> i = ?k)" for t i
          using that by (auto simp: res)
        from walk_leaf [OF c2(1,2) this i r2c(1), of levels True True] False c1(4) c2(4)
        show ?thesis by (simp add: walk_def cr fun_eq_iff)
      qed
      ultimately show ?thesis using res(1) by auto
    qed
  qed
qed

text \<open>The large pages a device's registers touch.\<close>

definition device_pages :: "u64 \<Rightarrow> nat \<Rightarrow> nat set" where
  "device_pages physical len = {unat physical div 2 ^ 21..<div_ceil (unat physical + len) (2 ^ 21)}"

lemma page_number_page: "unat page = n * 2 ^ 21 \<Longrightarrow> page_number page = n"
  by (simp add: page_number_def)

lemma next_page:
  assumes "unat page = n * 2 ^ 21" "(n + 1) * 2 ^ 21 \<le> 2 ^ 48"
  shows "unat (page + HUGE_PAGE_SIZE) = (n + 1) * 2 ^ 21"
proof -
  have h: "unat HUGE_PAGE_SIZE = 2 ^ 21" by (simp add: HUGE_PAGE_SIZE_def)
  have "unat page + unat HUGE_PAGE_SIZE < 2 ^ LENGTH(64)" using assms h by simp
  from unat_add_small [OF this] show ?thesis using assms(1) h by simp
qed

lemma map_device_page_statics: "map_device_page page st = (ok, st') \<Longrightarrow> same_statics st st'"
  by (auto simp: map_device_page_def same_statics_def split: prod.splits option.splits
      dest!: device_descend_statics)

text \<open>The loop ends, and it maps the pages from the first to the limit, or stops at one it cannot.\<close>

lemma map_device_pages_spec:
  assumes "yard_tree slot c st" "unat page = n * 2 ^ 21" "unat limit = (n + k) * 2 ^ 21"
    and "(n + k) * 2 ^ 21 \<le> 2 ^ 48"
    and "\<And>v. page_number v \<in> {n..<n + k} \<Longrightarrow> slot_of 39 v \<noteq> slot"
  shows "\<exists>ok st'. map_device_pages page limit st = Some (ok, st') \<and> same_statics st st' \<and>
     (\<exists>c'. yard_tree slot c' st') \<and>
     (\<forall>v. unat v < 2 ^ 48 \<longrightarrow>
        (ok \<and> page_number v \<in> {n..<n + k} \<longrightarrow> walk st' v = Some (device_translation v)) \<and>
        (walk st' v = walk st v \<or> page_number v \<in> {n..<n + k} \<and> walk st' v = Some (device_translation v)))"
  using assms
proof (induction k arbitrary: n page st c)
  case 0
  then have "\<not> page < limit" by (simp add: word_less_nat_alt)
  with 0 show ?case by (auto simp: map_device_pages.simps [of page] same_statics_def)
next
  case (Suc k)
  have lt: "page < limit" using Suc.prems(2,3) by (simp add: word_less_nat_alt)
  have "(n + 1) * 2 ^ 21 \<le> (n + Suc k) * 2 ^ 21" by (rule mult_le_mono1) simp
  then have bound: "(n + 1) * 2 ^ 21 \<le> 2 ^ 48" using Suc.prems(4) by (rule order.trans)
  then have small: "unat page < 2 ^ 48" using Suc.prems(2) by simp
  have pn: "page_number page = n" using Suc.prems(2) by (rule page_number_page)
  have sl: "slot_of 39 page \<noteq> slot" using Suc.prems(5) [of page] pn by simp
  obtain ok st1 where one: "map_device_page page st = (ok, st1)" by (cases "map_device_page page st")
  have "unat page = page_number page * 2 ^ 21" using Suc.prems(2) pn by simp
  note step = map_device_page_spec [OF Suc.prems(1) sl this small one, unfolded pn]
  note st1 = map_device_page_statics [OF one]
  show ?case
  proof (cases ok)
    case False
    with one lt have "map_device_pages page limit st = Some (False, st1)"
      by (simp add: map_device_pages.simps [of page])
    with step st1 False show ?thesis by auto
  next
    case True
    with one lt have m: "map_device_pages page limit st = map_device_pages (page + HUGE_PAGE_SIZE) limit st1"
      by (simp add: map_device_pages.simps [of page])
    from step obtain c1 where c1: "yard_tree slot c1 st1" by blast
    have w1: "walk st1 v = (if page_number v = n then Some (device_translation v) else walk st v)"
      if "unat v < 2 ^ 48" for v using step True that by simp
    have "unat limit = (n + 1 + k) * 2 ^ 21" "(n + 1 + k) * 2 ^ 21 \<le> 2 ^ 48"
      using Suc.prems(3,4) by simp_all
    from Suc.IH [OF c1 next_page [OF Suc.prems(2) bound] this] Suc.prems(5)
    obtain ok' st' where ih: "map_device_pages (page + HUGE_PAGE_SIZE) limit st1 = Some (ok', st')"
      "same_statics st1 st'" "\<exists>c'. yard_tree slot c' st'"
      "\<And>v. unat v < 2 ^ 48 \<Longrightarrow>
        (ok' \<and> page_number v \<in> {n + 1..<n + 1 + k} \<longrightarrow> walk st' v = Some (device_translation v)) \<and>
        (walk st' v = walk st1 v \<or>
         page_number v \<in> {n + 1..<n + 1 + k} \<and> walk st' v = Some (device_translation v))"
      by auto
    have "(ok' \<and> page_number v \<in> {n..<n + Suc k} \<longrightarrow> walk st' v = Some (device_translation v)) \<and>
        (walk st' v = walk st v \<or> page_number v \<in> {n..<n + Suc k} \<and> walk st' v = Some (device_translation v))"
      if v: "unat v < 2 ^ 48" for v
      using ih(4) [OF v] w1 [OF v] by (cases "page_number v = n") auto
    with ih(1-3) m st1 show ?thesis by (auto simp: same_statics_def)
  qed
qed

lemma word_div_ceil_unat:
  assumes "unat a < 2 ^ 63" "0 < unat b"
  shows "unat (word_div_ceil a b) = div_ceil (unat a) (unat b)"
proof -
  have "unat (a div b) \<le> unat a" by (simp add: unat_div)
  then have "unat (a div b) + unat (1 :: u64) < 2 ^ LENGTH(64)" using assms(1) by simp
  from unat_add_small [OF this] have "unat (a div b + 1) = unat a div unat b + 1" by (simp add: unat_div)
  moreover have "a mod b = 0 \<longleftrightarrow> unat a mod unat b = 0" by (simp add: unat_eq_zero flip: unat_mod)
  ultimately show ?thesis by (simp add: word_div_ceil_def div_ceil_def unat_div)
qed

lemma device_range:
  assumes "unat physical + len \<le> 2 ^ 47" "checked_add physical (of_nat len) = Some e"
  shows "unat e = unat physical + len"
    "unat (physical AND NOT (HUGE_PAGE_SIZE - 1)) = unat physical div 2 ^ 21 * 2 ^ 21"
    "unat (word_div_ceil e HUGE_PAGE_SIZE * HUGE_PAGE_SIZE) = div_ceil (unat physical + len) (2 ^ 21) * 2 ^ 21"
    "div_ceil (unat physical + len) (2 ^ 21) * 2 ^ 21 \<le> 2 ^ 48"
proof -
  have l: "unat (of_nat len :: u64) = len" using assms(1) by (intro unat_of_nat_small) simp
  show e: "unat e = unat physical + len" using checked_add_Some [OF assms(2)] unfolding l by (rule conjunct1)
  have m: "HUGE_PAGE_SIZE - 1 = mask 21" by (simp add: HUGE_PAGE_SIZE_def mask_eq_exp_minus_1)
  show "unat (physical AND NOT (HUGE_PAGE_SIZE - 1)) = unat physical div 2 ^ 21 * 2 ^ 21"
    unfolding m by (rule unat_page)
  have h: "unat HUGE_PAGE_SIZE = 2 ^ 21" by (simp add: HUGE_PAGE_SIZE_def)
  have "unat e < 2 ^ 63" using e assms(1) by simp
  from word_div_ceil_unat [OF this, of HUGE_PAGE_SIZE] h
  have d: "unat (word_div_ceil e HUGE_PAGE_SIZE) = div_ceil (unat physical + len) (2 ^ 21)" by (simp add: e)
  have "div_ceil (unat physical + len) (2 ^ 21) \<le> (unat physical + len) div 2 ^ 21 + 1"
    by (simp add: div_ceil_def)
  also have "(unat physical + len) div 2 ^ 21 \<le> 2 ^ 47 div 2 ^ 21" using assms(1) by (rule div_le_mono)
  finally have "div_ceil (unat physical + len) (2 ^ 21) \<le> 2 ^ 47 div 2 ^ 21 + 1" by simp
  then have "div_ceil (unat physical + len) (2 ^ 21) * 2 ^ 21 \<le> (2 ^ 47 div 2 ^ 21 + 1) * 2 ^ 21"
    by (rule mult_le_mono1)
  then show b: "div_ceil (unat physical + len) (2 ^ 21) * 2 ^ 21 \<le> 2 ^ 48" by simp
  have "unat (word_div_ceil e HUGE_PAGE_SIZE) * unat HUGE_PAGE_SIZE < 2 ^ LENGTH(64)"
    using b d h by simp
  from unat_mult_small [OF this]
  show "unat (word_div_ceil e HUGE_PAGE_SIZE * HUGE_PAGE_SIZE) = div_ceil (unat physical + len) (2 ^ 21) * 2 ^ 21"
    using d h by simp
qed

lemma div_ceil_ge_div: "0 < b \<Longrightarrow> a \<le> a' \<Longrightarrow> a div b \<le> div_ceil a' b"
  using div_le_mono [of a a' b] by (auto simp: div_ceil_def)

text \<open>What \<open>map_device\<close> leaves, for a range in the lower half of the address space.\<close>

lemma map_device_spec:
  assumes "yard_tree slot c st" "unat physical + len \<le> 2 ^ 47"
    and "\<And>v. page_number v \<in> device_pages physical len \<Longrightarrow> slot_of 39 v \<noteq> slot"
  shows "\<exists>ok st'. map_device physical len st = Some (ok, st') \<and> (\<exists>c'. yard_tree slot c' st') \<and>
     cr3 st' = cr3 st \<and> mapped_total st' = mapped_total st \<and>
     (device_windows st', device_window_count st') =
       (if ok \<and> device_window_count st < MAX_DEVICE_WINDOWS
        then ((device_windows st)[device_window_count st :=
                (physical AND NOT (HUGE_PAGE_SIZE - 1),
                 word_div_ceil (physical + of_nat len) HUGE_PAGE_SIZE * HUGE_PAGE_SIZE)],
              device_window_count st + 1)
        else (device_windows st, device_window_count st)) \<and>
     (\<forall>v. unat v < 2 ^ 48 \<longrightarrow>
        (ok \<and> page_number v \<in> device_pages physical len \<longrightarrow> walk st' v = Some (device_translation v)) \<and>
        (walk st' v = walk st v \<or>
         page_number v \<in> device_pages physical len \<and> walk st' v = Some (device_translation v)))"
proof (cases "len = 0")
  case True
  with assms(1) show ?thesis by (auto simp: map_device_def)
next
  case False
  have p: "pml4_physical st \<noteq> 0" using assms(1) by (auto simp: yard_tree_def)
  have l: "unat (of_nat len :: u64) = len" using assms(2) by (intro unat_of_nat_small) simp
  then have ca: "checked_add physical (of_nat len) = Some (physical + of_nat len)"
    using assms(2) by (simp add: checked_add_def)
  note rg = device_range [OF assms(2) ca]
  let ?n = "unat physical div 2 ^ 21" and ?m = "div_ceil (unat physical + len) (2 ^ 21)"
  let ?start = "physical AND NOT (HUGE_PAGE_SIZE - 1)"
  let ?limit = "word_div_ceil (physical + of_nat len) HUGE_PAGE_SIZE * HUGE_PAGE_SIZE"
  have nm: "?n \<le> ?m" by (rule div_ceil_ge_div) simp_all
  then have k: "?n + (?m - ?n) = ?m" by simp
  have "\<exists>ok st'. map_device_pages ?start ?limit st = Some (ok, st') \<and> same_statics st st' \<and>
     (\<exists>c'. yard_tree slot c' st') \<and>
     (\<forall>v. unat v < 2 ^ 48 \<longrightarrow>
        (ok \<and> page_number v \<in> {?n..<?m} \<longrightarrow> walk st' v = Some (device_translation v)) \<and>
        (walk st' v = walk st v \<or> page_number v \<in> {?n..<?m} \<and> walk st' v = Some (device_translation v)))"
    using map_device_pages_spec [OF assms(1) rg(2), of ?limit "?m - ?n", unfolded k, OF rg(3,4)] assms(3)
    by (simp add: device_pages_def)
  then obtain ok st1 where m: "map_device_pages ?start ?limit st = Some (ok, st1)" "same_statics st st1"
    "\<exists>c'. yard_tree slot c' st1"
    "\<forall>v. unat v < 2 ^ 48 \<longrightarrow>
        (ok \<and> page_number v \<in> device_pages physical len \<longrightarrow> walk st1 v = Some (device_translation v)) \<and>
        (walk st1 v = walk st v \<or>
         page_number v \<in> device_pages physical len \<and> walk st1 v = Some (device_translation v))"
    unfolding device_pages_def by blast
  let ?st2 = "st1\<lparr>device_windows := (device_windows st1)[device_window_count st1 := (?start, ?limit)],
    device_window_count := device_window_count st1 + 1\<rparr>"
  have t2: "yard_tree slot c' ?st2 = yard_tree slot c' st1" "walk ?st2 = walk st1" for c'
    by (simp_all add: yard_tree_def frames_addressable_def taken_addresses_def walk_def fun_eq_iff)
  show ?thesis
  proof (cases ok)
    case False
    with m(1) p \<open>len \<noteq> 0\<close> ca have "map_device physical len st = Some (False, st1)"
      by (simp add: map_device_def Let_def)
    with m(2-4) False show ?thesis by (auto simp: same_statics_def)
  next
    case True
    with m(1) p \<open>len \<noteq> 0\<close> ca have "map_device physical len st =
        Some (True, if device_window_count st1 < MAX_DEVICE_WINDOWS then ?st2 else st1)"
      by (simp add: map_device_def Let_def)
    with m(2-4) True t2 show ?thesis by (auto simp: same_statics_def)
  qed
qed

section \<open>Histories of the address space\<close>

definition yard_slot :: nat where "yard_slot = slot_of 39 YARD_BASE"

definition clear_of_yard :: "u64 \<Rightarrow> nat \<Rightarrow> bool" where
  "clear_of_yard physical len \<longleftrightarrow> unat physical + len \<le> 2 ^ 47 \<and>
     (\<forall>v. page_number v \<in> device_pages physical len \<longrightarrow> slot_of 39 v \<noteq> yard_slot)"

inductive paging_step :: "paging \<Rightarrow> paging \<Rightarrow> bool" where
  step_yard: "slot_of 39 v = yard_slot \<Longrightarrow> map_yard_page v writable st = (r, st') \<Longrightarrow> paging_step st st'"
| step_device: "clear_of_yard physical len \<Longrightarrow> map_device physical len st = Some (ok, st') \<Longrightarrow>
    paging_step st st'"

inductive paging_reachable :: "paging \<Rightarrow> bool" where
  reach_init: "frames_addressable (paging_boot slot memory firmware_cr3) \<Longrightarrow>
    paging_init regions fb (paging_boot slot memory firmware_cr3) = (gib, st) \<Longrightarrow> gib \<noteq> 0 \<Longrightarrow>
    paging_reachable st"
| reach_step: "paging_reachable st \<Longrightarrow> paging_step st st' \<Longrightarrow> paging_reachable st'"

text \<open>The addresses the check may admit, and what the tables do with them.\<close>

definition admitted :: "paging \<Rightarrow> u64 \<Rightarrow> bool" where
  "admitted st v \<longleftrightarrow> v < mapped_total st \<or>
     (\<exists>w \<in> set (take (device_window_count st) (device_windows st)). fst w \<le> v \<and> v < snd w)"

definition maps_itself :: "paging \<Rightarrow> u64 \<Rightarrow> bool" where
  "maps_itself st v \<longleftrightarrow>
     (\<exists>u. walk st v = Some \<lparr>translated = v, by_user = False, by_write = True, uncached = u\<rparr>)"

definition windows_wf :: "paging \<Rightarrow> bool" where
  "windows_wf st \<longleftrightarrow> (\<exists>c. yard_tree yard_slot c st) \<and>
     length (device_windows st) = MAX_DEVICE_WINDOWS \<and> device_window_count st \<le> MAX_DEVICE_WINDOWS \<and>
     (\<forall>v. admitted st v \<longrightarrow> unat v < 2 ^ 48 \<and> slot_of 39 v \<noteq> yard_slot \<and> maps_itself st v)"

lemma yard_slot_pos: "yard_slot \<noteq> 0"
  by (simp add: yard_slot_def slot_of_div YARD_BASE_def)

lemma windows_wf_init:
  assumes "frames_addressable (paging_boot slot memory cr)"
    and "paging_init regions fb (paging_boot slot memory cr) = (gib, st)" "gib \<noteq> 0"
  shows "windows_wf st"
proof -
  have gib: "gib = identity_gibibytes regions fb" "mapped_total st = gib * GIB"
    using paging_init_tables [OF assms] by metis+
  have statics: "device_windows st = replicate MAX_DEVICE_WINDOWS (0, 0) \<and> device_window_count st = 0"
    using paging_init_windows [OF assms(2)] by (simp add: paging_boot_def)
  have n: "unat gib \<le> 512" using gibibytes_bounds(2) gib(1) by simp
  have "unat gib * 2 ^ 30 \<le> 512 * 2 ^ 30" using n by (rule mult_le_mono1)
  then have small: "unat gib * 2 ^ 30 \<le> 2 ^ 39" by simp
  have "unat GIB = 2 ^ 30" by (simp add: GIB_def)
  moreover from this small have "unat gib * unat GIB < 2 ^ LENGTH(64)" by simp
  ultimately have total: "unat (mapped_total st) = unat gib * 2 ^ 30"
    using unat_mult_small [of gib GIB] gib(2) by simp
  have main: "(\<forall>v. unat v < 2 ^ 48 \<longrightarrow> walk st v =
       (if unat v < unat gib * 2 ^ 30
        then Some \<lparr>translated = v, by_user = False, by_write = True, uncached = (DEVICE_WINDOW \<le> v)\<rparr>
        else None)) \<and> (\<exists>c. yard_tree yard_slot c st)"
    using init_identity [OF assms(1,2)] assms(3) by (simp add: yard_slot_def)
  have "unat v < 2 ^ 48 \<and> slot_of 39 v \<noteq> yard_slot \<and> maps_itself st v" if "admitted st v" for v
  proof -
    have v: "unat v < unat gib * 2 ^ 30"
      using that statics total by (simp add: admitted_def word_less_nat_alt)
    from less_le_trans [OF v small] have low: "unat v < 2 ^ 39" .
    then have "unat v < 2 ^ 48" by simp
    have "slot_of 39 v = 0" using low by (simp add: slot_of_div)
    with main v \<open>unat v < 2 ^ 48\<close> yard_slot_pos show ?thesis by (simp add: maps_itself_def)
  qed
  with main statics show ?thesis by (auto simp: windows_wf_def)
qed

lemma windows_wf_yard:
  assumes "windows_wf st" "slot_of 39 v = yard_slot" "map_yard_page v writable st = (r, st')"
  shows "windows_wf st'"
proof -
  obtain c where c: "yard_tree yard_slot c st" using assms(1) by (auto simp: windows_wf_def)
  note page = yard_page_translation [OF c assms(2), of writable]
  have tree: "\<exists>c'. yard_tree yard_slot c' st'" using page assms(3) by (cases r) auto
  have same: "walk st' v' = walk st v'" if "indices v' \<noteq> indices v" for v'
    using page assms(3) that by (cases r) auto
  note st = map_yard_page_statics [OF assms(3)]
  have "admitted st' v' = admitted st v'" for v' using st by (simp add: admitted_def same_statics_def)
  moreover have "indices v' \<noteq> indices v" if "slot_of 39 v' \<noteq> yard_slot" for v'
    using that assms(2) by (auto simp: indices_def levels_def)
  ultimately show ?thesis
    using assms(1) tree same st by (auto simp: windows_wf_def maps_itself_def same_statics_def)
qed

lemma windows_wf_device:
  assumes "windows_wf st" "clear_of_yard physical len" "map_device physical len st = Some (ok, st')"
  shows "windows_wf st'"
proof -
  obtain c where c: "yard_tree yard_slot c st" using assms(1) by (auto simp: windows_wf_def)
  have b: "unat physical + len \<le> 2 ^ 47" using assms(2) by (simp add: clear_of_yard_def)
  have cl: "page_number v \<in> device_pages physical len \<Longrightarrow> slot_of 39 v \<noteq> yard_slot" for v
    using assms(2) by (simp add: clear_of_yard_def)
  let ?start = "physical AND NOT (HUGE_PAGE_SIZE - 1)"
  let ?limit = "word_div_ceil (physical + of_nat len) HUGE_PAGE_SIZE * HUGE_PAGE_SIZE"
  from map_device_spec [OF c b cl] assms(3)
  have tree: "\<exists>c'. yard_tree yard_slot c' st'" and total: "mapped_total st' = mapped_total st"
    and win: "(device_windows st', device_window_count st') =
       (if ok \<and> device_window_count st < MAX_DEVICE_WINDOWS
        then ((device_windows st)[device_window_count st := (?start, ?limit)], device_window_count st + 1)
        else (device_windows st, device_window_count st))"
    and walk: "\<And>v. unat v < 2 ^ 48 \<Longrightarrow>
        (ok \<and> page_number v \<in> device_pages physical len \<longrightarrow> walk st' v = Some (device_translation v)) \<and>
        (walk st' v = walk st v \<or>
         page_number v \<in> device_pages physical len \<and> walk st' v = Some (device_translation v))"
    by auto
  have l: "unat (of_nat len :: u64) = len" using b by (intro unat_of_nat_small) simp
  then have ca: "checked_add physical (of_nat len) = Some (physical + of_nat len)"
    using b by (simp add: checked_add_def)
  note rg = device_range [OF b ca]
  have new: "page_number v \<in> device_pages physical len \<and> unat v < 2 ^ 48" if "?start \<le> v" "v < ?limit" for v
  proof -
    have lo: "unat physical div 2 ^ 21 * 2 ^ 21 \<le> unat v" using that(1) rg(2) by (simp only: word_le_nat_alt)
    have hi: "unat v < div_ceil (unat physical + len) (2 ^ 21) * 2 ^ 21"
      using that(2) rg(3) by (simp only: word_less_nat_alt)
    have "unat physical div 2 ^ 21 \<le> page_number v"
      using lo by (simp add: page_number_def less_eq_div_iff_mult_less_eq)
    moreover have "page_number v < div_ceil (unat physical + len) (2 ^ 21)"
      using hi by (simp add: page_number_def div_less_iff_less_mult)
    ultimately show ?thesis using hi rg(4) by (simp add: device_pages_def)
  qed
  have itself: "maps_itself st' v" if "unat v < 2 ^ 48" "maps_itself st v \<or> ok \<and> page_number v \<in> device_pages physical len" for v
    using walk [OF that(1)] that(2) by (auto simp: maps_itself_def device_translation_def)
  have old: "admitted st' v \<Longrightarrow> admitted st v \<or> ok \<and> ?start \<le> v \<and> v < ?limit" for v
  proof -
    assume a: "admitted st' v"
    show ?thesis
    proof (cases "ok \<and> device_window_count st < MAX_DEVICE_WINDOWS")
      case True
      with win have w: "device_windows st' = (device_windows st)[device_window_count st := (?start, ?limit)]"
        "device_window_count st' = device_window_count st + 1" by simp_all
      have "device_window_count st < length (device_windows st)"
        using True assms(1) by (simp add: windows_wf_def)
      then have "take (device_window_count st') (device_windows st') =
          take (device_window_count st) (device_windows st) @ [(?start, ?limit)]"
        by (simp add: w take_Suc_conv_app_nth)
      with a True total show ?thesis by (auto simp: admitted_def)
    next
      case False
      with win have "device_windows st' = device_windows st" "device_window_count st' = device_window_count st"
        by auto
      with a total show ?thesis by (simp add: admitted_def)
    qed
  qed
  have "unat v < 2 ^ 48 \<and> slot_of 39 v \<noteq> yard_slot \<and> maps_itself st' v" if "admitted st' v" for v
    using old [OF that]
  proof
    assume "admitted st v"
    then have "unat v < 2 ^ 48" "slot_of 39 v \<noteq> yard_slot" "maps_itself st v"
      using assms(1) by (auto simp: windows_wf_def)
    with itself show ?thesis by simp
  next
    assume "ok \<and> ?start \<le> v \<and> v < ?limit"
    with new [of v] have "page_number v \<in> device_pages physical len" "unat v < 2 ^ 48" ok by auto
    with itself cl show ?thesis by simp
  qed
  moreover have "length (device_windows st') = MAX_DEVICE_WINDOWS" "device_window_count st' \<le> MAX_DEVICE_WINDOWS"
    using win assms(1) by (auto simp: windows_wf_def split: if_splits)
  ultimately show ?thesis using tree by (simp add: windows_wf_def)
qed

lemma reachable_windows_wf: "paging_reachable st \<Longrightarrow> windows_wf st"
  by (induction rule: paging_reachable.induct)
    (auto elim!: paging_step.cases intro: windows_wf_init windows_wf_yard windows_wf_device)

lemma in_range_admits:
  assumes "in_range st a len" "i < len" "len < 2 ^ 64"
  shows "admitted st (a + of_nat i)"
proof -
  have l: "unat (of_nat len :: u64) = len" "unat (of_nat i :: u64) = i"
    using assms(2,3) by (auto intro!: unat_of_nat_small)
  obtain e where e: "checked_add a (of_nat len) = Some e"
    using assms(1) by (auto simp: in_range_def split: option.splits)
  have ue: "unat e = unat a + len" using checked_add_Some [OF e] unfolding l by (rule conjunct1)
  have "unat e < 2 ^ 64" using unsigned_less [of e] by simp
  then have "unat a + unat (of_nat i :: u64) < 2 ^ LENGTH(64)"
    using ue assms(2) l by simp
  from unat_add_small [OF this] have u: "unat (a + of_nat i) = unat a + i" using l by simp
  then have "a \<le> a + of_nat i" "a + of_nat i < e" using ue assms(2) by (simp_all add: word_le_nat_alt word_less_nat_alt)
  moreover have "e \<le> mapped_total st \<or> (\<exists>w \<in> set (take (device_window_count st) (device_windows st)). fst w \<le> a \<and> e \<le> snd w)"
    using assms(1) e by (simp add: in_range_def in_device_window_def)
  ultimately show ?thesis unfolding admitted_def by (meson less_le_trans order_trans)
qed



text \<open>
  A device beyond the eighth is mapped, and \<open>map_device\<close> returns true for it, but its window is
  not recorded, so the checked accesses go on refusing its registers.
\<close>

lemma ninth_window_unrecorded:
  assumes "windows_wf st" "clear_of_yard physical len" "map_device physical len st = Some (ok, st')"
    and "device_window_count st = MAX_DEVICE_WINDOWS"
  shows "in_range st' a n = in_range st a n"
proof -
  obtain c where c: "yard_tree yard_slot c st" using assms(1) by (auto simp: windows_wf_def)
  have "device_windows st' = device_windows st \<and> device_window_count st' = device_window_count st \<and>
      mapped_total st' = mapped_total st"
    using map_device_spec [OF c, of physical len] assms(2-4) by (auto simp: clear_of_yard_def)
  then show ?thesis by (simp add: in_range_def in_device_window_def split: option.split)
qed

text \<open>
  The table indices ignore the bits of an address from 48 on: the entries \<open>map_device\<close> writes for
  a register range at or above \<open>2 ^ 48\<close> are those of the range 48 bits below.
\<close>

lemma high_device_aliases:
  assumes "unat v < 2 ^ 48" "s \<in> {39, 30, 21}"
  shows "slot_of s (v + 2 ^ 48) = slot_of s v"
proof -
  have "unat v + unat (2 ^ 48 :: u64) < 2 ^ LENGTH(64)" using assms(1) by simp
  from unat_add_small [OF this] have u: "unat (v + 2 ^ 48) = unat v + 2 ^ 48" by simp
  have wrap: "(unat v + 2 ^ 48) div 2 ^ s mod 512 = unat v div 2 ^ s mod 512"
    if "(2 :: nat) ^ 48 = 512 * m * 2 ^ s" for m s :: nat
    unfolding that by (simp only: div_mult_self1 power_not_zero mod_mult_self4 zero_neq_numeral not_False_eq_True)
  consider "s = 39" | "s = 30" | "s = 21" using assms(2) by blast
  then have "(unat v + 2 ^ 48) div 2 ^ s mod 512 = unat v div 2 ^ s mod 512"
  proof cases
    case 1
    show ?thesis unfolding 1 by (rule wrap [of 1]) simp
  next
    case 2
    show ?thesis unfolding 2 by (rule wrap [of 512]) simp
  next
    case 3
    show ?thesis unfolding 3 by (rule wrap [of "512 * 512"]) simp
  qed
  then show ?thesis unfolding slot_of_div u .
qed

end
