(* ===== verification/Storage.thy ===== *)
theory Storage
  imports Prelude
begin

text \<open>
  The trait \<open>Sectors\<close> of \<open>libs/journal/src/lib.rs\<close>, through which the journal
  and the partition reader see a disk. A trait object is a record of its methods over the
  device's state \<open>'d\<close>; a method that takes \<open>&mut self\<close> returns the new state, and
  \<open>read\<close>, which fills a caller's buffer, takes the buffer and returns it. The locale
  \<open>sector_store\<close> is the contract the clients rely on: a read that reports success
  delivers the sector, a write that reports success replaces exactly that sector, and a
  write that reports failure has either happened or not. A device may serve sectors beyond the
  count it reports: the kernel's \<open>Disk\<close> does. \<open>reliable_store\<close> adds that requests inside the
  reported count succeed. Every law is about 512-byte buffers, the only ones the
  code passes. \<open>window\<close> is \<open>libs/gpt\<close>'s \<open>Window\<close>, the view of one
  partition; it satisfies the contract again (\<open>partition_window\<close>). \<open>ram\<close> is the
  in-memory disk of the two crates' tests.
\<close>

definition SECTOR_BYTES :: nat where "SECTOR_BYTES = 512"

record 'd sectors =
  sec_count :: "'d \<Rightarrow> u64"
  sec_read :: "'d \<Rightarrow> u64 \<Rightarrow> byte list \<Rightarrow> 'd \<times> byte list \<times> bool"
  sec_write :: "'d \<Rightarrow> u64 \<Rightarrow> byte list \<Rightarrow> 'd \<times> bool"
  sec_flush :: "'d \<Rightarrow> 'd \<times> bool"

definition zero_sector :: "byte list" where
  "zero_sector = replicate SECTOR_BYTES 0"

lemma length_zero_sector [simp]: "length zero_sector = 512"
  by (simp add: zero_sector_def SECTOR_BYTES_def)

section \<open>The contract\<close>

locale sector_store =
  fixes D :: "'d sectors" and valid :: "'d \<Rightarrow> bool" and content :: "'d \<Rightarrow> u64 \<Rightarrow> byte list"
  assumes content_len: "valid d \<Longrightarrow> s < sec_count D d \<Longrightarrow> length (content d s) = 512"
    and read_frame: "valid d \<Longrightarrow> length buf = 512 \<Longrightarrow> sec_read D d s buf = (d', buf', ok) \<Longrightarrow>
      valid d' \<and> content d' = content d \<and> sec_count D d' = sec_count D d \<and> length buf' = 512"
    and read_ok: "valid d \<Longrightarrow> length buf = 512 \<Longrightarrow> sec_read D d s buf = (d', buf', True) \<Longrightarrow>
      buf' = content d s"
    and write_frame: "valid d \<Longrightarrow> length x = 512 \<Longrightarrow> sec_write D d s x = (d', ok) \<Longrightarrow>
      valid d' \<and> sec_count D d' = sec_count D d"
    and write_ok: "valid d \<Longrightarrow> length x = 512 \<Longrightarrow> sec_write D d s x = (d', True) \<Longrightarrow>
      content d' = (content d)(s := x)"
    and write_fail: "valid d \<Longrightarrow> length x = 512 \<Longrightarrow> sec_write D d s x = (d', False) \<Longrightarrow>
      content d' = content d \<or> content d' = (content d)(s := x)"
    and flush_frame: "valid d \<Longrightarrow> sec_flush D d = (d', ok) \<Longrightarrow>
      valid d' \<and> content d' = content d \<and> sec_count D d' = sec_count D d"
begin

lemma read_cases:
  assumes "valid d" "length buf = 512" "sec_read D d s buf = (d', buf', b)" "b"
  shows "buf' = content d s"
  using read_ok [OF assms(1,2), of s d' buf'] assms(3,4) by simp_all

lemma write_cases:
  assumes "valid d" "length x = 512" "sec_write D d s x = (d', b)"
  shows "b \<Longrightarrow> content d' = (content d)(s := x)"
    and "content d' = content d \<or> content d' = (content d)(s := x)"
proof -
  note facts = write_ok [OF assms(1,2), of s d'] write_fail [OF assms(1,2), of s d'] assms(3)
  show "b \<Longrightarrow> content d' = (content d)(s := x)" using facts by simp
  show "content d' = content d \<or> content d' = (content d)(s := x)"
    using facts by (cases b) auto
qed

end

locale reliable_store = sector_store +
  assumes read_total: "valid d \<Longrightarrow> length buf = 512 \<Longrightarrow> s < sec_count D d \<Longrightarrow>
      snd (snd (sec_read D d s buf))"
    and write_total: "valid d \<Longrightarrow> length x = 512 \<Longrightarrow> s < sec_count D d \<Longrightarrow>
      snd (sec_write D d s x)"
begin

lemma read_in:
  assumes "valid d" "length buf = 512" "s < sec_count D d"
  obtains d' where "sec_read D d s buf = (d', content d s, True)" "valid d'"
    "content d' = content d" "sec_count D d' = sec_count D d"
proof -
  obtain d' buf' ok where r: "sec_read D d s buf = (d', buf', ok)" by (metis prod_cases3)
  with read_total [OF assms] have "ok" by simp
  with r read_ok [OF assms(1,2)] read_frame [OF assms(1,2) r] that show thesis by auto
qed

lemma write_in:
  assumes "valid d" "length x = 512" "s < sec_count D d"
  obtains d' where "sec_write D d s x = (d', True)" "valid d'"
    "content d' = (content d)(s := x)" "sec_count D d' = sec_count D d"
proof -
  obtain d' ok where r: "sec_write D d s x = (d', ok)" by (metis surj_pair)
  with write_total [OF assms] have "ok" by simp
  with r write_ok [OF assms(1,2)] write_frame [OF assms(1,2) r] that show thesis by auto
qed

end

section \<open>A window onto a partition\<close>

record 'd window =
  w_storage :: 'd
  w_first :: u64
  w_count :: u64

definition window_read ::
  "'d sectors \<Rightarrow> 'd window \<Rightarrow> u64 \<Rightarrow> byte list \<Rightarrow> 'd window \<times> byte list \<times> bool" where
  "window_read D w sector out =
     (if sector < w_count w then
        (let (d', out', ok) = sec_read D (w_storage w) (w_first w + sector) out
         in (w\<lparr>w_storage := d'\<rparr>, out', ok))
      else (w, out, False))"

definition window_write ::
  "'d sectors \<Rightarrow> 'd window \<Rightarrow> u64 \<Rightarrow> byte list \<Rightarrow> 'd window \<times> bool" where
  "window_write D w sector bytes =
     (if sector < w_count w then
        (let (d', ok) = sec_write D (w_storage w) (w_first w + sector) bytes
         in (w\<lparr>w_storage := d'\<rparr>, ok))
      else (w, False))"

definition window_flush :: "'d sectors \<Rightarrow> 'd window \<Rightarrow> 'd window \<times> bool" where
  "window_flush D w =
     (let (d', ok) = sec_flush D (w_storage w) in (w\<lparr>w_storage := d'\<rparr>, ok))"

definition window_sectors :: "'d sectors \<Rightarrow> 'd window sectors" where
  "window_sectors D = \<lparr>sec_count = w_count, sec_read = window_read D,
                        sec_write = window_write D, sec_flush = window_flush D\<rparr>"

text \<open>A window is valid when its device is and the partition lies inside it.\<close>

definition window_valid :: "'d sectors \<Rightarrow> ('d \<Rightarrow> bool) \<Rightarrow> 'd window \<Rightarrow> bool" where
  "window_valid D valid w \<longleftrightarrow> valid (w_storage w) \<and>
     unat (w_first w) + unat (w_count w) \<le> unat (sec_count D (w_storage w))"

definition window_content :: "('d \<Rightarrow> u64 \<Rightarrow> byte list) \<Rightarrow> 'd window \<Rightarrow> u64 \<Rightarrow> byte list" where
  "window_content content w s = content (w_storage w) (w_first w + s)"

lemma window_in_range:
  assumes "window_valid D valid w" "s < w_count w"
  shows "unat (w_first w + s) = unat (w_first w) + unat s"
    and "w_first w + s < sec_count D (w_storage w)"
proof -
  have s: "unat s < unat (w_count w)" using assms(2) by (simp add: word_less_nat_alt)
  have b: "unat (w_first w) + unat (w_count w) \<le> unat (sec_count D (w_storage w))"
    using assms(1) by (simp add: window_valid_def)
  have "unat (sec_count D (w_storage w)) < 2 ^ LENGTH(64)" by (rule unsigned_less)
  with s b show e: "unat (w_first w + s) = unat (w_first w) + unat s"
    by (intro unat_add_small) linarith
  show "w_first w + s < sec_count D (w_storage w)"
    using s b by (simp add: word_less_nat_alt e)
qed

locale partition_window = sector_store D valid content
  for D :: "'d sectors" and valid :: "'d \<Rightarrow> bool" and content :: "'d \<Rightarrow> u64 \<Rightarrow> byte list"

sublocale partition_window \<subseteq> win: sector_store
  "window_sectors D" "window_valid D valid" "window_content content"
proof unfold_locales
  fix w s
  assume "window_valid D valid w" "s < sec_count (window_sectors D) w"
  then show "length (window_content content w s) = 512"
    using window_in_range [of D valid w s] content_len
    by (simp add: window_sectors_def window_content_def window_valid_def)
next
  fix w :: "'d window" and buf s w' buf' ok
  assume v: "window_valid D valid w" and l: "length (buf :: byte list) = 512"
    and r: "sec_read (window_sectors D) w s buf = (w', buf', ok)"
  show "window_valid D valid w' \<and> window_content content w' = window_content content w \<and>
      sec_count (window_sectors D) w' = sec_count (window_sectors D) w \<and> length buf' = 512"
    using v l r read_frame [of "w_storage w" buf "w_first w + s"]
    by (fastforce simp: window_sectors_def window_read_def window_valid_def window_content_def
        split: if_splits prod.splits)
next
  fix w :: "'d window" and buf s w' buf'
  assume v: "window_valid D valid w" and l: "length (buf :: byte list) = 512"
    and r: "sec_read (window_sectors D) w s buf = (w', buf', True)"
  show "buf' = window_content content w s"
    using v l r read_ok [of "w_storage w" buf "w_first w + s"]
    by (fastforce simp: window_sectors_def window_read_def window_valid_def window_content_def
        split: if_splits prod.splits)
next
  fix w :: "'d window" and x s w' ok
  assume v: "window_valid D valid w" and l: "length (x :: byte list) = 512"
    and r: "sec_write (window_sectors D) w s x = (w', ok)"
  show "window_valid D valid w' \<and>
      sec_count (window_sectors D) w' = sec_count (window_sectors D) w"
    using v l r write_frame [of "w_storage w" x "w_first w + s"]
    by (fastforce simp: window_sectors_def window_write_def window_valid_def
        split: if_splits prod.splits)
next
  fix w :: "'d window" and x s w'
  assume v: "window_valid D valid w" and l: "length (x :: byte list) = 512"
    and r: "sec_write (window_sectors D) w s x = (w', True)"
  show "window_content content w' = (window_content content w)(s := x)"
    using v l r write_ok [of "w_storage w" x "w_first w + s"]
    by (fastforce simp: window_sectors_def window_write_def window_valid_def window_content_def
        split: if_splits prod.splits)
next
  fix w :: "'d window" and x s w'
  assume v: "window_valid D valid w" and l: "length (x :: byte list) = 512"
    and r: "sec_write (window_sectors D) w s x = (w', False)"
  show "window_content content w' = window_content content w \<or>
      window_content content w' = (window_content content w)(s := x)"
    using v l r write_fail [of "w_storage w" x "w_first w + s"]
    by (fastforce simp: window_sectors_def window_write_def window_valid_def window_content_def
        split: if_splits prod.splits)
next
  fix w :: "'d window" and w' ok
  assume v: "window_valid D valid w" and r: "sec_flush (window_sectors D) w = (w', ok)"
  show "window_valid D valid w' \<and> window_content content w' = window_content content w \<and>
      sec_count (window_sectors D) w' = sec_count (window_sectors D) w"
    using v r flush_frame [of "w_storage w"]
    by (fastforce simp: window_sectors_def window_flush_def window_valid_def window_content_def
        split: prod.splits)
qed

context sector_store
begin

text \<open>Confinement: through a window nothing outside the partition changes.\<close>

lemma window_write_confined:
  assumes v: "window_valid D valid w" and l: "length x = 512"
    and r: "window_write D w s x = (w', ok)"
    and out: "unat t < unat (w_first w) \<or> unat (w_first w) + unat (w_count w) \<le> unat t"
  shows "content (w_storage w') t = content (w_storage w) t"
proof (cases "s < w_count w")
  case False
  with r show ?thesis by (simp add: window_write_def)
next
  case True
  obtain d' where d': "sec_write D (w_storage w) (w_first w + s) x = (d', ok)"
    "w_storage w' = d'"
    using r True by (auto simp: window_write_def split: prod.splits)
  have "t \<noteq> w_first w + s"
    using window_in_range(1) [OF v True] True out by (auto simp: word_less_nat_alt)
  moreover have "content d' = content (w_storage w) \<or>
      content d' = (content (w_storage w))(w_first w + s := x)"
    using write_cases(2) [OF _ l d'(1)] v by (simp add: window_valid_def)
  ultimately show ?thesis using d'(2) by auto
qed

end

text \<open>
  The window's validity strengthened by what must not change: the partition's bounds and every
  sector outside it. It satisfies the contract again, so whatever a client of the contract
  does, it cannot reach a neighbour.
\<close>

definition window_confined ::
  "'d sectors \<Rightarrow> ('d \<Rightarrow> bool) \<Rightarrow> ('d \<Rightarrow> u64 \<Rightarrow> byte list) \<Rightarrow> u64 \<Rightarrow> u64 \<Rightarrow> (u64 \<Rightarrow> byte list) \<Rightarrow>
   'd window \<Rightarrow> bool" where
  "window_confined D valid content first count c0 w \<longleftrightarrow> window_valid D valid w \<and>
     w_first w = first \<and> w_count w = count \<and>
     (\<forall>t. unat t < unat first \<or> unat first + unat count \<le> unat t \<longrightarrow> content (w_storage w) t = c0 t)"

lemma window_bounds:
  "window_read D w s buf = (w', buf', ok) \<Longrightarrow> w_first w' = w_first w \<and> w_count w' = w_count w"
  "window_write D w s x = (w', ok) \<Longrightarrow> w_first w' = w_first w \<and> w_count w' = w_count w"
  "window_flush D w = (w', ok) \<Longrightarrow> w_first w' = w_first w \<and> w_count w' = w_count w"
  by (auto simp: window_read_def window_write_def window_flush_def split: if_splits prod.splits)

context partition_window
begin

lemma window_read_storage:
  assumes "window_valid D valid w" "length buf = 512" "window_read D w s buf = (w', buf', ok)"
  shows "content (w_storage w') = content (w_storage w)"
  using assms read_frame [of "w_storage w" buf "w_first w + s"]
  by (fastforce simp: window_read_def window_valid_def split: if_splits prod.splits)

lemma window_flush_storage:
  assumes "window_valid D valid w" "window_flush D w = (w', ok)"
  shows "content (w_storage w') = content (w_storage w)"
  using assms flush_frame [of "w_storage w"]
  by (fastforce simp: window_flush_def window_valid_def split: prod.splits)

lemma confined_store:
  "sector_store (window_sectors D) (window_confined D valid content f n c0) (window_content content)"
proof unfold_locales
  fix w s
  assume "window_confined D valid content f n c0 w" "s < sec_count (window_sectors D) w"
  then show "length (window_content content w s) = 512"
    using win.content_len by (simp add: window_confined_def)
next
  fix w :: "'d window" and buf s w' buf' ok
  assume v: "window_confined D valid content f n c0 w" and l: "length (buf :: byte list) = 512"
    and r: "sec_read (window_sectors D) w s buf = (w', buf', ok)"
  from r have r': "window_read D w s buf = (w', buf', ok)" by (simp add: window_sectors_def)
  from v have v': "window_valid D valid w" by (simp add: window_confined_def)
  show "window_confined D valid content f n c0 w' \<and> window_content content w' = window_content content w \<and>
      sec_count (window_sectors D) w' = sec_count (window_sectors D) w \<and> length buf' = 512"
    using v win.read_frame [OF v' l r] window_read_storage [OF v' l r'] window_bounds(1) [OF r']
    by (simp add: window_confined_def)
next
  fix w :: "'d window" and buf s w' buf'
  assume "window_confined D valid content f n c0 w" and l: "length (buf :: byte list) = 512"
    and r: "sec_read (window_sectors D) w s buf = (w', buf', True)"
  then have v': "window_valid D valid w" by (simp add: window_confined_def)
  show "buf' = window_content content w s"
    by (rule win.read_ok [OF v' l r])
next
  fix w :: "'d window" and x s w' ok
  assume v: "window_confined D valid content f n c0 w" and l: "length (x :: byte list) = 512"
    and r: "sec_write (window_sectors D) w s x = (w', ok)"
  from r have r': "window_write D w s x = (w', ok)" by (simp add: window_sectors_def)
  from v have v': "window_valid D valid w" by (simp add: window_confined_def)
  show "window_confined D valid content f n c0 w' \<and>
      sec_count (window_sectors D) w' = sec_count (window_sectors D) w"
    using v win.write_frame [OF v' l r] window_write_confined [OF v' l r'] window_bounds(2) [OF r']
    by (simp add: window_confined_def)
next
  fix w :: "'d window" and x s w'
  assume "window_confined D valid content f n c0 w" and l: "length (x :: byte list) = 512"
    and r: "sec_write (window_sectors D) w s x = (w', True)"
  then have v': "window_valid D valid w" by (simp add: window_confined_def)
  show "window_content content w' = (window_content content w)(s := x)"
    by (rule win.write_ok [OF v' l r])
next
  fix w :: "'d window" and x s w'
  assume "window_confined D valid content f n c0 w" and l: "length (x :: byte list) = 512"
    and r: "sec_write (window_sectors D) w s x = (w', False)"
  then have v': "window_valid D valid w" by (simp add: window_confined_def)
  show "window_content content w' = window_content content w \<or>
      window_content content w' = (window_content content w)(s := x)"
    by (rule win.write_fail [OF v' l r])
next
  fix w :: "'d window" and w' ok
  assume v: "window_confined D valid content f n c0 w"
    and r: "sec_flush (window_sectors D) w = (w', ok)"
  from r have r': "window_flush D w = (w', ok)" by (simp add: window_sectors_def)
  from v have v': "window_valid D valid w" by (simp add: window_confined_def)
  show "window_confined D valid content f n c0 w' \<and> window_content content w' = window_content content w \<and>
      sec_count (window_sectors D) w' = sec_count (window_sectors D) w"
    using v win.flush_frame [OF v' r] window_flush_storage [OF v' r'] window_bounds(3) [OF r']
    by (simp add: window_confined_def)
qed

end

locale reliable_window = reliable_store D valid content
  for D :: "'d sectors" and valid :: "'d \<Rightarrow> bool" and content :: "'d \<Rightarrow> u64 \<Rightarrow> byte list"

sublocale reliable_window \<subseteq> pw: partition_window D valid content
  by unfold_locales

sublocale reliable_window \<subseteq> rwin: reliable_store
  "window_sectors D" "window_valid D valid" "window_content content"
proof unfold_locales
  fix w :: "'d window" and buf s
  assume v: "window_valid D valid w" and l: "length (buf :: byte list) = 512"
    and s: "s < sec_count (window_sectors D) w"
  then have "s < w_count w" by (simp add: window_sectors_def)
  with read_total [OF _ l, of "w_storage w"] window_in_range(2) [OF v] v
  show "snd (snd (sec_read (window_sectors D) w s buf))"
    by (simp add: window_sectors_def window_read_def window_valid_def split: prod.splits) (metis snd_conv)
next
  fix w :: "'d window" and x s
  assume v: "window_valid D valid w" and l: "length (x :: byte list) = 512"
    and s: "s < sec_count (window_sectors D) w"
  then have "s < w_count w" by (simp add: window_sectors_def)
  with write_total [OF _ l, of "w_storage w"] window_in_range(2) [OF v] v
  show "snd (sec_write (window_sectors D) w s x)"
    by (simp add: window_sectors_def window_write_def window_valid_def split: prod.splits) (metis snd_conv)
qed

section \<open>A disk in memory\<close>

record ram =
  ram_data :: "byte list list"
  ram_flushed :: nat

definition ram_new :: "nat \<Rightarrow> ram" where
  "ram_new n = \<lparr>ram_data = replicate n zero_sector, ram_flushed = 0\<rparr>"

definition ram_read :: "ram \<Rightarrow> u64 \<Rightarrow> byte list \<Rightarrow> ram \<times> byte list \<times> bool" where
  "ram_read r sector out =
     (if unat sector < length (ram_data r)
      then (r, copy_into out 0 (ram_data r ! unat sector), True)
      else (r, out, False))"

definition ram_write :: "ram \<Rightarrow> u64 \<Rightarrow> byte list \<Rightarrow> ram \<times> bool" where
  "ram_write r sector bytes =
     (if unat sector < length (ram_data r)
      then (r\<lparr>ram_data := (ram_data r)[unat sector := take SECTOR_BYTES bytes]\<rparr>, True)
      else (r, False))"

definition ram_flush :: "ram \<Rightarrow> ram \<times> bool" where
  "ram_flush r = (r\<lparr>ram_flushed := ram_flushed r + 1\<rparr>, True)"

definition ram_sectors :: "ram sectors" where
  "ram_sectors = \<lparr>sec_count = (\<lambda>r. of_nat (length (ram_data r))), sec_read = ram_read,
                   sec_write = ram_write, sec_flush = ram_flush\<rparr>"

definition ram_valid :: "ram \<Rightarrow> bool" where
  "ram_valid r \<longleftrightarrow> length (ram_data r) < 2 ^ 64 \<and> (\<forall>x \<in> set (ram_data r). length x = 512)"

definition ram_content :: "ram \<Rightarrow> u64 \<Rightarrow> byte list" where
  "ram_content r s = (if unat s < length (ram_data r) then ram_data r ! unat s else [])"

lemma ram_in_range:
  "ram_valid r \<Longrightarrow> s < (of_nat (length (ram_data r)) :: u64) \<longleftrightarrow> unat s < length (ram_data r)"
  by (simp add: ram_valid_def word_less_nat_alt unat_of_nat)

lemma ram_valid_update:
  "ram_valid r \<Longrightarrow> length x = 512 \<Longrightarrow> ram_valid (r\<lparr>ram_data := (ram_data r)[i := x]\<rparr>)"
  by (auto simp: ram_valid_def dest!: set_update_subset_insert [THEN subsetD])

lemma ram_valid_nth: "ram_valid r \<Longrightarrow> i < length (ram_data r) \<Longrightarrow> length (ram_data r ! i) = 512"
  by (simp add: ram_valid_def)

lemma ram_write_content:
  "ram_valid r \<Longrightarrow> length x = 512 \<Longrightarrow> unat s < length (ram_data r) \<Longrightarrow>
    ram_content (r\<lparr>ram_data := (ram_data r)[unat s := x]\<rparr>) = (ram_content r)(s := x)"
  by (auto simp: ram_content_def fun_eq_iff nth_list_update word_unat_eq_iff)

lemma ram_read_in:
  "ram_valid r \<Longrightarrow> length out = 512 \<Longrightarrow> ram_read r s out =
    (if unat s < length (ram_data r) then (r, ram_content r s, True) else (r, out, False))"
  by (simp add: ram_read_def ram_content_def copy_into_def ram_valid_nth)

lemma ram_write_in:
  "length x = 512 \<Longrightarrow> ram_write r s x =
    (if unat s < length (ram_data r) then (r\<lparr>ram_data := (ram_data r)[unat s := x]\<rparr>, True)
     else (r, False))"
  by (simp add: ram_write_def SECTOR_BYTES_def)

lemma ram_content_len:
  "ram_valid r \<Longrightarrow> unat s < length (ram_data r) \<Longrightarrow> length (ram_content r s) = 512"
  by (simp add: ram_content_def ram_valid_nth)

lemma ram_flush_frame:
  "ram_valid (r\<lparr>ram_flushed := n\<rparr>) = ram_valid r" "ram_content (r\<lparr>ram_flushed := n\<rparr>) = ram_content r"
  by (simp_all add: ram_valid_def ram_content_def fun_eq_iff)

interpretation ram: reliable_store ram_sectors ram_valid ram_content
  by unfold_locales
    (simp_all add: ram_sectors_def ram_in_range ram_read_in ram_write_in ram_flush_def
      ram_content_len ram_flush_frame split: if_splits,
     (auto simp: ram_valid_update ram_write_content ram_content_len)?)

interpretation ram_win: reliable_window ram_sectors ram_valid ram_content
  by unfold_locales

lemma ram_new_valid: "n < 2 ^ 64 \<Longrightarrow> ram_valid (ram_new n)"
  by (auto simp: ram_valid_def ram_new_def)

lemma ram_new_count: "sec_count ram_sectors (ram_new n) = of_nat n"
  by (simp add: ram_sectors_def ram_new_def)

end
