(* ===== verification/Journal.thy ===== *)
theory Journal
  imports Storage Sha256 Utf8 "HOL-Library.Sublist"
begin

text \<open>
  \<open>libs/journal/src/lib.rs\<close>: the SIJIL on-disk format, a hash-chained log of 128-byte
  records, four to a sector, with a superblock in sector 0. Every function is translated with
  its early returns; the device is any \<open>sectors\<close> record and its state is threaded
  through. \<open>commits\<close> is the abstract log a disk's contents stand for; the lemmas show that
  the code implements it: what was appended is what \<open>open\<close> finds, a failing device leaves
  the old log or the new one and nothing between, and a log that opens after it was altered
  exhibits two colliding SHA-256 inputs at a named place.
\<close>

section \<open>Records\<close>

definition RECORD_BYTES :: nat where "RECORD_BYTES = 128"
definition RECORDS_PER_SECTOR :: nat where "RECORDS_PER_SECTOR = SECTOR_BYTES div RECORD_BYTES"
definition LABEL_BYTES :: nat where "LABEL_BYTES = 40"
definition HASH_BYTES :: nat where "HASH_BYTES = 32"
definition SUPERBLOCK_SECTOR :: u64 where "SUPERBLOCK_SECTOR = 0"
definition FIRST_RECORD_SECTOR :: u64 where "FIRST_RECORD_SECTOR = 1"
definition MAX_RECORDS :: u64 where "MAX_RECORDS = push_bit 20 1"

text \<open>The bytes of \<open>b"i3mlSJL1"\<close>.\<close>

definition MAGIC :: "byte list" where
  "MAGIC = [0x69, 0x33, 0x6D, 0x6C, 0x53, 0x4A, 0x4C, 0x31]"

record jrecord =
  r_sequence :: u64
  r_at :: u64
  r_agent :: u32
  r_event :: byte
  r_detail :: u64
  r_label :: "byte list"
  r_label_length :: byte

text \<open>The label is an array of forty bytes, and no constructor makes its length larger.\<close>

definition jrecord_ok :: "jrecord \<Rightarrow> bool" where
  "jrecord_ok r \<longleftrightarrow> length (r_label r) = LABEL_BYTES \<and> unat (r_label_length r) \<le> LABEL_BYTES"

definition record_new :: "u64 \<Rightarrow> u64 \<Rightarrow> u32 \<Rightarrow> byte \<Rightarrow> u64 \<Rightarrow> str \<Rightarrow> jrecord" where
  "record_new sequence at_us agent event detail label =
     (let (bytes, len) = fit_chars LABEL_BYTES label (replicate LABEL_BYTES 0) 0
      in \<lparr>r_sequence = sequence, r_at = at_us, r_agent = agent, r_event = event,
          r_detail = detail, r_label = bytes, r_label_length = of_nat len\<rparr>)"

definition label_str :: "jrecord \<Rightarrow> str" where
  "label_str r = (case from_utf8 (take (unat (r_label_length r)) (r_label r)) of
     Some s \<Rightarrow> s | None \<Rightarrow> [])"

definition record_fields :: "jrecord \<Rightarrow> byte list \<Rightarrow> byte list" where
  "record_fields r out =
     (let out = copy_into out 0 (to_le_bytes (r_sequence r));
          out = copy_into out 8 (to_le_bytes (r_at r));
          out = copy_into out 16 (to_le_bytes (r_agent r));
          out = out[20 := r_event r];
          out = out[21 := r_label_length r];
          out = out[22 := 0];
          out = out[23 := 0];
          out = copy_into out 24 (to_le_bytes (r_detail r));
          out = copy_into out 32 (r_label r)
      in out)"

definition record_hash :: "jrecord \<Rightarrow> byte list \<Rightarrow> byte list" where
  "record_hash r previous =
     (let fields = record_fields r (replicate 72 0);
          hasher = hasher_update hasher_new previous;
          hasher = hasher_update hasher fields
      in hasher_finish hasher)"

definition record_encode :: "jrecord \<Rightarrow> byte list \<Rightarrow> byte list \<Rightarrow> byte list" where
  "record_encode r previous out =
     (let fields = record_fields r (replicate 72 0);
          out = copy_into out 0 fields;
          out = copy_into out 72 (record_hash r previous)
      in copy_into out 104 (replicate (length out - 104) 0))"

definition record_decode :: "byte list \<Rightarrow> (jrecord \<times> byte list) option" where
  "record_decode bytes =
     (if length bytes < RECORD_BYTES then None
      else
        let label = slice_of bytes 32 72;
            label_length = bytes ! 21
        in if unat label_length > LABEL_BYTES then None
           else
             let r = \<lparr>r_sequence = from_le_bytes (slice_of bytes 0 8),
                       r_at = from_le_bytes (slice_of bytes 8 16),
                       r_agent = from_le_bytes (slice_of bytes 16 20),
                       r_event = bytes ! 20,
                       r_detail = from_le_bytes (slice_of bytes 24 32),
                       r_label = label,
                       r_label_length = label_length\<rparr>
             in Some (r, slice_of bytes 72 104))"

record superblock =
  sb_count :: u64
  sb_tip :: "byte list"

definition superblock_encode :: "superblock \<Rightarrow> byte list \<Rightarrow> byte list" where
  "superblock_encode s out =
     (let out = replicate (length out) 0;
          out = copy_into out 0 MAGIC;
          out = copy_into out 8 (to_le_bytes (sb_count s))
      in copy_into out 16 (sb_tip s))"

definition superblock_decode :: "byte list \<Rightarrow> superblock option" where
  "superblock_decode bytes =
     (if length bytes < 48 \<or> slice_of bytes 0 8 \<noteq> MAGIC then None
      else Some \<lparr>sb_count = from_le_bytes (slice_of bytes 8 16), sb_tip = slice_of bytes 16 48\<rparr>)"

section \<open>The journal\<close>

datatype jfault = NoJournal | ChainBroken nat | Device | Full

record journal =
  j_count :: u64
  j_tip :: "byte list"
  j_capacity :: u64

definition record_capacity :: "u64 \<Rightarrow> u64" where
  "record_capacity sector_count =
     min (saturating_mul (saturating_sub sector_count FIRST_RECORD_SECTOR)
           (of_nat RECORDS_PER_SECTOR)) MAX_RECORDS"

definition read_record ::
  "'d sectors \<Rightarrow> 'd \<Rightarrow> u64 \<Rightarrow> 'd \<times> (jfault + jrecord \<times> byte list)" where
  "read_record D d index =
     (let sector = FIRST_RECORD_SECTOR + index div of_nat RECORDS_PER_SECTOR;
          slot = unat (index mod of_nat RECORDS_PER_SECTOR);
          (d, buffer, ok) = sec_read D d sector zero_sector
      in if \<not> ok then (d, Err Device)
         else (d, ok_or (record_decode
                (slice_of buffer (slot * RECORD_BYTES) ((slot + 1) * RECORD_BYTES)))
                (ChainBroken (unat index))))"

definition write_superblock ::
  "'d sectors \<Rightarrow> journal \<Rightarrow> 'd \<Rightarrow> 'd \<times> (jfault + unit)" where
  "write_superblock D j d =
     (let sector = superblock_encode \<lparr>sb_count = j_count j, sb_tip = j_tip j\<rparr> zero_sector;
          (d, ok) = sec_write D d SUPERBLOCK_SECTOR sector
      in if ok then (d, Ok ()) else (d, Err Device))"

definition journal_create :: "'d sectors \<Rightarrow> 'd \<Rightarrow> 'd \<times> (jfault + journal)" where
  "journal_create D d =
     (let capacity = record_capacity (sec_count D d);
          j = \<lparr>j_count = 0, j_tip = replicate HASH_BYTES 0, j_capacity = capacity\<rparr>;
          (d, res) = write_superblock D j d
      in (d, and_then res (\<lambda>_. Ok j)))"

text \<open>The loop of \<open>open\<close>, over the \<open>n\<close> indices left from \<open>index\<close> on.\<close>

fun verify_from ::
  "'d sectors \<Rightarrow> nat \<Rightarrow> u64 \<Rightarrow> byte list \<Rightarrow> 'd \<Rightarrow> 'd \<times> (jfault + byte list)" where
  "verify_from D 0 index previous d = (d, Ok previous)"
| "verify_from D (Suc n) index previous d =
     (case read_record D d index of
        (d, Inl e) \<Rightarrow> (d, Err e)
      | (d, Inr (r, stored)) \<Rightarrow>
          (let expected = record_hash r previous in
           if expected \<noteq> stored then (d, Err (ChainBroken (unat index)))
           else verify_from D n (index + 1) stored d))"

definition journal_open :: "'d sectors \<Rightarrow> 'd \<Rightarrow> 'd \<times> (jfault + journal)" where
  "journal_open D d =
     (let (d, sector, ok) = sec_read D d SUPERBLOCK_SECTOR zero_sector in
      if \<not> ok then (d, Err Device)
      else
        case superblock_decode sector of
          None \<Rightarrow> (d, Err NoJournal)
        | Some sb \<Rightarrow>
            (let capacity = record_capacity (sec_count D d) in
             if sb_count sb > capacity then (d, Err (ChainBroken 0))
             else
               case verify_from D (unat (sb_count sb)) 0 (replicate HASH_BYTES 0) d of
                 (d, Inl e) \<Rightarrow> (d, Err e)
               | (d, Inr previous) \<Rightarrow>
                   (if previous \<noteq> sb_tip sb then (d, Err (ChainBroken (unat (sb_count sb))))
                    else (d, Ok \<lparr>j_count = sb_count sb, j_tip = sb_tip sb,
                                 j_capacity = capacity\<rparr>))))"

definition journal_append ::
  "'d sectors \<Rightarrow> journal \<Rightarrow> 'd \<Rightarrow> jrecord \<Rightarrow> journal \<times> 'd \<times> (jfault + unit)" where
  "journal_append D j d r =
     (if j_count j \<ge> j_capacity j then (j, d, Err Full)
      else
        let sector = FIRST_RECORD_SECTOR + j_count j div of_nat RECORDS_PER_SECTOR;
            slot = unat (j_count j mod of_nat RECORDS_PER_SECTOR);
            (d, buffer, read_ok) =
              (if slot \<noteq> 0 then sec_read D d sector zero_sector else (d, zero_sector, True))
        in if \<not> read_ok then (j, d, Err Device)
           else
             let encoded = record_encode r (j_tip j) (replicate RECORD_BYTES 0);
                 buffer = copy_into buffer (slot * RECORD_BYTES) encoded;
                 (d, wrote) = sec_write D d sector buffer
             in if \<not> wrote then (j, d, Err Device)
                else
                  let j = j\<lparr>j_tip := record_hash r (j_tip j), j_count := j_count j + 1\<rparr>;
                      (d, res) = write_superblock D j d
                  in (j, d, res))"

definition journal_read ::
  "'d sectors \<Rightarrow> journal \<Rightarrow> 'd \<Rightarrow> u64 \<Rightarrow> 'd \<times> (jfault + jrecord)" where
  "journal_read D j d index =
     (if index \<ge> j_count j then (d, Err (ChainBroken (unat index)))
      else
        let (d, res) = read_record D d index
        in (d, and_then res (\<lambda>(r, _). Ok r)))"

definition journal_flush :: "'d sectors \<Rightarrow> journal \<Rightarrow> 'd \<Rightarrow> 'd \<times> bool" where
  "journal_flush D j d = sec_flush D d"

section \<open>The record format\<close>

lemma journal_sizes [simp]:
  "RECORD_BYTES = 128" "RECORDS_PER_SECTOR = 4" "LABEL_BYTES = 40" "HASH_BYTES = 32"
  "SUPERBLOCK_SECTOR = 0" "FIRST_RECORD_SECTOR = 1" "MAX_RECORDS = 0x100000" "length MAGIC = 8"
  by (simp_all add: RECORD_BYTES_def RECORDS_PER_SECTOR_def LABEL_BYTES_def HASH_BYTES_def
    SUPERBLOCK_SECTOR_def FIRST_RECORD_SECTOR_def MAX_RECORDS_def MAGIC_def SECTOR_BYTES_def)

definition fields_of :: "jrecord \<Rightarrow> byte list" where
  "fields_of r = to_le_bytes (r_sequence r) @ to_le_bytes (r_at r) @ to_le_bytes (r_agent r) @
     [r_event r, r_label_length r, 0, 0] @ to_le_bytes (r_detail r) @ r_label r"

lemma record_fields_eq:
  assumes "length (r_label r) = 40" "length out = 72"
  shows "record_fields r out = fields_of r"
proof -
  note front = copy_into_frontier list_update_frontier
  have "record_fields r out = fields_of r @ drop 72 out"
    using assms
    by (simp add: record_fields_def fields_of_def Let_def copy_into_start front
        del: append_assoc)
  with assms(2) show ?thesis by simp
qed

lemma length_fields_of [simp]: "length (r_label r) = 40 \<Longrightarrow> length (fields_of r) = 72"
  by (simp add: fields_of_def)

text \<open>What the hash of a record covers: the hash before it, then the fields.\<close>

definition link_bytes :: "jrecord \<Rightarrow> byte list \<Rightarrow> byte list" where
  "link_bytes r previous = previous @ fields_of r"

lemma record_hash_eq:
  "length (r_label r) = 40 \<Longrightarrow> record_hash r previous = sha256 (link_bytes r previous)"
  by (simp add: record_hash_def record_fields_eq hasher_two_pieces link_bytes_def)

lemma length_record_hash [simp]:
  "length (r_label r) = 40 \<Longrightarrow> length (record_hash r previous) = 32"
  by (simp add: record_hash_eq)

lemma fields_of_inject:
  assumes "length (r_label r) = 40" "length (r_label r') = 40"
  shows "fields_of r = fields_of r' \<longleftrightarrow> r = r'"
  using assms by (auto simp: fields_of_def)

lemma link_bytes_inject:
  assumes "length (r_label r) = 40" "length (r_label r') = 40" "length p = length p'"
  shows "link_bytes r p = link_bytes r' p' \<longleftrightarrow> r = r' \<and> p = p'"
  using assms by (auto simp: link_bytes_def fields_of_inject)

lemma record_encode_eq:
  assumes "length (r_label r) = 40" "length out = 128"
  shows "record_encode r previous out = fields_of r @ record_hash r previous @ replicate 24 0"
proof -
  have "record_encode r previous out =
      ((fields_of r @ record_hash r previous) @ replicate (length out - 104) 0) @ []"
    using assms
    by (simp add: record_encode_def record_fields_eq Let_def copy_into_start copy_into_frontier
        del: append_assoc)
  then show ?thesis using assms(2) by simp
qed

lemma length_record_encode [simp]:
  "length (r_label r) = 40 \<Longrightarrow> length out = 128 \<Longrightarrow> length (record_encode r previous out) = 128"
  by (simp add: record_encode_eq)

lemma record_decode_fields:
  assumes r: "jrecord_ok r" and h: "length h = 32"
  shows "record_decode (fields_of r @ h @ rest) =
    (if length rest < 24 then None else Some (r, h))"
  using assms
  by (simp add: record_decode_def jrecord_ok_def fields_of_def Let_def slice_append_left
      slice_append_right slice_Cons_skip nth_append)

lemma record_decode_encode:
  assumes "jrecord_ok r" "length out = 128"
  shows "record_decode (record_encode r previous out) = Some (r, record_hash r previous)"
  using assms record_decode_fields [of r "record_hash r previous" "replicate 24 0"]
  by (simp add: record_encode_eq jrecord_ok_def)

lemma record_decode_ok: "record_decode bs = Some (r, h) \<Longrightarrow> jrecord_ok r \<and> length h = 32"
  by (auto simp: record_decode_def jrecord_ok_def Let_def bytes_simps split: if_splits)

lemma record_new_ok: "jrecord_ok (record_new sequence t agent event detail label)"
  using fit_prefix_len [of 40 label]
  by (simp add: record_new_def fit_chars_fresh jrecord_ok_def unat_of_nat str_len_def)

lemma record_new_label:
  "str_ok label \<Longrightarrow>
    label_str (record_new sequence t agent event detail label) = fit_prefix 40 label"
  using fit_prefix_len [of 40 label]
  by (simp add: record_new_def fit_chars_fresh label_str_def unat_of_nat str_len_def fit_prefix_ok)

lemma superblock_encode_eq:
  assumes "length (sb_tip s) = 32" "length out = 512"
  shows "superblock_encode s out =
    MAGIC @ to_le_bytes (sb_count s) @ sb_tip s @ replicate 464 0"
  using assms
  by (simp add: superblock_encode_def Let_def copy_into_start copy_into_frontier
      del: append_assoc)

lemma superblock_decode_encode:
  assumes "length (sb_tip s) = 32" "length out = 512"
  shows "superblock_decode (superblock_encode s out) = Some s"
  using assms
  by (simp add: superblock_encode_eq superblock_decode_def slice_append_left slice_append_right)

lemma length_superblock_encode [simp]:
  "length (sb_tip s) = 32 \<Longrightarrow> length out = 512 \<Longrightarrow> length (superblock_encode s out) = 512"
  by (simp add: superblock_encode_eq)

section \<open>The abstract log\<close>

text \<open>
  \<open>chain rs\<close> is the hash that closes a log of the records \<open>rs\<close>, \<open>slots c rs\<close> says the
  record slots of a disk with contents \<open>c\<close> hold \<open>rs\<close> correctly linked, and
  \<open>commits c rs\<close> that the superblock agrees.
\<close>

definition chain :: "jrecord list \<Rightarrow> byte list" where
  "chain rs = foldl (\<lambda>previous r. record_hash r previous) (replicate HASH_BYTES 0) rs"

definition rec_sector :: "nat \<Rightarrow> u64" where
  "rec_sector i = 1 + of_nat (i div 4)"

definition record_slot :: "(u64 \<Rightarrow> byte list) \<Rightarrow> nat \<Rightarrow> byte list" where
  "record_slot c i = slice_of (c (rec_sector i)) (i mod 4 * 128) ((i mod 4 + 1) * 128)"

definition slots :: "(u64 \<Rightarrow> byte list) \<Rightarrow> jrecord list \<Rightarrow> bool" where
  "slots c rs \<longleftrightarrow>
     (\<forall>i < length rs. record_decode (record_slot c i) = Some (rs ! i, chain (take (Suc i) rs)))"

definition commits :: "(u64 \<Rightarrow> byte list) \<Rightarrow> jrecord list \<Rightarrow> bool" where
  "commits c rs \<longleftrightarrow>
     superblock_decode (c 0) = Some \<lparr>sb_count = of_nat (length rs), sb_tip = chain rs\<rparr> \<and>
     slots c rs"

lemma chain_simps [simp]:
  "chain [] = replicate 32 0"
  "chain (rs @ [r]) = record_hash r (chain rs)"
  by (simp_all add: chain_def)

lemma length_chain [simp]: "list_all jrecord_ok rs \<Longrightarrow> length (chain rs) = 32"
  by (cases rs rule: rev_cases) (simp_all add: jrecord_ok_def)

lemma unat_rec_sector: "i < 0x100000 \<Longrightarrow> unat (rec_sector i) = 1 + i div 4"
proof -
  assume "i < 0x100000"
  then have "i div 4 < 0x100000" by auto
  then have "unat (of_nat (i div 4) :: u64) = i div 4" by (simp add: unat_of_nat)
  then show ?thesis using \<open>i div 4 < 0x100000\<close>
    by (simp add: rec_sector_def unat_add_small)
qed

lemma rec_sector_code:
  assumes "unat index = i" "i < 0x100000"
  shows "1 + index div 4 = rec_sector i" "unat (index mod 4) = i mod 4"
proof -
  have "unat (index div 4) = i div 4" using assms by (simp add: unat_div)
  moreover have "unat (of_nat (i div 4) :: u64) = i div 4"
    using assms(2) by (simp add: unat_of_nat)
  ultimately have "index div 4 = of_nat (i div 4)" by (metis word_unat_eq_iff)
  then show "1 + index div 4 = rec_sector i" by (simp add: rec_sector_def)
  show "unat (index mod 4) = i mod 4" using assms by (simp add: unat_mod)
qed

lemma rec_sector_inject:
  "i < 0x100000 \<Longrightarrow> k < 0x100000 \<Longrightarrow> rec_sector i = rec_sector k \<longleftrightarrow> i div 4 = k div 4"
  using unat_rec_sector [of i] unat_rec_sector [of k]
  by (auto simp: word_unat_eq_iff)

lemma rec_sector_not_0: "i < 0x100000 \<Longrightarrow> rec_sector i \<noteq> 0"
  using unat_rec_sector [of i] by auto

text \<open>The number of records is chosen by this code, never by the device.\<close>

lemma unat_record_capacity:
  "unat (record_capacity n) = min (4 * (unat n - 1)) 0x100000"
proof -
  have "unat (4 :: u64) = 4" by simp
  have "unat (min x y) = min (unat x) (unat y)" for x y :: u64
    by (auto simp: min_def word_le_nat_alt)
  then have "unat (record_capacity n) =
      min (min (4 * (unat n - 1)) (2 ^ 64 - 1)) 0x100000"
    by (simp add: record_capacity_def unat_saturating_mul mult.commute)
  then show ?thesis by (simp add: min_def)
qed

lemma capacity_bound: "unat (record_capacity n) \<le> 0x100000"
  by (simp add: unat_record_capacity)

lemma capacity_sector:
  assumes "i < unat (record_capacity n)"
  shows "i < 0x100000" "rec_sector i < n"
proof -
  from assms show "i < 0x100000" by (simp add: unat_record_capacity)
  from assms have "i div 4 < unat n - 1" by (auto simp: unat_record_capacity)
  with unat_rec_sector [OF \<open>i < 0x100000\<close>] show "rec_sector i < n"
    by (simp add: word_less_nat_alt)
qed

lemma slots_frame:
  assumes "slots c rs" "length rs \<le> 0x100000"
    and "\<And>i. i < length rs \<Longrightarrow> record_slot c' i = record_slot c i"
  shows "slots c' rs"
  using assms by (simp add: slots_def)

lemma slots_superblock:
  assumes "slots c rs" "length rs \<le> 0x100000"
  shows "slots (c(0 := x)) rs"
  using assms by (auto intro: slots_frame simp: record_slot_def rec_sector_not_0)

lemma slots_take: "slots c rs \<Longrightarrow> slots c (take k rs)"
  by (simp add: slots_def min_def)

lemma slots_snoc:
  "slots c (rs @ [r]) \<longleftrightarrow>
     slots c rs \<and> record_decode (record_slot c (length rs)) = Some (r, chain (rs @ [r]))"
  by (auto simp: slots_def less_Suc_eq nth_append simp del: chain_simps)

lemma slot_disjoint:
  assumes "s < t" "t < 4" "length buf = 512" "length e = 128"
  shows "slice_of (copy_into buf (t * 128) e) (s * 128) ((s + 1) * 128) =
    slice_of buf (s * 128) ((s + 1) * 128)"
proof (rule slice_copy_into_disjoint)
  have "(s + 1) * 128 \<le> t * 128" using assms(1) by simp
  then show "(s + 1) * 128 \<le> t * 128 \<or> t * 128 + length e \<le> s * 128" ..
qed (use assms in auto)

text \<open>Writing the next slot of a sector leaves the earlier slots alone.\<close>

lemma write_next_slot:
  assumes n: "length rs < 0x100000" and c: "slots c rs"
    and buf: "length buf = 512" "length rs mod 4 \<noteq> 0 \<longrightarrow> buf = c (rec_sector (length rs))"
    and e: "length e = 128"
    and c': "c' = c(rec_sector (length rs) := copy_into buf (length rs mod 4 * 128) e)"
  shows "slots c' rs" "record_slot c' (length rs) = e"
proof -
  let ?n = "length rs"
  have m: "?n mod 4 < 4" by simp
  then have fits: "?n mod 4 * 128 + length e \<le> length buf" using e buf(1) by linarith
  show "record_slot c' ?n = e"
    using fits e by (simp add: record_slot_def c' bytes_simps algebra_simps)
  show "slots c' rs"
  proof (rule slots_frame [OF c])
    fix i assume i: "i < ?n"
    show "record_slot c' i = record_slot c i"
    proof (cases "i div 4 = ?n div 4")
      case False
      with i n show ?thesis by (simp add: record_slot_def c' rec_sector_inject)
    next
      case True
      have "i div 4 * 4 + i mod 4 = i" "?n div 4 * 4 + ?n mod 4 = ?n"
        by (simp_all only: div_mult_mod_eq)
      with True i have lt: "i mod 4 < ?n mod 4" by linarith
      then have "buf = c (rec_sector ?n)" using buf(2) by simp
      moreover have "rec_sector i = rec_sector ?n"
        using True by (simp add: rec_sector_def)
      moreover have "slice_of (copy_into buf (?n mod 4 * 128) e) (i mod 4 * 128)
          ((i mod 4 + 1) * 128) = slice_of buf (i mod 4 * 128) ((i mod 4 + 1) * 128)"
        using lt m buf(1) e by (rule slot_disjoint)
      ultimately show ?thesis by (simp add: record_slot_def c')
    qed
  qed (use n in simp)
qed

text \<open>A journal value in memory that stands for the records \<open>rs\<close>.\<close>

definition tracks :: "(u64 \<Rightarrow> byte list) \<Rightarrow> u64 \<Rightarrow> journal \<Rightarrow> jrecord list \<Rightarrow> bool" where
  "tracks c n j rs \<longleftrightarrow> j_count j = of_nat (length rs) \<and> j_tip j = chain rs \<and>
     j_capacity j = record_capacity n \<and> length rs \<le> unat (record_capacity n) \<and>
     list_all jrecord_ok rs \<and> slots c rs"

lemma tracks_count:
  "tracks c n j rs \<Longrightarrow> unat (j_count j) = length rs \<and> length rs \<le> 0x100000"
  using capacity_bound [of n] by (simp add: tracks_def unat_of_nat)

definition superblock_for :: "jrecord list \<Rightarrow> byte list" where
  "superblock_for rs =
     superblock_encode \<lparr>sb_count = of_nat (length rs), sb_tip = chain rs\<rparr> zero_sector"

lemma superblock_for_commits:
  assumes "slots c rs" "list_all jrecord_ok rs" "length rs \<le> 0x100000"
  shows "commits (c(0 := superblock_for rs)) rs"
  using assms
  by (simp add: commits_def superblock_for_def superblock_decode_encode slots_superblock)

context sector_store
begin

lemma write_superblock_step:
  assumes v: "valid d" and j: "j_count j = of_nat (length rs)" "j_tip j = chain rs"
    and ok: "list_all jrecord_ok rs" and w: "write_superblock D j d = (d', res)"
  shows "valid d'" "sec_count D d' = sec_count D d"
    and "(res = Ok () \<and> content d' = (content d)(0 := superblock_for rs)) \<or>
         (res = Err Device \<and>
           (content d' = content d \<or> content d' = (content d)(0 := superblock_for rs)))"
proof -
  have l: "length (superblock_for rs) = 512"
    using ok by (simp add: superblock_for_def)
  obtain b where b: "sec_write D d 0 (superblock_for rs) = (d', b)"
    and res: "res = (if b then Ok () else Err Device)"
    using w j by (auto simp: write_superblock_def superblock_for_def split: prod.splits if_splits)
  from write_frame [OF v l b] show "valid d'" "sec_count D d' = sec_count D d" by auto
  show "(res = Ok () \<and> content d' = (content d)(0 := superblock_for rs)) \<or>
         (res = Err Device \<and>
           (content d' = content d \<or> content d' = (content d)(0 := superblock_for rs)))"
    using write_cases [OF v l b] res by auto
qed

lemma read_record_step:
  assumes v: "valid d" and i: "unat index = i" "i < 0x100000"
    and r: "read_record D d index = (d', res)"
  shows "valid d'" "sec_count D d' = sec_count D d" "content d' = content d"
    and "res = Err Device \<or>
         res = ok_or (record_decode (record_slot (content d) i)) (ChainBroken i)"
proof -
  obtain buf b where b: "sec_read D d (rec_sector i) zero_sector = (d', buf, b)"
    and res: "res = (if b then ok_or (record_decode
        (slice_of buf (i mod 4 * 128) ((i mod 4 + 1) * 128))) (ChainBroken i) else Err Device)"
    using r i rec_sector_code [OF i]
    by (auto simp: read_record_def Let_def split: prod.splits if_splits)
  from read_frame [OF v _ b]
  show "valid d'" "sec_count D d' = sec_count D d" "content d' = content d" by auto
  show "res = Err Device \<or>
      res = ok_or (record_decode (record_slot (content d) i)) (ChainBroken i)"
    using read_ok [OF v, of zero_sector "rec_sector i" d' buf] b res
    by (auto simp: record_slot_def)
qed

lemma append_load:
  assumes v: "valid d"
    and r: "(if i mod 4 \<noteq> 0 then sec_read D d (rec_sector i) zero_sector
             else (d, zero_sector, True)) = (d', buf, b)"
  shows "valid d'" "sec_count D d' = sec_count D d" "content d' = content d" "length buf = 512"
    and "b \<Longrightarrow> i mod 4 \<noteq> 0 \<Longrightarrow> buf = content d (rec_sector i)"
proof -
  from r have r': "(i mod 4 \<noteq> 0 \<and> sec_read D d (rec_sector i) zero_sector = (d', buf, b)) \<or>
      (i mod 4 = 0 \<and> d' = d \<and> buf = zero_sector \<and> b)" by (auto split: if_splits)
  then show "valid d'" "sec_count D d' = sec_count D d" "content d' = content d"
    "length buf = 512"
    using v read_frame [OF v length_zero_sector, of "rec_sector i" d' buf b] by auto
  show "b \<Longrightarrow> i mod 4 \<noteq> 0 \<Longrightarrow> buf = content d (rec_sector i)"
    using r' read_ok [OF v length_zero_sector, of "rec_sector i" d' buf] by auto
qed

lemma write_record_step:
  assumes v: "valid d" and n: "length rs < 0x100000" and c: "slots (content d) rs"
    and ok: "list_all jrecord_ok rs" "jrecord_ok r"
    and buf: "length buf = 512" "length rs mod 4 \<noteq> 0 \<Longrightarrow> buf = content d (rec_sector (length rs))"
    and w: "sec_write D d (rec_sector (length rs)) (copy_into buf (length rs mod 4 * 128)
        (record_encode r (chain rs) (replicate 128 0))) = (d', b)"
  shows "valid d'" "sec_count D d' = sec_count D d" "slots (content d') rs"
    "content d' 0 = content d 0"
    and "b \<Longrightarrow> slots (content d') (rs @ [r])"
proof -
  let ?n = "length rs" and ?e = "record_encode r (chain rs) (replicate 128 0)"
  let ?x = "copy_into buf (?n mod 4 * 128) ?e"
  have e: "length ?e = 128" using ok by (simp add: jrecord_ok_def)
  have "?n mod 4 < 4" by simp
  then have "?n mod 4 * 128 + length ?e \<le> length buf" using e buf(1) by linarith
  then have l: "length ?x = 512" using buf(1) by (simp add: bytes_simps)
  let ?c' = "(content d)(rec_sector ?n := ?x)"
  have c': "slots ?c' rs" "record_slot ?c' ?n = ?e"
    using write_next_slot [OF n c buf(1) _ e refl] buf(2) by auto
  have "record_decode ?e = Some (r, chain (rs @ [r]))"
    using ok by (simp add: record_decode_encode)
  with c' have full: "slots ?c' (rs @ [r])" by (simp only: slots_snoc)
  have "b \<Longrightarrow> content d' = ?c'" by (rule write_cases(1) [OF v l w])
  with full show "b \<Longrightarrow> slots (content d') (rs @ [r])" by simp
  have alt: "content d' = content d \<or> content d' = ?c'"
    by (rule write_cases(2) [OF v l w])
  then show "slots (content d') rs" using c c'(1) by metis
  show "content d' 0 = content d 0" using alt rec_sector_not_0 [OF n] by auto
  from write_frame [OF v l w] show "valid d'" "sec_count D d' = sec_count D d" by auto
qed

end

context sector_store
begin

text \<open>What one call of \<open>append\<close> can have done, whatever the device did.\<close>

lemma append_outcome:
  assumes v: "valid d" and t: "tracks (content d) (sec_count D d) j rs" and r: "jrecord_ok r"
    and a: "journal_append D j d r = (j', d', res)"
  shows "valid d' \<and> sec_count D d' = sec_count D d \<and>
    ((j' = j \<and> tracks (content d') (sec_count D d) j rs \<and> content d' 0 = content d 0 \<and>
       (res = Err Full \<or> res = Err Device)) \<or>
     (tracks (content d') (sec_count D d) j' (rs @ [r]) \<and>
       (res = Ok () \<and> commits (content d') (rs @ [r]) \<or>
        res = Err Device \<and> (content d' 0 = content d 0 \<or> commits (content d') (rs @ [r])))))"
proof (cases "j_count j \<ge> j_capacity j")
  case True
  with v t a show ?thesis by (auto simp: journal_append_def)
next
  case False
  let ?n = "length rs"
  from t have tr: "list_all jrecord_ok rs" "slots (content d) rs" "j_tip j = chain rs"
    "j_count j = of_nat ?n"
    by (auto simp: tracks_def)
  from tracks_count [OF t] have n: "unat (j_count j) = ?n" by simp
  with False t have lt: "?n < unat (record_capacity (sec_count D d))"
    by (simp add: tracks_def word_le_nat_alt)
  note small = capacity_sector(1) [OF lt]
  obtain d1 buf b1 where l: "(if ?n mod 4 \<noteq> 0 then sec_read D d (rec_sector ?n) zero_sector
      else (d, zero_sector, True)) = (d1, buf, b1)"
    by (metis prod_cases3)
  note load = append_load [OF v l]
  note code = journal_append_def Let_def rec_sector_code [OF n small] tr(3)
  show ?thesis
  proof (cases b1)
    case False
    then have "j' = j" "d' = d1" "res = Err Device"
      using a l \<open>\<not> j_count j \<ge> j_capacity j\<close> by (simp_all add: code)
    with load t show ?thesis by auto
  next
    case True
    let ?x = "copy_into buf (?n mod 4 * 128) (record_encode r (chain rs) (replicate 128 0))"
    obtain d2 b2 where w: "sec_write D d1 (rec_sector ?n) ?x = (d2, b2)" by (metis surj_pair)
    let ?j = "j\<lparr>j_tip := record_hash r (chain rs), j_count := j_count j + 1\<rparr>"
    obtain d3 res3 where s: "write_superblock D ?j d2 = (d3, res3)" by (metis surj_pair)
    have eq: "(j', d', res) = (if b2 then (?j, d3, res3) else (j, d2, Err Device))"
      using a l w s True \<open>\<not> j_count j \<ge> j_capacity j\<close> by (cases b2) (simp_all add: code)
    note wr = write_record_step [OF load(1) small _ tr(1) r load(4) _ w]
    have load5: "?n mod 4 \<noteq> 0 \<Longrightarrow> buf = content d1 (rec_sector ?n)"
      using load(3,5) True by simp
    have c1: "slots (content d1) rs" using tr(2) load(3) by simp
    have ok': "list_all jrecord_ok (rs @ [r])" using tr(1) r by simp
    have cnt: "j_count ?j = of_nat (length (rs @ [r]))" "j_tip ?j = chain (rs @ [r])"
      using tr(4) by simp_all
    note sb = write_superblock_step [OF wr(1) [OF c1 load5] cnt ok' s]
    have len: "length (rs @ [r]) \<le> 0x100000" using small by simp
    have new: "tracks c (sec_count D d) ?j (rs @ [r])" if "slots c (rs @ [r])" for c
      using that t lt ok' by (simp add: tracks_def)
    show ?thesis
    proof (cases b2)
      case False
      with eq wr(1-4) [OF c1 load5] load(2,3) t show ?thesis by (simp add: tracks_def)
    next
      case True
      have s2: "slots (content d2) (rs @ [r])" by (rule wr(5) [OF c1 load5 True])
      have s3: "slots (content d3) (rs @ [r])"
        using sb(3) s2 slots_superblock [OF s2 len] by auto
      have "content d2 0 = content d 0" using wr(4) [OF c1 load5] load(3) by simp
      moreover have "commits ((content d2)(0 := superblock_for (rs @ [r]))) (rs @ [r])"
        by (rule superblock_for_commits [OF s2 ok' len])
      ultimately show ?thesis
        using eq True sb new [OF s3] wr(2) [OF c1 load5] load(2) by auto
    qed
  qed
qed

lemma append_ok:
  assumes "valid d" "tracks (content d) (sec_count D d) j rs" "jrecord_ok r"
    and "journal_append D j d r = (j', d', Ok ())"
  shows "valid d'" "sec_count D d' = sec_count D d" "commits (content d') (rs @ [r])"
    "tracks (content d') (sec_count D d') j' (rs @ [r])"
  using append_outcome [OF assms] by auto

lemma create_outcome:
  assumes v: "valid d" and c: "journal_create D d = (d', res)"
  shows "valid d'" "sec_count D d' = sec_count D d"
    and "res = Err Device \<or>
      (\<exists>j. res = Ok j \<and> tracks (content d') (sec_count D d') j [] \<and> commits (content d') [])"
proof -
  let ?j = "\<lparr>j_count = 0, j_tip = replicate HASH_BYTES 0,
             j_capacity = record_capacity (sec_count D d)\<rparr>"
  obtain r where w: "write_superblock D ?j d = (d', r)" and res: "res = and_then r (\<lambda>_. Ok ?j)"
    using c by (auto simp: journal_create_def Let_def split: prod.splits)
  have cnt: "j_count ?j = of_nat (length [])" "j_tip ?j = chain []" by simp_all
  note sb = write_superblock_step [OF v cnt list.pred_inject(1) w]
  from sb(1,2) show "valid d'" "sec_count D d' = sec_count D d" .
  have "commits ((content d)(0 := superblock_for [])) []"
    by (rule superblock_for_commits) (simp_all add: slots_def)
  moreover have "tracks c (sec_count D d) ?j []" for c
    by (simp add: tracks_def slots_def)
  ultimately show "res = Err Device \<or>
      (\<exists>j. res = Ok j \<and> tracks (content d') (sec_count D d') j [] \<and> commits (content d') [])"
    using sb(2,3) res by auto
qed

end

section \<open>Opening a log\<close>

text \<open>
  What \<open>open\<close> computes, as a function of the disk's contents alone: the code reads
  sector after sector from a device that may fail, this reads the contents.
\<close>

fun check_links :: "(u64 \<Rightarrow> byte list) \<Rightarrow> nat \<Rightarrow> nat \<Rightarrow> byte list \<Rightarrow> jfault + byte list" where
  "check_links c 0 i previous = Ok previous"
| "check_links c (Suc n) i previous =
     (case record_decode (record_slot c i) of
        None \<Rightarrow> Err (ChainBroken i)
      | Some (r, stored) \<Rightarrow>
          if record_hash r previous \<noteq> stored then Err (ChainBroken i)
          else check_links c n (Suc i) stored)"

definition open_spec :: "(u64 \<Rightarrow> byte list) \<Rightarrow> u64 \<Rightarrow> jfault + journal" where
  "open_spec c n =
     (case superblock_decode (c 0) of
        None \<Rightarrow> Err NoJournal
      | Some sb \<Rightarrow>
          if sb_count sb > record_capacity n then Err (ChainBroken 0)
          else and_then (check_links c (unat (sb_count sb)) 0 (replicate 32 0))
            (\<lambda>p. if p \<noteq> sb_tip sb then Err (ChainBroken (unat (sb_count sb)))
                 else Ok \<lparr>j_count = sb_count sb, j_tip = sb_tip sb,
                          j_capacity = record_capacity n\<rparr>))"

lemma check_links_sound:
  "check_links c n i p = Ok q \<Longrightarrow>
    \<exists>rs. length rs = n \<and> list_all jrecord_ok rs \<and> q = foldl (\<lambda>p r. record_hash r p) p rs \<and>
      (\<forall>k < n. record_decode (record_slot c (i + k)) =
         Some (rs ! k, foldl (\<lambda>p r. record_hash r p) p (take (Suc k) rs)))"
proof (induction n arbitrary: i p)
  case 0
  then show ?case by simp
next
  case (Suc n)
  then obtain r where d: "record_decode (record_slot c i) = Some (r, record_hash r p)"
    and rest: "check_links c n (Suc i) (record_hash r p) = Ok q"
    by (auto split: option.splits if_splits prod.splits)
  from Suc.IH [OF rest] obtain rs where rs: "length rs = n" "list_all jrecord_ok rs"
    "q = foldl (\<lambda>p r. record_hash r p) (record_hash r p) rs"
    "\<forall>k < n. record_decode (record_slot c (Suc i + k)) =
       Some (rs ! k, foldl (\<lambda>p r. record_hash r p) (record_hash r p) (take (Suc k) rs))" by blast
  have "record_decode (record_slot c (i + k)) =
      Some ((r # rs) ! k, foldl (\<lambda>p r. record_hash r p) p (take (Suc k) (r # rs)))"
    if "k < Suc n" for k
    using that d rs(4) by (cases k) auto
  with rs(1-3) record_decode_ok [OF d] show ?case
    by (intro exI [of _ "r # rs"]) auto
qed

lemma check_links_complete:
  assumes "slots c rs" "i + n \<le> length rs"
  shows "check_links c n i (chain (take i rs)) = Ok (chain (take (i + n) rs))"
  using assms(2)
proof (induction n arbitrary: i)
  case 0
  then show ?case by simp
next
  case (Suc n)
  then have "record_decode (record_slot c i) = Some (rs ! i, chain (take (Suc i) rs))"
    using assms(1) by (simp add: slots_def)
  moreover have "chain (take (Suc i) rs) = record_hash (rs ! i) (chain (take i rs))"
    using Suc.prems by (simp add: take_Suc_conv_app_nth)
  ultimately show ?case using Suc.IH [of "Suc i"] Suc.prems by simp
qed

lemma check_links_slots:
  "check_links c n 0 (replicate 32 0) = Ok q \<longleftrightarrow>
    (\<exists>rs. length rs = n \<and> list_all jrecord_ok rs \<and> slots c rs \<and> q = chain rs)"
proof
  assume "check_links c n 0 (replicate 32 0) = Ok q"
  from check_links_sound [OF this] show
    "\<exists>rs. length rs = n \<and> list_all jrecord_ok rs \<and> slots c rs \<and> q = chain rs"
    by (auto simp: slots_def chain_def)
next
  assume "\<exists>rs. length rs = n \<and> list_all jrecord_ok rs \<and> slots c rs \<and> q = chain rs"
  then obtain rs where "length rs = n" "slots c rs" "q = chain rs" by blast
  with check_links_complete [of c rs 0 n] show "check_links c n 0 (replicate 32 0) = Ok q"
    by simp
qed

lemma open_spec_iff:
  "open_spec c n = Ok j \<longleftrightarrow>
    (\<exists>rs. commits c rs \<and> tracks c n j rs)"
proof
  assume o: "open_spec c n = Ok j"
  then obtain sb where sb: "superblock_decode (c 0) = Some sb"
    "\<not> sb_count sb > record_capacity n"
    "check_links c (unat (sb_count sb)) 0 (replicate 32 0) = Ok (sb_tip sb)"
    and j: "j = \<lparr>j_count = sb_count sb, j_tip = sb_tip sb, j_capacity = record_capacity n\<rparr>"
    by (auto simp: open_spec_def result_simps split: option.splits if_splits)
  from sb(3) obtain rs where rs: "length rs = unat (sb_count sb)" "list_all jrecord_ok rs"
    "slots c rs" "sb_tip sb = chain rs" by (auto simp: check_links_slots)
  have cnt: "sb_count sb = of_nat (length rs)" using rs(1) by simp
  have "length rs \<le> unat (record_capacity n)"
    using rs(1) sb(2) by (simp add: word_le_nat_alt not_less)
  with rs cnt sb(1) j have "commits c rs \<and> tracks c n j rs"
    by (auto simp: commits_def tracks_def)
  then show "\<exists>rs. commits c rs \<and> tracks c n j rs" ..
next
  assume "\<exists>rs. commits c rs \<and> tracks c n j rs"
  then obtain rs where c: "commits c rs" and t: "tracks c n j rs" by blast
  from tracks_count [OF t] t have cnt: "unat (of_nat (length rs) :: u64) = length rs"
    by (simp add: unat_of_nat)
  have "check_links c (length rs) 0 (replicate 32 0) = Ok (chain rs)"
    using t by (auto simp: check_links_slots tracks_def)
  with c t cnt show "open_spec c n = Ok j"
    by (auto simp: open_spec_def commits_def tracks_def word_less_nat_alt)
qed

context sector_store
begin

lemma verify_from_step:
  assumes "valid d" "unat index = i" "i + n \<le> 0x100000"
    and "verify_from D n index p d = (d', res)"
  shows "valid d' \<and> sec_count D d' = sec_count D d \<and> content d' = content d \<and>
    (res = Err Device \<or> res = check_links (content d) n i p)"
  using assms
proof (induction n arbitrary: index i p d)
  case 0
  then show ?case by simp
next
  case (Suc n)
  obtain d1 r1 where r1: "read_record D d index = (d1, r1)" by (metis surj_pair)
  have i: "i < 0x100000" using Suc.prems(3) by simp
  note rd = read_record_step [OF Suc.prems(1,2) i r1]
  have i1: "unat (index + 1) = Suc i"
    using Suc.prems(2) i by (simp add: unat_add_small)
  have le: "Suc i + n \<le> 0x100000" using Suc.prems(3) by simp
  show ?case
  proof (cases "record_decode (record_slot (content d) i)")
    case None
    with rd r1 Suc.prems(4) show ?thesis by auto
  next
    case (Some rh)
    obtain r h where rh: "rh = (r, h)" by (metis surj_pair)
    show ?thesis
    proof (cases "r1 = Err Device")
      case True
      with rd r1 Suc.prems(4) show ?thesis by auto
    next
      case False
      with rd(4) Some rh have r1': "r1 = Ok (r, h)" by simp
      show ?thesis
      proof (cases "record_hash r p = h")
        case True
        with r1 r1' Suc.prems(4) have "verify_from D n (index + 1) h d1 = (d', res)" by simp
        from Suc.IH [OF rd(1) i1 le this] rd(2,3) Some rh True show ?thesis by simp
      next
        case False
        with r1 r1' Suc.prems(2,4) rd(1-3) Some rh show ?thesis by auto
      qed
    qed
  qed
qed

lemma open_step:
  assumes v: "valid d" and o: "journal_open D d = (d', res)"
  shows "valid d'" "sec_count D d' = sec_count D d" "content d' = content d"
    and "res = Err Device \<or> res = open_spec (content d) (sec_count D d)"
proof -
  obtain d1 buf b where r: "sec_read D d 0 zero_sector = (d1, buf, b)" by (metis prod_cases3)
  note f = read_frame [OF v length_zero_sector r]
  have "valid d' \<and> sec_count D d' = sec_count D d \<and> content d' = content d \<and>
      (res = Err Device \<or> res = open_spec (content d) (sec_count D d))"
  proof (cases b)
    case False
    with o r f show ?thesis by (simp add: journal_open_def)
  next
    case True
    then have buf: "buf = content d 0" using read_ok [OF v length_zero_sector, of 0 d1 buf] r by simp
    show ?thesis
    proof (cases "superblock_decode buf")
      case None
      with o r f True buf show ?thesis by (simp add: journal_open_def open_spec_def)
    next
      case (Some sb)
      show ?thesis
      proof (cases "sb_count sb > record_capacity (sec_count D d)")
        case True
        with o r f \<open>b\<close> buf Some show ?thesis
          by (simp add: journal_open_def open_spec_def)
      next
        case False
        then have le: "0 + unat (sb_count sb) \<le> 0x100000"
          using capacity_bound [of "sec_count D d"] by (simp add: word_less_nat_alt)
        obtain d2 res2 where vf: "verify_from D (unat (sb_count sb)) 0 (replicate 32 0) d1 =
          (d2, res2)" by (metis surj_pair)
        have v1: "valid d1" using f by simp
        have step: "valid d2 \<and> sec_count D d2 = sec_count D d1 \<and> content d2 = content d1 \<and>
            (res2 = Err Device \<or>
             res2 = check_links (content d1) (unat (sb_count sb)) 0 (replicate 32 0))"
          by (rule verify_from_step [OF v1 _ le vf]) simp
        have eq: "(d', res) = (d2, and_then res2 (\<lambda>p. if p \<noteq> sb_tip sb
            then Err (ChainBroken (unat (sb_count sb)))
            else Ok \<lparr>j_count = sb_count sb, j_tip = sb_tip sb,
                     j_capacity = record_capacity (sec_count D d)\<rparr>))"
          using o r \<open>b\<close> Some False vf f
          by (cases res2) (auto simp: journal_open_def split: if_splits)
        with step f False Some buf show ?thesis by (auto simp: open_spec_def)
      qed
    qed
  qed
  then show "valid d'" "sec_count D d' = sec_count D d" "content d' = content d"
    "res = Err Device \<or> res = open_spec (content d) (sec_count D d)" by auto
qed

end

context reliable_store
begin

lemma read_record_in:
  assumes v: "valid d" and i: "unat index = i" "i < unat (record_capacity (sec_count D d))"
  obtains d' where "read_record D d index =
      (d', ok_or (record_decode (record_slot (content d) i)) (ChainBroken i))"
    "valid d'" "sec_count D d' = sec_count D d" "content d' = content d"
proof -
  note cap = capacity_sector [OF i(2)]
  obtain d' where r: "sec_read D d (rec_sector i) zero_sector = (d', content d (rec_sector i), True)"
    and d': "valid d'" "content d' = content d" "sec_count D d' = sec_count D d"
    using read_in [OF v length_zero_sector cap(2)] by blast
  from r rec_sector_code [OF i(1) cap(1)] i(1) have "read_record D d index =
      (d', ok_or (record_decode (record_slot (content d) i)) (ChainBroken i))"
    by (simp add: read_record_def record_slot_def Let_def)
  with d' show thesis by (intro that)
qed

lemma verify_from_in:
  assumes "valid d" "unat index = i" "i + n \<le> unat (record_capacity (sec_count D d))"
    and "verify_from D n index p d = (d', res)"
  shows "res = check_links (content d) n i p"
  using assms
proof (induction n arbitrary: index i p d)
  case 0
  then show ?case by simp
next
  case (Suc n)
  have i: "i < unat (record_capacity (sec_count D d))" using Suc.prems(3) by simp
  obtain d1 where r: "read_record D d index =
      (d1, ok_or (record_decode (record_slot (content d) i)) (ChainBroken i))"
    and d1: "valid d1" "sec_count D d1 = sec_count D d" "content d1 = content d"
    using read_record_in [OF Suc.prems(1,2) i] by blast
  have i1: "unat (index + 1) = Suc i"
    using Suc.prems(2) i capacity_bound [of "sec_count D d"] by (simp add: unat_add_small)
  have le: "Suc i + n \<le> unat (record_capacity (sec_count D d1))"
    using Suc.prems(3) d1(2) by simp
  from r Suc.prems(2,4) Suc.IH [OF d1(1) i1 le] d1(3) show ?case
    by (auto split: option.splits if_splits)
qed

lemma open_in:
  assumes v: "valid d" and n: "0 < sec_count D d" and o: "journal_open D d = (d', res)"
  shows "res = open_spec (content d) (sec_count D d)"
proof -
  obtain d1 where r: "sec_read D d 0 zero_sector = (d1, content d 0, True)"
    and d1: "valid d1" "content d1 = content d" "sec_count D d1 = sec_count D d"
    using read_in [OF v length_zero_sector n] by blast
  show ?thesis
  proof (cases "superblock_decode (content d 0)")
    case None
    with o r show ?thesis by (simp add: journal_open_def open_spec_def)
  next
    case (Some sb)
    obtain d2 res2 where vf: "verify_from D (unat (sb_count sb)) 0 (replicate 32 0) d1 = (d2, res2)"
      by (metis surj_pair)
    have "res2 = check_links (content d) (unat (sb_count sb)) 0 (replicate 32 0)"
      if "\<not> sb_count sb > record_capacity (sec_count D d)"
      using verify_from_in [OF d1(1) _ _ vf, of 0] that d1(2,3)
      by (simp add: word_less_nat_alt)
    with o r Some vf d1(3) show ?thesis
      by (auto simp: journal_open_def open_spec_def and_then_def split: sum.splits if_splits)
  qed
qed

lemma write_superblock_in:
  assumes v: "valid d" and n: "0 < sec_count D d" and j: "length (j_tip j) = 32"
  shows "snd (write_superblock D j d) = Ok ()"
proof -
  have "length (superblock_encode \<lparr>sb_count = j_count j, sb_tip = j_tip j\<rparr> zero_sector) = 512"
    using j by simp
  from write_in [OF v this n] obtain d' where "sec_write D d 0
      (superblock_encode \<lparr>sb_count = j_count j, sb_tip = j_tip j\<rparr> zero_sector) = (d', True)"
    by blast
  then show ?thesis by (simp add: write_superblock_def)
qed

lemma create_in:
  assumes v: "valid d" and n: "0 < sec_count D d" and c: "journal_create D d = (d', res)"
  obtains j where "res = Ok j" "valid d'" "sec_count D d' = sec_count D d"
    "tracks (content d') (sec_count D d') j []" "commits (content d') []"
proof -
  have "res \<noteq> Err Device"
    using c write_superblock_in [OF v n, of "\<lparr>j_count = 0, j_tip = replicate 32 0,
      j_capacity = record_capacity (sec_count D d)\<rparr>"]
    by (auto simp: journal_create_def Let_def split: prod.splits)
  with create_outcome [OF v c] that show thesis by auto
qed

lemma append_in:
  assumes v: "valid d" and t: "tracks (content d) (sec_count D d) j rs" and r: "jrecord_ok r"
    and room: "length rs < unat (record_capacity (sec_count D d))"
    and a: "journal_append D j d r = (j', d', res)"
  shows "res = Ok ()"
proof -
  let ?n = "length rs"
  from tracks_count [OF t] have n: "unat (j_count j) = ?n" by simp
  note small = capacity_sector [OF room]
  from t have tr: "j_tip j = chain rs" "list_all jrecord_ok rs" "\<not> j_count j \<ge> j_capacity j"
    using n room by (auto simp: tracks_def word_le_nat_alt)
  have pos: "0 < sec_count D d" using small(2) by (metis word_gt_0 word_not_simps(1))
  obtain d1 buf b1 where l: "(if ?n mod 4 \<noteq> 0 then sec_read D d (rec_sector ?n) zero_sector
      else (d, zero_sector, True)) = (d1, buf, b1)"
    by (metis prod_cases3)
  note load = append_load [OF v l]
  have b1: "b1" using l read_total [OF v length_zero_sector small(2)] by (auto split: if_splits)
  let ?x = "copy_into buf (?n mod 4 * 128) (record_encode r (chain rs) (replicate 128 0))"
  have e: "length (record_encode r (chain rs) (replicate 128 0)) = 128"
    using r by (simp add: jrecord_ok_def)
  have "?n mod 4 < 4" by simp
  then have lx: "length ?x = 512" using load(4) e by (simp add: bytes_simps)
  have in1: "rec_sector ?n < sec_count D d1" using small(2) load(2) by simp
  from write_in [OF load(1) lx in1] obtain d2 where w: "sec_write D d1 (rec_sector ?n) ?x = (d2, True)"
    and d2: "valid d2" "sec_count D d2 = sec_count D d1" by metis
  let ?j = "j\<lparr>j_tip := record_hash r (chain rs), j_count := j_count j + 1\<rparr>"
  obtain d3 res3 where s: "write_superblock D ?j d2 = (d3, res3)" by (metis surj_pair)
  have "snd (write_superblock D ?j d2) = Ok ()"
    using d2 load(2) pos r by (intro write_superblock_in) (simp_all add: jrecord_ok_def)
  then show ?thesis
    using a l b1 w tr s
    by (simp add: journal_append_def Let_def rec_sector_code [OF n small(1)])
qed

lemma journal_read_in:
  assumes v: "valid d" and t: "tracks (content d) (sec_count D d) j rs" and i: "unat index < length rs"
  shows "snd (journal_read D j d index) = Ok (rs ! unat index)"
proof -
  from t have c: "unat index < unat (record_capacity (sec_count D d))" "slots (content d) rs"
    using i by (auto simp: tracks_def)
  from read_record_in [OF v refl c(1)] obtain d' where "read_record D d index =
      (d', ok_or (record_decode (record_slot (content d) (unat index))) (ChainBroken (unat index)))"
    by metis
  moreover have "record_decode (record_slot (content d) (unat index)) =
      Some (rs ! unat index, chain (take (Suc (unat index)) rs))"
    using c(2) i by (simp add: slots_def)
  moreover have "\<not> index \<ge> j_count j"
    using i tracks_count [OF t] by (simp add: word_le_nat_alt)
  ultimately show ?thesis by (simp add: journal_read_def)
qed

end

section \<open>A log over its life\<close>

text \<open>
  The caller's loop: append each record in turn, whatever the previous append returned. The
  records whose append returned \<open>Ok\<close> are collected.
\<close>

fun attempt_all ::
  "'d sectors \<Rightarrow> journal \<Rightarrow> 'd \<Rightarrow> jrecord list \<Rightarrow> journal \<times> 'd \<times> jrecord list" where
  "attempt_all D j d [] = (j, d, [])"
| "attempt_all D j d (r # rs) =
     (let (j, d, res) = journal_append D j d r;
          (j, d, acked) = attempt_all D j d rs
      in (j, d, if is_ok res then r # acked else acked))"

definition collides :: "jrecord \<Rightarrow> byte list \<Rightarrow> jrecord \<Rightarrow> byte list \<Rightarrow> bool" where
  "collides r p r' p' \<longleftrightarrow>
     link_bytes r p \<noteq> link_bytes r' p' \<and> sha256 (link_bytes r p) = sha256 (link_bytes r' p')"

lemma same_tip:
  assumes "length rs = length rs'" "list_all jrecord_ok rs" "list_all jrecord_ok rs'"
    and "chain rs = chain rs'"
  shows "rs = rs' \<or> (\<exists>i < length rs.
    collides (rs ! i) (chain (take i rs)) (rs' ! i) (chain (take i rs')))"
  using assms
proof (induction rs arbitrary: rs' rule: rev_induct)
  case Nil
  then show ?case by simp
next
  case (snoc r rs)
  then obtain r' rs2 where rs': "rs' = rs2 @ [r']" by (cases rs' rule: rev_cases) auto
  have "length (r_label r) = 40" "length (r_label r') = 40"
    using snoc.prems(2,3) rs' by (simp_all add: jrecord_ok_def)
  moreover have "length (chain rs) = length (chain rs2)"
    using snoc.prems(2,3) rs' by simp
  ultimately have ok: "length (r_label r) = 40" "length (r_label r') = 40"
    "length (chain rs) = length (chain rs2)" .
  show ?case
  proof (cases "link_bytes r (chain rs) = link_bytes r' (chain rs2)")
    case False
    with snoc.prems(4) rs' ok(1,2) snoc.prems(1) show ?thesis
      by (intro disjI2 exI [of _ "length rs"]) (simp add: collides_def record_hash_eq nth_append)
  next
    case True
    with link_bytes_inject [OF ok] have e: "r = r'" "chain rs = chain rs2" by auto
    have l: "length rs = length rs2" using snoc.prems(1) rs' by simp
    have "rs = rs2 \<or> (\<exists>i < length rs.
        collides (rs ! i) (chain (take i rs)) (rs2 ! i) (chain (take i rs2)))"
      using snoc.prems(2,3) rs' l e(2) by (intro snoc.IH) simp_all
    with rs' e(1) l show ?thesis by (auto simp: nth_append)
  qed
qed

lemma check_links_append:
  "check_links c (m + n) i p = and_then (check_links c m i p) (check_links c n (i + m))"
  by (induction m arbitrary: i p) (simp_all split: option.splits)

lemma commits_take:
  "commits c rs \<Longrightarrow> c' 0 = c 0 \<Longrightarrow> slots c' log \<Longrightarrow> rs = take k log \<Longrightarrow> commits c' rs"
  by (simp add: commits_def slots_take)

context sector_store
begin

lemma attempt_all_outcome:
  assumes "valid d" "tracks (content d) (sec_count D d) j log" "commits (content d) (take k log)"
    and "k \<le> length log" "list_all jrecord_ok rs" "attempt_all D j d rs = (j', d', acked)"
  shows "\<exists>more k'. valid d' \<and> sec_count D d' = sec_count D d \<and> subseq more rs \<and>
    tracks (content d') (sec_count D d) j' (log @ more) \<and> k \<le> k' \<and> k' \<le> length (log @ more) \<and>
    commits (content d') (take k' (log @ more)) \<and>
    subseq acked (drop (length log) (take k' (log @ more)))"
  using assms
proof (induction rs arbitrary: j d log k acked)
  case Nil
  then show ?case by (intro exI [of _ "[]"] exI [of _ k]) auto
next
  case (Cons r rs)
  obtain j1 d1 res where a: "journal_append D j d r = (j1, d1, res)" by (metis prod_cases3)
  obtain acked1 where rest: "attempt_all D j1 d1 rs = (j', d', acked1)"
    and acked: "acked = (if is_ok res then r # acked1 else acked1)"
    using Cons.prems(6) a by (auto split: prod.splits)
  have ok: "jrecord_ok r" "list_all jrecord_ok rs" using Cons.prems(5) by auto
  note out = append_outcome [OF Cons.prems(1,2) ok(1) a]
  then have v1: "valid d1" and n1: "sec_count D d1 = sec_count D d" by auto
  consider (kept) "j1 = j" "tracks (content d1) (sec_count D d1) j log"
      "content d1 0 = content d 0" "\<not> is_ok res"
    | (grown) "tracks (content d1) (sec_count D d1) j1 (log @ [r])"
      "content d1 0 = content d 0" "\<not> is_ok res"
    | (written) "tracks (content d1) (sec_count D d1) j1 (log @ [r])"
      "commits (content d1) (log @ [r])"
    using out n1 by auto
  then show ?case
  proof cases
    case kept
    have "slots (content d1) log" using kept(2) by (simp add: tracks_def)
    then have "commits (content d1) (take k log)"
      using Cons.prems(3) kept(3) by (blast intro: commits_take)
    from Cons.IH [OF v1 kept(2) this Cons.prems(4) ok(2) rest [unfolded kept(1)]]
    show ?thesis using n1 acked kept(4) by (auto intro: list_emb_Cons)
  next
    case grown
    have "slots (content d1) (log @ [r])" using grown(1) by (simp add: tracks_def)
    moreover have "take k log = take k (log @ [r])" using Cons.prems(4) by simp
    ultimately have "commits (content d1) (take k (log @ [r]))"
      using Cons.prems(3) grown(2) by (metis commits_take)
    moreover have "k \<le> length (log @ [r])" using Cons.prems(4) by simp
    ultimately obtain more k' where m: "valid d'" "sec_count D d' = sec_count D d1"
      "subseq more rs" "tracks (content d') (sec_count D d1) j' ((log @ [r]) @ more)"
      "k \<le> k'" "k' \<le> length ((log @ [r]) @ more)"
      "commits (content d') (take k' ((log @ [r]) @ more))"
      "subseq acked1 (drop (length (log @ [r])) (take k' ((log @ [r]) @ more)))"
      using Cons.IH [OF v1 grown(1) _ _ ok(2) rest] by blast
    have "subseq acked1 (drop (length log) (take k' (log @ r # more)))"
      using m(8) by (auto simp: drop_take take_Cons' intro: list_emb_Cons)
    with m n1 acked grown(3) show ?thesis
      by (intro exI [of _ "r # more"] exI [of _ k']) auto
  next
    case written
    have "commits (content d1) (take (length (log @ [r])) (log @ [r]))" using written(2) by simp
    then obtain more k' where m: "valid d'" "sec_count D d' = sec_count D d1"
      "subseq more rs" "tracks (content d') (sec_count D d1) j' ((log @ [r]) @ more)"
      "length (log @ [r]) \<le> k'" "k' \<le> length ((log @ [r]) @ more)"
      "commits (content d') (take k' ((log @ [r]) @ more))"
      "subseq acked1 (drop (length (log @ [r])) (take k' ((log @ [r]) @ more)))"
      using Cons.IH [OF v1 written(1) _ order_refl ok(2) rest] by blast
    have "drop (length log) (take k' (log @ r # more)) =
        r # drop (length (log @ [r])) (take k' ((log @ [r]) @ more))"
      using m(5) by (simp add: drop_take take_Cons')
    with m(8) have "subseq acked (drop (length log) (take k' (log @ r # more)))"
      using acked by (auto intro: list_emb_Cons)
    with m n1 Cons.prems(4) show ?thesis
      by (intro exI [of _ "r # more"] exI [of _ k']) auto
  qed
qed

end

context reliable_store
begin

lemma attempt_all_in:
  assumes "valid d" "tracks (content d) (sec_count D d) j log" "commits (content d) log"
    and "list_all jrecord_ok rs" "length (log @ rs) \<le> unat (record_capacity (sec_count D d))"
    and "attempt_all D j d rs = (j', d', acked)"
  shows "acked = rs \<and> valid d' \<and> sec_count D d' = sec_count D d \<and>
    tracks (content d') (sec_count D d') j' (log @ rs) \<and> commits (content d') (log @ rs)"
  using assms
proof (induction rs arbitrary: j d log acked)
  case Nil
  then show ?case by simp
next
  case (Cons r rs)
  obtain j1 d1 res where a: "journal_append D j d r = (j1, d1, res)" by (metis prod_cases3)
  have ok: "jrecord_ok r" "list_all jrecord_ok rs"
    and room: "length log < unat (record_capacity (sec_count D d))"
    using Cons.prems(4,5) by auto
  have "res = Ok ()" by (rule append_in [OF Cons.prems(1,2) ok(1) room a])
  with a have a': "journal_append D j d r = (j1, d1, Ok ())" by simp
  note out = append_ok [OF Cons.prems(1,2) ok(1) a']
  obtain acked1 where rest: "attempt_all D j1 d1 rs = (j', d', acked1)"
    and acked: "acked = r # acked1"
    using Cons.prems(6) a' by (auto split: prod.splits)
  have "length ((log @ [r]) @ rs) \<le> unat (record_capacity (sec_count D d1))"
    using Cons.prems(5) out(2) by simp
  from Cons.IH [OF out(1,4,3) ok(2) this rest] acked out(2) show ?case by auto
qed

end

lemma ram_log:
  assumes "n < 2 ^ 64" "0 < n" "list_all jrecord_ok rs"
    and "length rs \<le> unat (record_capacity (of_nat n))"
  shows "\<exists>d1 j d2 j'. journal_create ram_sectors (ram_new n) = (d1, Ok j) \<and>
    attempt_all ram_sectors j d1 rs = (j', d2, rs) \<and> ram_valid d2 \<and>
    sec_count ram_sectors d2 = of_nat n \<and> tracks (ram_content d2) (of_nat n) j' rs \<and>
    commits (ram_content d2) rs"
proof -
  let ?d = "ram_new n"
  have v: "ram_valid ?d" and c: "sec_count ram_sectors ?d = of_nat n"
    using ram_new_valid [OF assms(1)] ram_new_count by auto
  have pos: "0 < sec_count ram_sectors ?d"
    using assms(1,2) c by (simp add: word_less_nat_alt unat_of_nat)
  obtain d1 res where cr: "journal_create ram_sectors ?d = (d1, res)" by (metis surj_pair)
  from ram.create_in [OF v pos cr] obtain j where j: "res = Ok j" "ram_valid d1"
    "sec_count ram_sectors d1 = sec_count ram_sectors ?d"
    "tracks (ram_content d1) (sec_count ram_sectors d1) j []" "commits (ram_content d1) []" .
  obtain j' d2 acked where at: "attempt_all ram_sectors j d1 rs = (j', d2, acked)"
    by (metis prod_cases3)
  have "length ([] @ rs) \<le> unat (record_capacity (sec_count ram_sectors d1))"
    using assms(4) j(3) c by simp
  from ram.attempt_all_in [OF j(2,4,5) assms(3) this at] at cr j(1,3) c show ?thesis by auto
qed

section \<open>Properties\<close>

text \<open>
  C13: on a device that works, a log comes back as it was written. A journal created on any
  disk accepts every record the capacity admits, and opening the disk afterwards verifies
  the chain, returns the very journal the writer held (count, tip and capacity), and reading
  index \<open>i\<close> returns record \<open>i\<close>.
\<close>

theorem log_recovered:
  assumes "reliable_store D valid content" "valid d" "0 < sec_count D d"
    and "list_all jrecord_ok rs" "length rs \<le> unat (record_capacity (sec_count D d))"
  shows "\<exists>d1 j d2 j' d3. journal_create D d = (d1, Ok j) \<and>
    attempt_all D j d1 rs = (j', d2, rs) \<and> journal_open D d2 = (d3, Ok j') \<and>
    j_count j' = of_nat (length rs) \<and> j_tip j' = chain rs \<and>
    (\<forall>i < length rs. snd (journal_read D j' d3 (of_nat i)) = Ok (rs ! i))"
proof -
  obtain d1 res where cr: "journal_create D d = (d1, res)" by (metis surj_pair)
  obtain j where j: "res = Ok j" "valid d1" "sec_count D d1 = sec_count D d"
    "tracks (content d1) (sec_count D d1) j []" "commits (content d1) []"
    using reliable_store.create_in [OF assms(1-3) cr] by blast
  obtain j' d2 acked where at: "attempt_all D j d1 rs = (j', d2, acked)" by (metis prod_cases3)
  have room: "length ([] @ rs) \<le> unat (record_capacity (sec_count D d1))"
    using assms(5) j(3) by simp
  note all = reliable_store.attempt_all_in [OF assms(1) j(2,4,5) assms(4) room at]
  then have v2: "valid d2" and n2: "sec_count D d2 = sec_count D d"
    and t2: "tracks (content d2) (sec_count D d2) j' rs" and c2: "commits (content d2) rs"
    using j(3) by auto
  obtain d3 res3 where o: "journal_open D d2 = (d3, res3)" by (metis surj_pair)
  have "open_spec (content d2) (sec_count D d2) = Ok j'" using t2 c2 by (auto simp: open_spec_iff)
  then have res3: "res3 = Ok j'"
    using reliable_store.open_in [OF assms(1) v2 _ o] n2 assms(3) by simp
  have store: "sector_store D valid content" using assms(1) by (rule reliable_store.axioms)
  note frame = sector_store.open_step [OF store v2 o]
  have t3: "tracks (content d3) (sec_count D d3) j' rs" using frame(2,3) t2 by simp
  have idx: "unat (of_nat i :: u64) = i" if "i < length rs" for i
    using that tracks_count [OF t3] by (simp add: unat_of_nat)
  have "\<forall>i < length rs. snd (journal_read D j' d3 (of_nat i)) = Ok (rs ! i)"
    using reliable_store.journal_read_in [OF assms(1) frame(1) t3] idx by simp
  with cr j(1) at all o res3 t2 show ?thesis by (auto simp: tracks_def)
qed

theorem log_recovered_witness:
  "let rs = [record_new 1 100 1 4 1 (lit ''granted fs:read''), record_new 2 200 1 4 2 (lit ''ok'')]
   in \<exists>d1 j d2 j' d3. journal_create ram_sectors (ram_new 3) = (d1, Ok j) \<and>
    attempt_all ram_sectors j d1 rs = (j', d2, rs) \<and> journal_open ram_sectors d2 = (d3, Ok j') \<and>
    j_count j' = of_nat (length rs) \<and> j_tip j' = chain rs \<and>
    (\<forall>i < length rs. snd (journal_read ram_sectors j' d3 (of_nat i)) = Ok (rs ! i))"
  unfolding Let_def
  by (rule log_recovered [OF ram.reliable_store_axioms])
    (simp_all add: ram_new_valid ram_new_count record_new_ok unat_record_capacity)



text \<open>
  C4: tamper evidence. Let a disk's superblock be the one that closed the log \<open>rs\<close>, and let
  anything else have been altered. If the log still opens, then the records it now holds are
  \<open>rs\<close>, or some link of the original and the same link of the altered log are two different
  SHA-256 inputs with the same digest.
\<close>

theorem tamper_evident:
  assumes "sector_store D valid content" "valid d"
    and "list_all jrecord_ok rs" "length rs < 2 ^ 64"
    and "superblock_decode (content d 0) = Some \<lparr>sb_count = of_nat (length rs), sb_tip = chain rs\<rparr>"
    and "journal_open D d = (d', Ok j)"
  shows "\<exists>rs'. commits (content d) rs' \<and> tracks (content d) (sec_count D d) j rs' \<and>
    length rs' = length rs \<and>
    (rs' = rs \<or> (\<exists>i < length rs.
      collides (rs ! i) (chain (take i rs)) (rs' ! i) (chain (take i rs'))))"
proof -
  from sector_store.open_step(4) [OF assms(1,2,6)]
  obtain rs' where c: "commits (content d) rs'" and t: "tracks (content d) (sec_count D d) j rs'"
    using open_spec_iff [of "content d" "sec_count D d" j] by auto
  from c assms(5) have e: "(of_nat (length rs) :: u64) = of_nat (length rs')" "chain rs = chain rs'"
    by (auto simp: commits_def)
  have "unat (of_nat (length rs') :: u64) = length rs'"
    using tracks_count [OF t] by (simp add: unat_of_nat)
  moreover have "unat (of_nat (length rs) :: u64) = length rs"
    using assms(4) by (simp add: unat_of_nat)
  ultimately have l: "length rs = length rs'" using e(1) by metis
  have ok: "list_all jrecord_ok rs'" using t by (simp add: tracks_def)
  have "rs = rs' \<or> (\<exists>i < length rs.
      collides (rs ! i) (chain (take i rs)) (rs' ! i) (chain (take i rs')))"
    by (rule same_tip [OF l assms(3) ok e(2)])
  with c t l show ?thesis by (intro exI [of _ rs']) auto
qed

theorem tamper_evident_witness:
  "\<exists>d d' j rs'. superblock_decode (ram_content d 0) = Some \<lparr>sb_count = 1,
      sb_tip = chain [record_new 1 100 1 4 1 (lit ''a'')]\<rparr> \<and>
    journal_open ram_sectors d = (d', Ok j) \<and> tracks (ram_content d) 3 j rs' \<and> length rs' = 1"
proof -
  let ?rs = "[record_new 1 100 1 4 1 (lit ''a'')]"
  have ok: "list_all jrecord_ok ?rs" by (simp add: record_new_ok)
  obtain d j where d: "ram_valid d" "sec_count ram_sectors d = 3"
    "tracks (ram_content d) 3 j ?rs" "commits (ram_content d) ?rs"
    using ram_log [of 3 ?rs] ok by (auto simp: unat_record_capacity)
  have sb: "superblock_decode (ram_content d 0) =
      Some \<lparr>sb_count = of_nat (length ?rs), sb_tip = chain ?rs\<rparr>"
    using d(4) by (simp add: commits_def)
  have s: "open_spec (ram_content d) 3 = Ok j" using d(3,4) by (auto simp: open_spec_iff)
  obtain d' res where o: "journal_open ram_sectors d = (d', res)" by (metis surj_pair)
  from ram.open_in [OF d(1) _ o] d(2) s have "res = Ok j" by simp
  with o have o': "journal_open ram_sectors d = (d', Ok j)" by simp
  have l: "length ?rs < 2 ^ 64" by simp
  from tamper_evident [OF ram.sector_store_axioms d(1) ok l sb o'] sb o' d(2) show ?thesis by auto
qed

lemma check_links_prefix:
  assumes "slots c rs" "length rs \<le> n"
  shows "check_links c n 0 (replicate 32 0) = check_links c (n - length rs) (length rs) (chain rs)"
  using check_links_append [of c "length rs" "n - length rs" 0 "replicate 32 0"]
    check_links_complete [OF assms(1), of 0 "length rs"] assms(2) by simp

text \<open>
  An edit in place is found where it was made. If record \<open>i\<close> of a log was replaced by
  another record under the stored hash of the original, opening the log on a device that
  reads reports \<open>ChainBroken i\<close>, unless the two records are a SHA-256 collision behind the
  same previous hash.
\<close>

theorem edit_detected:
  assumes "reliable_store D valid content" "valid d"
    and "list_all jrecord_ok rs" "length rs \<le> unat (record_capacity (sec_count D d))"
    and "superblock_decode (content d 0) = Some \<lparr>sb_count = of_nat (length rs), sb_tip = chain rs\<rparr>"
    and "i < length rs" "slots (content d) (take i rs)"
    and "record_decode (record_slot (content d) i) = Some (r', chain (take (Suc i) rs))"
    and "r' \<noteq> rs ! i"
  shows "snd (journal_open D d) = Err (ChainBroken i) \<or>
    collides (rs ! i) (chain (take i rs)) r' (chain (take i rs))"
proof (rule disjCI)
  let ?p = "chain (take i rs)"
  assume nc: "\<not> collides (rs ! i) ?p r' ?p"
  have ok: "length (r_label r') = 40" "length (r_label (rs ! i)) = 40"
    using record_decode_ok [OF assms(8)] assms(3,6) by (auto simp: jrecord_ok_def list_all_length)
  have cap: "i < unat (record_capacity (sec_count D d))" using assms(4,6) by simp
  have n: "unat (of_nat (length rs) :: u64) = length rs"
    using assms(4) capacity_bound [of "sec_count D d"] by (simp add: unat_of_nat)
  have "link_bytes (rs ! i) ?p \<noteq> link_bytes r' ?p"
    using link_bytes_inject [OF ok(2,1) refl] assms(9) by auto
  then have "record_hash r' ?p \<noteq> record_hash (rs ! i) ?p"
    using nc ok by (auto simp: collides_def record_hash_eq)
  moreover have "chain (take (Suc i) rs) = record_hash (rs ! i) ?p"
    using assms(6) by (simp add: take_Suc_conv_app_nth)
  ultimately have "check_links (content d) (Suc (length rs - Suc i)) i ?p = Err (ChainBroken i)"
    using assms(8) by simp
  moreover have "Suc (length rs - Suc i) = length rs - i" using assms(6) by simp
  ultimately have "check_links (content d) (length rs) 0 (replicate 32 0) = Err (ChainBroken i)"
    using check_links_prefix [OF assms(7), of "length rs"] assms(6) by simp
  then have "open_spec (content d) (sec_count D d) = Err (ChainBroken i)"
    using assms(4,5) n by (simp add: open_spec_def word_less_nat_alt)
  moreover have "0 < sec_count D d"
    using capacity_sector(2) [OF cap] by (metis word_gt_0 word_not_simps(1))
  ultimately show "snd (journal_open D d) = Err (ChainBroken i)"
    using reliable_store.open_in [OF assms(1,2)] by (metis prod.collapse)
qed

text \<open>A disk on which the first record of a one-record log was replaced.\<close>

definition edited_ram :: "jrecord \<Rightarrow> jrecord \<Rightarrow> ram" where
  "edited_ram r r' = \<lparr>ram_data = [superblock_for [r],
     fields_of r' @ chain [r] @ replicate 408 0], ram_flushed = 0\<rparr>"

lemma edited_ram_props:
  assumes "jrecord_ok r" "jrecord_ok r'"
  shows "ram_valid (edited_ram r r')" "sec_count ram_sectors (edited_ram r r') = 2"
    and "ram_content (edited_ram r r') 0 = superblock_for [r]"
    and "record_decode (record_slot (ram_content (edited_ram r r')) 0) = Some (r', chain [r])"
proof -
  have l: "length (chain [r]) = 32" "length (superblock_for [r]) = 512" "length (fields_of r') = 72"
    using assms by (simp_all add: superblock_for_def jrecord_ok_def del: chain_simps)
  then show "ram_valid (edited_ram r r')"
    by (simp add: edited_ram_def ram_valid_def del: chain_simps)
  show "sec_count ram_sectors (edited_ram r r') = 2"
    by (simp add: edited_ram_def ram_sectors_def)
  show "ram_content (edited_ram r r') 0 = superblock_for [r]"
    by (simp add: edited_ram_def ram_content_def)
  have "record_slot (ram_content (edited_ram r r')) 0 =
      fields_of r' @ chain [r] @ replicate 24 0"
    using l by (simp add: record_slot_def rec_sector_def edited_ram_def ram_content_def slice_of_def
        del: chain_simps)
  then show "record_decode (record_slot (ram_content (edited_ram r r')) 0) = Some (r', chain [r])"
    using record_decode_fields [OF assms(2) l(1)] by simp
qed

theorem edit_detected_witness:
  "\<exists>r r'. r = record_new 1 100 1 4 1 (lit ''sent 3 emails'') \<and>
    r' = record_new 1 100 1 4 1 (lit ''Xent 3 emails'') \<and> r' \<noteq> r \<and>
    (snd (journal_open ram_sectors (edited_ram r r')) = Err (ChainBroken 0) \<or>
     collides r (replicate 32 0) r' (replicate 32 0))"
proof -
  obtain r r' where def_r: "r = record_new 1 100 1 4 1 (lit ''sent 3 emails'')"
    and def_r': "r' = record_new 1 100 1 4 1 (lit ''Xent 3 emails'')" by blast
  have ok: "jrecord_ok r" "jrecord_ok r'" by (simp_all add: def_r def_r' record_new_ok)
  have "label_str r = lit ''sent 3 emails''" "label_str r' = lit ''Xent 3 emails''"
    by (simp_all add: def_r def_r' record_new_label fit_prefix_whole lit_def str_len_def
      len_utf8_def scalar_def)
  then have ne: "r' \<noteq> r" by (auto simp: lit_def)
  note e = edited_ram_props [OF ok]
  have tip: "length (chain [r]) = 32" using ok by (simp del: chain_simps)
  have sb: "superblock_decode (superblock_for [r]) =
      Some \<lparr>sb_count = of_nat (length [r]), sb_tip = chain [r]\<rparr>"
    unfolding superblock_for_def using tip by (intro superblock_decode_encode) simp_all
  have "snd (journal_open ram_sectors (edited_ram r r')) = Err (ChainBroken 0) \<or>
      collides ([r] ! 0) (chain (take 0 [r])) r' (chain (take 0 [r]))"
  proof (rule edit_detected [OF ram.reliable_store_axioms e(1)])
    show "length [r] \<le> unat (record_capacity (sec_count ram_sectors (edited_ram r r')))"
      by (simp add: e(2) unat_record_capacity)
    show "superblock_decode (ram_content (edited_ram r r') 0) =
        Some \<lparr>sb_count = of_nat (length [r]), sb_tip = chain [r]\<rparr>" by (simp only: e(3) sb)
    show "record_decode (record_slot (ram_content (edited_ram r r')) 0) =
        Some (r', chain (take (Suc 0) [r]))" using e(4) by (simp del: chain_simps)
  qed (use ok ne in \<open>simp_all add: slots_def\<close>)
  with def_r def_r' ne show ?thesis by auto
qed

lemma shorter_tip:
  assumes "list_all jrecord_ok rs" "m < n" "n \<le> length rs"
    and "chain (take m rs) = chain (take n rs)"
  shows "(\<exists>a b. a < b \<and> b < length rs \<and>
      collides (rs ! a) (chain (take a rs)) (rs ! b) (chain (take b rs))) \<or>
    (\<exists>k < length rs. chain (take (Suc k) rs) = replicate 32 0)"
  using assms(2-4)
proof (induction m arbitrary: n)
  case 0
  then obtain k where k: "n = Suc k" by (cases n) auto
  with 0 have "chain (take (Suc k) rs) = replicate 32 0" by simp
  moreover have "k < length rs" using 0 k by simp
  ultimately show ?case by blast
next
  case (Suc m)
  then obtain k where k: "n = Suc k" "m < k" "k < length rs" by (cases n) auto
  have oks: "jrecord_ok (rs ! m)" "jrecord_ok (rs ! k)"
    "list_all jrecord_ok (take m rs)" "list_all jrecord_ok (take k rs)"
    using assms(1) k by (auto simp: list_all_length)
  have ok: "length (r_label (rs ! m)) = 40" "length (r_label (rs ! k)) = 40"
    "length (chain (take m rs)) = length (chain (take k rs))"
    using oks by (simp_all add: jrecord_ok_def [of "rs ! m"] jrecord_ok_def [of "rs ! k"])
  have tips: "record_hash (rs ! m) (chain (take m rs)) = record_hash (rs ! k) (chain (take k rs))"
    using Suc.prems(3) k by (simp add: take_Suc_conv_app_nth)
  show ?case
  proof (cases "link_bytes (rs ! m) (chain (take m rs)) = link_bytes (rs ! k) (chain (take k rs))")
    case True
    with link_bytes_inject [OF ok] have "chain (take m rs) = chain (take k rs)" by simp
    with Suc.IH [of k] k show ?thesis by simp
  next
    case False
    with tips ok k show ?thesis by (auto simp: collides_def record_hash_eq)
  qed
qed

text \<open>
  A log cut short is found by its tip. If the superblock's count is lowered to \<open>m\<close> and
  its tip left alone, the first \<open>m\<close> links still verify, and \<open>open\<close> reports
  \<open>ChainBroken m\<close>, unless two links of the log collide under SHA-256 or one of them hashes
  to thirty-two zero bytes, the hash a log starts from.
\<close>

theorem truncation_detected:
  assumes "reliable_store D valid content" "valid d"
    and "list_all jrecord_ok rs" "length rs \<le> unat (record_capacity (sec_count D d))"
    and "slots (content d) rs" "m < length rs"
    and "superblock_decode (content d 0) = Some \<lparr>sb_count = of_nat m, sb_tip = chain rs\<rparr>"
  shows "snd (journal_open D d) = Err (ChainBroken m) \<or>
    (\<exists>a b. a < b \<and> b < length rs \<and>
       collides (rs ! a) (chain (take a rs)) (rs ! b) (chain (take b rs))) \<or>
    (\<exists>k < length rs. chain (take (Suc k) rs) = replicate 32 0)"
proof (cases "chain (take m rs) = chain rs")
  case True
  with shorter_tip [OF assms(3,6) order_refl] show ?thesis by simp
next
  case False
  have cap: "m < unat (record_capacity (sec_count D d))" using assms(4,6) by simp
  have n: "unat (of_nat m :: u64) = m"
    using cap capacity_bound [of "sec_count D d"] by (simp add: unat_of_nat)
  have "check_links (content d) m 0 (replicate 32 0) = Ok (chain (take m rs))"
    using check_links_complete [OF assms(5), of 0 m] assms(6) by simp
  then have "open_spec (content d) (sec_count D d) = Err (ChainBroken m)"
    using assms(7) False cap n by (simp add: open_spec_def word_less_nat_alt)
  moreover have "0 < sec_count D d"
    using capacity_sector(2) [OF cap] by (metis word_gt_0 word_not_simps(1))
  ultimately show ?thesis
    using reliable_store.open_in [OF assms(1,2)] by (metis prod.collapse)
qed

theorem truncation_detected_witness:
  "\<exists>d rs. length rs = 1 \<and> slots (ram_content d) rs \<and>
    superblock_decode (ram_content d 0) = Some \<lparr>sb_count = 0, sb_tip = chain rs\<rparr> \<and>
    (snd (journal_open ram_sectors d) = Err (ChainBroken 0) \<or>
     (\<exists>a b. a < b \<and> b < length rs \<and>
       collides (rs ! a) (chain (take a rs)) (rs ! b) (chain (take b rs))) \<or>
     (\<exists>k < length rs. chain (take (Suc k) rs) = replicate 32 0))"
proof -
  obtain r where r: "jrecord_ok r" using record_new_ok by blast
  then have ok: "list_all jrecord_ok [r]" by simp
  obtain d0 j where d0: "ram_valid d0" "sec_count ram_sectors d0 = 3"
    "tracks (ram_content d0) 3 j [r]"
    using ram_log [of 3 "[r]"] ok by (auto simp: unat_record_capacity)
  define x where "x = superblock_encode \<lparr>sb_count = 0, sb_tip = chain [r]\<rparr> zero_sector"
  define d where "d = d0\<lparr>ram_data := (ram_data d0)[0 := x]\<rparr>"
  have tip: "length (chain [r]) = 32" using ok by (simp del: chain_simps)
  then have x: "length x = 512" "superblock_decode x = Some \<lparr>sb_count = 0, sb_tip = chain [r]\<rparr>"
    by (simp_all add: x_def superblock_decode_encode del: chain_simps)
  have len: "0 < length (ram_data d0)" using d0(2) by (auto simp: ram_sectors_def)
  have c: "ram_content d = (ram_content d0)(0 := x)"
    using ram_write_content [OF d0(1) x(1), of 0] len by (simp add: d_def)
  have v: "ram_valid d" using ram_valid_update [OF d0(1) x(1)] by (simp add: d_def)
  have n: "sec_count ram_sectors d = 3" using d0(2) by (simp add: d_def ram_sectors_def)
  have s: "slots (ram_content d) [r]"
    using slots_superblock [of "ram_content d0" "[r]"] d0(3) c by (simp add: tracks_def)
  have room: "length [r] \<le> unat (record_capacity (sec_count ram_sectors d))"
    by (simp add: n unat_record_capacity)
  have m: "0 < length [r]" by simp
  have sb: "superblock_decode (ram_content d 0) = Some \<lparr>sb_count = of_nat 0, sb_tip = chain [r]\<rparr>"
    using c x(2) by (simp del: chain_simps)
  from truncation_detected [OF ram.reliable_store_axioms v ok room s m sb] s sb show ?thesis
    by (intro exI [of _ d] exI [of _ "[r]"]) (simp del: chain_simps)
qed

text \<open>
  The record format. A record built by \<open>Record::new\<close> from any string decodes from its
  own encoding, with the hash stored in it being the digest of the previous hash and its 72
  field bytes; its label reads back as the longest prefix of the string's characters whose
  UTF-8 encoding fits in forty bytes; and two well-formed records with equal field bytes are
  equal.
\<close>

theorem record_format:
  assumes "str_ok label" "length previous = 32"
    and "r = record_new sequence t agent event detail label"
  shows "record_decode (record_encode r previous (replicate 128 0)) =
      Some (r, sha256 (previous @ record_fields r (replicate 72 0))) \<and>
    label_str r = fit_prefix 40 label \<and>
    (\<forall>r'. jrecord_ok r' \<and> record_fields r' (replicate 72 0) = record_fields r (replicate 72 0) \<longrightarrow>
      r' = r)"
proof (intro conjI allI impI)
  have ok: "jrecord_ok r" by (simp add: assms(3) record_new_ok)
  then have l: "length (r_label r) = 40" by (simp add: jrecord_ok_def)
  show "record_decode (record_encode r previous (replicate 128 0)) =
      Some (r, sha256 (previous @ record_fields r (replicate 72 0)))"
    using record_decode_encode [OF ok] l
    by (simp add: record_hash_eq record_fields_eq link_bytes_def)
  show "label_str r = fit_prefix 40 label" using assms(1) by (simp add: assms(3) record_new_label)
  show "r' = r" if "jrecord_ok r' \<and> record_fields r' (replicate 72 0) = record_fields r (replicate 72 0)"
    for r'
  proof -
    have l': "length (r_label r') = 40" using that by (simp add: jrecord_ok_def)
    with that l show ?thesis by (simp add: record_fields_eq fields_of_inject)
  qed
qed

theorem record_format_witness:
  "label_str (record_new 1 2 3 4 5 (lit ''hi'')) = fit_prefix 40 (lit ''hi'') \<and>
   record_decode (record_encode (record_new 1 2 3 4 5 (lit ''hi'')) (replicate 32 0) (replicate 128 0)) =
     Some (record_new 1 2 3 4 5 (lit ''hi''),
       sha256 (replicate 32 0 @ record_fields (record_new 1 2 3 4 5 (lit ''hi'')) (replicate 72 0)))"
proof -
  have s: "str_ok (lit ''hi'')" by (simp add: lit_def scalar_def)
  have l: "length (replicate 32 (0 :: byte)) = 32" by simp
  from record_format [OF s l refl] show ?thesis by blast
qed

text \<open>
  The capacity is this code's choice. Whatever a device claims, a journal admits at most
  \<open>2^20\<close> records and at most four for each sector after the first; a log that claims more is
  refused before any of its records is read; and a full journal refuses a record and changes
  neither itself nor the disk.
\<close>

theorem capacity_is_ours:
  "unat (record_capacity n) = min (4 * (unat n - 1)) (2 ^ 20) \<and>
   (superblock_decode sector = Some sb \<and> sec_read D d 0 zero_sector = (d', sector, True) \<and>
      sb_count sb > record_capacity (sec_count D d') \<longrightarrow>
      journal_open D d = (d', Err (ChainBroken 0))) \<and>
   (j_capacity j \<le> j_count j \<longrightarrow> journal_append D j d r = (j, d, Err Full))"
  by (simp add: unat_record_capacity journal_open_def journal_append_def)

theorem capacity_is_ours_witness:
  "let j = \<lparr>j_count = 8, j_tip = [], j_capacity = 8\<rparr>; r = record_new 9 900 1 4 9 (lit ''one too many'')
   in unat (record_capacity (- 1)) = 2 ^ 20 \<and>
      journal_append ram_sectors j (ram_new 3) r = (j, ram_new 3, Err Full)"
  using capacity_is_ours [of "- 1" undefined undefined ram_sectors "ram_new 3" undefined
      "\<lparr>j_count = 8, j_tip = [], j_capacity = 8\<rparr>" "record_new 9 900 1 4 9 (lit ''one too many'')"]
  by (simp add: Let_def unat_max_word)

end
