(* ===== verification/Gpt.thy ===== *)
theory Gpt
  imports Journal
begin

text \<open>
  \<open>libs/gpt/src/lib.rs\<close>: reading a GUID partition table, primary header first and backup
  second, with the checksums of the header and of the entry array. \<open>find\<close> is translated with
  its reads, its one reused sector buffer and its one possible panic: the slice
  \<open>sector[within..within + 128]\<close> runs past the sector for an entry size such as 200, which
  \<open>parse_header\<close> admits. \<open>find_spec\<close> is the same search over the contents of a device
  that reads. The window that the journal then lives in is in \<open>Storage\<close>.
\<close>

section \<open>Checksums and fields\<close>

definition SIGNATURE :: "byte list" where
  "SIGNATURE = [0x45, 0x46, 0x49, 0x20, 0x50, 0x41, 0x52, 0x54]"

definition HEADER_BYTES :: nat where "HEADER_BYTES = 92"

record partition =
  type_guid :: "byte list"
  first_lba :: u64
  last_lba :: u64

definition partition_sector_count :: "partition \<Rightarrow> u64" where
  "partition_sector_count p = saturating_sub (last_lba p) (first_lba p) + 1"

datatype gfault = NoTable | Corrupt | GDevice

definition crc_bit :: "u32 \<Rightarrow> u32" where
  "crc_bit crc = (let mask = - (crc AND 1) in drop_bit 1 crc XOR (0xedb88320 AND mask))"

definition crc_byte :: "u32 \<Rightarrow> byte \<Rightarrow> u32" where
  "crc_byte crc b = (crc_bit ^^ 8) (crc XOR ucast b)"

definition crc32 :: "byte list \<Rightarrow> u32" where
  "crc32 data = NOT (foldl crc_byte 0xffffffff data)"

text \<open>The streaming form, \<open>Crc32\<close>.\<close>

record crc_state = crc_value :: u32

definition crc_new :: crc_state where "crc_new = \<lparr>crc_value = 0xffffffff\<rparr>"

definition crc_update :: "crc_state \<Rightarrow> byte list \<Rightarrow> crc_state" where
  "crc_update c data = foldl (\<lambda>c b. c\<lparr>crc_value := (crc_bit ^^ 8) (crc_value c XOR ucast b)\<rparr>) c data"

definition crc_finish :: "crc_state \<Rightarrow> u32" where "crc_finish c = NOT (crc_value c)"

definition read_u32 :: "byte list \<Rightarrow> nat \<Rightarrow> u32" where
  "read_u32 bytes i = from_le_bytes [bytes ! i, bytes ! (i + 1), bytes ! (i + 2), bytes ! (i + 3)]"

definition read_u64 :: "byte list \<Rightarrow> nat \<Rightarrow> u64" where
  "read_u64 bytes i =
     foldl (\<lambda>value index. value OR push_bit (index * 8) (ucast (bytes ! (i + index)))) 0 [0..<8]"

section \<open>The header\<close>

record gpt_header =
  entries_lba :: u64
  entry_count :: u32
  entry_size :: u32
  entries_crc :: u32

definition parse_header :: "byte list \<Rightarrow> gpt_header option" where
  "parse_header sector =
     (if length sector < HEADER_BYTES \<or> slice_of sector 0 8 \<noteq> SIGNATURE then None
      else
        let declared = read_u32 sector 16;
            size = unat (read_u32 sector 12)
        in if size < HEADER_BYTES \<or> size > length sector then None
           else
             let copy = copy_into (replicate SECTOR_BYTES 0) 0 (slice_of sector 0 size);
                 copy = copy_into copy 16 (replicate 4 0)
             in if crc32 (slice_of copy 0 size) \<noteq> declared then None
                else
                  let entry_size = read_u32 sector 84;
                      entry_count = read_u32 sector 80
                  in if entry_size < 128 \<or> entry_size > 4096 \<or> entry_count > 512 then None
                     else Some \<lparr>entries_lba = read_u64 sector 72, entry_count = entry_count,
                                entry_size = entry_size, entries_crc = read_u32 sector 88\<rparr>)"

section \<open>The search\<close>

text \<open>The loop that reads and checksums the entry array, over the sectors left.\<close>

fun checksum_entries ::
  "'d sectors \<Rightarrow> gpt_header \<Rightarrow> nat \<Rightarrow> nat \<Rightarrow> nat \<Rightarrow> crc_state \<Rightarrow> byte list \<Rightarrow> 'd \<Rightarrow>
   'd \<times> (gfault + crc_state \<times> byte list)" where
  "checksum_entries D h entries_bytes 0 index checksum sector d = (d, Ok (checksum, sector))"
| "checksum_entries D h entries_bytes (Suc n) index checksum sector d =
     (let (d, sector, ok) = sec_read D d (entries_lba h + of_nat index) sector in
      if \<not> ok then (d, Err GDevice)
      else
        let remaining = entries_bytes - index * SECTOR_BYTES;
            checksum = crc_update checksum (take (min remaining SECTOR_BYTES) sector)
        in checksum_entries D h entries_bytes n (index + 1) checksum sector d)"

text \<open>The body of the search loop once the entry's sector is read; \<open>None\<close> is the panic.\<close>

definition entry_at :: "byte list \<Rightarrow> nat \<Rightarrow> byte list option" where
  "entry_at sector within =
     (if within + 128 > length sector then None else Some (slice_of sector within (within + 128)))"

definition match_entry ::
  "byte list \<Rightarrow> u64 \<Rightarrow> byte list \<Rightarrow> (gfault + partition) option" where
  "match_entry guid count entry =
     (if slice_of entry 0 16 = guid then
        let first = read_u64 entry 32; last = read_u64 entry 40
        in if last < first \<or> last \<ge> count then Some (Err Corrupt)
           else Some (Ok \<lparr>type_guid = slice_of entry 0 16, first_lba = first, last_lba = last\<rparr>)
      else None)"

fun search_entries ::
  "'d sectors \<Rightarrow> gpt_header \<Rightarrow> byte list \<Rightarrow> u64 \<Rightarrow> nat \<Rightarrow> nat \<Rightarrow> byte list \<Rightarrow> 'd \<Rightarrow>
   'd \<times> (gfault + partition) option" where
  "search_entries D h guid count 0 index sector d = (d, Some (Err NoTable))"
| "search_entries D h guid count (Suc n) index sector d =
     (let byte = index * unat (entry_size h);
          lba = entries_lba h + of_nat (byte div SECTOR_BYTES);
          within = byte mod SECTOR_BYTES;
          (d, sector, ok) = sec_read D d lba sector
      in if \<not> ok then (d, Some (Err GDevice))
         else
           case entry_at sector within of
             None \<Rightarrow> (d, None)
           | Some entry \<Rightarrow>
               (case match_entry guid count entry of
                  Some res \<Rightarrow> (d, Some res)
                | None \<Rightarrow> search_entries D h guid count n (index + 1) sector d))"

definition find_header :: "'d sectors \<Rightarrow> 'd \<Rightarrow> 'd \<times> byte list \<times> gpt_header option" where
  "find_header D d =
     (let sector = zero_sector;
          count = sec_count D d;
          (d, sector, ok) = sec_read D d 1 sector;
          header = (if ok then parse_header sector else None)
      in if header = None \<and> count > 1 then
           (let (d, sector, ok) = sec_read D d (count - 1) sector
            in (d, sector, if ok then parse_header sector else None))
         else (d, sector, header))"

definition gpt_find ::
  "'d sectors \<Rightarrow> 'd \<Rightarrow> byte list \<Rightarrow> 'd \<times> (gfault + partition) option" where
  "gpt_find D d guid =
     (let count = sec_count D d;
          (d, sector, header) = find_header D d
      in case header of
           None \<Rightarrow> (d, Some (Err NoTable))
         | Some h \<Rightarrow>
             (let entries_bytes = unat (entry_count h) * unat (entry_size h);
                  entry_sectors = div_ceil entries_bytes SECTOR_BYTES
              in case checksum_entries D h entries_bytes entry_sectors 0 crc_new sector d of
                   (d, Inl e) \<Rightarrow> (d, Some (Err e))
                 | (d, Inr (checksum, sector)) \<Rightarrow>
                     if crc_finish checksum \<noteq> entries_crc h then (d, Some (Err Corrupt))
                     else search_entries D h guid count (unat (entry_count h)) 0 sector d))"

definition window_new :: "'d \<Rightarrow> partition \<Rightarrow> 'd window" where
  "window_new d p = \<lparr>w_storage = d, w_first = first_lba p, w_count = partition_sector_count p\<rparr>"

section \<open>Lemmas on checksums and fields\<close>

lemma crc_update_append: "crc_update (crc_update c xs) ys = crc_update c (xs @ ys)"
  by (simp add: crc_update_def)

lemma crc_update_value: "crc_value (crc_update c xs) = foldl crc_byte (crc_value c) xs"
  by (induction xs arbitrary: c) (simp_all add: crc_update_def crc_byte_def)

lemma crc_streaming: "crc_finish (crc_update crc_new xs) = crc32 xs"
  by (simp add: crc_finish_def crc_update_value crc32_def crc_new_def)

lemma gpt_sizes [simp]: "HEADER_BYTES = 92" "length SIGNATURE = 8" "SECTOR_BYTES = 512"
  by (simp_all add: HEADER_BYTES_def SIGNATURE_def SECTOR_BYTES_def)

lemma read_u32_slice:
  assumes "i + 4 \<le> length bs"
  shows "read_u32 bs i = from_le_bytes (slice_of bs i (i + 4))"
proof -
  have "slice_of bs i (i + 4) = [bs ! i, bs ! (i + 1), bs ! (i + 2), bs ! (i + 3)]"
    using assms
    by (intro nth_equalityI) (auto simp: bytes_simps nth_Cons' numeral_eq_Suc less_Suc_eq)
  then show ?thesis by (simp add: read_u32_def)
qed

lemma read_u64_slice:
  assumes "i + 8 \<le> length bs"
  shows "read_u64 bs i = from_le_bytes (slice_of bs i (i + 8))"
proof (rule bit_word_eqI)
  fix k assume k: "k < LENGTH(64)"
  have fold: "bit (foldl (\<lambda>value index. value OR push_bit (index * 8) (ucast (bs ! (i + index)) :: u64))
      0 [0..<m]) k \<longleftrightarrow> (\<exists>j<m. j * 8 \<le> k \<and> bit (bs ! (i + j)) (k - j * 8))" if "m \<le> 8" for m
    using that
  proof (induction m)
    case 0
    then show ?case by simp
  next
    case (Suc m)
    then show ?case using k
      by (auto simp: bit_or_iff bit_push_bit_iff bit_ucast_iff less_Suc_eq)
  qed
  have "(\<exists>j<8. j * 8 \<le> k \<and> bit (bs ! (i + j)) (k - j * 8)) \<longleftrightarrow> bit (bs ! (i + k div 8)) (k mod 8)"
  proof
    assume "\<exists>j<8. j * 8 \<le> k \<and> bit (bs ! (i + j)) (k - j * 8)"
    then obtain j where j: "j < 8" "j * 8 \<le> k" "bit (bs ! (i + j)) (k - j * 8)" by blast
    from j(3) have "k - j * 8 < 8" using bit_imp_le_length by fastforce
    with j(2) have jk: "k div 8 = j" by (intro div_nat_eqI) auto
    then have "k - j * 8 = k mod 8" by (simp add: modulo_nat_def)
    with jk j(3) show "bit (bs ! (i + k div 8)) (k mod 8)" by simp
  next
    assume b: "bit (bs ! (i + k div 8)) (k mod 8)"
    have "k - k div 8 * 8 = k mod 8" by (simp add: modulo_nat_def)
    with b k show "\<exists>j<8. j * 8 \<le> k \<and> bit (bs ! (i + j)) (k - j * 8)"
      by (intro exI [of _ "k div 8"]) auto
  qed
  moreover have "k div 8 < 8" using k by auto
  ultimately show "bit (read_u64 bs i) k = bit (from_le_bytes (slice_of bs i (i + 8)) :: u64) k"
    using fold [of 8] k assms
    by (simp only: read_u64_def bit_from_le_bytes bytes_simps) (simp add: bytes_simps)
qed

section \<open>Headers that verify\<close>

definition header_with :: "u32 \<Rightarrow> byte list \<Rightarrow> gpt_header \<Rightarrow> byte list" where
  "header_with crc middle h =
     SIGNATURE @ [0, 0, 1, 0] @ to_le_bytes (92 :: u32) @ to_le_bytes crc @ middle @
     to_le_bytes (entries_lba h) @ to_le_bytes (entry_count h) @ to_le_bytes (entry_size h) @
     to_le_bytes (entries_crc h)"

definition sealed_header :: "byte list \<Rightarrow> gpt_header \<Rightarrow> byte list" where
  "sealed_header middle h = header_with (crc32 (header_with 0 middle h)) middle h"

lemma length_header_with [simp]: "length middle = 52 \<Longrightarrow> length (header_with c middle h) = 92"
  by (simp add: header_with_def)

lemma length_sealed_header [simp]: "length middle = 52 \<Longrightarrow> length (sealed_header middle h) = 92"
  by (simp add: sealed_header_def)

lemma read_u32_le:
  assumes "bs = xs @ to_le_bytes w @ ys" "length xs = i"
  shows "read_u32 bs i = w"
  using assms by (subst read_u32_slice) (simp_all add: slice_append_right slice_append_left)

lemma read_u64_le:
  assumes "bs = xs @ to_le_bytes w @ ys" "length xs = i"
  shows "read_u64 bs i = w"
  using assms by (subst read_u64_slice) (simp_all add: slice_append_right slice_append_left)

text \<open>The header split at its fields.\<close>

lemma header_split:
  fixes c :: u32
  defines "pre \<equiv> SIGNATURE @ [0, 0, 1, 0]"
  shows "header_with c middle h @ rest = pre @ to_le_bytes (92 :: u32) @ (to_le_bytes c @ middle @
      to_le_bytes (entries_lba h) @ to_le_bytes (entry_count h) @ to_le_bytes (entry_size h) @
      to_le_bytes (entries_crc h) @ rest)"
    and "header_with c middle h @ rest = (pre @ to_le_bytes (92 :: u32)) @ to_le_bytes c @ (middle @
      to_le_bytes (entries_lba h) @ to_le_bytes (entry_count h) @ to_le_bytes (entry_size h) @
      to_le_bytes (entries_crc h) @ rest)"
    and "header_with c middle h @ rest = (pre @ to_le_bytes (92 :: u32) @ to_le_bytes c @ middle) @
      to_le_bytes (entries_lba h) @ (to_le_bytes (entry_count h) @ to_le_bytes (entry_size h) @
      to_le_bytes (entries_crc h) @ rest)"
    and "header_with c middle h @ rest = (pre @ to_le_bytes (92 :: u32) @ to_le_bytes c @ middle @
      to_le_bytes (entries_lba h)) @ to_le_bytes (entry_count h) @ (to_le_bytes (entry_size h) @
      to_le_bytes (entries_crc h) @ rest)"
    and "header_with c middle h @ rest = (pre @ to_le_bytes (92 :: u32) @ to_le_bytes c @ middle @
      to_le_bytes (entries_lba h) @ to_le_bytes (entry_count h)) @ to_le_bytes (entry_size h) @
      (to_le_bytes (entries_crc h) @ rest)"
    and "header_with c middle h @ rest = (pre @ to_le_bytes (92 :: u32) @ to_le_bytes c @ middle @
      to_le_bytes (entries_lba h) @ to_le_bytes (entry_count h) @ to_le_bytes (entry_size h)) @
      to_le_bytes (entries_crc h) @ rest"
  by (simp_all only: header_with_def pre_def append_assoc)

lemma header_with_fields:
  assumes "length middle = 52"
  shows "slice_of (header_with c middle h @ rest) 0 8 = SIGNATURE"
    and "read_u32 (header_with c middle h @ rest) 12 = 92"
    and "read_u32 (header_with c middle h @ rest) 16 = c"
    and "read_u64 (header_with c middle h @ rest) 72 = entries_lba h"
    and "read_u32 (header_with c middle h @ rest) 80 = entry_count h"
    and "read_u32 (header_with c middle h @ rest) 84 = entry_size h"
    and "read_u32 (header_with c middle h @ rest) 88 = entries_crc h"
proof -
  show "slice_of (header_with c middle h @ rest) 0 8 = SIGNATURE"
    by (simp add: header_with_def slice_append_left)
qed (rule read_u32_le [OF header_split(1)] read_u32_le [OF header_split(2)]
    read_u64_le [OF header_split(3)] read_u32_le [OF header_split(4)]
    read_u32_le [OF header_split(5)] read_u32_le [OF header_split(6)],
    use assms in simp)+

lemma header_copy:
  assumes "length middle = 52"
  shows "slice_of (copy_into (copy_into (replicate 512 0) 0
      (slice_of (header_with c middle h @ rest) 0 92)) 16 (replicate 4 0)) 0 92 = header_with 0 middle h"
proof -
  have z: "to_le_bytes (0 :: u32) = replicate 4 0"
    by (simp add: to_le_bytes_0)
  have s: "slice_of (header_with c middle h @ rest) 0 92 = header_with c middle h"
    using assms by (simp add: slice_append_left)
  obtain pre post where p: "\<And>x. header_with x middle h = pre @ to_le_bytes x @ post"
    "length pre = 16" "length post = 72"
  proof (rule that [of "SIGNATURE @ [0, 0, 1, 0] @ to_le_bytes (92 :: u32)" "middle @
      to_le_bytes (entries_lba h) @ to_le_bytes (entry_count h) @ to_le_bytes (entry_size h) @
      to_le_bytes (entries_crc h)"])
  qed (use assms in \<open>simp_all add: header_with_def\<close>)
  have "copy_into (copy_into (replicate 512 0) 0 (header_with c middle h)) 16 (replicate 4 0) =
      (pre @ replicate 4 0 @ post) @ replicate 420 0"
    using p(2,3) by (simp add: p(1) copy_into_def)
  then show ?thesis using p(2,3) by (simp only: s) (simp add: p(1) z slice_of_def)
qed

lemma parse_sealed_header:
  assumes "length middle = 52" "length rest = 420"
    and "128 \<le> entry_size h" "entry_size h \<le> 4096" "entry_count h \<le> 512"
  shows "parse_header (sealed_header middle h @ rest) = Some h"
  using assms header_with_fields [OF assms(1)] header_copy [OF assms(1)]
  by (simp add: parse_header_def sealed_header_def Let_def not_less [symmetric])

lemma parse_header_bounds:
  "parse_header sector = Some h \<Longrightarrow>
    128 \<le> entry_size h \<and> entry_size h \<le> 4096 \<and> entry_count h \<le> 512"
  by (auto simp: parse_header_def Let_def split: if_splits)

section \<open>The search over the contents of a disk\<close>

definition entry_bytes :: "(u64 \<Rightarrow> byte list) \<Rightarrow> gpt_header \<Rightarrow> byte list" where
  "entry_bytes c h = (let n = unat (entry_count h) * unat (entry_size h) in
     take n (concat (map (\<lambda>i. c (entries_lba h + of_nat i)) [0..<div_ceil n 512])))"

definition entry_of :: "(u64 \<Rightarrow> byte list) \<Rightarrow> gpt_header \<Rightarrow> nat \<Rightarrow> byte list option" where
  "entry_of c h k = (let byte = k * unat (entry_size h) in
     entry_at (c (entries_lba h + of_nat (byte div 512))) (byte mod 512))"

fun search_spec ::
  "(u64 \<Rightarrow> byte list) \<Rightarrow> gpt_header \<Rightarrow> byte list \<Rightarrow> u64 \<Rightarrow> nat \<Rightarrow> nat \<Rightarrow> (gfault + partition) option" where
  "search_spec c h guid n 0 k = Some (Err NoTable)"
| "search_spec c h guid n (Suc m) k =
     (case entry_of c h k of
        None \<Rightarrow> None
      | Some e \<Rightarrow> (case match_entry guid n e of
                      Some r \<Rightarrow> Some r | None \<Rightarrow> search_spec c h guid n m (k + 1)))"

definition table_spec ::
  "(u64 \<Rightarrow> byte list) \<Rightarrow> gpt_header \<Rightarrow> byte list \<Rightarrow> u64 \<Rightarrow> (gfault + partition) option" where
  "table_spec c h guid n =
     (if crc32 (entry_bytes c h) \<noteq> entries_crc h then Some (Err Corrupt)
      else search_spec c h guid n (unat (entry_count h)) 0)"

lemma search_spec_found:
  assumes "search_spec c h guid n m k = Some (Ok p)"
  shows "\<exists>j e. k \<le> j \<and> j < k + m \<and> entry_of c h j = Some e \<and> match_entry guid n e = Some (Ok p) \<and>
    (\<forall>i. k \<le> i \<and> i < j \<longrightarrow> (\<exists>e'. entry_of c h i = Some e' \<and> slice_of e' 0 16 \<noteq> guid))"
  using assms
proof (induction m arbitrary: k)
  case 0
  then show ?case by simp
next
  case (Suc m)
  from Suc.prems obtain e where e: "entry_of c h k = Some e" by (cases "entry_of c h k") auto
  show ?case
  proof (cases "match_entry guid n e")
    case None
    then have no: "slice_of e 0 16 \<noteq> guid"
      by (auto simp: match_entry_def Let_def split: if_splits)
    from Suc.IH [of "k + 1"] Suc.prems e None obtain j e' where j: "k + 1 \<le> j" "j < k + 1 + m"
      "entry_of c h j = Some e'" "match_entry guid n e' = Some (Ok p)"
      "\<forall>i. k + 1 \<le> i \<and> i < j \<longrightarrow> (\<exists>e'. entry_of c h i = Some e' \<and> slice_of e' 0 16 \<noteq> guid)"
      by auto
    have "\<exists>e'. entry_of c h i = Some e' \<and> slice_of e' 0 16 \<noteq> guid" if "k \<le> i" "i < j" for i
      using that j(5) e no by (cases "i = k") auto
    with j show ?thesis by (intro exI [of _ j] exI [of _ e']) auto
  next
    case (Some r)
    with Suc.prems e show ?thesis by (intro exI [of _ k]) auto
  qed
qed

lemma match_entry_ok:
  "match_entry guid n e = Some (Ok p) \<Longrightarrow> slice_of e 0 16 = guid \<and> type_guid p = guid \<and>
    first_lba p = read_u64 e 32 \<and> last_lba p = read_u64 e 40 \<and>
    first_lba p \<le> last_lba p \<and> last_lba p < n"
  by (auto simp: match_entry_def Let_def not_less not_le split: if_splits)

lemma search_spec_no_panic:
  assumes "\<And>k. k < m + i \<Longrightarrow> entry_of c h k \<noteq> None"
  shows "search_spec c h guid n m i \<noteq> None"
  using assms by (induction m arbitrary: i) (auto split: option.splits)

lemma search_spec_panic:
  assumes "i \<le> k" "k < m + i" "entry_of c h k = None"
    and "\<And>j. i \<le> j \<Longrightarrow> j < k \<Longrightarrow> \<exists>e. entry_of c h j = Some e \<and> slice_of e 0 16 \<noteq> guid"
  shows "search_spec c h guid n m i = None"
  using assms
proof (induction m arbitrary: i)
  case 0
  then show ?case by simp
next
  case (Suc m)
  show ?case
  proof (cases "i = k")
    case True
    with Suc.prems(3) show ?thesis by simp
  next
    case False
    then have "i < k" using Suc.prems(1) by simp
    with Suc.prems(4) [of i] obtain e where e: "entry_of c h i = Some e" "slice_of e 0 16 \<noteq> guid"
      by auto
    then have "match_entry guid n e = None" by (simp add: match_entry_def)
    with e \<open>i < k\<close> Suc.prems Suc.IH [of "i + 1"] show ?thesis by simp
  qed
qed

lemma take_chunk:
  assumes "length s = 512"
  shows "take n (s @ rest) = take (min n 512) s @ take (n - 512) rest"
  using assms by (auto simp: min_def)

definition array_from :: "(u64 \<Rightarrow> byte list) \<Rightarrow> gpt_header \<Rightarrow> nat \<Rightarrow> nat \<Rightarrow> byte list" where
  "array_from c h i m = concat (map (\<lambda>i. c (entries_lba h + of_nat i)) [i..<i + m])"

lemma array_from_simps:
  "array_from c h i 0 = []"
  "array_from c h i (Suc m) = c (entries_lba h + of_nat i) @ array_from c h (Suc i) m"
  by (simp_all add: array_from_def upt_conv_Cons del: upt_Suc)

definition table_range :: "gpt_header \<Rightarrow> nat" where
  "table_range h = div_ceil (unat (entry_count h) * unat (entry_size h)) 512"

lemma entry_bytes_eq:
  "entry_bytes c h = take (unat (entry_count h) * unat (entry_size h)) (array_from c h 0 (table_range h))"
  by (simp add: entry_bytes_def array_from_def table_range_def Let_def)

context sector_store
begin

lemma checksum_outcome:
  assumes "valid d" "length sector = 512" "content d = c"
    and "checksum_entries D h n m i cs sector d = (d', res)"
  shows "valid d' \<and> content d' = content d \<and> sec_count D d' = sec_count D d \<and>
    (res = Err GDevice \<or> (\<exists>sector'. length sector' = 512 \<and>
       res = Ok (crc_update cs (take (n - i * 512) (array_from c h i m)), sector')))"
  using assms
proof (induction m arbitrary: i cs sector d)
  case 0
  then show ?case by (auto simp: array_from_simps crc_update_def)
next
  case (Suc m)
  obtain d1 s1 ok where r: "sec_read D d (entries_lba h + of_nat i) sector = (d1, s1, ok)"
    by (metis prod_cases3)
  note f = read_frame [OF Suc.prems(1,2) r]
  show ?case
  proof (cases ok)
    case False
    with r f Suc.prems(4) show ?thesis by simp
  next
    case True
    let ?s = "c (entries_lba h + of_nat i)"
    note rd = read_cases [OF Suc.prems(1,2) r True]
    have s1: "s1 = ?s" and l: "length ?s = 512"
      using rd f Suc.prems(3) by auto
    let ?cs = "crc_update cs (take (min (n - i * 512) 512) s1)"
    have step: "checksum_entries D h n m (i + 1) ?cs s1 d1 = (d', res)"
      using Suc.prems(4) r True by (simp add: Let_def)
    have "take (n - i * 512) (array_from c h i (Suc m)) =
        take (min (n - i * 512) 512) ?s @ take (n - (i + 1) * 512) (array_from c h (i + 1) m)"
      using take_chunk [OF l, of "n - i * 512" "array_from c h (Suc i) m"]
      by (simp add: array_from_simps algebra_simps)
    moreover have "valid d' \<and> content d' = content d1 \<and> sec_count D d' = sec_count D d1 \<and>
      (res = Err GDevice \<or> (\<exists>sector'. length sector' = 512 \<and>
        res = Ok (crc_update ?cs (take (n - (i + 1) * 512) (array_from c h (i + 1) m)), sector')))"
      using f Suc.prems(3) by (intro Suc.IH [OF _ _ _ step]) auto
    ultimately show ?thesis using f s1 by (simp add: crc_update_append)
  qed
qed

lemma search_outcome:
  assumes "valid d" "length sector = 512"
    and "search_entries D h guid n m i sector d = (d', res)"
  shows "valid d' \<and> content d' = content d \<and> sec_count D d' = sec_count D d \<and>
    (res = Some (Err GDevice) \<or> res = search_spec (content d) h guid n m i)"
  using assms
proof (induction m arbitrary: i sector d)
  case 0
  then show ?case by simp
next
  case (Suc m)
  let ?byte = "i * unat (entry_size h)"
  let ?lba = "entries_lba h + of_nat (?byte div 512)"
  obtain d1 s1 ok where r: "sec_read D d ?lba sector = (d1, s1, ok)" by (metis prod_cases3)
  note f = read_frame [OF Suc.prems(1,2) r]
  show ?case
  proof (cases ok)
    case False
    with r f Suc.prems(3) show ?thesis by (simp add: Let_def)
  next
    case True
    have s1: "s1 = content d ?lba"
      by (rule read_cases(1) [OF Suc.prems(1,2) r True])
    then have e: "entry_at s1 (?byte mod 512) = entry_of (content d) h i"
      by (simp add: entry_of_def Let_def)
    show ?thesis
    proof (cases "entry_of (content d) h i")
      case None
      with r f True e Suc.prems(3) show ?thesis by (simp add: Let_def)
    next
      case (Some en)
      show ?thesis
      proof (cases "match_entry guid n en")
        case None
        have step: "search_entries D h guid n m (i + 1) s1 d1 = (d', res)"
          using r True e Some None Suc.prems(3) by (simp add: Let_def)
        with Suc.IH [OF _ _ step] f Some None show ?thesis by simp
      next
        case (Some x)
        with r True e \<open>entry_of (content d) h i = Some en\<close> f Suc.prems(3) show ?thesis
          by (auto simp: Let_def split: option.splits)
      qed
    qed
  qed
qed

lemma header_outcome:
  assumes "valid d" "find_header D d = (d', sector, hdr)"
  shows "valid d' \<and> content d' = content d \<and> sec_count D d' = sec_count D d \<and> length sector = 512 \<and>
    (hdr = None \<or> hdr = parse_header (content d 1) \<or>
     hdr = parse_header (content d (sec_count D d - 1)))"
proof -
  obtain d1 s1 ok1 where r1: "sec_read D d 1 zero_sector = (d1, s1, ok1)" by (metis prod_cases3)
  note f1 = read_frame [OF assms(1) length_zero_sector r1]
  obtain d2 s2 ok2 where r2: "sec_read D d1 (sec_count D d - 1) s1 = (d2, s2, ok2)"
    by (metis prod_cases3)
  have f2: "valid d2 \<and> content d2 = content d1 \<and> sec_count D d2 = sec_count D d1 \<and> length s2 = 512"
    using read_frame [OF _ _ r2] f1 by simp
  have p1: "ok1 \<Longrightarrow> s1 = content d 1"
    by (rule read_cases(1) [OF assms(1) length_zero_sector r1])
  have p2: "ok2 \<Longrightarrow> s2 = content d (sec_count D d - 1)"
    using read_cases(1) [OF _ _ r2] f1 by simp
  show ?thesis
    using assms(2) r1 r2 f1 f2 p1 p2
    by (auto simp: find_header_def Let_def split: if_splits)
qed

lemma find_outcome:
  assumes v: "valid d" and g: "gpt_find D d guid = (d', res)"
  shows "valid d' \<and> content d' = content d \<and> sec_count D d' = sec_count D d \<and>
    (res = Some (Err NoTable) \<or> res = Some (Err GDevice) \<or>
     (\<exists>h. (parse_header (content d 1) = Some h \<or>
           parse_header (content d (sec_count D d - 1)) = Some h) \<and>
          res = table_spec (content d) h guid (sec_count D d)))"
proof -
  obtain d1 s1 hdr where h: "find_header D d = (d1, s1, hdr)" by (metis prod_cases3)
  note f1 = header_outcome [OF v h]
  show ?thesis
  proof (cases hdr)
    case None
    with g h f1 show ?thesis by (simp add: gpt_find_def)
  next
    case (Some hd)
    let ?n = "unat (entry_count hd) * unat (entry_size hd)"
    obtain d2 r2 where k: "checksum_entries D hd ?n (table_range hd) 0 crc_new s1 d1 = (d2, r2)"
      by (metis surj_pair)
    have f2: "valid d2 \<and> content d2 = content d1 \<and> sec_count D d2 = sec_count D d1 \<and>
      (r2 = Err GDevice \<or> (\<exists>s2. length s2 = 512 \<and>
         r2 = Ok (crc_update crc_new (entry_bytes (content d1) hd), s2)))"
      using checksum_outcome [OF _ _ refl k] f1
      by (simp add: entry_bytes_eq)
    show ?thesis
    proof (cases "r2 = Err GDevice")
      case True
      with g h Some k f1 f2 show ?thesis by (simp add: gpt_find_def table_range_def Let_def)
    next
      case False
      with f2 obtain s2 where s2: "length s2 = 512"
        "r2 = Ok (crc_update crc_new (entry_bytes (content d1) hd), s2)" by blast
      obtain d3 r3 where s: "search_entries D hd guid (sec_count D d) (unat (entry_count hd)) 0 s2 d2 =
        (d3, r3)" by (metis surj_pair)
      have c2: "valid d2" "content d2 = content d" "sec_count D d2 = sec_count D d"
        "content d1 = content d" using f1 f2 by auto
      note f3 = search_outcome [OF c2(1) s2(1) s]
      have hd: "parse_header (content d 1) = Some hd \<or>
          parse_header (content d (sec_count D d - 1)) = Some hd" using f1 Some by auto
      have "(d', res) = (if crc32 (entry_bytes (content d1) hd) \<noteq> entries_crc hd
          then (d2, Some (Err Corrupt)) else (d3, r3))"
        using g h Some k s2 s
        by (cases "crc32 (entry_bytes (content d1) hd) = entries_crc hd")
          (simp_all add: gpt_find_def table_range_def Let_def crc_streaming)
      then have "valid d' \<and> content d' = content d \<and> sec_count D d' = sec_count D d \<and>
          (res = Some (Err GDevice) \<or> res = table_spec (content d) hd guid (sec_count D d))"
        using f3 c2 by (simp add: table_spec_def split: if_splits)
      with hd show ?thesis by blast
    qed
  qed
qed

end

definition header_spec :: "(u64 \<Rightarrow> byte list) \<Rightarrow> u64 \<Rightarrow> gpt_header option" where
  "header_spec c n = (case parse_header (c 1) of
     Some h \<Rightarrow> Some h | None \<Rightarrow> parse_header (c (n - 1)))"

definition table_in_range :: "gpt_header \<Rightarrow> u64 \<Rightarrow> bool" where
  "table_in_range h n \<longleftrightarrow> (\<forall>i < table_range h. entries_lba h + of_nat i < n)"

lemma entry_sector_in_table:
  assumes "k < unat (entry_count h)" "0 < unat (entry_size h)"
  shows "k * unat (entry_size h) div 512 < table_range h"
proof -
  let ?n = "unat (entry_count h) * unat (entry_size h)"
  have "k * unat (entry_size h) < ?n" using assms by simp
  also have "?n \<le> table_range h * 512"
    unfolding table_range_def by (rule div_ceil_bounds) simp
  finally show ?thesis by (simp add: div_less_iff_less_mult)
qed

context reliable_store
begin

lemma checksum_in:
  assumes "valid d" "length sector = 512"
    and "\<And>k. i \<le> k \<Longrightarrow> k < i + m \<Longrightarrow> entries_lba h + of_nat k < sec_count D d"
    and "checksum_entries D h n m i cs sector d = (d', res)"
  shows "res \<noteq> Err GDevice"
  using assms
proof (induction m arbitrary: i cs sector d)
  case 0
  then show ?case by auto
next
  case (Suc m)
  obtain d1 s1 ok where r: "sec_read D d (entries_lba h + of_nat i) sector = (d1, s1, ok)"
    by (metis prod_cases3)
  note f = read_frame [OF Suc.prems(1,2) r]
  have ok: "ok" using read_total [OF Suc.prems(1,2), of "entries_lba h + of_nat i"]
      Suc.prems(3) [of i] r by simp
  have "checksum_entries D h n m (i + 1)
      (crc_update cs (take (min (n - i * 512) 512) s1)) s1 d1 = (d', res)"
    using Suc.prems(4) r ok by (simp add: Let_def)
  then show ?case by (rule Suc.IH [rotated 3]) (use f Suc.prems(3) in auto)
qed

lemma search_in:
  assumes "valid d" "length sector = 512" "i + m \<le> unat (entry_count h)"
    and "0 < unat (entry_size h)" "table_in_range h (sec_count D d)"
    and "search_entries D h guid n m i sector d = (d', res)"
  shows "res = search_spec (content d) h guid n m i"
  using assms
proof (induction m arbitrary: i sector d)
  case 0
  then show ?case by simp
next
  case (Suc m)
  let ?byte = "i * unat (entry_size h)"
  let ?lba = "entries_lba h + of_nat (?byte div 512)"
  have "?byte div 512 < table_range h"
    using Suc.prems(3,4) by (intro entry_sector_in_table) auto
  then have "?lba < sec_count D d" using Suc.prems(5) by (auto simp: table_in_range_def)
  from read_in [OF Suc.prems(1,2) this] obtain d1 where r:
    "sec_read D d ?lba sector = (d1, content d ?lba, True)" and d1: "valid d1"
    "content d1 = content d" "sec_count D d1 = sec_count D d" by blast
  note f = read_frame [OF Suc.prems(1,2) r]
  have e: "entry_at (content d ?lba) (?byte mod 512) = entry_of (content d) h i"
    by (simp add: entry_of_def Let_def)
  have step: "search_entries D h guid n m (i + 1) (content d ?lba) d1 = (d', res) \<Longrightarrow>
      res = search_spec (content d1) h guid n m (i + 1)"
    using f Suc.prems(3-5) by (intro Suc.IH) auto
  show ?case
    using Suc.prems(6) r e d1(2) step by (auto simp: Let_def split: option.splits)
qed

lemma header_in:
  assumes v: "valid d" and n: "1 < sec_count D d" and f: "find_header D d = (d', sector, hdr)"
  shows "hdr = header_spec (content d) (sec_count D d)"
proof -
  obtain d1 where r1: "sec_read D d 1 zero_sector = (d1, content d 1, True)"
    and d1: "valid d1" "content d1 = content d" "sec_count D d1 = sec_count D d"
    using read_in [OF v length_zero_sector n] by blast
  have l: "length (content d 1) = 512" using content_len [OF v n] .
  have "sec_count D d \<noteq> 0" using n by auto
  then have "sec_count D d - 1 < sec_count D d1"
    using n d1(3) unat_minus_one [of "sec_count D d"] by (auto simp: word_less_nat_alt)
  from read_in [OF d1(1) l this] obtain d2 where
    r2: "sec_read D d1 (sec_count D d - 1) (content d 1) =
      (d2, content d1 (sec_count D d - 1), True)" by blast
  show ?thesis
    using f r1 r2 n d1(2)
    by (auto simp: find_header_def header_spec_def Let_def split: option.splits)
qed

lemma find_in:
  assumes v: "valid d" and n: "1 < sec_count D d"
    and h: "header_spec (content d) (sec_count D d) = Some h"
    and range: "table_in_range h (sec_count D d)"
    and g: "gpt_find D d guid = (d', res)"
  shows "res = table_spec (content d) h guid (sec_count D d)"
proof -
  obtain d1 s1 hdr where fh: "find_header D d = (d1, s1, hdr)" by (metis prod_cases3)
  note f1 = header_outcome [OF v fh]
  have hdr: "hdr = Some h" using header_in [OF v n fh] h by simp
  have "128 \<le> entry_size h"
    using h by (auto simp: header_spec_def split: option.splits dest: parse_header_bounds)
  then have size: "0 < unat (entry_size h)" by (simp add: word_le_nat_alt)
  let ?n = "unat (entry_count h) * unat (entry_size h)"
  obtain d2 r2 where k: "checksum_entries D h ?n (table_range h) 0 crc_new s1 d1 = (d2, r2)"
    by (metis surj_pair)
  have v1: "valid d1" "length s1 = 512" using f1 by auto
  have "r2 \<noteq> Err GDevice"
    using range f1 by (intro checksum_in [OF v1 _ k]) (simp add: table_in_range_def)
  then obtain s2 where s2: "length s2 = 512"
      "r2 = Ok (crc_update crc_new (entry_bytes (content d) h), s2)"
    and f2: "valid d2" "content d2 = content d" "sec_count D d2 = sec_count D d"
    using checksum_outcome [OF v1 _ k, of "content d"] f1
    by (auto simp: entry_bytes_eq)
  obtain d3 r3 where s: "search_entries D h guid (sec_count D d) (unat (entry_count h)) 0 s2 d2 =
    (d3, r3)" by (metis surj_pair)
  have "r3 = search_spec (content d) h guid (sec_count D d) (unat (entry_count h)) 0"
    using search_in [OF f2(1) s2(1) _ size _ s] range f2 by simp
  then show ?thesis
    using g fh hdr k s2 s
    by (auto simp: gpt_find_def table_range_def table_spec_def Let_def crc_streaming split: if_splits)
qed

end

context sector_store
begin

lemma search_total:
  assumes "valid d" "length sector = 512" "128 dvd unat (entry_size h)"
    and "search_entries D h guid n m i sector d = (d', res)"
  shows "res \<noteq> None"
  using assms
proof (induction m arbitrary: i sector d)
  case 0
  then show ?case by auto
next
  case (Suc m)
  let ?byte = "i * unat (entry_size h)"
  let ?lba = "entries_lba h + of_nat (?byte div 512)"
  obtain d1 s1 ok where r: "sec_read D d ?lba sector = (d1, s1, ok)" by (metis prod_cases3)
  note f = read_frame [OF Suc.prems(1,2) r]
  have "128 dvd ?byte mod 512" using Suc.prems(3) by (simp add: dvd_mod)
  moreover have "?byte mod 512 < 512" by simp
  ultimately have "?byte mod 512 + 128 \<le> 512" by (auto elim!: dvdE)
  then have "entry_at s1 (?byte mod 512) \<noteq> None" using f by (simp add: entry_at_def)
  then show ?case
    using Suc.prems(4) r Suc.IH [OF _ _ Suc.prems(3)] f
    by (fastforce simp: Let_def split: if_splits option.splits)
qed

lemma find_total_dvd:
  assumes v: "valid d" and g: "gpt_find D d guid = (d', res)"
    and h: "\<And>h. parse_header (content d 1) = Some h \<or>
      parse_header (content d (sec_count D d - 1)) = Some h \<Longrightarrow> 128 dvd unat (entry_size h)"
  shows "res \<noteq> None"
proof -
  obtain d1 s1 hdr where fh: "find_header D d = (d1, s1, hdr)" by (metis prod_cases3)
  note f1 = header_outcome [OF v fh]
  show ?thesis
  proof (cases hdr)
    case None
    with g fh show ?thesis by (auto simp: gpt_find_def)
  next
    case (Some hd)
    let ?n = "unat (entry_count hd) * unat (entry_size hd)"
    obtain d2 r2 where k: "checksum_entries D hd ?n (table_range hd) 0 crc_new s1 d1 = (d2, r2)"
      by (metis surj_pair)
    have f2: "valid d2 \<and> (r2 = Err GDevice \<or> (\<exists>cs s2. length s2 = 512 \<and> r2 = Ok (cs, s2)))"
      using checksum_outcome [OF _ _ refl k] f1 by auto
    have "128 dvd unat (entry_size hd)" using f1 Some by (auto intro: h)
    with f2 g fh Some k show ?thesis
      by (auto simp: gpt_find_def table_range_def Let_def split: if_splits dest: search_total)
  qed
qed

end

lemma partition_window_valid:
  assumes "first_lba p \<le> last_lba p" "last_lba p < n"
  shows "unat (partition_sector_count p) = unat (last_lba p) - unat (first_lba p) + 1"
    and "unat (first_lba p) + unat (partition_sector_count p) = unat (last_lba p) + 1"
    and "unat (last_lba p) + 1 \<le> unat n"
proof -
  from assms have b: "unat (first_lba p) \<le> unat (last_lba p)" "unat (last_lba p) < unat n"
    by (simp_all add: word_le_nat_alt word_less_nat_alt)
  have "unat n < 2 ^ LENGTH(64)" by (rule unsigned_less)
  with b have "unat (saturating_sub (last_lba p) (first_lba p)) + unat (1 :: u64) < 2 ^ LENGTH(64)"
    by simp
  from unat_add_small [OF this]
  show c: "unat (partition_sector_count p) = unat (last_lba p) - unat (first_lba p) + 1"
    by (simp add: partition_sector_count_def)
  show "unat (first_lba p) + unat (partition_sector_count p) = unat (last_lba p) + 1"
    using b c by simp
  show "unat (last_lba p) + 1 \<le> unat n" using b by simp
qed

lemma entry_of_None_iff:
  assumes "length (c (entries_lba h + of_nat (k * unat (entry_size h) div 512))) = 512"
  shows "entry_of c h k = None \<longleftrightarrow> 384 < k * unat (entry_size h) mod 512"
  using assms by (auto simp: entry_of_def entry_at_def Let_def)

lemma search_spec_None:
  assumes "search_spec c h guid n m i = None"
  shows "\<exists>k. i \<le> k \<and> k < i + m \<and> entry_of c h k = None \<and>
    (\<forall>j. i \<le> j \<and> j < k \<longrightarrow> (\<exists>e. entry_of c h j = Some e \<and> slice_of e 0 16 \<noteq> guid))"
  using assms
proof (induction m arbitrary: i)
  case 0
  then show ?case by simp
next
  case (Suc m)
  show ?case
  proof (cases "entry_of c h i")
    case None
    then show ?thesis by (intro exI [of _ i]) auto
  next
    case (Some e)
    then have m: "match_entry guid n e = None" and rest: "search_spec c h guid n m (i + 1) = None"
      using Suc.prems by (auto split: option.splits)
    have no: "slice_of e 0 16 \<noteq> guid"
      using m by (auto simp: match_entry_def Let_def split: if_splits)
    from Suc.IH [OF rest] obtain k where k: "i + 1 \<le> k" "k < i + 1 + m" "entry_of c h k = None"
      "\<forall>j. i + 1 \<le> j \<and> j < k \<longrightarrow> (\<exists>e. entry_of c h j = Some e \<and> slice_of e 0 16 \<noteq> guid)" by blast
    have "\<exists>e. entry_of c h j = Some e \<and> slice_of e 0 16 \<noteq> guid" if "i \<le> j" "j < k" for j
      using that k(4) Some no by (cases "j = i") auto
    with k show ?thesis by (intro exI [of _ k]) auto
  qed
qed

section \<open>A small partitioned disk\<close>

definition table_disk :: "gpt_header \<Rightarrow> byte list list \<Rightarrow> ram" where
  "table_disk h secs = \<lparr>ram_data =
     [zero_sector, sealed_header (replicate 52 0) h @ replicate 420 0] @ secs, ram_flushed = 0\<rparr>"

lemma table_disk_find:
  assumes "\<forall>x \<in> set secs. length x = 512" "length secs < 2 ^ 20" "entries_lba h = 2"
    and "128 \<le> entry_size h" "entry_size h \<le> 4096" "entry_count h \<le> 512"
    and "table_range h \<le> length secs"
  shows "ram_valid (table_disk h secs)"
    and "sec_count ram_sectors (table_disk h secs) = of_nat (length secs + 2)"
    and "i < length secs \<Longrightarrow> ram_content (table_disk h secs) (2 + of_nat i) = secs ! i"
    and "parse_header (ram_content (table_disk h secs) 1) = Some h"
    and "snd (gpt_find ram_sectors (table_disk h secs) guid) =
      table_spec (ram_content (table_disk h secs)) h guid (of_nat (length secs + 2))"
proof -
  let ?d = "table_disk h secs" and ?n = "of_nat (length secs + 2) :: u64"
  show v: "ram_valid ?d" using assms(1,2) by (simp add: table_disk_def ram_valid_def)
  show n: "sec_count ram_sectors ?d = ?n" by (simp add: table_disk_def ram_sectors_def)
  have un: "unat ?n = length secs + 2"
    by (rule unat_of_nat_small) (use assms(2) in simp)
  have idx: "unat (2 + of_nat i :: u64) = 2 + i" if "i < 2 ^ 20" for i
  proof -
    have "unat (of_nat i :: u64) = i" using that by (simp add: unat_of_nat)
    then show ?thesis using that by (simp add: unat_add_small)
  qed
  show "ram_content ?d (2 + of_nat i) = secs ! i" if "i < length secs" for i
    using that assms(2) idx [of i] by (simp add: ram_content_def table_disk_def)
  have "ram_content ?d 1 = sealed_header (replicate 52 0) h @ replicate 420 0"
    by (simp add: ram_content_def table_disk_def)
  then show p: "parse_header (ram_content ?d 1) = Some h"
    using assms by (simp add: parse_sealed_header)
  have "table_in_range h ?n"
    using assms(2,3,7) idx un by (auto simp: table_in_range_def word_less_nat_alt simp del: of_nat_add)
  moreover have "1 < sec_count ram_sectors ?d"
    using n un by (simp add: word_less_nat_alt del: of_nat_add)
  moreover obtain d' res where g: "gpt_find ram_sectors ?d guid = (d', res)" by (metis surj_pair)
  ultimately show "snd (gpt_find ram_sectors ?d guid) = table_spec (ram_content ?d) h guid ?n"
    using ram.find_in [OF v _ _ _ g, of h] n p by (simp add: header_spec_def)
qed

text \<open>One partition of a given type, sectors 3 to 10, in a table of one entry.\<close>

definition typed_entry :: "byte list \<Rightarrow> byte list" where
  "typed_entry g = g @ replicate 16 0 @ to_le_bytes (3 :: u64) @ to_le_bytes (10 :: u64) @ replicate 80 0"

definition typed_table :: "byte list \<Rightarrow> gpt_header" where
  "typed_table g = \<lparr>entries_lba = 2, entry_count = 1, entry_size = 128, entries_crc = crc32 (typed_entry g)\<rparr>"

definition typed_disk :: "byte list \<Rightarrow> ram" where
  "typed_disk g = table_disk (typed_table g) ((typed_entry g @ replicate 384 0) # replicate 9 zero_sector)"

lemma length_typed_entry [simp]: "length g = 16 \<Longrightarrow> length (typed_entry g) = 128"
  by (simp add: typed_entry_def)

lemma typed_table_fields [simp]:
  "entries_lba (typed_table g) = 2" "entry_count (typed_table g) = 1" "entry_size (typed_table g) = 128"
  "entries_crc (typed_table g) = crc32 (typed_entry g)" "table_range (typed_table g) = 1"
  by (simp_all add: typed_table_def table_range_def div_ceil_def)

lemma typed_disk_find:
  assumes "length g = 16"
  obtains d' where "gpt_find ram_sectors (typed_disk g) g =
      (d', Some (Ok \<lparr>type_guid = g, first_lba = 3, last_lba = 10\<rparr>))"
    "ram_valid (typed_disk g)" "sec_count ram_sectors (typed_disk g) = 12"
proof -
  let ?secs = "(typed_entry g @ replicate 384 0) # replicate 9 zero_sector"
  have f: "\<forall>x \<in> set ?secs. length x = 512" "length ?secs < 2 ^ 20" "entries_lba (typed_table g) = 2"
    "128 \<le> entry_size (typed_table g)" "entry_size (typed_table g) \<le> 4096" "entry_count (typed_table g) \<le> 512"
    "table_range (typed_table g) \<le> length ?secs"
    using assms by simp_all
  note d = table_disk_find [OF f]
  have c: "ram_content (table_disk (typed_table g) ?secs) 2 = typed_entry g @ replicate 384 0"
    using d(3) [of 0] by simp
  have "entry_bytes (ram_content (table_disk (typed_table g) ?secs)) (typed_table g) = typed_entry g"
    using c assms by (simp add: entry_bytes_eq array_from_simps)
  moreover have e: "entry_of (ram_content (table_disk (typed_table g) ?secs)) (typed_table g) 0 = Some (typed_entry g)"
    using c assms by (simp add: entry_of_def entry_at_def slice_of_def Let_def)
  moreover have s: "slice_of (typed_entry g) 0 16 = g"
    using assms by (simp add: typed_entry_def slice_append_left)
  moreover have "read_u64 (typed_entry g) 32 = 3"
    by (rule read_u64_le [of _ "g @ replicate 16 0"]) (use assms in \<open>simp_all add: typed_entry_def\<close>)
  moreover have "read_u64 (typed_entry g) 40 = 10"
    by (rule read_u64_le [of _ "g @ replicate 16 0 @ to_le_bytes (3 :: u64)"])
      (use assms in \<open>simp_all add: typed_entry_def\<close>)
  ultimately have "table_spec (ram_content (table_disk (typed_table g) ?secs)) (typed_table g) g 12 =
      Some (Ok \<lparr>type_guid = g, first_lba = 3, last_lba = 10\<rparr>)"
    by (simp add: table_spec_def match_entry_def)
  with d(5) [of g] d(1,2) that show thesis
    by (auto simp: typed_disk_def prod_eq_iff)
qed

abbreviation one_disk :: ram where "one_disk \<equiv> typed_disk (replicate 16 7)"

lemma one_disk_find:
  obtains d' where "gpt_find ram_sectors one_disk (replicate 16 7) =
      (d', Some (Ok \<lparr>type_guid = replicate 16 7, first_lba = 3, last_lba = 10\<rparr>))"
    "ram_valid one_disk" "sec_count ram_sectors one_disk = 12"
proof (rule typed_disk_find [of "replicate 16 7"])
qed (simp_all add: that)

section \<open>Properties\<close>

text \<open>
  A partition that \<open>find\<close> reports is on the disk and in the table. It comes from a header
  that verifies (the primary or the backup), out of an entry array that matches that header's
  checksum; it is the first entry of the asked type; its bounds are ordered and inside the
  device; and the window opened on it covers exactly its sectors.
\<close>

theorem find_sound:
  assumes "sector_store D valid content" "valid d" "gpt_find D d guid = (d', Some (Ok p))"
  shows "\<exists>h k e. (parse_header (content d 1) = Some h \<or>
      parse_header (content d (sec_count D d - 1)) = Some h) \<and>
    crc32 (entry_bytes (content d) h) = entries_crc h \<and>
    k < unat (entry_count h) \<and> entry_of (content d) h k = Some e \<and> slice_of e 0 16 = guid \<and>
    type_guid p = guid \<and> first_lba p = read_u64 e 32 \<and> last_lba p = read_u64 e 40 \<and>
    (\<forall>i < k. \<exists>e'. entry_of (content d) h i = Some e' \<and> slice_of e' 0 16 \<noteq> guid) \<and>
    first_lba p \<le> last_lba p \<and> last_lba p < sec_count D d \<and>
    window_valid D valid (window_new d' p) \<and>
    unat (w_count (window_new d' p)) = unat (last_lba p) - unat (first_lba p) + 1"
proof -
  note out = sector_store.find_outcome [OF assms]
  then have "\<exists>h. (parse_header (content d 1) = Some h \<or>
      parse_header (content d (sec_count D d - 1)) = Some h) \<and>
      Some (Ok p) = table_spec (content d) h guid (sec_count D d)" by simp
  then obtain h where h: "parse_header (content d 1) = Some h \<or>
      parse_header (content d (sec_count D d - 1)) = Some h"
    and "Some (Ok p) = table_spec (content d) h guid (sec_count D d)" by blast
  then have t: "table_spec (content d) h guid (sec_count D d) = Some (Ok p)" by simp
  from t have crc: "crc32 (entry_bytes (content d) h) = entries_crc h"
    and s: "search_spec (content d) h guid (sec_count D d) (unat (entry_count h)) 0 = Some (Ok p)"
    by (auto simp: table_spec_def split: if_splits)
  from search_spec_found [OF s] obtain k e where k: "k < unat (entry_count h)"
    "entry_of (content d) h k = Some e" "match_entry guid (sec_count D d) e = Some (Ok p)"
    "\<forall>i < k. \<exists>e'. entry_of (content d) h i = Some e' \<and> slice_of e' 0 16 \<noteq> guid" by auto
  note m = match_entry_ok [OF k(3)]
  then have b: "first_lba p \<le> last_lba p" "last_lba p < sec_count D d" by auto
  note pw = partition_window_valid [OF b]
  have "window_valid D valid (window_new d' p)"
    "unat (w_count (window_new d' p)) = unat (last_lba p) - unat (first_lba p) + 1"
    using pw out
    by (simp_all add: window_valid_def window_new_def)
  with h crc k m show ?thesis by blast
qed

theorem find_sound_witness:
  "\<exists>d' p. gpt_find ram_sectors one_disk (replicate 16 7) = (d', Some (Ok p)) \<and> last_lba p = 10 \<and>
    window_valid ram_sectors ram_valid (window_new d' p) \<and> unat (w_count (window_new d' p)) = 8"
proof -
  obtain d' where g: "gpt_find ram_sectors one_disk (replicate 16 7) =
      (d', Some (Ok \<lparr>type_guid = replicate 16 7, first_lba = 3, last_lba = 10\<rparr>))"
    and v: "ram_valid one_disk" using one_disk_find by metis
  from find_sound [OF ram.sector_store_axioms v g] g show ?thesis by auto
qed

text \<open>
  C14: the journal in its partition touches nothing else. Take the partition \<open>find\<close> reported,
  open a window on it, create a journal there and append any records, on a device that may
  fail at any request: afterwards every sector outside the partition is what it was, and the
  partition holds a log that opens.
\<close>

theorem journal_stays_in_partition:
  assumes "sector_store D valid content" "valid d" "gpt_find D d guid = (d', Some (Ok p))"
    and "journal_create (window_sectors D) (window_new d' p) = (w1, Ok j)"
    and "list_all jrecord_ok rs" "attempt_all (window_sectors D) j w1 rs = (j', w2, acked)"
  shows "(\<forall>t. t < first_lba p \<or> last_lba p < t \<longrightarrow> content (w_storage w2) t = content d t) \<and>
    (\<exists>log k. subseq log rs \<and> subseq acked (take k log) \<and>
      commits (window_content content w2) (take k log))"
proof -
  let ?w = "window_new d' p"
  let ?V = "window_confined D valid content (first_lba p) (partition_sector_count p) (content d)"
  note out = sector_store.find_outcome [OF assms(1-3)]
  have bounds: "first_lba p \<le> last_lba p" "last_lba p < sec_count D d"
  proof -
    from out obtain h where "table_spec (content d) h guid (sec_count D d) = Some (Ok p)" by auto
    then have "search_spec (content d) h guid (sec_count D d) (unat (entry_count h)) 0 = Some (Ok p)"
      by (auto simp: table_spec_def split: if_splits)
    from search_spec_found [OF this] show "first_lba p \<le> last_lba p" "last_lba p < sec_count D d"
      by (auto dest: match_entry_ok)
  qed
  note pw = partition_window_valid [OF bounds]
  have store: "sector_store (window_sectors D) ?V (window_content content)"
    by (rule partition_window.confined_store) (simp add: partition_window_def assms(1))
  have v0: "?V ?w"
    using out pw by (simp add: window_confined_def window_valid_def window_new_def)
  note cr = sector_store.create_outcome [OF store v0 assms(4)]
  then have t1: "tracks (window_content content w1) (sec_count (window_sectors D) w1) j []"
    and c1: "commits (window_content content w1) (take 0 [])" by auto
  obtain log k where m: "?V w2" "subseq log rs"
    "commits (window_content content w2) (take k log)" "subseq acked (take k log)"
    using sector_store.attempt_all_outcome [OF store cr(1) t1 c1 _ assms(5,6)] by auto
  have "content (w_storage w2) t = content d t" if "t < first_lba p \<or> last_lba p < t" for t
    using that m(1) pw(2) by (auto simp: window_confined_def word_less_nat_alt)
  with m show ?thesis by blast
qed

theorem journal_stays_in_partition_witness:
  "\<exists>d' p w1 j j' w2 acked. gpt_find ram_sectors one_disk (replicate 16 7) = (d', Some (Ok p)) \<and>
    journal_create (window_sectors ram_sectors) (window_new d' p) = (w1, Ok j) \<and>
    attempt_all (window_sectors ram_sectors) j w1 [record_new 1 1 1 1 1 (lit ''a'')] = (j', w2, acked) \<and>
    (\<forall>t. t < 3 \<or> 10 < t \<longrightarrow> ram_content (w_storage w2) t = ram_content one_disk t)"
proof -
  let ?p = "\<lparr>type_guid = replicate 16 7, first_lba = 3, last_lba = 10\<rparr> :: partition"
  let ?rs = "[record_new 1 1 1 1 1 (lit ''a'')]"
  obtain d' where g: "gpt_find ram_sectors one_disk (replicate 16 7) = (d', Some (Ok ?p))"
    and v: "ram_valid one_disk" and n: "sec_count ram_sectors one_disk = 12"
    using one_disk_find by metis
  note out = ram.find_outcome [OF v g]
  let ?w = "window_new d' ?p"
  have "unat (partition_sector_count ?p) = 8"
    using partition_window_valid(1) [of ?p 12] by simp
  then have wv: "window_valid ram_sectors ram_valid ?w" and pos: "0 < sec_count (window_sectors ram_sectors) ?w"
    using out n by (simp_all add: window_valid_def window_new_def window_sectors_def word_less_nat_alt)
  obtain w1 res where c: "journal_create (window_sectors ram_sectors) ?w = (w1, res)"
    by (metis surj_pair)
  from ram_win.rwin.create_in [OF wv pos c] obtain j where "res = Ok j" by metis
  with c have c': "journal_create (window_sectors ram_sectors) ?w = (w1, Ok j)" by simp
  obtain j' w2 acked where a: "attempt_all (window_sectors ram_sectors) j w1 ?rs = (j', w2, acked)"
    by (metis prod_cases3)
  have ok: "list_all jrecord_ok ?rs" by (simp add: record_new_ok)
  from journal_stays_in_partition [OF ram.sector_store_axioms v g c' ok a] g c' a show ?thesis
    by (intro exI [of _ d'] exI [of _ ?p] exI [of _ w1] exI [of _ j] exI [of _ j'] exI [of _ w2]
        exI [of _ acked]) simp
qed

text \<open>
  C15: what \<open>find\<close> does with an entry size the specification does not allow. On a device that
  reads, with a verified table inside it, \<open>find\<close> panics exactly when some entry of the table
  starts past byte 384 of its sector and no entry before it matches or itself panics: the
  check of \<open>parse_header\<close>, 128 to 4096, admits such sizes, and the slice then runs past the
  sector.
\<close>

theorem find_panics_iff:
  assumes "reliable_store D valid content" "valid d" "1 < sec_count D d"
    and "header_spec (content d) (sec_count D d) = Some h" "table_in_range h (sec_count D d)"
    and "crc32 (entry_bytes (content d) h) = entries_crc h"
  shows "snd (gpt_find D d guid) = None \<longleftrightarrow>
    (\<exists>k < unat (entry_count h). 384 < k * unat (entry_size h) mod 512 \<and>
       (\<forall>j < k. \<exists>e. entry_of (content d) h j = Some e \<and> slice_of e 0 16 \<noteq> guid))"
proof -
  obtain d' res where g: "gpt_find D d guid = (d', res)" by (metis surj_pair)
  have res: "res = search_spec (content d) h guid (sec_count D d) (unat (entry_count h)) 0"
    using reliable_store.find_in [OF assms(1-5) g] assms(6) by (simp add: table_spec_def)
  have "128 \<le> entry_size h"
    using assms(4) by (auto simp: header_spec_def split: option.splits dest: parse_header_bounds)
  then have size: "0 < unat (entry_size h)" by (simp add: word_le_nat_alt)
  have store: "sector_store D valid content" using assms(1) by (rule reliable_store.axioms)
  have none: "entry_of (content d) h k = None \<longleftrightarrow> 384 < k * unat (entry_size h) mod 512"
    if "k < unat (entry_count h)" for k
  proof (rule entry_of_None_iff)
    have "entries_lba h + of_nat (k * unat (entry_size h) div 512) < sec_count D d"
      using entry_sector_in_table [OF that size] assms(5) by (simp add: table_in_range_def)
    then show "length (content d (entries_lba h + of_nat (k * unat (entry_size h) div 512))) = 512"
      by (rule sector_store.content_len [OF store assms(2)])
  qed
  show ?thesis
  proof
    assume "snd (gpt_find D d guid) = None"
    then have "search_spec (content d) h guid (sec_count D d) (unat (entry_count h)) 0 = None"
      using g res by simp
    from search_spec_None [OF this] show "\<exists>k < unat (entry_count h).
        384 < k * unat (entry_size h) mod 512 \<and>
        (\<forall>j < k. \<exists>e. entry_of (content d) h j = Some e \<and> slice_of e 0 16 \<noteq> guid)"
      using none by auto
  next
    assume "\<exists>k < unat (entry_count h). 384 < k * unat (entry_size h) mod 512 \<and>
        (\<forall>j < k. \<exists>e. entry_of (content d) h j = Some e \<and> slice_of e 0 16 \<noteq> guid)"
    then obtain k where "k < unat (entry_count h)" "entry_of (content d) h k = None"
      "\<forall>j < k. \<exists>e. entry_of (content d) h j = Some e \<and> slice_of e 0 16 \<noteq> guid"
      using none by blast
    then show "snd (gpt_find D d guid) = None"
      using g res search_spec_panic [of 0 k] by simp
  qed
qed

text \<open>A table of three empty entries of 200 bytes, checksums and all.\<close>

definition odd_table :: gpt_header where
  "odd_table = \<lparr>entries_lba = 2, entry_count = 3, entry_size = 200,
                entries_crc = crc32 (replicate 600 0)\<rparr>"

lemma odd_table_fields [simp]:
  "entries_lba odd_table = 2" "entry_count odd_table = 3" "entry_size odd_table = 200"
  "entries_crc odd_table = crc32 (replicate 600 0)" "table_range odd_table = 2"
  by (simp_all add: odd_table_def table_range_def div_ceil_def)

theorem find_panics_iff_witness:
  "snd (gpt_find ram_sectors (table_disk odd_table (replicate 2 zero_sector)) (replicate 16 7)) = None"
proof -
  let ?secs = "replicate 2 zero_sector" and ?d = "table_disk odd_table (replicate 2 zero_sector)"
  have f: "\<forall>x \<in> set ?secs. length x = 512" "length ?secs < 2 ^ 20" "entries_lba odd_table = 2"
    "128 \<le> entry_size odd_table" "entry_size odd_table \<le> 4096" "entry_count odd_table \<le> 512"
    "table_range odd_table \<le> length ?secs"
    by simp_all
  note d = table_disk_find [OF f]
  have n: "sec_count ram_sectors ?d = 4" using d(2) by simp
  have c: "ram_content ?d 2 = zero_sector" "ram_content ?d 3 = zero_sector"
    using d(3) [of 0] d(3) [of 1] by simp_all
  have z: "zero_sector = replicate 512 0" by (simp add: zero_sector_def)
  have a: "array_from (ram_content ?d) odd_table 0 (Suc (Suc 0)) = zero_sector @ zero_sector"
    using c by (simp add: array_from_simps)
  have "entry_bytes (ram_content ?d) odd_table = take 600 (zero_sector @ zero_sector)"
    using a [folded numeral_2_eq_2] by (simp add: entry_bytes_eq)
  then have crc: "crc32 (entry_bytes (ram_content ?d) odd_table) = entries_crc odd_table"
    by (simp add: z flip: replicate_add)
  have e: "entry_of (ram_content ?d) odd_table 0 = Some (replicate 128 0)"
    "entry_of (ram_content ?d) odd_table 1 = Some (replicate 128 0)"
    using c by (simp_all add: entry_of_def entry_at_def slice_of_def z)
  have hs: "header_spec (ram_content ?d) (sec_count ram_sectors ?d) = Some odd_table"
    using d(4) by (simp add: header_spec_def)
  have one: "1 < sec_count ram_sectors ?d" by (simp add: n)
  have rng: "table_in_range odd_table (sec_count ram_sectors ?d)"
    unfolding n by (auto simp: table_in_range_def dest!: less_2_cases)
  have "\<forall>j < 2. \<exists>e. entry_of (ram_content ?d) odd_table j = Some e \<and> slice_of e 0 16 \<noteq> replicate 16 7"
    using e by (auto simp: slice_of_def dest!: less_2_cases)
  then have "\<exists>k < unat (entry_count odd_table). 384 < k * unat (entry_size odd_table) mod 512 \<and>
      (\<forall>j < k. \<exists>e. entry_of (ram_content ?d) odd_table j = Some e \<and> slice_of e 0 16 \<noteq> replicate 16 7)"
    by (intro exI [of _ 2]) simp
  with find_panics_iff [OF ram.reliable_store_axioms d(1) one hs rng crc, of "replicate 16 7"]
  show ?thesis by simp
qed

text \<open>
  With entry sizes that the specification allows (multiples of 128), \<open>find\<close> never panics,
  whatever the table holds and whatever the device does.
\<close>

theorem find_never_panics:
  assumes "sector_store D valid content" "valid d"
    and "\<And>h. parse_header (content d 1) = Some h \<or>
      parse_header (content d (sec_count D d - 1)) = Some h \<Longrightarrow> 128 dvd unat (entry_size h)"
  shows "snd (gpt_find D d guid) \<noteq> None"
  using sector_store.find_total_dvd [OF assms(1,2) _ assms(3)] by (metis prod.collapse)

theorem find_never_panics_witness:
  "snd (gpt_find ram_sectors (ram_new 2) (replicate 16 7)) \<noteq> None"
proof (rule find_never_panics [OF ram.sector_store_axioms])
  show "ram_valid (ram_new 2)" by (simp add: ram_new_valid)
  have "ram_content (ram_new 2) 1 = zero_sector" by (simp add: ram_content_def ram_new_def)
  moreover have "hd (slice_of zero_sector 0 8) = 0" "hd SIGNATURE = 0x45"
    by (simp_all add: slice_of_def zero_sector_def SIGNATURE_def)
  then have "slice_of zero_sector 0 8 \<noteq> SIGNATURE" by auto
  ultimately have "parse_header (ram_content (ram_new 2) 1) = None" by (simp add: parse_header_def)
  then show "128 dvd unat (entry_size h)" if "parse_header (ram_content (ram_new 2) 1) = Some h \<or>
      parse_header (ram_content (ram_new 2) (sec_count ram_sectors (ram_new 2) - 1)) = Some h" for h
    using that by (simp add: ram_new_count)
qed

end
