(* ===== verification/Persist.thy ===== *)
theory Persist
  imports Gpt Sijil
begin

text \<open>
  Making the journal in memory outlive a reboot (\<open>nawa/kernel/src/persist.rs\<close>): the kernel
  looks for its partition, proves that the disk round-trips on the partition's last sector, and
  opens, verifies, extends and flushes the log on the rest. The block driver is a parameter (its
  operations over its own state); what the code writes to the serial line is a list of
  \<open>report\<close>s. \<open>None\<close> is the panic \<open>find\<close> can end in.
\<close>

section \<open>The disk\<close>

record 'b block_driver =
  driver_sectors :: "'b \<Rightarrow> u64"
  driver_read :: "'b \<Rightarrow> u64 \<Rightarrow> byte list \<Rightarrow> 'b \<times> byte list \<times> bool"
  driver_write :: "'b \<Rightarrow> u64 \<Rightarrow> byte list \<Rightarrow> 'b \<times> bool"
  driver_flush :: "'b \<Rightarrow> 'b \<times> bool"

text \<open>\<open>impl Sectors for Disk\<close>: one sector fewer than the device has.\<close>

definition disk_sectors :: "'b block_driver \<Rightarrow> 'b sectors" where
  "disk_sectors B =
     \<lparr>sec_count = (\<lambda>d. saturating_sub (driver_sectors B d) 1),
      sec_read = (\<lambda>d sector out.
        if SECTOR_BYTES \<le> length out then driver_read B d sector out else (d, out, False)),
      sec_write = (\<lambda>d sector bytes.
        if SECTOR_BYTES \<le> length bytes then driver_write B d sector bytes else (d, False)),
      sec_flush = driver_flush B\<rparr>"

text \<open>\<open>impl Sectors for Tail\<close>: the sector at the inner count.\<close>

definition tail_sectors :: "'d sectors \<Rightarrow> 'd sectors" where
  "tail_sectors D =
     \<lparr>sec_count = (\<lambda>d. 1),
      sec_read = (\<lambda>d sector out.
        let last = sec_count D d in if sector = 0 then sec_read D d last out else (d, out, False)),
      sec_write = (\<lambda>d sector bytes.
        let last = sec_count D d in if sector = 0 then sec_write D d last bytes else (d, False)),
      sec_flush = sec_flush D\<rparr>"

definition JOURNAL_PARTITION :: "byte list" where
  "JOURNAL_PARTITION =
     [0x6c, 0x6d, 0x33, 0x69, 0x53, 0x00, 0x4c, 0x4a, 0xa1, 0x00, 0x69, 0x33, 0x6d, 0x6c, 0x4f, 0x53]"

fun event_code :: "event \<Rightarrow> byte" where
  "event_code Spawned = 0"
| "event_code Delegated = 1"
| "event_code Attenuated = 2"
| "event_code Granted = 3"
| "event_code Invoked = 4"
| "event_code EvDenied = 5"
| "event_code ApprovalRequested = 6"
| "event_code Approved = 7"
| "event_code Rejected = 8"
| "event_code Remembered = 9"
| "event_code Noted = 10"
| "event_code EvFinished = 11"
| "event_code EvBudgetExhausted = 12"

datatype report =
    PartitionFound u64 u64 u64 | NoPartition gfault
  | WriteRefused | ReadRefused | StorageWorks | ReadBackMismatch | FlushedNow
  | Recovered u64 | EarliestEntry jrecord | StartingJournal | CouldNotCreate | RefusedJournal jfault
  | PersistedNow u64 u64 u64 | ChainTip "byte list"

section \<open>The round trip\<close>

text \<open>\<open>b"i3mlOS scratch sector -- i3mel"\<close>.\<close>

definition greeting :: "byte list" where
  "greeting = [0x69, 0x33, 0x6d, 0x6c, 0x4f, 0x53, 0x20, 0x73, 0x63, 0x72, 0x61, 0x74, 0x63, 0x68, 0x20,
    0x73, 0x65, 0x63, 0x74, 0x6f, 0x72, 0x20, 0x2d, 0x2d, 0x20, 0x69, 0x33, 0x6d, 0x65, 0x6c]"

definition round_trip :: "'d sectors \<Rightarrow> 'd \<Rightarrow> 'd \<times> report list" where
  "round_trip D d =
     (let bytes = copy_into zero_sector 0 greeting;
          (d, wrote) = sec_write D d 0 bytes
      in if \<not> wrote then (d, [WriteRefused])
         else
           let (d, read_back, ok) = sec_read D d 0 zero_sector
           in if \<not> ok then (d, [ReadRefused])
              else
                let verdict = if slice_of read_back 0 (length greeting) = greeting
                              then StorageWorks else ReadBackMismatch;
                    (d, flushed) = sec_flush D d
                in (d, verdict # (if flushed then [FlushedNow] else [])))"

section \<open>The journal of this boot\<close>

definition record_of :: "jentry \<Rightarrow> jrecord" where
  "record_of entry = record_new (e_sequence entry) (e_at entry) (e_agent entry)
     (event_code (e_event entry)) (e_detail entry) (label_as_str (e_label entry))"

text \<open>The closure \<open>for_each\<close> runs on every entry of the ring.\<close>

fun persist_each ::
  "'d sectors \<Rightarrow> jentry list \<Rightarrow> journal \<Rightarrow> 'd \<Rightarrow> u64 \<Rightarrow> bool \<Rightarrow> journal \<times> 'd \<times> u64" where
  "persist_each D [] j d count full = (j, d, count)"
| "persist_each D (entry # rest) j d count full =
     (if full then persist_each D rest j d count full
      else
        case journal_append D j d (record_of entry) of
          (j, d, Inr _) \<Rightarrow> persist_each D rest j d (count + 1) full
        | (j, d, Inl Full) \<Rightarrow> persist_each D rest j d count True
        | (j, d, Inl _) \<Rightarrow> persist_each D rest j d count True)"

text \<open>The \<open>match\<close> on \<open>Journal::open\<close>: the log to go on with, or none.\<close>

definition open_or_create :: "'d sectors \<Rightarrow> 'd \<Rightarrow> 'd \<times> journal option \<times> report list" where
  "open_or_create D d =
     (case journal_open D d of
        (d, Inr j) \<Rightarrow>
          (if j_count j > 0 then
             (case journal_read D j d 0 of
                (d, Inr first) \<Rightarrow> (d, Some j, [Recovered (j_count j), EarliestEntry first])
              | (d, Inl _) \<Rightarrow> (d, Some j, [Recovered (j_count j)]))
           else (d, Some j, [Recovered (j_count j)]))
      | (d, Inl NoJournal) \<Rightarrow>
          (case journal_create D d of
             (d, Inr j) \<Rightarrow> (d, Some j, [StartingJournal])
           | (d, Inl _) \<Rightarrow> (d, None, [StartingJournal, CouldNotCreate]))
      | (d, Inl fault) \<Rightarrow> (d, None, [RefusedJournal fault]))"

definition journal_session :: "'d sectors \<Rightarrow> 'd \<Rightarrow> jentry list \<Rightarrow> 'd \<times> report list" where
  "journal_session D d ring_entries =
     (case open_or_create D d of
        (d, None, out) \<Rightarrow> (d, out)
      | (d, Some j, out) \<Rightarrow>
          (let (j, d, count) = persist_each D ring_entries j d 0 False;
               (d, _) = journal_flush D j d
           in (d, out @ [PersistedNow count (j_count j) (j_capacity j), ChainTip (take 8 (j_tip j))])))"

section \<open>The whole run\<close>

definition persist_run :: "'d sectors \<Rightarrow> 'd \<Rightarrow> jentry list \<Rightarrow> ('d \<times> report list) option" where
  "persist_run D d ring_entries =
     (case gpt_find D d JOURNAL_PARTITION of
        (d, None) \<Rightarrow> None
      | (d, Some (Inr p)) \<Rightarrow>
          (let found = PartitionFound (first_lba p) (last_lba p)
                 (partition_sector_count p * 512 div (1024 * 1024));
               scratch = p\<lparr>first_lba := last_lba p\<rparr>;
               (w, out1) = round_trip (window_sectors D) (window_new d scratch);
               usable = p\<lparr>last_lba := saturating_sub (last_lba p) 1\<rparr>;
               (w, out2) = journal_session (window_sectors D) (window_new (w_storage w) usable) ring_entries
           in Some (w_storage w, found # out1 @ out2))
      | (d, Some (Inl fault)) \<Rightarrow>
          (let (d, out1) = round_trip (tail_sectors D) d;
               (d, out2) = journal_session D d ring_entries
           in Some (d, NoPartition fault # out1 @ out2)))"

section \<open>Lemmas\<close>

lemma event_code_inject: "event_code a = event_code b \<longleftrightarrow> a = b"
  by (cases a; cases b) simp_all

lemma record_of_ok: "jrecord_ok (record_of e)"
  by (simp add: record_of_def record_new_ok)

lemma length_greeting: "length greeting = 30"
  by (simp add: greeting_def)

text \<open>The loop is the attempt to append the entries up to the first that fails.\<close>

lemma persist_each_full: "persist_each D es j d count True = (j, d, count)"
  by (induction es) simp_all

lemma persist_each_attempts:
  assumes "persist_each D es j d count False = (j', d', count')"
  shows "\<exists>k acked. attempt_all D j d (take k (map record_of es)) = (j', d', acked) \<and>
     count' = count + of_nat (length acked)"
  using assms
proof (induction es arbitrary: j d count)
  case Nil
  then show ?case by simp
next
  case (Cons e es)
  obtain j1 d1 res where a: "journal_append D j d (record_of e) = (j1, d1, res)" by (metis prod_cases3)
  show ?case
  proof (cases res)
    case (Inr u)
    with Cons.prems a have "persist_each D es j1 d1 (count + 1) False = (j', d', count')" by simp
    from Cons.IH [OF this] obtain k acked where
      "attempt_all D j1 d1 (take k (map record_of es)) = (j', d', acked)"
      "count' = count + 1 + of_nat (length acked)" by auto
    with a Inr show ?thesis
      by (intro exI [of _ "Suc k"] exI [of _ "record_of e # acked"]) (simp add: add.assoc)
  next
    case (Inl f)
    with Cons.prems a have "j' = j1" "d' = d1" "count' = count"
      by (cases f; simp add: persist_each_full)+
    with a Inl show ?thesis by (intro exI [of _ "Suc 0"] exI [of _ "[]"]) simp
  qed
qed

context sector_store
begin

lemma round_trip_frame:
  assumes "valid d" "round_trip D d = (d', out)"
  shows "valid d' \<and> sec_count D d' = sec_count D d"
proof -
  let ?b = "copy_into zero_sector 0 greeting"
  have l: "length ?b = 512" by (simp add: bytes_simps length_greeting)
  obtain d1 ok1 where w: "sec_write D d 0 ?b = (d1, ok1)" by (metis surj_pair)
  note f1 = write_frame [OF assms(1) l w]
  obtain d2 buf ok2 where r: "sec_read D d1 0 zero_sector = (d2, buf, ok2)" by (metis prod_cases3)
  have f2: "valid d2 \<and> sec_count D d2 = sec_count D d1"
    using read_frame [OF _ length_zero_sector r] f1 by simp
  obtain d3 ok3 where s: "sec_flush D d2 = (d3, ok3)" by (metis surj_pair)
  have f3: "valid d3 \<and> sec_count D d3 = sec_count D d2" using flush_frame [OF _ s] f2 by simp
  show ?thesis using assms(2) w r s f1 f2 f3 by (auto simp: round_trip_def Let_def split: if_splits)
qed

lemma journal_read_frame:
  assumes "valid d" "journal_read D j d i = (d', res)"
  shows "valid d' \<and> sec_count D d' = sec_count D d \<and> content d' = content d"
proof (cases "i \<ge> j_count j")
  case True
  with assms show ?thesis by (simp add: journal_read_def)
next
  case False
  obtain d1 buf ok where r: "sec_read D d (FIRST_RECORD_SECTOR + i div of_nat RECORDS_PER_SECTOR) zero_sector =
      (d1, buf, ok)" by (metis prod_cases3)
  with assms(2) False have "d' = d1"
    by (auto simp: journal_read_def read_record_def Let_def split: prod.splits if_splits)
  with read_frame [OF assms(1) length_zero_sector r] show ?thesis by simp
qed

lemma open_or_create_frame:
  assumes "valid d" "open_or_create D d = (d', r, out)"
  shows "valid d' \<and> sec_count D d' = sec_count D d \<and>
     (\<forall>j. r = Some j \<longrightarrow> (\<exists>rs. tracks (content d') (sec_count D d') j rs \<and> commits (content d') rs))"
proof -
  obtain d1 res where o: "journal_open D d = (d1, res)" by (metis surj_pair)
  note f1 = open_step [OF assms(1) o]
  show ?thesis
  proof (cases res)
    case (Inr j)
    with f1(4) have "open_spec (content d) (sec_count D d) = Ok j" by auto
    then have t: "\<exists>rs. commits (content d1) rs \<and> tracks (content d1) (sec_count D d1) j rs"
      unfolding open_spec_iff f1(2,3) .
    obtain d2 res2 where r: "journal_read D j d1 0 = (d2, res2)" by (metis surj_pair)
    have f2: "valid d2 \<and> sec_count D d2 = sec_count D d1 \<and> content d2 = content d1"
      using journal_read_frame [OF f1(1) r] by simp
    show ?thesis
      using assms(2) o Inr r t f1 f2
      by (cases res2) (auto simp: open_or_create_def split: if_splits)
  next
    case (Inl f)
    obtain d2 res2 where c: "journal_create D d1 = (d2, res2)" by (metis surj_pair)
    note f2 = create_outcome [OF f1(1) c]
    show ?thesis
      using assms(2) o Inl c f1 f2
      by (cases f; cases res2) (auto simp: open_or_create_def)
  qed
qed

lemma journal_session_frame:
  assumes "valid d" "journal_session D d es = (d', out)"
  shows "valid d' \<and> sec_count D d' = sec_count D d"
proof -
  obtain d1 r out1 where o: "open_or_create D d = (d1, r, out1)" by (metis prod_cases3)
  note f1 = open_or_create_frame [OF assms(1) o]
  show ?thesis
  proof (cases r)
    case None
    with assms(2) o f1 show ?thesis by (simp add: journal_session_def)
  next
    case (Some j)
    with f1 obtain rs where t: "tracks (content d1) (sec_count D d1) j rs" "commits (content d1) rs" by auto
    obtain j2 d2 n2 where p: "persist_each D es j d1 0 False = (j2, d2, n2)" by (metis prod_cases3)
    from persist_each_attempts [OF p] obtain k acked where
      a: "attempt_all D j d1 (take k (map record_of es)) = (j2, d2, acked)" by blast
    have ok: "list_all jrecord_ok (take k (map record_of es))"
      by (auto simp: list_all_iff record_of_ok dest!: in_set_takeD)
    have c: "commits (content d1) (take (length rs) rs)" using t(2) by simp
    from attempt_all_outcome [OF _ t(1) c order.refl ok a] f1
    have f2: "valid d2 \<and> sec_count D d2 = sec_count D d1" by auto
    obtain d3 b where fl: "sec_flush D d2 = (d3, b)" by (metis surj_pair)
    have "valid d3 \<and> sec_count D d3 = sec_count D d2" using flush_frame [OF _ fl] f2 by simp
    with assms(2) o Some p fl f1 f2 show ?thesis by (simp add: journal_session_def journal_flush_def)
  qed
qed

end

lemma attempt_all_length: "attempt_all D j d rs = (j', d', acked) \<Longrightarrow> length acked \<le> length rs"
  by (induction rs arbitrary: j d acked) (auto split: prod.splits if_splits, fastforce+)

text \<open>On a device that works, a session extends the log that was there, or starts one.\<close>

lemma persist_each_total:
  assumes "attempt_all D j d (map record_of es) = (j', d', map record_of es)"
  shows "persist_each D es j d count False = (j', d', count + of_nat (length es))"
  using assms
proof (induction es arbitrary: j d count)
  case Nil
  then show ?case by simp
next
  case (Cons e es)
  obtain j1 d1 res where a: "journal_append D j d (record_of e) = (j1, d1, res)" by (metis prod_cases3)
  obtain j2 d2 acked where rest: "attempt_all D j1 d1 (map record_of es) = (j2, d2, acked)"
    by (metis prod_cases3)
  have len: "length acked \<le> length es" using attempt_all_length [OF rest] by simp
  with Cons.prems a rest have "is_ok res" by (cases "is_ok res") auto
  then obtain u where "res = Inr u" by (auto simp: result_simps)
  with Cons.prems a rest have "attempt_all D j1 d1 (map record_of es) = (j', d', map record_of es)" by simp
  from Cons.IH [OF this, of "count + 1"] a \<open>res = Inr u\<close> show ?case by (simp add: add.assoc)
qed

definition blank :: "(u64 \<Rightarrow> byte list) \<Rightarrow> bool" where
  "blank c \<longleftrightarrow> superblock_decode (c 0) = None"

lemma blank_zero: "c 0 = zero_sector \<Longrightarrow> blank c"
proof -
  have eight: "replicate 8 (0 :: byte) = [0, 0, 0, 0, 0, 0, 0, 0]" by (simp add: eval_nat_numeral)
  show "c 0 = zero_sector \<Longrightarrow> blank c"
    by (simp add: blank_def eight superblock_decode_def zero_sector_def MAGIC_def slice_of_def SECTOR_BYTES_def)
qed

lemma open_spec_commits:
  assumes "commits c rs" "list_all jrecord_ok rs" "length rs \<le> unat (record_capacity n)"
  shows "\<exists>j. open_spec c n = Ok j \<and> tracks c n j rs"
proof -
  let ?j = "\<lparr>j_count = of_nat (length rs), j_tip = chain rs, j_capacity = record_capacity n\<rparr>"
  have "tracks c n ?j rs" using assms by (simp add: tracks_def commits_def)
  then show ?thesis using assms(1) open_spec_iff by blast
qed

context reliable_store
begin

lemma session_extends:
  assumes "valid d" "0 < sec_count D d" "blank (content d) \<and> rs = [] \<or> commits (content d) rs"
    and "list_all jrecord_ok rs" "length rs + length es \<le> unat (record_capacity (sec_count D d))"
    and "journal_session D d es = (d', out)"
  shows "valid d' \<and> sec_count D d' = sec_count D d \<and> commits (content d') (rs @ map record_of es)"
proof -
  obtain d1 res where o: "journal_open D d = (d1, res)" by (metis surj_pair)
  note f1 = open_step [OF assms(1) o]
  have res: "res = open_spec (content d) (sec_count D d)" by (rule open_in [OF assms(1,2) o])
  obtain d2 j out1 where oc: "open_or_create D d = (d2, Some j, out1)" and d2: "valid d2"
    "sec_count D d2 = sec_count D d" "tracks (content d2) (sec_count D d2) j rs" "commits (content d2) rs"
  proof (cases "commits (content d) rs")
    case True
    then obtain j where j: "open_spec (content d) (sec_count D d) = Ok j" "tracks (content d) (sec_count D d) j rs"
      using open_spec_commits [OF True assms(4), of "sec_count D d"] assms(5) by auto
    obtain d3 res3 where r: "journal_read D j d1 0 = (d3, res3)" by (metis surj_pair)
    note f3 = journal_read_frame [OF f1(1) r]
    show ?thesis
    proof (cases "j_count j > 0")
      case True
      with o res j r show ?thesis using f1 f3 j(2) \<open>commits (content d) rs\<close>
        by (cases res3) (auto simp: open_or_create_def intro!: that)
    next
      case False
      with o res j show ?thesis using f1 j(2) \<open>commits (content d) rs\<close>
        by (auto simp: open_or_create_def intro!: that)
    qed
  next
    case False
    with assms(3) have b: "blank (content d)" "rs = []" by auto
    then have "res = Err NoJournal" using res by (simp add: open_spec_def blank_def)
    moreover obtain d3 res3 where c: "journal_create D d1 = (d3, res3)" by (metis surj_pair)
    have "0 < sec_count D d1" using f1(2) assms(2) by simp
    from create_in [OF f1(1) this c] obtain j where "res3 = Ok j" "valid d3" "sec_count D d3 = sec_count D d1"
      "tracks (content d3) (sec_count D d3) j []" "commits (content d3) []" by metis
    ultimately show ?thesis using o c b f1(2) by (intro that [of d3 j "[StartingJournal]"]) (simp_all add: open_or_create_def)
  qed
  obtain j3 d3 acked where a: "attempt_all D j d2 (map record_of es) = (j3, d3, acked)" by (metis prod_cases3)
  have ok: "list_all jrecord_ok (map record_of es)" by (simp add: list_all_iff record_of_ok)
  have room: "length (rs @ map record_of es) \<le> unat (record_capacity (sec_count D d2))"
    using assms(5) d2(2) by simp
  note all = attempt_all_in [OF d2(1,3,4) ok room a]
  then have "attempt_all D j d2 (map record_of es) = (j3, d3, map record_of es)" using a by simp
  from persist_each_total [OF this, of 0]
  have p: "persist_each D es j d2 0 False = (j3, d3, of_nat (length es))" by simp
  obtain d4 b where fl: "sec_flush D d3 = (d4, b)" by (metis surj_pair)
  have "valid d4 \<and> content d4 = content d3 \<and> sec_count D d4 = sec_count D d3"
    using flush_frame [OF _ fl] all by simp
  with assms(6) oc p fl all d2(2) show ?thesis by (simp add: journal_session_def journal_flush_def)
qed

lemma sessions_extend:
  assumes "valid d" "0 < sec_count D d" "commits (content d) rs" "list_all jrecord_ok rs"
    and "length rs + length (concat boots) \<le> unat (record_capacity (sec_count D d))"
  shows "valid (fold (\<lambda>es d. fst (journal_session D d es)) boots d) \<and>
     sec_count D (fold (\<lambda>es d. fst (journal_session D d es)) boots d) = sec_count D d \<and>
     commits (content (fold (\<lambda>es d. fst (journal_session D d es)) boots d)) (rs @ map record_of (concat boots))"
  using assms
proof (induction boots arbitrary: d rs)
  case Nil
  then show ?case by simp
next
  case (Cons es boots)
  obtain d1 out where s: "journal_session D d es = (d1, out)" by (metis surj_pair)
  have "length rs + length es \<le> unat (record_capacity (sec_count D d))" using Cons.prems(5) by simp
  from session_extends [OF Cons.prems(1,2) disjI2 [OF Cons.prems(3)] Cons.prems(4) this s]
  have d1: "valid d1" "sec_count D d1 = sec_count D d" "commits (content d1) (rs @ map record_of es)" by auto
  have "list_all jrecord_ok (rs @ map record_of es)"
    using Cons.prems(4) by (auto simp: list_all_iff record_of_ok)
  with Cons.IH [OF d1(1) _ d1(3) this] Cons.prems(2,5) s d1(2) show ?case by simp
qed

end

lemma run_confined:
  assumes "sector_store D valid content" "valid d"
    and "gpt_find D d JOURNAL_PARTITION = (d1, Some (Ok p))"
    and "persist_run D d ring_entries = Some (d', out)"
    and "t < first_lba p \<or> last_lba p < t"
  shows "content d' t = content d t"
proof -
  note found = sector_store.find_outcome [OF assms(1-3)]
  then have d1: "valid d1" "content d1 = content d" "sec_count D d1 = sec_count D d" by auto
  from found obtain h where "table_spec (content d) h JOURNAL_PARTITION (sec_count D d) = Some (Ok p)" by auto
  then have "search_spec (content d) h JOURNAL_PARTITION (sec_count D d) (unat (entry_count h)) 0 = Some (Ok p)"
    by (auto simp: table_spec_def split: if_splits)
  from search_spec_found [OF this] have bounds: "first_lba p \<le> last_lba p" "last_lba p < sec_count D d"
    by (auto dest: match_entry_ok)
  note pw = partition_window_valid [OF bounds]
  have part: "partition_window D valid content" by (simp add: partition_window_def assms(1))
  have confined: "sector_store (window_sectors D) (window_confined D valid content f n c0) (window_content content)"
    for f n c0 by (rule partition_window.confined_store [OF part])
  \<comment> \<open>what a window inside the partition leaves alone\<close>
  have outside: "content d3 t = content d2 t"
    if "window_confined D valid content (first_lba q) (partition_sector_count q) (content d2) w" "d3 = w_storage w"
      "unat (first_lba p) \<le> unat (first_lba q)"
      "unat (first_lba q) + unat (partition_sector_count q) \<le> unat (last_lba p) + 1" for q w d2 d3
    using that assms(5) by (auto simp: window_confined_def word_less_nat_alt)
  have start: "window_confined D valid content (first_lba q) (partition_sector_count q) (content d2) (window_new d2 q)"
    if "valid d2" "unat (last_lba p) + 1 \<le> unat (sec_count D d2)"
      "unat (first_lba q) + unat (partition_sector_count q) \<le> unat (last_lba p) + 1" for q d2
    using that by (auto simp: window_confined_def window_valid_def window_new_def)
  let ?scratch = "p\<lparr>first_lba := last_lba p\<rparr>" and ?usable = "p\<lparr>last_lba := saturating_sub (last_lba p) 1\<rparr>"
  have sc: "unat (partition_sector_count ?scratch) = 1"
    by (simp add: partition_sector_count_def saturating_sub_def)
  then have s: "unat (first_lba ?scratch) + unat (partition_sector_count ?scratch) \<le> unat (last_lba p) + 1"
    by simp
  have u: "unat (first_lba ?usable) + unat (partition_sector_count ?usable) \<le> unat (last_lba p) + 1"
  proof -
    have "unat (last_lba p) < 2 ^ 64" using unsigned_less [of "last_lba p"] by simp
    then have "unat (saturating_sub (saturating_sub (last_lba p) 1) (first_lba p)) + unat (1 :: u64) < 2 ^ LENGTH(64)"
      by simp
    from unat_add_small [OF this] bounds(1) show ?thesis
      by (simp add: partition_sector_count_def word_le_nat_alt)
  qed
  obtain w1 out1 where r: "round_trip (window_sectors D) (window_new d1 ?scratch) = (w1, out1)" by (metis surj_pair)
  have n1: "unat (last_lba p) + 1 \<le> unat (sec_count D d1)" using pw(3) d1(3) by simp
  have w1: "window_confined D valid content (first_lba ?scratch) (partition_sector_count ?scratch) (content d1) w1"
    using sector_store.round_trip_frame [OF confined start [OF d1(1) n1 s] r] by simp
  then have v1: "valid (w_storage w1)" "unat (last_lba p) + 1 \<le> unat (sec_count D (w_storage w1))"
    using sc by (auto simp: window_confined_def window_valid_def)
  have c1: "content (w_storage w1) t = content d1 t"
    using bounds(1) by (intro outside [OF w1 refl _ s]) (simp add: word_le_nat_alt)
  obtain w2 out2 where j: "journal_session (window_sectors D) (window_new (w_storage w1) ?usable) ring_entries = (w2, out2)"
    by (metis surj_pair)
  have w2: "window_confined D valid content (first_lba ?usable) (partition_sector_count ?usable) (content (w_storage w1)) w2"
    using sector_store.journal_session_frame [OF confined start [OF v1 u] j] by simp
  have "content (w_storage w2) t = content (w_storage w1) t"
    by (rule outside [OF w2 refl _ u]) simp
  moreover have "d' = w_storage w2" using assms(3,4) r j by (simp add: persist_run_def Let_def)
  ultimately show ?thesis using c1 d1(2) by simp
qed

text \<open>
  C30: what a boot writes to disk stays in the journal partition. Whatever reads and writes of the
  device fail, and whatever the ring holds, no sector outside the partition that \<open>find\<close> reported
  changes, the backup partition table behind it included.
\<close>

theorem boot_keeps_to_partition:
  assumes "sector_store D valid content" "valid d"
    and "gpt_find D d JOURNAL_PARTITION = (d1, Some (Ok p))"
    and "persist_run D d ring_entries = Some (d', out)"
    and "t < first_lba p \<or> last_lba p < t"
  shows "content d' t = content d t"
  using assms by (rule run_confined)


text \<open>The round trip on the tail leaves the sectors that the store counts alone.\<close>

context sector_store
begin

lemma round_trip_tail:
  assumes "valid d" "round_trip (tail_sectors D) d = (d', out)"
  shows "valid d' \<and> sec_count D d' = sec_count D d \<and> (\<forall>s. s \<noteq> sec_count D d \<longrightarrow> content d' s = content d s)"
proof -
  let ?b = "copy_into zero_sector 0 greeting"
  have l: "length ?b = 512" by (simp add: bytes_simps length_greeting)
  obtain d1 ok1 where w: "sec_write D d (sec_count D d) ?b = (d1, ok1)" by (metis surj_pair)
  note f1 = write_frame [OF assms(1) l w]
  have c1: "\<forall>s. s \<noteq> sec_count D d \<longrightarrow> content d1 s = content d s"
    using write_cases(2) [OF assms(1) l w] by auto
  obtain d2 buf ok2 where r: "sec_read D d1 (sec_count D d1) zero_sector = (d2, buf, ok2)" by (metis prod_cases3)
  have f2: "valid d2 \<and> sec_count D d2 = sec_count D d1 \<and> content d2 = content d1"
    using read_frame [OF _ length_zero_sector r] f1 by simp
  obtain d3 ok3 where s: "sec_flush D d2 = (d3, ok3)" by (metis surj_pair)
  have f3: "valid d3 \<and> sec_count D d3 = sec_count D d2 \<and> content d3 = content d2"
    using flush_frame [OF _ s] f2 by simp
  show ?thesis
    using assms(2) w r s f1 f2 f3 c1
    by (auto simp: round_trip_def tail_sectors_def Let_def split: if_splits)
qed

end

text \<open>
  C38: what a disk loses when its table cannot be read. \<open>find\<close> reports a missing table, a table
  that fails its checksum and a read that failed by the same \<open>Err\<close>; on any of them the kernel
  takes the whole disk for its log. On a working device the log of this boot then stands in the
  first sectors of the disk, over whatever table and file system were there.
\<close>

theorem any_fault_takes_the_disk:
  assumes "reliable_store D valid content" "valid d" "0 < sec_count D d" "blank (content d)"
    and "gpt_find D d JOURNAL_PARTITION = (d1, Some (Err fault))"
    and "persist_run D d ring_entries = Some (d', out)"
    and "length ring_entries \<le> unat (record_capacity (sec_count D d))"
  shows "commits (content d') (map record_of ring_entries) \<and> NoPartition fault \<in> set out"
proof -
  have store: "sector_store D valid content" using assms(1) by (rule reliable_store.axioms)
  note found = sector_store.find_outcome [OF store assms(2,5)]
  then have d1: "valid d1" "content d1 = content d" "sec_count D d1 = sec_count D d" by auto
  obtain d2 out2 where r: "round_trip (tail_sectors D) d1 = (d2, out2)" by (metis surj_pair)
  note t = sector_store.round_trip_tail [OF store d1(1) r]
  have "content d2 0 = content d1 0" using t assms(3) d1(3) by auto
  then have b: "blank (content d2)" using assms(4) d1(2) by (simp add: blank_def)
  have pos: "0 < sec_count D d2" using t assms(3) d1(3) by simp
  obtain d3 out3 where j: "journal_session D d2 ring_entries = (d3, out3)" by (metis surj_pair)
  have room: "length ([] :: jrecord list) + length ring_entries \<le> unat (record_capacity (sec_count D d2))"
    using t assms(7) d1(3) by simp
  from reliable_store.session_extends [OF assms(1) _ pos disjI1 list.pred_inject(1) room j] t b
  have "commits (content d3) (map record_of ring_entries)" by auto
  then show ?thesis using assms(5,6) r j by (auto simp: persist_run_def Let_def)
qed

section \<open>Two boots of a small machine\<close>

definition boot_entry :: "u64 \<Rightarrow> jentry" where
  "boot_entry n = \<lparr>e_sequence = n, e_at = 100, e_agent = 1, e_event = Spawned, e_detail = 7,
     e_label = label_new (lit ''analyst'')\<rparr>"

theorem boot_keeps_to_partition_witness:
  "\<exists>d' out. persist_run ram_sectors (typed_disk JOURNAL_PARTITION) [boot_entry 1] = Some (d', out) \<and>
     ram_content d' 11 = ram_content (typed_disk JOURNAL_PARTITION) 11"
proof -
  have "length JOURNAL_PARTITION = 16" by (simp add: JOURNAL_PARTITION_def)
  then obtain d1 where g: "gpt_find ram_sectors (typed_disk JOURNAL_PARTITION) JOURNAL_PARTITION =
      (d1, Some (Ok \<lparr>type_guid = JOURNAL_PARTITION, first_lba = 3, last_lba = 10\<rparr>))"
    and v: "ram_valid (typed_disk JOURNAL_PARTITION)" using typed_disk_find by metis
  obtain d' out where r: "persist_run ram_sectors (typed_disk JOURNAL_PARTITION) [boot_entry 1] = Some (d', out)"
  proof (cases "persist_run ram_sectors (typed_disk JOURNAL_PARTITION) [boot_entry 1]")
    case None
    with g show ?thesis by (simp add: persist_run_def Let_def split: prod.splits)
  next
    case (Some r)
    then show ?thesis by (intro that [of "fst r" "snd r"]) simp
  qed
  have "ram_content d' 11 = ram_content (typed_disk JOURNAL_PARTITION) 11"
    by (rule boot_keeps_to_partition [OF ram.sector_store_axioms v g r]) simp
  with r show ?thesis by blast
qed


text \<open>A partitioned disk whose entry array has changed by one.\<close>

definition damaged_table :: gpt_header where
  "damaged_table = (typed_table JOURNAL_PARTITION)
     \<lparr>entries_crc := crc32 (typed_entry JOURNAL_PARTITION) + 1\<rparr>"

definition damaged_disk :: ram where
  "damaged_disk = table_disk damaged_table
     ((typed_entry JOURNAL_PARTITION @ replicate 384 0) # replicate 9 zero_sector)"

lemma damaged_disk_find:
  obtains d' where "gpt_find ram_sectors damaged_disk JOURNAL_PARTITION = (d', Some (Err Corrupt))"
    "ram_valid damaged_disk" "sec_count ram_sectors damaged_disk = 12" "blank (ram_content damaged_disk)"
proof -
  let ?e = "typed_entry JOURNAL_PARTITION"
  let ?secs = "(?e @ replicate 384 0) # replicate 9 zero_sector"
  have l: "length ?e = 128" by (simp add: JOURNAL_PARTITION_def)
  have h: "entries_lba damaged_table = 2" "entry_size damaged_table = 128" "entry_count damaged_table = 1"
    "table_range damaged_table = 1" "entries_crc damaged_table = crc32 ?e + 1"
    by (simp_all add: damaged_table_def table_range_def div_ceil_def)
  have f: "\<forall>x \<in> set ?secs. length x = 512" "length ?secs < 2 ^ 20" "entries_lba damaged_table = 2"
    "128 \<le> entry_size damaged_table" "entry_size damaged_table \<le> 4096" "entry_count damaged_table \<le> 512"
    "table_range damaged_table \<le> length ?secs"
    using l h by simp_all
  note d = table_disk_find [OF f, folded damaged_disk_def]
  have "ram_content damaged_disk 2 = ?e @ replicate 384 0" using d(3) [of 0] by simp
  then have "entry_bytes (ram_content damaged_disk) damaged_table = ?e"
    using l h by (simp add: entry_bytes_eq array_from_simps)
  then have "snd (gpt_find ram_sectors damaged_disk JOURNAL_PARTITION) = Some (Err Corrupt)"
    using d(5) [of JOURNAL_PARTITION] h by (simp add: table_spec_def)
  moreover have "blank (ram_content damaged_disk)"
    by (rule blank_zero) (simp add: ram_content_def damaged_disk_def table_disk_def)
  ultimately show thesis using d(1,2) that by (auto simp: prod_eq_iff)
qed

theorem any_fault_takes_the_disk_witness:
  "\<exists>d' out. persist_run ram_sectors damaged_disk [boot_entry 1] = Some (d', out) \<and>
     commits (ram_content d') [record_of (boot_entry 1)] \<and> NoPartition Corrupt \<in> set out"
proof -
  obtain d1 where g: "gpt_find ram_sectors damaged_disk JOURNAL_PARTITION = (d1, Some (Err Corrupt))"
    and v: "ram_valid damaged_disk" and n: "sec_count ram_sectors damaged_disk = 12"
    and b: "blank (ram_content damaged_disk)" using damaged_disk_find by metis
  have "persist_run ram_sectors damaged_disk [boot_entry 1] \<noteq> None"
    using g by (simp add: persist_run_def Let_def split: prod.splits)
  then obtain d' out where r: "persist_run ram_sectors damaged_disk [boot_entry 1] = Some (d', out)" by auto
  have pos: "0 < sec_count ram_sectors damaged_disk" by (simp add: n)
  have room: "length [boot_entry 1] \<le> unat (record_capacity (sec_count ram_sectors damaged_disk))"
    by (simp add: n unat_record_capacity)
  from any_fault_takes_the_disk [OF ram.reliable_store_axioms v pos b g r room] r show ?thesis by auto
qed

end
