(* ===== verification/Disk_Image.thy ===== *)
theory Disk_Image
  imports Persist "HOL-Library.Monad_Syntax"
begin

text \<open>
  The builder of the distributable image (\<open>xtask/src/disk.rs\<close>): the protective MBR, the two
  GPT headers and entry arrays, and the FAT32 file system that holds the kernel as
  \<open>/EFI/BOOT/BOOTX64.EFI\<close>. An image is its bytes; a slice out of range is a panic, \<open>None\<close>.
  The buffers of fixed size are written at fixed offsets inside them. \<open>build\<close> ends with the
  bytes that the code hands to \<open>fs::write\<close>. Sector numbers are \<open>u64\<close>; byte offsets are
  \<open>usize\<close>, taken not to wrap. The tool runs in the development profile, where overflow panics:
  the guards of \<open>write_gpt\<close> and \<open>build_image\<close> are the subtractions and the multiplication that
  would overflow.
\<close>

section \<open>Identifiers and checksums\<close>

definition SECTOR :: nat where "SECTOR = 512"

definition guid :: "u32 \<Rightarrow> u16 \<Rightarrow> u16 \<Rightarrow> byte list \<Rightarrow> byte list" where
  "guid a b c rest =
     (let a = to_le_bytes a; b = to_le_bytes b; c = to_le_bytes c
      in [a ! 0, a ! 1, a ! 2, a ! 3, b ! 0, b ! 1, c ! 0, c ! 1, rest ! 0, rest ! 1, rest ! 2, rest ! 3,
          rest ! 4, rest ! 5, rest ! 6, rest ! 7])"

definition ESP_TYPE :: "byte list" where
  "ESP_TYPE = guid 0xc12a7328 0xf81f 0x11d2 [0xba, 0x4b, 0x00, 0xa0, 0xc9, 0x3e, 0xc9, 0x3b]"

definition JOURNAL_TYPE :: "byte list" where
  "JOURNAL_TYPE = guid 0x69336d6c 0x0053 0x4a4c [0xa1, 0x00, 0x69, 0x33, 0x6d, 0x6c, 0x4f, 0x53]"

text \<open>The builder's own copy of the checksum.\<close>

definition image_crc32 :: "byte list \<Rightarrow> u32" where
  "image_crc32 bytes =
     NOT (foldl (\<lambda>crc byte.
       ((\<lambda>crc. let m = - (crc AND 1) in drop_bit 1 crc XOR (0xedb88320 AND m)) ^^ 8) (crc XOR ucast byte))
       0xffffffff bytes)"

text \<open>\<open>*b"i3mlOS-disk-guid"\<close> with its last byte replaced.\<close>

definition stable_guid :: "byte \<Rightarrow> byte list" where
  "stable_guid seed =
     [0x69, 0x33, 0x6d, 0x6c, 0x4f, 0x53, 0x2d, 0x64, 0x69, 0x73, 0x6b, 0x2d, 0x67, 0x75, 0x69, 0x64][15 := seed]"

text \<open>\<open>str::encode_utf16\<close>, on the code points of the text.\<close>

fun encode_utf16 :: "nat list \<Rightarrow> u16 list" where
  "encode_utf16 [] = []"
| "encode_utf16 (c # cs) =
     (if c < 0x10000 then of_nat c # encode_utf16 cs
      else of_nat (0xd800 + (c - 0x10000) div 0x400) # of_nat (0xdc00 + (c - 0x10000) mod 0x400) # encode_utf16 cs)"

section \<open>The image\<close>

type_synonym image = "byte list"

definition image_new :: "nat \<Rightarrow> image" where
  "image_new sectors = replicate (sectors * SECTOR) 0"

definition image_sectors :: "image \<Rightarrow> u64" where
  "image_sectors img = of_nat (length img div SECTOR)"

definition image_write :: "nat \<Rightarrow> byte list \<Rightarrow> image \<Rightarrow> image option" where
  "image_write offset bytes img =
     (if offset + length bytes \<le> length img then Some (copy_into img offset bytes) else None)"

text \<open>\<open>image.sector_mut(lba).copy_from_slice(\<dots>)\<close>.\<close>

definition sector_write :: "u64 \<Rightarrow> byte list \<Rightarrow> image \<Rightarrow> image option" where
  "sector_write lba bytes img =
     (let start = unat lba * SECTOR
      in if start + SECTOR \<le> length img \<and> length bytes = SECTOR
         then Some (copy_into img start bytes) else None)"

section \<open>The partition table\<close>

record partition_spec =
  spec_type :: "byte list"
  spec_first :: u64
  spec_last :: u64
  spec_name :: "nat list"

definition protective_mbr :: "u64 \<Rightarrow> byte list" where
  "protective_mbr last_sector =
     (let mbr = replicate SECTOR 0;
          mbr = mbr[446 := 0x00];
          mbr = mbr[450 := 0xee];
          mbr = copy_into mbr 454 (to_le_bytes (1 :: u32));
          span = (if unat last_sector < 2 ^ 32 then ucast last_sector else - 1 :: u32);
          mbr = copy_into mbr 458 (to_le_bytes span);
          mbr = mbr[510 := 0x55]
      in mbr[511 := 0xaa])"

fun write_name :: "nat \<Rightarrow> nat \<Rightarrow> u16 list \<Rightarrow> byte list \<Rightarrow> byte list option" where
  "write_name base position [] table = Some table"
| "write_name base position (u # units) table =
     image_write (base + 56 + position * 2) (to_le_bytes u) table \<bind> write_name base (position + 1) units"

definition write_entry :: "nat \<Rightarrow> partition_spec \<Rightarrow> byte list \<Rightarrow> byte list option" where
  "write_entry index p table =
     (let base = index * 128 in do {
       table \<leftarrow> image_write base (spec_type p) table;
       table \<leftarrow> image_write (base + 16) (stable_guid (of_nat index + 1)) table;
       table \<leftarrow> image_write (base + 32) (to_le_bytes (spec_first p)) table;
       table \<leftarrow> image_write (base + 40) (to_le_bytes (spec_last p)) table;
       write_name base 0 (take 36 (encode_utf16 (spec_name p))) table
     })"

fun write_entries :: "nat \<Rightarrow> partition_spec list \<Rightarrow> byte list \<Rightarrow> byte list option" where
  "write_entries index [] table = Some table"
| "write_entries index (p # ps) table = write_entry index p table \<bind> write_entries (index + 1) ps"

text \<open>The closure \<open>header\<close>.\<close>

definition gpt_header_sector :: "u64 \<Rightarrow> u64 \<Rightarrow> u64 \<Rightarrow> u64 \<Rightarrow> u32 \<Rightarrow> byte list" where
  "gpt_header_sector backup_entries_lba current backup entries_at crc =
     (let entries_at_lba = 2 :: u64;
          entry_sectors = 32 :: u64;
          header = replicate SECTOR 0;
          header = copy_into header 0 SIGNATURE;
          header = copy_into header 8 (to_le_bytes (0x00010000 :: u32));
          header = copy_into header 12 (to_le_bytes (92 :: u32));
          header = copy_into header 24 (to_le_bytes current);
          header = copy_into header 32 (to_le_bytes backup);
          header = copy_into header 40 (to_le_bytes (entries_at_lba + entry_sectors));
          header = copy_into header 48 (to_le_bytes (backup_entries_lba - 1));
          header = copy_into header 56 (stable_guid 0);
          header = copy_into header 72 (to_le_bytes entries_at);
          header = copy_into header 80 (to_le_bytes (128 :: u32));
          header = copy_into header 84 (to_le_bytes (128 :: u32));
          header = copy_into header 88 (to_le_bytes crc);
          checksum = image_crc32 (take 92 header)
      in copy_into header 16 (to_le_bytes checksum))"

definition write_gpt :: "partition_spec list \<Rightarrow> image \<Rightarrow> image option" where
  "write_gpt partitions img =
     (let last_sector = image_sectors img - 1;
          entries_at_lba = 2 :: u64;
          entry_sectors = 32 :: u64
      in if image_sectors img < 34 then None else do {
       img \<leftarrow> sector_write 0 (protective_mbr last_sector) img;
       table \<leftarrow> write_entries 0 partitions (replicate (128 * 128) 0);
       let entries_crc = image_crc32 table;
       img \<leftarrow> image_write (unat entries_at_lba * SECTOR) table img;
       let backup_entries_lba = last_sector - entry_sectors;
       img \<leftarrow> image_write (unat backup_entries_lba * SECTOR) table img;
       img \<leftarrow> sector_write 1 (gpt_header_sector backup_entries_lba 1 last_sector entries_at_lba entries_crc) img;
       sector_write last_sector
         (gpt_header_sector backup_entries_lba last_sector 1 backup_entries_lba entries_crc) img
     })"

section \<open>The file system\<close>

definition u64_div_ceil :: "u64 \<Rightarrow> u64 \<Rightarrow> u64" where
  "u64_div_ceil a b = (if a mod b = 0 then a div b else a div b + 1)"

text \<open>The sizes of the FAT and of the data area: a first guess and eight refinements.\<close>

definition fat_layout :: "u64 \<Rightarrow> u64 \<times> u64" where
  "fat_layout sectors =
     (let clusters = sectors - 32;
          fat_sectors = u64_div_ceil (clusters * 4) 512;
          data_sectors = sectors - 32 - 2 * fat_sectors
      in ((\<lambda>(fat_sectors, data_sectors).
             let fat_sectors = u64_div_ceil ((data_sectors + 2) * 4) 512
             in (fat_sectors, sectors - 32 - 2 * fat_sectors)) ^^ 8) (fat_sectors, data_sectors))"

definition boot_sector :: "u64 \<Rightarrow> u64 \<Rightarrow> u64 \<Rightarrow> byte list" where
  "boot_sector first_sector sectors fat_sectors =
     (let boot = replicate SECTOR 0;
          boot = copy_into boot 0 [0xeb, 0x58, 0x90];
          boot = copy_into boot 3 [0x69, 0x33, 0x6d, 0x6c, 0x4f, 0x53, 0x20, 0x20];
          boot = copy_into boot 11 (to_le_bytes (512 :: u16));
          boot = boot[13 := 1];
          boot = copy_into boot 14 (to_le_bytes (32 :: u16));
          boot = boot[16 := 2];
          boot = copy_into boot 17 (to_le_bytes (0 :: u16));
          boot = copy_into boot 19 (to_le_bytes (0 :: u16));
          boot = boot[21 := 0xf8];
          boot = copy_into boot 22 (to_le_bytes (0 :: u16));
          boot = copy_into boot 24 (to_le_bytes (32 :: u16));
          boot = copy_into boot 26 (to_le_bytes (8 :: u16));
          boot = copy_into boot 28 (to_le_bytes (ucast first_sector :: u32));
          boot = copy_into boot 32 (to_le_bytes (ucast sectors :: u32));
          boot = copy_into boot 36 (to_le_bytes (ucast fat_sectors :: u32));
          boot = copy_into boot 40 (to_le_bytes (0 :: u16));
          boot = copy_into boot 42 (to_le_bytes (0 :: u16));
          boot = copy_into boot 44 (to_le_bytes (2 :: u32));
          boot = copy_into boot 48 (to_le_bytes (1 :: u16));
          boot = copy_into boot 50 (to_le_bytes (6 :: u16));
          boot = boot[64 := 0x80];
          boot = boot[66 := 0x29];
          boot = copy_into boot 67 (to_le_bytes (0x13911391 :: u32));
          boot = copy_into boot 71 [0x49, 0x33, 0x4d, 0x4c, 0x4f, 0x53, 0x20, 0x20, 0x20, 0x20, 0x20];
          boot = copy_into boot 82 [0x46, 0x41, 0x54, 0x33, 0x32, 0x20, 0x20, 0x20];
          boot = boot[510 := 0x55]
      in boot[511 := 0xaa])"

definition fsinfo_sector :: "byte list" where
  "fsinfo_sector =
     (let fsinfo = replicate SECTOR 0;
          fsinfo = copy_into fsinfo 0 (to_le_bytes (0x41615252 :: u32));
          fsinfo = copy_into fsinfo 484 (to_le_bytes (0x61417272 :: u32));
          fsinfo = copy_into fsinfo 488 (to_le_bytes (- 1 :: u32));
          fsinfo = copy_into fsinfo 492 (to_le_bytes (- 1 :: u32));
          fsinfo = fsinfo[508 := 0x55]
      in fsinfo[509 := 0xaa])"

definition fat_set :: "nat \<Rightarrow> u32 \<Rightarrow> byte list \<Rightarrow> byte list option" where
  "fat_set cluster v fat = image_write (cluster * 4) (to_le_bytes v) fat"

text \<open>The loop over the kernel's clusters, from \<open>index\<close> on.\<close>

fun chain_kernel :: "nat \<Rightarrow> nat \<Rightarrow> nat \<Rightarrow> byte list \<Rightarrow> byte list option" where
  "chain_kernel 0 index kernel_clusters fat = Some fat"
| "chain_kernel (Suc n) index kernel_clusters fat =
     (let cluster = 5 + index;
          v = (if index + 1 = kernel_clusters then 0x0fffffff else of_nat (cluster + 1))
      in fat_set cluster v fat \<bind> chain_kernel n (index + 1) kernel_clusters)"

definition build_fat :: "u64 \<Rightarrow> nat \<Rightarrow> byte list option" where
  "build_fat fat_sectors kernel_clusters =
     (let fat = replicate (unat fat_sectors * SECTOR) 0 in do {
       fat \<leftarrow> fat_set 0 0x0ffffff8 fat;
       fat \<leftarrow> fat_set 1 0x0fffffff fat;
       fat \<leftarrow> fat_set 2 0x0fffffff fat;
       fat \<leftarrow> fat_set 3 0x0fffffff fat;
       fat \<leftarrow> fat_set 4 0x0fffffff fat;
       chain_kernel kernel_clusters 0 kernel_clusters fat
     })"

text \<open>A directory entry; the name is eleven bytes.\<close>

definition dir_entry :: "byte list \<Rightarrow> byte \<Rightarrow> u64 \<Rightarrow> u32 \<Rightarrow> byte list" where
  "dir_entry name attributes cluster len =
     (let record = replicate 32 0;
          record = copy_into record 0 name;
          record = record[11 := attributes];
          record = copy_into record 20 (to_le_bytes (ucast (drop_bit 16 cluster) :: u16));
          record = copy_into record 26 (to_le_bytes (ucast cluster :: u16))
      in copy_into record 28 (to_le_bytes len))"

definition DIRECTORY :: byte where "DIRECTORY = 0x10"

definition name_EFI :: "byte list" where
  "name_EFI = [0x45, 0x46, 0x49, 0x20, 0x20, 0x20, 0x20, 0x20, 0x20, 0x20, 0x20]"
definition name_BOOT :: "byte list" where
  "name_BOOT = [0x42, 0x4f, 0x4f, 0x54, 0x20, 0x20, 0x20, 0x20, 0x20, 0x20, 0x20]"
definition name_dot :: "byte list" where
  "name_dot = [0x2e, 0x20, 0x20, 0x20, 0x20, 0x20, 0x20, 0x20, 0x20, 0x20, 0x20]"
definition name_dotdot :: "byte list" where
  "name_dotdot = [0x2e, 0x2e, 0x20, 0x20, 0x20, 0x20, 0x20, 0x20, 0x20, 0x20, 0x20]"
definition name_BOOTX64 :: "byte list" where
  "name_BOOTX64 = [0x42, 0x4f, 0x4f, 0x54, 0x58, 0x36, 0x34, 0x20, 0x45, 0x46, 0x49]"

definition write_fat32 ::
  "u64 \<Rightarrow> u64 \<Rightarrow> byte list \<Rightarrow> image \<Rightarrow> (u64 + image) option" where
  "write_fat32 first_sector sectors program img =
     (case fat_layout sectors of (fat_sectors, cluster_count) \<Rightarrow>
        if cluster_count < 65525 then Some (Err cluster_count)
        else
          let base = unat first_sector * SECTOR;
              kernel_clusters = max (div_ceil (length program) SECTOR) 1;
              data_start = 32 + 2 * unat fat_sectors;
              cluster_offset = (\<lambda>cluster. base + (data_start + cluster - 2) * SECTOR)
          in do {
            let boot = boot_sector first_sector sectors fat_sectors;
            img \<leftarrow> image_write base boot img;
            img \<leftarrow> image_write (base + 6 * SECTOR) boot img;
            img \<leftarrow> image_write (base + SECTOR) fsinfo_sector img;
            fat \<leftarrow> build_fat fat_sectors kernel_clusters;
            img \<leftarrow> image_write (base + 32 * SECTOR) fat img;
            img \<leftarrow> image_write (base + (32 + unat fat_sectors) * SECTOR) fat img;
            img \<leftarrow> image_write (cluster_offset 2) (dir_entry name_EFI DIRECTORY 3 0) img;
            img \<leftarrow> image_write (cluster_offset 3) (dir_entry name_dot DIRECTORY 3 0) img;
            img \<leftarrow> image_write (cluster_offset 3 + 32) (dir_entry name_dotdot DIRECTORY 0 0) img;
            img \<leftarrow> image_write (cluster_offset 3 + 64) (dir_entry name_BOOT DIRECTORY 4 0) img;
            img \<leftarrow> image_write (cluster_offset 4) (dir_entry name_dot DIRECTORY 4 0) img;
            img \<leftarrow> image_write (cluster_offset 4 + 32) (dir_entry name_dotdot DIRECTORY 3 0) img;
            img \<leftarrow> image_write (cluster_offset 4 + 64)
              (dir_entry name_BOOTX64 0x20 5 (of_nat (length program))) img;
            img \<leftarrow> image_write (cluster_offset 5) program img;
            Some (Ok img)
          })"

section \<open>The whole image\<close>

datatype build_error = ImageTooSmall | TooSmallForFat32 u64

definition ESP_FIRST :: u64 where "ESP_FIRST = 2048"
definition ESP_SECTORS :: u64 where "ESP_SECTORS = 48 * 1024 * 1024 div 512"

definition partitions_of :: "image \<Rightarrow> partition_spec list" where
  "partitions_of img =
     (let esp_last = ESP_FIRST + ESP_SECTORS - 1;
          journal_first = esp_last + 1;
          journal_last = image_sectors img - 34
      in [\<lparr>spec_type = ESP_TYPE, spec_first = ESP_FIRST, spec_last = esp_last,
            spec_name = [69, 70, 73, 32, 83, 121, 115, 116, 101, 109]\<rparr>,
          \<lparr>spec_type = JOURNAL_TYPE, spec_first = journal_first, spec_last = journal_last,
            spec_name = [105, 51, 109, 108, 32, 106, 111, 117, 114, 110, 97, 108]\<rparr>])"

definition build_image :: "byte list \<Rightarrow> u64 \<Rightarrow> (build_error + image) option" where
  "build_image program megabytes =
     (let total_sectors = unat (megabytes * 1024 * 1024 div 512);
          img = image_new total_sectors;
          journal_first = ESP_FIRST + ESP_SECTORS - 1 + 1;
          journal_last = image_sectors img - 34
      in if 2 ^ 64 \<le> unat megabytes * (1024 * 1024) \<or> image_sectors img < 34 then None
         else if journal_last \<le> journal_first then Some (Err ImageTooSmall)
         else do {
           img \<leftarrow> write_gpt (partitions_of img) img;
           res \<leftarrow> write_fat32 ESP_FIRST ESP_SECTORS program img;
           Some (map_err TooSmallForFat32 res)
         })"

section \<open>Agreement with the kernel's constants\<close>

text \<open>The partition type the builder writes is the one the kernel looks for.\<close>

lemma journal_type_agrees: "JOURNAL_TYPE = JOURNAL_PARTITION"
  by (simp add: JOURNAL_TYPE_def JOURNAL_PARTITION_def guid_def to_le_bytes_def Let_def upt_rec)

lemma types_differ: "ESP_TYPE \<noteq> JOURNAL_TYPE"
  by (simp add: JOURNAL_TYPE_def ESP_TYPE_def guid_def to_le_bytes_def Let_def upt_rec)

lemma length_guid [simp]: "length (guid a b c rest) = 16"
  by (simp add: guid_def Let_def)

lemma length_types [simp]: "length ESP_TYPE = 16" "length JOURNAL_TYPE = 16" "length (stable_guid s) = 16"
  by (simp_all add: ESP_TYPE_def JOURNAL_TYPE_def stable_guid_def)

text \<open>The two copies of the checksum compute the same function.\<close>

lemma image_crc32_eq: "image_crc32 = crc32"
proof -
  have bit: "crc_bit = (\<lambda>crc. let m = - (crc AND 1) in drop_bit 1 crc XOR (0xedb88320 AND m))"
    by (rule ext) (simp only: crc_bit_def)
  have "crc_byte = (\<lambda>crc byte.
      ((\<lambda>crc. let m = - (crc AND 1) in drop_bit 1 crc XOR (0xedb88320 AND m)) ^^ 8) (crc XOR ucast byte))"
    by (intro ext) (simp only: crc_byte_def bit)
  then show ?thesis by (intro ext) (simp only: image_crc32_def crc32_def)
qed

section \<open>Sequences of writes\<close>

fun apply_writes :: "(nat \<times> byte list) list \<Rightarrow> image \<Rightarrow> image option" where
  "apply_writes [] img = Some img"
| "apply_writes ((offset, bytes) # ws) img = image_write offset bytes img \<bind> apply_writes ws"

lemma image_write_Some:
  "image_write offset bytes img = Some img' \<longleftrightarrow>
     offset + length bytes \<le> length img \<and> img' = copy_into img offset bytes"
  by (auto simp: image_write_def)

lemma sector_write_image:
  "length bytes = 512 \<Longrightarrow> sector_write lba bytes img = image_write (unat lba * 512) bytes img"
  by (simp add: sector_write_def image_write_def SECTOR_def Let_def)

lemma apply_writes_in_range:
  "(\<And>a ys. (a, ys) \<in> set ws \<Longrightarrow> a + length ys \<le> length img) \<Longrightarrow>
     \<exists>img'. apply_writes ws img = Some img' \<and> length img' = length img"
proof (induction ws arbitrary: img)
  case Nil
  then show ?case by simp
next
  case (Cons w ws)
  obtain a ys where w: "w = (a, ys)" by (cases w)
  then have r: "a + length ys \<le> length img" using Cons.prems by simp
  then have l: "length (copy_into img a ys) = length img" by (simp add: bytes_simps)
  have "\<And>a' ys'. (a', ys') \<in> set ws \<Longrightarrow> a' + length ys' \<le> length (copy_into img a ys)"
    using Cons.prems l by auto
  from Cons.IH [OF this] r l show ?case by (simp add: w image_write_def)
qed

lemma apply_writes_length: "apply_writes ws img = Some img' \<Longrightarrow> length img' = length img"
  by (induction ws arbitrary: img)
    (auto simp: image_write_Some bytes_simps split: bind_splits)

lemma apply_writes_keeps:
  assumes "apply_writes ws img = Some img'" "c \<le> b" "b \<le> length img"
    and "\<And>a ys. (a, ys) \<in> set ws \<Longrightarrow> b \<le> a \<or> a + length ys \<le> c"
  shows "slice_of img' c b = slice_of img c b"
  using assms
proof (induction ws arbitrary: img)
  case Nil
  then show ?case by simp
next
  case (Cons w ws)
  obtain a ys where w: "w = (a, ys)" by (cases w)
  with Cons.prems(1) have r: "a + length ys \<le> length img"
    and s: "apply_writes ws (copy_into img a ys) = Some img'"
    by (auto simp: image_write_Some split: bind_splits)
  then have "slice_of img' c b = slice_of (copy_into img a ys) c b"
    using Cons.prems by (intro Cons.IH) (auto simp: bytes_simps)
  also have "\<dots> = slice_of img c b"
    using Cons.prems w by (intro slice_copy_into_disjoint [OF r]) auto
  finally show ?case .
qed

lemma apply_writes_append:
  "apply_writes (ws @ vs) img = apply_writes ws img \<bind> apply_writes vs"
proof (induction ws arbitrary: img)
  case (Cons w ws)
  obtain a ys where "w = (a, ys)" by (cases w)
  with Cons show ?case by (cases "image_write a ys img") simp_all
qed simp

lemma apply_writes_shows:
  assumes "apply_writes (ws @ (a, ys) # vs) img = Some img'"
    and "\<And>a' ys'. (a', ys') \<in> set vs \<Longrightarrow> a + length ys \<le> a' \<or> a' + length ys' \<le> a"
  shows "slice_of img' a (a + length ys) = ys"
proof -
  from assms(1) obtain img1 where 1: "apply_writes ws img = Some img1"
    "a + length ys \<le> length img1" "apply_writes vs (copy_into img1 a ys) = Some img'"
    by (auto simp: apply_writes_append image_write_Some split: bind_splits)
  have "slice_of img' a (a + length ys) = slice_of (copy_into img1 a ys) a (a + length ys)"
    using assms(2) 1(2) by (intro apply_writes_keeps [OF 1(3)]) (auto simp: bytes_simps)
  also have "\<dots> = ys" using 1(2) by (simp add: bytes_simps)
  finally show ?thesis .
qed

section \<open>The header\<close>

lemma frontier:
  "length pre = a \<Longrightarrow> copy_into (pre @ replicate n 0) a ys = (pre @ ys) @ replicate (n - length ys) 0"
  by (simp add: copy_into_def)

lemma frontier_gap:
  "length pre + k = a \<Longrightarrow> k \<le> n \<Longrightarrow>
     copy_into (pre @ replicate n 0) a ys = (pre @ replicate k 0 @ ys) @ replicate (n - k - length ys) 0"
  by (auto simp: copy_into_def min_def)

lemma length_signature [simp]: "length SIGNATURE = 8"
  by (simp add: SIGNATURE_def)

definition image_header :: "u64 \<Rightarrow> u32 \<Rightarrow> gpt_header" where
  "image_header at crc = \<lparr>entries_lba = at, entry_count = 128, entry_size = 128, entries_crc = crc\<rparr>"

definition header_middle :: "u64 \<Rightarrow> u64 \<Rightarrow> u64 \<Rightarrow> byte list" where
  "header_middle backup_entries current backup =
     replicate 4 0 @ to_le_bytes current @ to_le_bytes backup @ to_le_bytes (34 :: u64) @
     to_le_bytes (backup_entries - 1) @ stable_guid 0"

lemma length_header_middle [simp]: "length (header_middle b c d) = 52"
  by (simp add: header_middle_def)

lemma gpt_header_sector_sealed:
  "gpt_header_sector b current backup at crc =
     sealed_header (header_middle b current backup) (image_header at crc) @ replicate 420 0"
proof -
  let ?a = "SIGNATURE @ to_le_bytes (0x00010000 :: u32)"
  let ?b = "?a @ to_le_bytes (92 :: u32)"
  let ?c = "?b @ replicate 8 0 @ to_le_bytes current"
  let ?d = "?c @ to_le_bytes backup"
  let ?e = "?d @ to_le_bytes (2 + 32 :: u64)"
  let ?f = "?e @ to_le_bytes (b - 1)"
  let ?g = "?f @ stable_guid 0"
  let ?h = "?g @ to_le_bytes at"
  let ?i = "?h @ to_le_bytes (128 :: u32)"
  let ?j = "?i @ to_le_bytes (128 :: u32)"
  let ?k = "?j @ to_le_bytes crc"
  have rev: "to_le_bytes (0x00010000 :: u32) = [0, 0, 1, 0]"
    by (simp add: to_le_bytes_def upt_rec)
  have four: "replicate 8 (0 :: byte) = to_le_bytes (0 :: u32) @ replicate 4 0"
    by (simp add: to_le_bytes_0 flip: replicate_add)
  have k: "?k = header_with 0 (header_middle b current backup) (image_header at crc)"
    unfolding rev four by (simp add: header_with_def header_middle_def image_header_def)
  have start: "copy_into (replicate SECTOR 0) 0 SIGNATURE = SIGNATURE @ replicate 504 0"
    by (simp add: copy_into_def SECTOR_def)
  have s1: "copy_into (SIGNATURE @ replicate 504 0) 8 (to_le_bytes (0x00010000 :: u32)) = (?a) @ replicate 500 0"
    by (subst frontier) simp_all
  have s2: "copy_into ((?a) @ replicate 500 0) 12 (to_le_bytes (92 :: u32)) = (?b) @ replicate 496 0"
    by (subst frontier) simp_all
  have s3: "copy_into ((?b) @ replicate 496 0) 24 (to_le_bytes current) = (?c) @ replicate 480 0"
    by (subst frontier_gap [where k = 8]) simp_all
  have s4: "copy_into ((?c) @ replicate 480 0) 32 (to_le_bytes backup) = (?d) @ replicate 472 0"
    by (subst frontier) simp_all
  have s5: "copy_into ((?d) @ replicate 472 0) 40 (to_le_bytes (2 + 32 :: u64)) = (?e) @ replicate 464 0"
    by (subst frontier) simp_all
  have s6: "copy_into ((?e) @ replicate 464 0) 48 (to_le_bytes (b - 1)) = (?f) @ replicate 456 0"
    by (subst frontier) simp_all
  have s7: "copy_into ((?f) @ replicate 456 0) 56 (stable_guid 0) = (?g) @ replicate 440 0"
    by (subst frontier) simp_all
  have s8: "copy_into ((?g) @ replicate 440 0) 72 (to_le_bytes at) = (?h) @ replicate 432 0"
    by (subst frontier) simp_all
  have s9: "copy_into ((?h) @ replicate 432 0) 80 (to_le_bytes (128 :: u32)) = (?i) @ replicate 428 0"
    by (subst frontier) simp_all
  have s10: "copy_into ((?i) @ replicate 428 0) 84 (to_le_bytes (128 :: u32)) = (?j) @ replicate 424 0"
    by (subst frontier) simp_all
  have s11: "copy_into ((?j) @ replicate 424 0) 88 (to_le_bytes crc) = (?k) @ replicate 420 0"
    by (subst frontier) simp_all
  have "gpt_header_sector b current backup at crc =
      copy_into (?k @ replicate 420 0) 16 (to_le_bytes (image_crc32 (take 92 (?k @ replicate 420 0))))"
    unfolding gpt_header_sector_def Let_def start s1 s2 s3 s4 s5 s6 s7 s8 s9 s10 s11 by (rule refl)
  also have "take 92 (?k @ replicate 420 0) = ?k" by simp
  also have "copy_into (?k @ replicate 420 0) 16 (to_le_bytes (image_crc32 ?k)) =
      sealed_header (header_middle b current backup) (image_header at crc) @ replicate 420 0"
  proof -
    let ?pre = "SIGNATURE @ [0, 0, 1, 0] @ to_le_bytes (92 :: u32)"
    let ?post = "header_middle b current backup @ to_le_bytes at @ to_le_bytes (128 :: u32) @
      to_le_bytes (128 :: u32) @ to_le_bytes crc @ replicate 420 0"
    have "?k @ replicate 420 0 = ?pre @ to_le_bytes (0 :: u32) @ ?post"
      unfolding k by (simp add: header_with_def image_header_def)
    moreover have "copy_into (?pre @ to_le_bytes (0 :: u32) @ ?post) 16 (to_le_bytes (x :: u32)) =
        ?pre @ to_le_bytes x @ ?post" for x
      by (simp add: copy_into_def)
    ultimately show ?thesis
      unfolding k image_crc32_eq by (simp add: sealed_header_def header_with_def image_header_def)
  qed
  finally show ?thesis .
qed

lemma length_gpt_header_sector [simp]: "length (gpt_header_sector b c d e f) = 512"
  by (simp add: gpt_header_sector_sealed)

lemma parse_gpt_header_sector:
  "parse_header (gpt_header_sector b current backup at crc) = Some (image_header at crc)"
  unfolding gpt_header_sector_sealed by (rule parse_sealed_header) (simp_all add: image_header_def)

section \<open>The partition table as a sequence of writes\<close>

definition name_writes :: "nat \<Rightarrow> nat \<Rightarrow> u16 list \<Rightarrow> (nat \<times> byte list) list" where
  "name_writes base position units =
     map (\<lambda>(k, u). (base + 56 + k * 2, to_le_bytes u)) (enumerate position units)"

definition entry_writes :: "nat \<Rightarrow> partition_spec \<Rightarrow> (nat \<times> byte list) list" where
  "entry_writes k p =
     [(k * 128, spec_type p), (k * 128 + 16, stable_guid (of_nat k + 1)),
      (k * 128 + 32, to_le_bytes (spec_first p)), (k * 128 + 40, to_le_bytes (spec_last p))] @
     name_writes (k * 128) 0 (take 36 (encode_utf16 (spec_name p)))"

lemma apply_writes_fun:
  "apply_writes [] = Some"
  "apply_writes ((offset, bytes) # ws) = (\<lambda>img. image_write offset bytes img \<bind> apply_writes ws)"
  by (simp_all add: fun_eq_iff)

lemma write_name_writes: "write_name base position units = apply_writes (name_writes base position units)"
proof (induction units arbitrary: position)
  case (Cons u units)
  then show ?case by (intro ext) (simp add: name_writes_def)
qed (simp add: name_writes_def fun_eq_iff)

lemma write_entry_writes: "write_entry k p = apply_writes (entry_writes k p)"
  by (intro ext) (simp add: write_entry_def entry_writes_def write_name_writes apply_writes_fun Let_def)

lemma write_entries_writes:
  "write_entries k ps = apply_writes (concat (map (\<lambda>(k, p). entry_writes k p) (enumerate k ps)))"
proof (induction ps arbitrary: k)
  case (Cons p ps)
  then show ?case by (intro ext) (simp add: write_entry_writes apply_writes_append)
qed (simp add: fun_eq_iff)

lemma entry_writes_range:
  assumes "(a, ys) \<in> set (entry_writes k p)" "length (spec_type p) = 16"
  shows "k * 128 \<le> a \<and> a + length ys \<le> k * 128 + 128"
proof -
  have "fst w \<ge> k * 128 + 56 \<and> fst w + length (snd w) \<le> k * 128 + 128"
    if "w \<in> set (name_writes (k * 128) 0 (take 36 (encode_utf16 (spec_name p))))" for w
    using that by (auto simp: name_writes_def in_set_enumerate_eq)
  with assms show ?thesis by (fastforce simp: entry_writes_def)
qed

lemma enumerate_split:
  assumes "k < length ps"
  shows "enumerate 0 ps = enumerate 0 (take k ps) @ (k, ps ! k) # enumerate (Suc k) (drop (Suc k) ps)"
proof -
  have "enumerate 0 ps = enumerate 0 (take k ps @ ps ! k # drop (Suc k) ps)"
    using assms by (simp flip: id_take_nth_drop)
  also have "\<dots> = enumerate 0 (take k ps) @ (k, ps ! k) # enumerate (Suc k) (drop (Suc k) ps)"
    using assms by (simp add: enumerate_append_eq)
  finally show ?thesis .
qed

text \<open>What the table shows of an entry.\<close>

definition shows_partition :: "byte list \<Rightarrow> nat \<Rightarrow> partition_spec \<Rightarrow> bool" where
  "shows_partition t k p \<longleftrightarrow> slice_of t (k * 128) (k * 128 + 16) = spec_type p \<and>
     slice_of t (k * 128 + 32) (k * 128 + 40) = to_le_bytes (spec_first p) \<and>
     slice_of t (k * 128 + 40) (k * 128 + 48) = to_le_bytes (spec_last p)"

lemma write_entries_shows:
  assumes len: "\<forall>p \<in> set ps. length (spec_type p) = 16" and n: "length ps \<le> 128"
  obtains t where "write_entries 0 ps (replicate 16384 0) = Some t" "length t = 16384"
    "\<And>k. k < length ps \<Longrightarrow> shows_partition t k (ps ! k)"
proof -
  let ?ws = "\<lambda>i qs. concat (map (\<lambda>(k, p). entry_writes k p) (enumerate i qs))"
  have in_range: "i * 128 \<le> a \<and> a + length ys \<le> (i + length qs) * 128"
    if "(a, ys) \<in> set (?ws i qs)" "set qs \<subseteq> set ps" for a ys i qs
  proof -
    from that(1) obtain k p where k: "(k, p) \<in> set (enumerate i qs)" "(a, ys) \<in> set (entry_writes k p)" by auto
    then have "i \<le> k" "k < i + length qs" "p \<in> set qs" by (auto simp: in_set_enumerate_eq)
    moreover have "k * 128 \<le> a \<and> a + length ys \<le> k * 128 + 128"
      using entry_writes_range [OF k(2)] \<open>p \<in> set qs\<close> that(2) len by auto
    ultimately show ?thesis by auto
  qed
  have "\<exists>t. apply_writes (?ws 0 ps) (replicate 16384 0) = Some t \<and> length t = length (replicate 16384 (0 :: byte))"
  proof (rule apply_writes_in_range)
    fix a ys assume "(a, ys) \<in> set (?ws 0 ps)"
    from in_range [OF this order_refl] n show "a + length ys \<le> length (replicate 16384 (0 :: byte))" by simp
  qed
  then obtain t where t: "apply_writes (?ws 0 ps) (replicate 16384 0) = Some t" "length t = 16384" by auto
  have "shows_partition t k (ps ! k)" if k: "k < length ps" for k
  proof -
    let ?p = "ps ! k" and ?after = "?ws (Suc k) (drop (Suc k) ps)"
    have l: "length (spec_type ?p) = 16" using len k by simp
    let ?before = "?ws 0 (take k ps)" and ?names = "name_writes (k * 128) 0 (take 36 (encode_utf16 (spec_name ?p)))"
    let ?w1 = "(k * 128, spec_type ?p)" and ?w2 = "(k * 128 + 16, stable_guid (of_nat k + 1))"
      and ?w3 = "(k * 128 + 32, to_le_bytes (spec_first ?p))" and ?w4 = "(k * 128 + 40, to_le_bytes (spec_last ?p))"
    have split: "apply_writes (?before @ ?w1 # ?w2 # ?w3 # ?w4 # ?names @ ?after) (replicate 16384 0) = Some t"
    proof -
      have "entry_writes k ?p = ?w1 # ?w2 # ?w3 # ?w4 # ?names" by (simp add: entry_writes_def)
      then have "?ws 0 ps = ?before @ ?w1 # ?w2 # ?w3 # ?w4 # ?names @ ?after"
        by (subst enumerate_split [OF k]) simp
      with t(1) show ?thesis by simp
    qed
    have after: "k * 128 + 128 \<le> a" if "(a, ys) \<in> set ?after" for a ys
      using in_range [OF that] set_drop_subset by fastforce
    have names: "k * 128 + 56 \<le> a"
      if "(a, ys) \<in> set (name_writes (k * 128) 0 (take 36 (encode_utf16 (spec_name ?p))))" for a ys
      using that by (auto simp: name_writes_def)
    have "slice_of t (k * 128) (k * 128 + length (spec_type ?p)) = spec_type ?p"
      by (rule apply_writes_shows [OF split]) (use l in \<open>auto dest: after names simp del: set_concat\<close>)
    moreover have "slice_of t (k * 128 + 32) (k * 128 + 32 + length (to_le_bytes (spec_first ?p))) =
        to_le_bytes (spec_first ?p)"
      by (rule apply_writes_shows [of "?before @ [?w1, ?w2]" _ _ "?w4 # ?names @ ?after"])
        (use split in \<open>auto dest: after names simp del: set_concat\<close>)
    moreover have "slice_of t (k * 128 + 40) (k * 128 + 40 + length (to_le_bytes (spec_last ?p))) =
        to_le_bytes (spec_last ?p)"
      by (rule apply_writes_shows [of "?before @ [?w1, ?w2, ?w3]" _ _ "?names @ ?after"])
        (use split in \<open>auto dest: after names simp del: set_concat\<close>)
    ultimately show ?thesis using l by (simp add: shows_partition_def add.commute)
  qed
  with t that show thesis by (simp add: write_entries_writes)
qed
section \<open>The whole image as a sequence of writes\<close>

text \<open>Rules for the buffers filled field by field.\<close>

lemma buffer_length:
  "length xs = n \<Longrightarrow> a + length ys \<le> n \<Longrightarrow> length (copy_into xs a ys) = n"
  "length xs = n \<Longrightarrow> length (xs[i := v]) = n"
  by (simp_all add: bytes_simps)

lemma length_protective_mbr [simp]: "length (protective_mbr n) = 512"
  unfolding protective_mbr_def Let_def by (intro buffer_length) (simp_all add: SECTOR_def)

lemma sector_write_fun:
  "length bytes = 512 \<Longrightarrow> sector_write lba bytes = image_write (unat lba * 512) bytes"
  by (intro ext) (rule sector_write_image)

definition gpt_writes :: "nat \<Rightarrow> byte list \<Rightarrow> (nat \<times> byte list) list" where
  "gpt_writes n t =
     (let last_sector = of_nat n - 1; backup = last_sector - 32; crc = image_crc32 t in
      [(0, protective_mbr last_sector), (1024, t), ((n - 33) * 512, t),
       (512, gpt_header_sector backup 1 last_sector 2 crc),
       ((n - 1) * 512, gpt_header_sector backup last_sector 1 backup crc)])"

lemma write_gpt_writes:
  assumes "length img = n * 512" "34 \<le> n" "n < 2 ^ 50" "write_entries 0 ps (replicate 16384 0) = Some t"
  shows "write_gpt ps img = apply_writes (gpt_writes n t) img"
proof -
  have s: "image_sectors img = of_nat n" using assms(1) by (simp add: image_sectors_def SECTOR_def)
  have un: "unat (of_nat n :: u64) = n" using assms(3) by (intro unat_of_nat_small) simp
  have "unat (of_nat n - 1 :: u64) = unat (of_nat (n - 1) :: u64)" "unat (of_nat n - 1 - 32 :: u64) = unat (of_nat (n - 33) :: u64)"
    using assms(2) by (simp_all add: of_nat_diff)
  moreover have "unat (of_nat (n - 1) :: u64) = n - 1" "unat (of_nat (n - 33) :: u64) = n - 33"
    using assms(3) by (intro unat_of_nat_small; simp)+
  ultimately have l: "unat (of_nat n - 1 :: u64) = n - 1" "unat (of_nat n - 1 - 32 :: u64) = n - 33" by simp_all
  have "\<not> (of_nat n :: u64) < 34" using assms(2) un by (simp add: word_less_nat_alt)
  then show ?thesis
    using assms(4) l
    by (simp add: write_gpt_def gpt_writes_def Let_def s sector_write_fun apply_writes_fun SECTOR_def)
qed

lemma fat_layout_of_ESP: "fat_layout 98304 = (756, 96760)"
proof -
  let ?f = "\<lambda>(fat_sectors :: u64, data_sectors :: u64).
    let fat_sectors = u64_div_ceil ((data_sectors + 2) * 4) 512 in (fat_sectors, 98304 - 32 - 2 * fat_sectors)"
  have first: "?f (768, 96736) = (756, 96760)" and stable: "?f (756, 96760) = (756, 96760)"
    by (simp_all add: u64_div_ceil_def)
  have "(?f ^^ n) (756, 96760) = (756, 96760)" for n
    by (induction n) (simp_all only: funpow.simps comp_apply id_apply stable)
  then have "(?f ^^ Suc 7) (768, 96736) = (756, 96760)"
    by (simp only: funpow_Suc_right comp_apply first)
  then have "(?f ^^ 8) (768, 96736) = (756, 96760)" by (simp only: Suc_numeral semiring_norm)
  moreover have "u64_div_ceil ((98304 - 32) * 4) 512 = 768" by (simp add: u64_div_ceil_def)
  ultimately show ?thesis by (simp add: fat_layout_def Let_def)
qed

definition chain_value :: "nat \<Rightarrow> nat \<Rightarrow> u32" where
  "chain_value clusters i = (if i + 1 = clusters then 0x0fffffff else of_nat (5 + i + 1))"

definition fat_writes :: "nat \<Rightarrow> (nat \<times> byte list) list" where
  "fat_writes clusters =
     [(0, to_le_bytes (0x0ffffff8 :: u32)), (4, to_le_bytes (0x0fffffff :: u32)),
      (8, to_le_bytes (0x0fffffff :: u32)), (12, to_le_bytes (0x0fffffff :: u32)),
      (16, to_le_bytes (0x0fffffff :: u32))] @
     map (\<lambda>i. ((5 + i) * 4, to_le_bytes (chain_value clusters i))) [0..<clusters]"

lemma chain_kernel_writes:
  "chain_kernel m i clusters =
     apply_writes (map (\<lambda>i. ((5 + i) * 4, to_le_bytes (chain_value clusters i))) [i..<i + m])"
proof (induction m arbitrary: i)
  case (Suc m)
  have "[i..<i + Suc m] = i # [Suc i..<Suc i + m]" by (simp add: upt_conv_Cons del: upt_Suc)
  with Suc show ?case
    by (intro ext) (simp add: chain_value_def fat_set_def del: upt_Suc)
qed (simp add: fun_eq_iff)

lemma build_fat_writes:
  "build_fat fat_sectors clusters = apply_writes (fat_writes clusters) (replicate (unat fat_sectors * 512) 0)"
  by (simp add: build_fat_def fat_writes_def fat_set_def chain_kernel_writes SECTOR_def apply_writes_fun Let_def)

lemma length_boot_sector [simp]: "length (boot_sector a b c) = 512"
  unfolding boot_sector_def Let_def by (intro buffer_length) (simp_all add: SECTOR_def)

lemma length_fsinfo [simp]: "length fsinfo_sector = 512"
  unfolding fsinfo_sector_def Let_def by (intro buffer_length) (simp_all add: SECTOR_def)

lemma length_names [simp]:
  "length name_EFI = 11" "length name_BOOT = 11" "length name_dot = 11" "length name_dotdot = 11"
  "length name_BOOTX64 = 11"
  by (simp_all add: name_EFI_def name_BOOT_def name_dot_def name_dotdot_def name_BOOTX64_def)

lemma length_dir_entry [simp]: "length name = 11 \<Longrightarrow> length (dir_entry name a c n) = 32"
  unfolding dir_entry_def Let_def by (intro buffer_length) simp_all

definition cluster_at :: "nat \<Rightarrow> nat" where "cluster_at c = (3590 + c) * 512"

definition file_writes :: "byte list \<Rightarrow> byte list \<Rightarrow> (nat \<times> byte list) list" where
  "file_writes program fat =
     [(1048576, boot_sector 2048 98304 756), (1048576 + 3072, boot_sector 2048 98304 756),
      (1048576 + 512, fsinfo_sector), (1048576 + 16384, fat), (1048576 + 403456, fat),
      (cluster_at 2, dir_entry name_EFI DIRECTORY 3 0),
      (cluster_at 3, dir_entry name_dot DIRECTORY 3 0),
      (cluster_at 3 + 32, dir_entry name_dotdot DIRECTORY 0 0),
      (cluster_at 3 + 64, dir_entry name_BOOT DIRECTORY 4 0),
      (cluster_at 4, dir_entry name_dot DIRECTORY 4 0),
      (cluster_at 4 + 32, dir_entry name_dotdot DIRECTORY 3 0),
      (cluster_at 4 + 64, dir_entry name_BOOTX64 0x20 5 (of_nat (length program))),
      (cluster_at 5, program)]"

abbreviation clusters_of :: "byte list \<Rightarrow> nat" where
  "clusters_of program \<equiv> max (div_ceil (length program) 512) 1"

lemma write_fat32_writes:
  assumes "build_fat 756 (clusters_of program) = Some fat"
  shows "write_fat32 2048 98304 program img =
    apply_writes (file_writes program fat) img \<bind> (\<lambda>img. Some (Ok img))"
  using assms
  by (simp add: write_fat32_def fat_layout_of_ESP file_writes_def cluster_at_def SECTOR_def Let_def)

lemma build_fat_succeeds:
  assumes "clusters \<le> 96763"
  obtains fat where "build_fat 756 clusters = Some fat" "length fat = 387072"
    "apply_writes (fat_writes clusters) (replicate 387072 0) = Some fat"
proof -
  have "\<exists>fat. apply_writes (fat_writes clusters) (replicate 387072 0) = Some fat \<and>
      length fat = length (replicate 387072 (0 :: byte))"
    using assms by (intro apply_writes_in_range) (auto simp: fat_writes_def)
  then show thesis using that by (auto simp: build_fat_writes)
qed

lemma clusters_of_bound:
  assumes "length program \<le> 96757 * 512"
  shows "clusters_of program \<le> 96757" "length program \<le> clusters_of program * 512" "0 < clusters_of program"
proof -
  obtain q r where "length program = q * 512 + r" "r < 512" "length program div 512 = q" "length program mod 512 = r"
    by (metis div_mult_mod_eq mod_less_divisor zero_less_numeral)
  then show "clusters_of program \<le> 96757" "length program \<le> clusters_of program * 512" "0 < clusters_of program"
    using assms by (auto simp: div_ceil_def)
qed

lemma partitions_of_new:
  assumes "100386 < n" "n < 2 ^ 50"
  shows "image_sectors (image_new n) = of_nat n"
    and "partitions_of (image_new n) =
      [\<lparr>spec_type = ESP_TYPE, spec_first = 2048, spec_last = 100351,
        spec_name = [69, 70, 73, 32, 83, 121, 115, 116, 101, 109]\<rparr>,
       \<lparr>spec_type = JOURNAL_TYPE, spec_first = 100352, spec_last = of_nat (n - 34),
        spec_name = [105, 51, 109, 108, 32, 106, 111, 117, 114, 110, 97, 108]\<rparr>]"
proof -
  show s: "image_sectors (image_new n) = of_nat n"
    by (simp add: image_sectors_def image_new_def SECTOR_def)
  have "(of_nat n - 34 :: u64) = of_nat (n - 34)" using assms by (simp add: of_nat_diff)
  then show "partitions_of (image_new n) =
      [\<lparr>spec_type = ESP_TYPE, spec_first = 2048, spec_last = 100351,
        spec_name = [69, 70, 73, 32, 83, 121, 115, 116, 101, 109]\<rparr>,
       \<lparr>spec_type = JOURNAL_TYPE, spec_first = 100352, spec_last = of_nat (n - 34),
        spec_name = [105, 51, 109, 108, 32, 106, 111, 117, 114, 110, 97, 108]\<rparr>]"
    unfolding partitions_of_def s by (simp add: Let_def ESP_FIRST_def ESP_SECTORS_def)
qed

lemma build_image_writes:
  assumes mb: "50 \<le> unat megabytes" "unat megabytes \<le> 2 ^ 20" and len: "length program \<le> 96757 * 512"
    and n: "n = unat megabytes * 2048"
  obtains img t fat where "build_image program megabytes = Some (Ok img)"
    "apply_writes (gpt_writes n t @ file_writes program fat) (replicate (n * 512) 0) = Some img"
    "write_entries 0 (partitions_of (image_new n)) (replicate 16384 0) = Some t" "length t = 16384"
    "apply_writes (fat_writes (clusters_of program)) (replicate 387072 0) = Some fat" "length fat = 387072"
    "length img = n * 512"
proof -
  have bounds: "102400 \<le> n" "n < 2 ^ 32" using mb n by simp_all
  have total: "unat (megabytes * 1024 * 1024 div 512) = n"
  proof -
    have "unat (megabytes * 1024 * 1024) = unat megabytes * 1048576"
      using mb by (simp add: mult.assoc unat_mult_small)
    then show ?thesis using n by (simp add: unat_div)
  qed
  have un: "unat (of_nat n :: u64) = n" "unat (of_nat (n - 34) :: u64) = n - 34"
    using bounds by (intro unat_of_nat_small; simp)+
  have new: "image_new n = replicate (n * 512) 0" by (simp add: image_new_def SECTOR_def)
  have ps: "length (partitions_of (image_new n)) \<le> 128"
    "\<forall>p \<in> set (partitions_of (image_new n)). length (spec_type p) = 16"
    using bounds by (simp_all add: partitions_of_def Let_def)
  from write_entries_shows [OF ps(2,1)] obtain t where t:
    "write_entries 0 (partitions_of (image_new n)) (replicate 16384 0) = Some t" "length t = 16384" by metis
  have "clusters_of program \<le> 96763" using clusters_of_bound(1) [OF len] by linarith
  from build_fat_succeeds [OF this] obtain fat where fat: "build_fat 756 (clusters_of program) = Some fat"
    "length fat = 387072" "apply_writes (fat_writes (clusters_of program)) (replicate 387072 0) = Some fat" by metis
  have "\<exists>img. apply_writes (gpt_writes n t @ file_writes program fat) (replicate (n * 512) 0) = Some img \<and>
      length img = length (replicate (n * 512) (0 :: byte))"
  proof (rule apply_writes_in_range)
    fix a ys assume "(a, ys) \<in> set (gpt_writes n t @ file_writes program fat)"
    then show "a + length ys \<le> length (replicate (n * 512) (0 :: byte))"
      using bounds t(2) fat(2) len by (auto simp: gpt_writes_def file_writes_def cluster_at_def Let_def)
  qed
  then obtain img where img: "length img = n * 512"
    "apply_writes (gpt_writes n t @ file_writes program fat) (replicate (n * 512) 0) = Some img" by auto
  have gpt: "write_gpt (partitions_of (image_new n)) (image_new n) = apply_writes (gpt_writes n t) (image_new n)"
    using bounds t(1) by (intro write_gpt_writes) (simp_all add: new)
  have s: "image_sectors (image_new n) = of_nat n" using partitions_of_new(1) bounds by simp
  have big: "\<not> (of_nat n :: u64) < 34" using bounds un by (simp add: word_less_nat_alt)
  have "(of_nat n - 34 :: u64) = of_nat (n - 34)" using bounds by (simp add: of_nat_diff)
  then have fits: "\<not> (of_nat n - 34 :: u64) \<le> 2048 + 98304 - 1 + 1"
    using bounds un(2) by (simp add: word_le_nat_alt)
  have "build_image program megabytes = Some (Ok img)"
  proof -
    have "apply_writes (gpt_writes n t) (image_new n) \<bind> write_fat32 2048 98304 program = Some (Ok img)"
      using img(2) unfolding apply_writes_append new
      by (auto simp: write_fat32_writes [OF fat(1)] split: bind_splits)
    moreover have "unat megabytes * 1048576 < 2 ^ 64" using mb(2) by simp
    ultimately show ?thesis
      using big fits unfolding build_image_def Let_def total s gpt
      by (auto simp: ESP_FIRST_def ESP_SECTORS_def split: bind_splits)
  qed
  then show thesis using that img t fat by blast
qed

section \<open>What the kernel reads of it\<close>

definition image_content :: "image \<Rightarrow> u64 \<Rightarrow> byte list" where
  "image_content img s = slice_of img (unat s * 512) (unat s * 512 + 512)"

lemma slices_join:
  assumes "a + m * 512 \<le> length xs"
  shows "concat (map (\<lambda>i. slice_of xs (a + i * 512) (a + i * 512 + 512)) [0..<m]) = slice_of xs a (a + m * 512)"
  using assms
proof (induction m)
  case 0
  then show ?case by (simp add: slice_of_def)
next
  case (Suc m)
  have "slice_of xs a (a + Suc m * 512) =
      slice_of xs a (a + m * 512) @ slice_of xs (a + m * 512) (a + m * 512 + 512)"
    by (simp add: slice_of_def take_add add.commute [of "m * 512" a] add.commute [of 512] flip: add.assoc)
  with Suc show ?case by simp
qed

lemma slice_of_slice:
  assumes "b \<le> d - c" "d \<le> length xs"
  shows "slice_of (slice_of xs c d) a b = slice_of xs (c + a) (c + b)"
  using assms by (simp add: slice_of_def min_def drop_take add.commute)

lemma entries_of_image:
  assumes "slice_of img 1024 17408 = t" "length t = 16384" "17408 \<le> length img"
  shows "entry_bytes (image_content img) (image_header 2 crc) = t"
    and "k < 128 \<Longrightarrow> entry_of (image_content img) (image_header 2 crc) k = Some (slice_of t (k * 128) (k * 128 + 128))"
proof -
  have sector: "image_content img (2 + of_nat i) = slice_of img (1024 + i * 512) (1024 + i * 512 + 512)"
    if "i < 32" for i
  proof -
    have "unat (2 + of_nat i :: u64) = 2 + i"
      using that unat_of_nat_small [of i, where 'a = 64] by (subst unat_add_small) simp_all
    then show ?thesis by (simp add: image_content_def algebra_simps)
  qed
  have "entry_bytes (image_content img) (image_header 2 crc) =
      take 16384 (concat (map (\<lambda>i. image_content img (2 + of_nat i)) [0..<32]))"
    by (simp add: entry_bytes_def image_header_def div_ceil_def)
  also have "map (\<lambda>i. image_content img (2 + of_nat i)) [0..<32] =
      map (\<lambda>i. slice_of img (1024 + i * 512) (1024 + i * 512 + 512)) [0..<32]"
    using sector by (intro map_cong) simp_all
  also have "concat \<dots> = t" using assms slices_join [of 1024 32 img] by simp
  finally show "entry_bytes (image_content img) (image_header 2 crc) = t" using assms(2) by simp
  show "entry_of (image_content img) (image_header 2 crc) k = Some (slice_of t (k * 128) (k * 128 + 128))"
    if k: "k < 128"
  proof -
    have s: "k * 128 div 512 < 32" using k by auto
    have m: "k * 128 mod 512 + 128 \<le> 512"
      using mod_mult_mult2 [of k 128 4] mod_less_divisor [of 4 k] by simp
    have e: "k * 128 div 512 * 512 + k * 128 mod 512 = k * 128" by (rule div_mult_mod_eq)
    have b: "k * 128 + 128 \<le> 16384" using k by simp
    let ?c = "1024 + k * 128 div 512 * 512"
    have c: "?c + 512 \<le> length img" using s assms(3) by linarith
    have "slice_of (slice_of img ?c (?c + 512)) (k * 128 mod 512) (k * 128 mod 512 + 128) =
        slice_of img (1024 + k * 128) (1024 + k * 128 + 128)"
      using m c e by (subst slice_of_slice) (simp_all add: add.assoc)
    also have "\<dots> = slice_of (slice_of img 1024 17408) (k * 128) (k * 128 + 128)"
      using b assms(3) by (subst slice_of_slice) (simp_all add: add.assoc)
    finally show ?thesis
      using m c assms(1) sector [of "k div 4"] s
      by (simp add: entry_of_def entry_at_def image_header_def Let_def bytes_simps)
  qed
qed

text \<open>An entry of the table, read by the kernel.\<close>

lemma shown_entry:
  assumes "shows_partition t k p" "k < 128" "length t = 16384" "length (spec_type p) = 16"
  defines "e \<equiv> slice_of t (k * 128) (k * 128 + 128)"
  shows "slice_of e 0 16 = spec_type p" "read_u64 e 32 = spec_first p" "read_u64 e 40 = spec_last p"
proof -
  have b: "k * 128 + 128 \<le> length t" using assms(2,3) by simp
  then have l: "length e = 128" by (simp add: e_def bytes_simps)
  show "slice_of e 0 16 = spec_type p"
    using assms(1) b unfolding e_def by (subst slice_of_slice) (simp_all add: shows_partition_def)
  have "read_u64 e i = from_le_bytes (slice_of t (k * 128 + i) (k * 128 + i + 8))" if "i + 8 \<le> 128" for i
    using that l b unfolding e_def
    by (subst read_u64_slice) (simp_all add: slice_of_slice add.assoc)
  from this [of 32] this [of 40] show "read_u64 e 32 = spec_first p" "read_u64 e 40 = spec_last p"
    using assms(1) by (simp_all add: shows_partition_def add.commute)
qed

lemma table_of_image:
  assumes "apply_writes (gpt_writes n t @ file_writes program fat) (replicate (n * 512) 0) = Some img"
    and "length t = 16384" "102400 \<le> n" "n < 2 ^ 32"
  shows "parse_header (image_content img 1) = Some (image_header 2 (crc32 t))"
    and "slice_of img 1024 17408 = t"
proof -
  let ?last = "of_nat n - 1 :: u64" and ?crc = "image_crc32 t"
  let ?first = "[(0, protective_mbr ?last)]"
    and ?header = "gpt_header_sector (?last - 32) 1 ?last 2 ?crc"
    and ?tail = "((n - 1) * 512, gpt_header_sector (?last - 32) ?last 1 (?last - 32) ?crc) # file_writes program fat"
  have beyond: "1048576 \<le> a" if "(a, ys) \<in> set (file_writes program fat)" for a ys
    using that by (auto simp: file_writes_def cluster_at_def)
  have w: "apply_writes (?first @ (1024, t) # ((n - 33) * 512, t) # (512, ?header) # ?tail) (replicate (n * 512) 0) = Some img"
    using assms(1) by (simp add: gpt_writes_def Let_def)
  have "slice_of img 1024 (1024 + length t) = t"
    by (rule apply_writes_shows [OF w]) (use assms(2,3) beyond in fastforce)
  then show "slice_of img 1024 17408 = t" using assms(2) by simp
  have "slice_of img 512 (512 + length ?header) = ?header"
  proof (rule apply_writes_shows)
    show "apply_writes ((?first @ [(1024, t), ((n - 33) * 512, t)]) @ (512, ?header) # ?tail) (replicate (n * 512) 0) = Some img"
      using w by (simp only: append_assoc append_Cons append_Nil)
    fix a ys assume "(a, ys) \<in> set ?tail"
    then have "1024 \<le> a" using beyond assms(3) by fastforce
    then show "512 + length ?header \<le> a \<or> a + length ys \<le> 512" by simp
  qed
  then have "image_content img 1 = ?header" by (simp add: image_content_def)
  then show "parse_header (image_content img 1) = Some (image_header 2 (crc32 t))"
    by (simp add: parse_gpt_header_sector image_crc32_eq)
qed

text \<open>The search for either type in the table of the image.\<close>

lemma table_spec_of_image:
  assumes img: "apply_writes (gpt_writes n t @ file_writes program fat) (replicate (n * 512) 0) = Some img"
    and t: "write_entries 0 (partitions_of (image_new n)) (replicate 16384 0) = Some t"
    and n: "102400 \<le> n" "n < 2 ^ 32" and count: "n - 1 \<le> unat count"
  shows "table_spec (image_content img) (image_header 2 (crc32 t)) ESP_TYPE count =
      Some (Ok \<lparr>type_guid = ESP_TYPE, first_lba = 2048, last_lba = 100351\<rparr>)"
    and "table_spec (image_content img) (image_header 2 (crc32 t)) JOURNAL_PARTITION count =
      Some (Ok \<lparr>type_guid = JOURNAL_PARTITION, first_lba = 100352, last_lba = of_nat (n - 34)\<rparr>)"
proof -
  let ?a = "\<lparr>spec_type = ESP_TYPE, spec_first = 2048, spec_last = 100351,
      spec_name = [69, 70, 73, 32, 83, 121, 115, 116, 101, 109]\<rparr>"
    and ?b = "\<lparr>spec_type = JOURNAL_TYPE, spec_first = 100352, spec_last = of_nat (n - 34),
      spec_name = [105, 51, 109, 108, 32, 106, 111, 117, 114, 110, 97, 108]\<rparr>"
  have ps: "partitions_of (image_new n) = [?a, ?b]"
    using n by (intro partitions_of_new(2)) simp_all
  obtain t' where t': "write_entries 0 [?a, ?b] (replicate 16384 0) = Some t'" "length t' = 16384"
    "\<And>k. k < length [?a, ?b] \<Longrightarrow> shows_partition t' k ([?a, ?b] ! k)"
    by (rule write_entries_shows [of "[?a, ?b]"]) simp_all
  then have [simp]: "t' = t" using t ps by simp
  have l: "length t = 16384" using t' by simp
  have li: "length img = n * 512" using apply_writes_length [OF img] by simp
  note table = table_of_image(2) [OF img l n]
  note entries = entries_of_image [OF table l, unfolded li]
  let ?e = "\<lambda>k. slice_of t (k * 128) (k * 128 + 128)"
  have e0: "slice_of (?e 0) 0 16 = ESP_TYPE" "read_u64 (?e 0) 32 = 2048" "read_u64 (?e 0) 40 = 100351"
    using shown_entry [of t 0 ?a] t'(3) [of 0] l by simp_all
  have e1: "slice_of (?e 1) 0 16 = JOURNAL_TYPE" "read_u64 (?e 1) 32 = 100352" "read_u64 (?e 1) 40 = of_nat (n - 34)"
    using shown_entry [of t 1 ?b] t'(3) [of 1] l by simp_all
  have un: "unat (of_nat (n - 34) :: u64) = n - 34" using n by (intro unat_of_nat_small) simp
  have b: "\<not> (100351 :: u64) < 2048" "\<not> count \<le> 100351" "\<not> (of_nat (n - 34) :: u64) < 100352"
    "\<not> count \<le> of_nat (n - 34)"
    using n count un by (simp_all add: word_le_nat_alt word_less_nat_alt)
  have "17408 \<le> n * 512" using n by simp
  note entries = entries [OF this]
  have spec: "table_spec (image_content img) (image_header 2 (crc32 t)) g count =
      search_spec (image_content img) (image_header 2 (crc32 t)) g count (Suc (Suc 126)) 0" for g
    using entries(1) by (simp add: table_spec_def image_header_def)
  have at: "entry_of (image_content img) (image_header 2 (crc32 t)) 0 = Some (?e 0)"
    "entry_of (image_content img) (image_header 2 (crc32 t)) (0 + 1) = Some (?e 1)"
    using entries(2) by simp_all
  show "table_spec (image_content img) (image_header 2 (crc32 t)) ESP_TYPE count =
      Some (Ok \<lparr>type_guid = ESP_TYPE, first_lba = 2048, last_lba = 100351\<rparr>)"
    unfolding spec search_spec.simps at match_entry_def option.simps e0 using b(1,2) by (simp add: Let_def)
  show "table_spec (image_content img) (image_header 2 (crc32 t)) JOURNAL_PARTITION count =
      Some (Ok \<lparr>type_guid = JOURNAL_PARTITION, first_lba = 100352, last_lba = of_nat (n - 34)\<rparr>)"
    unfolding spec search_spec.simps at match_entry_def option.simps e0 e1
    using b(3,4) types_differ by (simp add: Let_def journal_type_agrees)
qed

section \<open>What the firmware reads of it\<close>

text \<open>
  FAT32 as its specification has it, over the sectors of a disk \<open>c\<close> with the file system at sector
  \<open>p\<close>: the parameters of the boot sector, the chain of clusters in the first table (it ends at a
  value of \<open>0x0ffffff8\<close> or above), directories as entries of 32 bytes up to one that starts with
  a zero, and files as the bytes of their chain up to their size.
\<close>

definition le16 :: "byte list \<Rightarrow> nat \<Rightarrow> nat" where
  "le16 bytes i = unat (from_le_bytes (slice_of bytes i (i + 2)) :: u16)"

definition le32 :: "byte list \<Rightarrow> nat \<Rightarrow> nat" where
  "le32 bytes i = unat (from_le_bytes (slice_of bytes i (i + 4)) :: u32)"

record fat_geometry =
  cluster_sectors :: nat
  reserved_sectors :: nat
  fat_copies :: nat
  fat_length :: nat
  root_cluster :: nat

definition fat_geometry :: "(u64 \<Rightarrow> byte list) \<Rightarrow> nat \<Rightarrow> fat_geometry" where
  "fat_geometry c p = (let boot = c (of_nat p) in
     \<lparr>cluster_sectors = unat (boot ! 13), reserved_sectors = le16 boot 14, fat_copies = unat (boot ! 16),
      fat_length = le32 boot 36, root_cluster = le32 boot 44\<rparr>)"

definition fat_next :: "(u64 \<Rightarrow> byte list) \<Rightarrow> nat \<Rightarrow> nat \<Rightarrow> nat" where
  "fat_next c p cluster =
     le32 (c (of_nat (p + reserved_sectors (fat_geometry c p) + cluster * 4 div 512))) (cluster * 4 mod 512)
       mod 2 ^ 28"

fun cluster_chain :: "(nat \<Rightarrow> nat) \<Rightarrow> nat \<Rightarrow> nat \<Rightarrow> nat list" where
  "cluster_chain follow 0 cluster = []"
| "cluster_chain follow (Suc fuel) cluster =
     (if 2 \<le> cluster \<and> cluster < 0x0ffffff8 then cluster # cluster_chain follow fuel (follow cluster) else [])"

definition cluster_bytes :: "(u64 \<Rightarrow> byte list) \<Rightarrow> nat \<Rightarrow> nat \<Rightarrow> byte list" where
  "cluster_bytes c p cluster =
     (let g = fat_geometry c p;
          start = p + reserved_sectors g + fat_copies g * fat_length g + (cluster - 2) * cluster_sectors g
      in concat (map (\<lambda>k. c (of_nat (start + k))) [0..<cluster_sectors g]))"

text \<open>A chain is no longer than the table has entries.\<close>

definition chain_bytes :: "(u64 \<Rightarrow> byte list) \<Rightarrow> nat \<Rightarrow> nat \<Rightarrow> byte list" where
  "chain_bytes c p cluster =
     concat (map (cluster_bytes c p) (cluster_chain (fat_next c p) (fat_length (fat_geometry c p) * 128) cluster))"

definition find_name :: "byte list \<Rightarrow> byte list \<Rightarrow> byte list option" where
  "find_name name directory =
     List.find (\<lambda>e. slice_of e 0 11 = name)
       (takeWhile (\<lambda>e. e ! 0 \<noteq> 0)
         (map (\<lambda>k. slice_of directory (k * 32) (k * 32 + 32)) [0..<length directory div 32]))"

definition entry_cluster :: "byte list \<Rightarrow> nat" where
  "entry_cluster e = le16 e 20 * 2 ^ 16 + le16 e 26"

fun fat_path :: "(u64 \<Rightarrow> byte list) \<Rightarrow> nat \<Rightarrow> nat \<Rightarrow> nat \<Rightarrow> byte list list \<Rightarrow> (nat \<times> nat) option" where
  "fat_path c p cluster len [] = Some (cluster, len)"
| "fat_path c p cluster len (name # names) =
     (case find_name name (chain_bytes c p cluster) of
        None \<Rightarrow> None
      | Some e \<Rightarrow> fat_path c p (entry_cluster e) (le32 e 28) names)"

definition fat_file :: "(u64 \<Rightarrow> byte list) \<Rightarrow> nat \<Rightarrow> byte list list \<Rightarrow> byte list option" where
  "fat_file c p path =
     map_option (\<lambda>(cluster, len). take len (chain_bytes c p cluster))
       (fat_path c p (root_cluster (fat_geometry c p)) 0 path)"

text \<open>Fields of a buffer that is filled field by field.\<close>

lemma field_here:
  "length xs = n \<Longrightarrow> a + length ys \<le> n \<Longrightarrow> b = a + length ys \<Longrightarrow> slice_of (copy_into xs a ys) a b = ys"
  by (simp add: bytes_simps)

lemma field_skip:
  "slice_of xs c b = v \<Longrightarrow> length xs = n \<Longrightarrow> a + length ys \<le> n \<Longrightarrow> c \<le> b \<Longrightarrow> b \<le> n \<Longrightarrow>
     b \<le> a \<or> a + length ys \<le> c \<Longrightarrow> slice_of (copy_into xs a ys) c b = v"
  by (subst slice_copy_into_disjoint) auto

lemma field_skip_byte:
  "slice_of xs c b = v \<Longrightarrow> b \<le> i \<or> i < c \<Longrightarrow> slice_of (xs[i := u]) c b = v"
proof (elim disjE)
  assume "slice_of xs c b = v" "b \<le> i"
  moreover have "slice_of ys c b = drop c (take b ys)" for ys :: "'a list"
    by (simp add: slice_of_def drop_take)
  ultimately show ?thesis by simp
qed (simp add: slice_of_def)

lemma field_byte_here: "length xs = n \<Longrightarrow> i < n \<Longrightarrow> b = i + 1 \<Longrightarrow> slice_of (xs[i := u]) i b = [u]"
  by (simp add: slice_of_def upd_conv_take_nth_drop)

lemmas field_rules = field_here [where n = 512] field_byte_here [where n = 512]
  field_skip [where n = 512] field_skip_byte

lemma boot_sector_fields:
  "slice_of (boot_sector a b f) 13 14 = [1]"
  "slice_of (boot_sector a b f) 14 16 = to_le_bytes (32 :: u16)"
  "slice_of (boot_sector a b f) 16 17 = [2]"
  "slice_of (boot_sector a b f) 36 40 = to_le_bytes (ucast f :: u32)"
  "slice_of (boot_sector a b f) 44 48 = to_le_bytes (2 :: u32)"
  unfolding boot_sector_def Let_def
  by ((rule field_rules)+; (intro buffer_length)?; simp add: SECTOR_def)+

lemma dir_entry_fields:
  assumes "length name = 11"
  shows "slice_of (dir_entry name a c len) 0 11 = name"
    and "slice_of (dir_entry name a c len) 20 22 = to_le_bytes (ucast (drop_bit 16 c) :: u16)"
    and "slice_of (dir_entry name a c len) 26 28 = to_le_bytes (ucast c :: u16)"
    and "slice_of (dir_entry name a c len) 28 32 = to_le_bytes len"
  unfolding dir_entry_def Let_def
  by ((rule field_here [where n = 32] field_skip [where n = 32] field_skip_byte)+;
      (intro buffer_length)?; simp add: assms)+
text \<open>What the image holds of the file system.\<close>

definition holds_program :: "image \<Rightarrow> byte list \<Rightarrow> byte list \<Rightarrow> bool" where
  "holds_program img program fat \<longleftrightarrow>
     slice_of img 1048576 1049088 = boot_sector 2048 98304 756 \<and>
     slice_of img 1064960 1452032 = fat \<and>
     slice_of img (cluster_at 2) (cluster_at 2 + 32) = dir_entry name_EFI DIRECTORY 3 0 \<and>
     slice_of img (cluster_at 3) (cluster_at 3 + 32) = dir_entry name_dot DIRECTORY 3 0 \<and>
     slice_of img (cluster_at 3 + 32) (cluster_at 3 + 64) = dir_entry name_dotdot DIRECTORY 0 0 \<and>
     slice_of img (cluster_at 3 + 64) (cluster_at 3 + 96) = dir_entry name_BOOT DIRECTORY 4 0 \<and>
     slice_of img (cluster_at 4) (cluster_at 4 + 32) = dir_entry name_dot DIRECTORY 4 0 \<and>
     slice_of img (cluster_at 4 + 32) (cluster_at 4 + 64) = dir_entry name_dotdot DIRECTORY 3 0 \<and>
     slice_of img (cluster_at 4 + 64) (cluster_at 4 + 96) =
       dir_entry name_BOOTX64 0x20 5 (of_nat (length program)) \<and>
     slice_of img (cluster_at 5) (cluster_at 5 + length program) = program"

lemma writes_show:
  assumes "apply_writes (us @ ws) img = Some img'" "k < length ws" "ws ! k = (a, ys)" "b = a + length ys"
    and "\<forall>(a', ys') \<in> set (drop (Suc k) ws). b \<le> a' \<or> a' + length ys' \<le> a"
  shows "slice_of img' a b = ys"
proof -
  have "apply_writes ((us @ take k ws) @ (a, ys) # drop (Suc k) ws) img = Some img'"
    using assms(1) id_take_nth_drop [OF assms(2)] by (simp add: assms(3))
  from apply_writes_shows [OF this] assms(4,5) show ?thesis by fastforce
qed

lemma files_of_image:
  assumes "apply_writes (gpt_writes n t @ file_writes program fat) (replicate (n * 512) 0) = Some img"
    and "length fat = 387072"
  shows "holds_program img program fat"
proof -
  note show_file = writes_show [OF assms(1)]
  show ?thesis
    unfolding holds_program_def
  proof (intro conjI)
    show "slice_of img 1048576 1049088 = boot_sector 2048 98304 756"
      by (rule show_file [of 0]) (simp_all add: file_writes_def cluster_at_def assms(2))
    show "slice_of img 1064960 1452032 = fat"
      by (rule show_file [of 3]) (simp_all add: file_writes_def cluster_at_def assms(2))
    show "slice_of img (cluster_at 2) (cluster_at 2 + 32) = dir_entry name_EFI DIRECTORY 3 0"
      by (rule show_file [of 5]) (simp_all add: file_writes_def cluster_at_def)
    show "slice_of img (cluster_at 3) (cluster_at 3 + 32) = dir_entry name_dot DIRECTORY 3 0"
      by (rule show_file [of 6]) (simp_all add: file_writes_def cluster_at_def)
    show "slice_of img (cluster_at 3 + 32) (cluster_at 3 + 64) = dir_entry name_dotdot DIRECTORY 0 0"
      by (rule show_file [of 7]) (simp_all add: file_writes_def cluster_at_def)
    show "slice_of img (cluster_at 3 + 64) (cluster_at 3 + 96) = dir_entry name_BOOT DIRECTORY 4 0"
      by (rule show_file [of 8]) (simp_all add: file_writes_def cluster_at_def)
    show "slice_of img (cluster_at 4) (cluster_at 4 + 32) = dir_entry name_dot DIRECTORY 4 0"
      by (rule show_file [of 9]) (simp_all add: file_writes_def cluster_at_def)
    show "slice_of img (cluster_at 4 + 32) (cluster_at 4 + 64) = dir_entry name_dotdot DIRECTORY 3 0"
      by (rule show_file [of 10]) (simp_all add: file_writes_def cluster_at_def)
    show "slice_of img (cluster_at 4 + 64) (cluster_at 4 + 96) =
        dir_entry name_BOOTX64 0x20 5 (of_nat (length program))"
      by (rule show_file [of 11]) (simp_all add: file_writes_def cluster_at_def)
    show "slice_of img (cluster_at 5) (cluster_at 5 + length program) = program"
      by (rule show_file [of 12]) (simp_all add: file_writes_def cluster_at_def)
  qed
qed

text \<open>The entries of the file allocation table.\<close>

lemma fat_entries:
  assumes "apply_writes (fat_writes clusters) (replicate 387072 0) = Some fat" "clusters \<le> 96763"
  shows "k \<in> {2, 3, 4} \<Longrightarrow> slice_of fat (k * 4) (k * 4 + 4) = to_le_bytes (0x0fffffff :: u32)"
    and "i < clusters \<Longrightarrow> slice_of fat ((5 + i) * 4) ((5 + i) * 4 + 4) = to_le_bytes (chain_value clusters i)"
proof -
  let ?chain = "map (\<lambda>i. ((5 + i) * 4, to_le_bytes (chain_value clusters i))) [0..<clusters]"
  let ?head = "take 5 (fat_writes clusters)"
  have w: "apply_writes ([] @ fat_writes clusters) (replicate 387072 0) = Some fat" using assms(1) by simp
  have split: "fat_writes clusters = ?head @ ?chain" by (simp add: fat_writes_def)
  note fat_show = writes_show [OF w]
  show "slice_of fat (k * 4) (k * 4 + 4) = to_le_bytes (0x0fffffff :: u32)" if "k \<in> {2, 3, 4}"
    by (rule fat_show [of k]) (use that in \<open>auto simp: fat_writes_def nth_Cons'\<close>)
  show "slice_of fat ((5 + i) * 4) ((5 + i) * 4 + 4) = to_le_bytes (chain_value clusters i)" if i: "i < clusters"
  proof (rule writes_show [of ?head ?chain _ _ i])
    show "apply_writes (?head @ ?chain) (replicate 387072 0) = Some fat" using assms(1) split by simp
  next
    show "\<forall>(a', ys') \<in> set (drop (Suc i) ?chain).
        (5 + i) * 4 + 4 \<le> a' \<or> a' + length ys' \<le> (5 + i) * 4"
      by (auto simp: drop_map)
  qed (use i in simp_all)
qed

text \<open>A disk whose sectors of the system partition are those of the image.\<close>

definition esp_of :: "(u64 \<Rightarrow> byte list) \<Rightarrow> image \<Rightarrow> bool" where
  "esp_of c img \<longleftrightarrow> 51380224 \<le> length img \<and>
     (\<forall>k < 98304. c (of_nat (2048 + k)) = slice_of img (1048576 + k * 512) (1048576 + k * 512 + 512))"

lemma nth_of_slice: "slice_of xs i (i + 1) = [v] \<Longrightarrow> xs ! i = v"
  by (cases "i < length xs") (auto simp: slice_of_def hd_drop_conv_nth take_Suc)

lemma geometry_of_image:
  assumes "esp_of c img" "holds_program img program fat"
  shows "fat_geometry c 2048 =
    \<lparr>cluster_sectors = 1, reserved_sectors = 32, fat_copies = 2, fat_length = 756, root_cluster = 2\<rparr>"
proof -
  have "c 2048 = slice_of img 1048576 1049088"
    using assms(1) unfolding esp_of_def by (auto dest: spec [of _ 0])
  then have "c 2048 = boot_sector 2048 98304 756" using assms(2) by (simp add: holds_program_def)
  then show ?thesis
    using nth_of_slice [of "boot_sector 2048 98304 756" 13 1] nth_of_slice [of "boot_sector 2048 98304 756" 16 2]
    by (simp add: fat_geometry_def le16_def le32_def boot_sector_fields Let_def)
qed

lemma next_of_image:
  assumes "esp_of c img" "holds_program img program fat" "length fat = 387072" "cluster < 96768"
    and "slice_of fat (cluster * 4) (cluster * 4 + 4) = to_le_bytes v"
  shows "fat_next c 2048 cluster = unat (v :: u32) mod 2 ^ 28"
proof -
  let ?s = "cluster * 4 div 512" and ?o = "cluster * 4 mod 512"
  have s: "?s < 756" using assms(4) by (simp add: div_less_iff_less_mult)
  have o: "?o + 4 \<le> 512" using mod_mult_mult2 [of cluster 4 128] mod_less_divisor [of 128 cluster] by simp
  have e: "?s * 512 + ?o = cluster * 4" by (rule div_mult_mod_eq)
  have l: "51380224 \<le> length img"
    and at: "\<And>k. k < 98304 \<Longrightarrow> c (of_nat (2048 + k)) = slice_of img (1048576 + k * 512) (1048576 + k * 512 + 512)"
    using assms(1) unfolding esp_of_def by auto
  let ?a = "1048576 + (32 + ?s) * 512"
  have "c (of_nat (2048 + (32 + ?s))) = slice_of img ?a (?a + 512)" using s by (intro at) simp
  then have "slice_of (c (of_nat (2048 + (32 + ?s)))) ?o (?o + 4) = slice_of img (?a + ?o) (?a + ?o + 4)"
    using o s l by (simp only: slice_of_slice add.assoc [symmetric]) (subst slice_of_slice; simp add: add.assoc)
  also have "?a + ?o = 1064960 + cluster * 4" using e by simp
  also have "slice_of img (1064960 + cluster * 4) (1064960 + cluster * 4 + 4) =
      slice_of (slice_of img 1064960 1452032) (cluster * 4) (cluster * 4 + 4)"
    using assms(4) l by (subst slice_of_slice) (simp_all add: add.assoc)
  also have "\<dots> = to_le_bytes v" using assms(2,5) by (simp add: holds_program_def)
  finally have "le32 (c (of_nat (2048 + (32 + ?s)))) ?o = unat v" by (simp add: le32_def)
  then show ?thesis
    using geometry_of_image [OF assms(1,2)] by (simp add: fat_next_def add.assoc)
qed

lemma cluster_of_image:
  assumes "esp_of c img" "holds_program img program fat" "2 \<le> cluster" "cluster < 96762"
  shows "cluster_bytes c 2048 cluster = slice_of img (cluster_at cluster) (cluster_at cluster + 512)"
proof -
  have at: "\<And>k. k < 98304 \<Longrightarrow> c (of_nat (2048 + k)) = slice_of img (1048576 + k * 512) (1048576 + k * 512 + 512)"
    using assms(1) unfolding esp_of_def by auto
  have "c (of_nat (2048 + (1542 + cluster))) = slice_of img (1048576 + (1542 + cluster) * 512) (1048576 + (1542 + cluster) * 512 + 512)"
    using assms(4) by (intro at) simp
  then have "c (of_nat (2048 + (1542 + cluster))) = slice_of img (cluster_at cluster) (cluster_at cluster + 512)"
    by (simp add: cluster_at_def)
  moreover have "2048 + 32 + 2 * 756 + (cluster - 2) * 1 + 0 = 2048 + (1542 + cluster)" using assms(3) by simp
  moreover have "cluster_bytes c 2048 cluster = c (of_nat (2048 + 32 + 2 * 756 + (cluster - 2) * 1 + 0))"
    unfolding cluster_bytes_def geometry_of_image [OF assms(1,2)] by (simp add: Let_def)
  ultimately show ?thesis by (simp only:)
qed

lemma chain_of_one:
  assumes "1 < fuel" "2 \<le> cluster" "cluster < 0x0ffffff8" "follow cluster = 0x0fffffff"
  shows "cluster_chain follow fuel cluster = [cluster]"
proof -
  obtain m where "fuel = Suc (Suc m)" using assms(1) by (metis One_nat_def less_imp_Suc_add add_Suc_right plus_nat.add_0 add_Suc)
  with assms show ?thesis by simp
qed

lemma directory_of_image:
  assumes "esp_of c img" "holds_program img program fat" "length fat = 387072" "cluster \<in> {2, 3, 4}"
    and "apply_writes (fat_writes clusters) (replicate 387072 0) = Some fat" "clusters \<le> 96763"
  shows "chain_bytes c 2048 cluster = slice_of img (cluster_at cluster) (cluster_at cluster + 512)"
proof -
  have "fat_next c 2048 cluster = unat (0x0fffffff :: u32) mod 2 ^ 28"
    by (rule next_of_image [OF assms(1-3) _ fat_entries(1) [OF assms(5,6)]]) (use assms(4) in auto)
  then have n: "fat_next c 2048 cluster = 0x0fffffff" by simp
  have "cluster_chain (fat_next c 2048) 96768 cluster = [cluster]"
    using assms(4) n by (intro chain_of_one) auto
  moreover have "cluster_bytes c 2048 cluster = slice_of img (cluster_at cluster) (cluster_at cluster + 512)"
    by (rule cluster_of_image [OF assms(1,2)]) (use assms(4) in auto)
  ultimately show ?thesis
    using geometry_of_image [OF assms(1,2)] by (simp add: chain_bytes_def)
qed

lemma program_chain:
  assumes "esp_of c img" "holds_program img program fat" "length fat = 387072"
    and "apply_writes (fat_writes clusters) (replicate 387072 0) = Some fat" "clusters \<le> 96757"
    and "i < clusters" "clusters - i < fuel"
  shows "cluster_chain (fat_next c 2048) fuel (5 + i) = map (\<lambda>j. 5 + j) [i..<clusters]"
  using assms(6,7)
proof (induction "clusters - i" arbitrary: i fuel)
  case 0
  then show ?case by simp
next
  case (Suc m)
  from Suc.prems(2) obtain f where f: "fuel = Suc f" "clusters - i \<le> f" "0 < f" by (cases fuel) (use Suc.prems(1) in auto)
  have "clusters \<le> 96763" using assms(5) by simp
  note value_of = fat_entries(2) [OF assms(4) this Suc.prems(1)]
  have "fat_next c 2048 (5 + i) = unat (chain_value clusters i) mod 2 ^ 28"
    by (rule next_of_image [OF assms(1-3) _ value_of]) (use Suc.prems(1) assms(5) in simp)
  moreover have "unat (of_nat (5 + i + 1) :: u32) = 5 + i + 1"
    using Suc.prems(1) assms(5) by (intro unat_of_nat_small) simp
  ultimately have n: "fat_next c 2048 (5 + i) = (if i + 1 = clusters then 0x0fffffff else 5 + (i + 1))"
    using Suc.prems(1) assms(5) by (auto simp: chain_value_def)
  have tail: "cluster_chain (fat_next c 2048) f (fat_next c 2048 (5 + i)) = map (\<lambda>j. 5 + j) [Suc i..<clusters]"
  proof (cases "i + 1 = clusters")
    case True
    with n f(3) show ?thesis by (cases f) simp_all
  next
    case False
    then have "cluster_chain (fat_next c 2048) f (5 + (i + 1)) = map (\<lambda>j. 5 + j) [i + 1..<clusters]"
      using Suc.prems(1) Suc.hyps(2) f(2) by (intro Suc.hyps(1)) auto
    with n False show ?thesis by simp
  qed
  have "i < 96757" using Suc.prems(1) assms(5) by simp
  with tail show ?case using Suc.prems(1) f(1) by (simp add: upt_conv_Cons del: upt_Suc)
qed
text \<open>A name that stands in the first three entries of a directory.\<close>

lemma find_third:
  assumes "length d = 512" "slice_of d 0 32 = u" "slice_of d 32 64 = v" "slice_of d 64 96 = w"
    and "u ! 0 \<noteq> 0" "v ! 0 \<noteq> 0" "w ! 0 \<noteq> 0"
    and "slice_of u 0 11 \<noteq> name" "slice_of v 0 11 \<noteq> name" "slice_of w 0 11 = name"
  shows "find_name name d = Some w"
proof -
  have "[0..<16] = 0 # 1 # 2 # [3..<16]" by (simp add: upt_rec)
  with assms show ?thesis by (simp add: find_name_def)
qed

lemma find_first:
  assumes "length d = 512" "slice_of d 0 32 = e" "e ! 0 \<noteq> 0" "slice_of e 0 11 = name"
  shows "find_name name d = Some e"
proof -
  have "[0..<16] = 0 # [1..<16]" by (simp add: upt_rec)
  with assms show ?thesis by (simp add: find_name_def)
qed

lemma dir_entry_first:
  assumes "length name = 11"
  shows "dir_entry name a c len ! 0 = name ! 0"
proof -
  have "dir_entry name a c len ! 0 = slice_of (dir_entry name a c len) 0 11 ! 0"
    using assms by (simp add: bytes_simps)
  with dir_entry_fields(1) [OF assms] show ?thesis by simp
qed

lemma name_first [simp]:
  "name_EFI ! 0 \<noteq> 0" "name_BOOT ! 0 \<noteq> 0" "name_dot ! 0 \<noteq> 0" "name_dotdot ! 0 \<noteq> 0" "name_BOOTX64 ! 0 \<noteq> 0"
  by (simp_all add: name_EFI_def name_BOOT_def name_dot_def name_dotdot_def name_BOOTX64_def)

lemma names_differ [simp]:
  "name_dot \<noteq> name_BOOT" "name_dotdot \<noteq> name_BOOT" "name_dot \<noteq> name_BOOTX64" "name_dotdot \<noteq> name_BOOTX64"
  by (simp_all add: name_BOOT_def name_dot_def name_dotdot_def name_BOOTX64_def)

lemma entry_cluster_dir [simp]:
  assumes "length name = 11" "c < 65536"
  shows "entry_cluster (dir_entry name a (of_nat c) len) = c"
proof -
  have "unat (of_nat c :: u64) = c" using assms(2) by (intro unat_of_nat_small) simp
  then have "unat (drop_bit 16 (of_nat c :: u64)) = 0"
    using assms(2) unfolding unat_drop_bit_eq by (simp add: drop_bit_eq_div)
  then have "drop_bit 16 (of_nat c :: u64) = 0" by (simp only: unat_eq_zero)
  moreover have "unat (ucast (of_nat c :: u64) :: u16) = c"
    using assms(2) \<open>unat (of_nat c :: u64) = c\<close> unfolding unsigned_ucast_eq by (simp add: take_bit_eq_mod)
  ultimately show ?thesis
    using assms(1) by (simp add: entry_cluster_def le16_def dir_entry_fields)
qed

lemma firmware_reads_program:
  assumes "esp_of c img" "holds_program img program fat" "length fat = 387072"
    and "apply_writes (fat_writes (clusters_of program)) (replicate 387072 0) = Some fat"
    and len: "length program \<le> 96757 * 512"
  shows "fat_file c 2048 [name_EFI, name_BOOT, name_BOOTX64] = Some program"
proof -
  note bound = clusters_of_bound [OF len]
  have cb: "clusters_of program \<le> 96763" using bound(1) by linarith
  note dir = directory_of_image [OF assms(1-3) _ assms(4) cb]
  note g = geometry_of_image [OF assms(1,2)]
  have l: "51380224 \<le> length img" using assms(1) by (simp add: esp_of_def)
  let ?d = "\<lambda>k. slice_of img (cluster_at k) (cluster_at k + 512)"
  have ld: "length (?d k) = 512" if "k < 1000" for k
    using that l by (simp add: cluster_at_def bytes_simps)
  have part: "slice_of (?d k) a b = slice_of img (cluster_at k + a) (cluster_at k + b)" if "k < 1000" "b \<le> 512" for k a b
    using that l by (intro slice_of_slice) (simp_all add: cluster_at_def)
  note h = assms(2) [unfolded holds_program_def]
  have root: "find_name name_EFI (chain_bytes c 2048 2) = Some (dir_entry name_EFI DIRECTORY 3 0)"
    unfolding dir [of 2, simplified]
    by (rule find_first) (use h in \<open>simp_all add: ld part dir_entry_first dir_entry_fields\<close>)
  have efi: "find_name name_BOOT (chain_bytes c 2048 3) = Some (dir_entry name_BOOT DIRECTORY 4 0)"
    unfolding dir [of 3, simplified]
    by (rule find_third [where u = "dir_entry name_dot DIRECTORY 3 0" and v = "dir_entry name_dotdot DIRECTORY 0 0"])
      (use h in \<open>simp_all add: ld part dir_entry_first dir_entry_fields\<close>)
  let ?file = "dir_entry name_BOOTX64 0x20 5 (of_nat (length program))"
  have boot: "find_name name_BOOTX64 (chain_bytes c 2048 4) = Some ?file"
    unfolding dir [of 4, simplified]
    by (rule find_third [where u = "dir_entry name_dot DIRECTORY 4 0" and v = "dir_entry name_dotdot DIRECTORY 3 0"])
      (use h in \<open>simp_all add: ld part dir_entry_first dir_entry_fields\<close>)
  have size: "le32 ?file 28 = length program"
  proof -
    have "unat (of_nat (length program) :: u32) = length program"
      using len by (intro unat_of_nat_small) simp
    then show ?thesis by (simp add: le32_def dir_entry_fields)
  qed
  have path: "fat_path c 2048 2 0 [name_EFI, name_BOOT, name_BOOTX64] = Some (5, length program)"
    using entry_cluster_dir [of name_EFI 3] entry_cluster_dir [of name_BOOT 4] entry_cluster_dir [of name_BOOTX64 5]
    by (simp add: root efi boot size)
  have "cluster_chain (fat_next c 2048) 96768 (5 + 0) = map (\<lambda>j. 5 + j) [0..<clusters_of program]"
    by (rule program_chain [OF assms(1-4) bound(1)]) (use bound in auto)
  then have "chain_bytes c 2048 5 = concat (map (\<lambda>j. cluster_bytes c 2048 (5 + j)) [0..<clusters_of program])"
    by (simp add: chain_bytes_def g comp_def)
  also have "map (\<lambda>j. cluster_bytes c 2048 (5 + j)) [0..<clusters_of program] =
      map (\<lambda>j. slice_of img (cluster_at 5 + j * 512) (cluster_at 5 + j * 512 + 512)) [0..<clusters_of program]"
  proof (rule map_cong [OF refl])
    fix j assume "j \<in> set [0..<clusters_of program]"
    then have "5 + j < 96762" using bound(1) by auto
    from cluster_of_image [OF assms(1,2) _ this]
    show "cluster_bytes c 2048 (5 + j) = slice_of img (cluster_at 5 + j * 512) (cluster_at 5 + j * 512 + 512)"
      by (simp add: cluster_at_def algebra_simps)
  qed
  also have "concat \<dots> = slice_of img (cluster_at 5) (cluster_at 5 + clusters_of program * 512)"
    using bound(1) l by (intro slices_join) (simp add: cluster_at_def)
  finally have "take (length program) (chain_bytes c 2048 5) =
      slice_of img (cluster_at 5) (cluster_at 5 + length program)"
    using bound(2) by (simp add: slice_of_def min_absorb1)
  then show ?thesis using path h g by (simp add: fat_file_def)
qed

section \<open>Properties\<close>

lemma search_spec_agrees:
  assumes "\<And>i. i < table_range h \<Longrightarrow> c (entries_lba h + of_nat i) = c' (entries_lba h + of_nat i)"
    and "0 < unat (entry_size h)" "k + m \<le> unat (entry_count h)"
  shows "search_spec c h g n m k = search_spec c' h g n m k"
  using assms(3)
proof (induction m arbitrary: k)
  case (Suc m)
  have "k * unat (entry_size h) div 512 < table_range h"
    using Suc.prems assms(2) by (intro entry_sector_in_table) auto
  then have "entry_of c h k = entry_of c' h k" using assms(1) by (simp add: entry_of_def Let_def)
  moreover have "search_spec c h g n m (k + 1) = search_spec c' h g n m (k + 1)"
    using Suc.prems by (intro Suc.IH) simp
  ultimately show ?case by (simp split: option.splits)
qed simp

lemma table_spec_agrees:
  assumes "\<And>i. i < table_range h \<Longrightarrow> c (entries_lba h + of_nat i) = c' (entries_lba h + of_nat i)"
    and "0 < unat (entry_size h)"
  shows "table_spec c h g n = table_spec c' h g n"
proof -
  have "map (\<lambda>i. c (entries_lba h + of_nat i)) [0..<table_range h] =
      map (\<lambda>i. c' (entries_lba h + of_nat i)) [0..<table_range h]"
    using assms(1) by simp
  then have "entry_bytes c h = entry_bytes c' h" by (simp only: entry_bytes_eq array_from_def add_0)
  moreover have "search_spec c h g n (unat (entry_count h)) 0 = search_spec c' h g n (unat (entry_count h)) 0"
    by (rule search_spec_agrees) (use assms in simp_all)
  ultimately show ?thesis by (simp add: table_spec_def)
qed

text \<open>A device that holds the image, as the driver reports it or as \<open>Disk\<close> does, one sector less.\<close>

definition disk_holds :: "'d sectors \<Rightarrow> ('d \<Rightarrow> u64 \<Rightarrow> byte list) \<Rightarrow> 'd \<Rightarrow> image \<Rightarrow> bool" where
  "disk_holds D content d img \<longleftrightarrow>
     (sec_count D d = image_sectors img \<or> sec_count D d = image_sectors img - 1) \<and>
     (\<forall>s < sec_count D d. content d s = image_content img s)"

lemma image_found:
  assumes store: "reliable_store D valid content" and v: "valid d" and holds: "disk_holds D content d img"
    and mb: "50 \<le> unat megabytes" "unat megabytes \<le> 2 ^ 20" and len: "length program \<le> 96757 * 512"
    and built: "build_image program megabytes = Some (Ok img)"
  shows "\<exists>d'. gpt_find D d ESP_TYPE =
      (d', Some (Ok \<lparr>type_guid = ESP_TYPE, first_lba = 2048, last_lba = 100351\<rparr>))"
    and "\<exists>d'. gpt_find D d JOURNAL_PARTITION = (d', Some (Ok \<lparr>type_guid = JOURNAL_PARTITION,
      first_lba = 100352, last_lba = image_sectors img - 34\<rparr>))"
    and "esp_of (content d) img" "\<exists>fat. holds_program img program fat \<and> length fat = 387072 \<and>
      apply_writes (fat_writes (clusters_of program)) (replicate 387072 0) = Some fat"
proof -
  define n where "n = unat megabytes * 2048"
  obtain img' t fat where i: "build_image program megabytes = Some (Ok img')"
    "apply_writes (gpt_writes n t @ file_writes program fat) (replicate (n * 512) 0) = Some img'"
    "write_entries 0 (partitions_of (image_new n)) (replicate 16384 0) = Some t" "length t = 16384"
    "apply_writes (fat_writes (clusters_of program)) (replicate 387072 0) = Some fat" "length fat = 387072"
    "length img' = n * 512"
    using build_image_writes [OF mb len n_def] by metis
  have [simp]: "img' = img" using built i(1) by simp
  have n: "102400 \<le> n" "n < 2 ^ 32" using mb by (simp_all add: n_def)
  have un: "unat (of_nat n :: u64) = n" using n by (intro unat_of_nat_small) simp
  have s: "image_sectors img = of_nat n" using i(7) by (simp add: image_sectors_def SECTOR_def)
  have "unat (of_nat n - 1 :: u64) = n - 1"
    using un n by (subst unat_minus_one) auto
  then have count: "n - 1 \<le> unat (sec_count D d)" "unat (sec_count D d) \<le> n"
    using holds un by (auto simp: disk_holds_def s)
  have agrees: "content d x = image_content img x" if "unat x < n - 1" for x
    using that holds count(1) by (auto simp: disk_holds_def word_less_nat_alt)
  let ?h = "image_header 2 (crc32 t)"
  have hf: "entries_lba ?h = 2" "table_range ?h = 32" "0 < unat (entry_size ?h)"
    by (simp_all add: image_header_def table_range_def div_ceil_def)
  have idx: "unat (2 + of_nat k :: u64) = 2 + k" if "k < 32" for k
    using that unat_of_nat_small [of k, where 'a = 64] by (subst unat_add_small) simp_all
  have one: "1 < sec_count D d" using count n by (simp add: word_less_nat_alt)
  have ti: "table_in_range ?h (sec_count D d)"
    using idx count n by (auto simp: table_in_range_def hf word_less_nat_alt)
  note table = table_of_image [OF i(2) [simplified] i(4) n]
  have "content d 1 = image_content img 1" using n by (intro agrees) simp
  then have hs: "header_spec (content d) (sec_count D d) = Some ?h" using table(1) by (simp add: header_spec_def)
  have spec: "table_spec (content d) ?h g (sec_count D d) = table_spec (image_content img) ?h g (sec_count D d)" for g
  proof (rule table_spec_agrees)
    fix k assume "k < table_range ?h"
    then have k: "k < 32" by (simp add: hf)
    show "content d (entries_lba ?h + of_nat k) = image_content img (entries_lba ?h + of_nat k)"
      using idx [OF k] k n by (intro agrees) (simp add: hf)
  qed (rule hf)
  note tables = table_spec_of_image [OF i(2) [simplified] i(3) n count(1), folded spec]
  have found: "\<exists>d'. gpt_find D d g = (d', table_spec (content d) ?h g (sec_count D d))" for g
    using reliable_store.find_in [OF store v one hs ti] by (metis surj_pair)
  have last: "image_sectors img - 34 = of_nat (n - 34)" using n by (simp add: s of_nat_diff)
  show "\<exists>d'. gpt_find D d ESP_TYPE =
      (d', Some (Ok \<lparr>type_guid = ESP_TYPE, first_lba = 2048, last_lba = 100351\<rparr>))"
    using found [of ESP_TYPE] tables(1) by simp
  show "\<exists>d'. gpt_find D d JOURNAL_PARTITION = (d', Some (Ok \<lparr>type_guid = JOURNAL_PARTITION,
      first_lba = 100352, last_lba = image_sectors img - 34\<rparr>))"
    using found [of JOURNAL_PARTITION] tables(2) last by simp
  show "\<exists>fat. holds_program img program fat \<and> length fat = 387072 \<and>
      apply_writes (fat_writes (clusters_of program)) (replicate 387072 0) = Some fat"
    using files_of_image [OF i(2) [simplified] i(6)] i(5,6) by blast
  show "esp_of (content d) img"
    unfolding esp_of_def
  proof (intro conjI allI impI)
    show "51380224 \<le> length img" using i(7) n by simp
    fix k :: nat assume k: "k < 98304"
    have u: "unat (of_nat (2048 + k) :: u64) = 2048 + k" using k by (intro unat_of_nat_small) simp
    then have "content d (of_nat (2048 + k)) = image_content img (of_nat (2048 + k))"
      using k n by (intro agrees) simp
    then show "content d (of_nat (2048 + k)) = slice_of img (1048576 + k * 512) (1048576 + k * 512 + 512)"
      unfolding image_content_def u by (simp add: algebra_simps)
  qed
qed

text \<open>The path the firmware boots from.\<close>

definition BOOT_PATH :: "byte list list" where "BOOT_PATH = [name_EFI, name_BOOT, name_BOOTX64]"

text \<open>
  C36: the builder and the kernel agree on where the partitions are. On a working device that holds
  the built image, whether it counts all its sectors or one less as the kernel's \<open>Disk\<close> does,
  \<open>find\<close> reports the system partition and the journal partition with the bounds the builder chose.
\<close>

theorem image_partitions_found:
  assumes "50 \<le> unat megabytes" "unat megabytes \<le> 2 ^ 20" "length program \<le> 96757 * 512"
    and "build_image program megabytes = Some (Ok img)"
    and "reliable_store D valid content" "valid d" "disk_holds D content d img"
  shows "(\<exists>d'. gpt_find D d ESP_TYPE =
      (d', Some (Ok \<lparr>type_guid = ESP_TYPE, first_lba = 2048, last_lba = 100351\<rparr>))) \<and>
    (\<exists>d'. gpt_find D d JOURNAL_PARTITION = (d', Some (Ok \<lparr>type_guid = JOURNAL_PARTITION,
      first_lba = 100352, last_lba = image_sectors img - 34\<rparr>)))"
  using image_found(1,2) [OF assms(5-7,1-4)] by (rule conjI)

text \<open>
  C37: the image boots, before and after the kernel has written to it. For a size of 50 MiB to
  1 TiB and a kernel that fits the data area the builder succeeds; a firmware that reads FAT32 from
  the system partition finds exactly the kernel's bytes under \<open>/EFI/BOOT/BOOTX64.EFI\<close>, also
  after any boot has added its entries to the log on the disk.
\<close>

theorem image_boots_again:
  assumes "50 \<le> unat megabytes" "unat megabytes \<le> 2 ^ 20" "length program \<le> 96757 * 512"
    and "reliable_store D valid content"
  shows "\<exists>img. build_image program megabytes = Some (Ok img) \<and>
    length img = unat megabytes * 2 ^ 20 \<and>
    (\<forall>d ring_entries d' out. valid d \<and> disk_holds D content d img \<and>
       persist_run D d ring_entries = Some (d', out) \<longrightarrow>
       fat_file (content d) 2048 BOOT_PATH = Some program \<and>
       fat_file (content d') 2048 BOOT_PATH = Some program)"
proof -
  obtain img t fat where i: "build_image program megabytes = Some (Ok img)"
    "length img = unat megabytes * 2048 * 512"
    using build_image_writes [OF assms(1-3) refl] by metis
  have "fat_file (content d) 2048 BOOT_PATH = Some program \<and> fat_file (content d') 2048 BOOT_PATH = Some program"
    if v: "valid d" and h: "disk_holds D content d img" and run: "persist_run D d ring_entries = Some (d', out)"
    for d ring_entries d' out
  proof -
    note found = image_found [OF assms(4) v h assms(1-3) i(1)]
    obtain fat where fat: "holds_program img program fat" "length fat = 387072"
      "apply_writes (fat_writes (clusters_of program)) (replicate 387072 0) = Some fat"
      using found(4) by blast
    obtain d1 where g: "gpt_find D d JOURNAL_PARTITION = (d1, Some (Ok \<lparr>type_guid = JOURNAL_PARTITION,
        first_lba = 100352, last_lba = image_sectors img - 34\<rparr>))" using found(2) by blast
    have store: "sector_store D valid content" using assms(4) by (rule reliable_store.axioms)
    have kept: "content d' s = content d s" if "s < 100352" for s
      by (rule run_confined [OF store v g run]) (use that in simp)
    have "esp_of (content d') img"
      unfolding esp_of_def
    proof (intro conjI allI impI)
      show "51380224 \<le> length img" using found(3) by (simp add: esp_of_def)
      fix k :: nat assume k: "k < 98304"
      have "unat (of_nat (2048 + k) :: u64) = 2048 + k" using k by (intro unat_of_nat_small) simp
      then have "content d' (of_nat (2048 + k)) = content d (of_nat (2048 + k))"
        using k by (intro kept) (simp add: word_less_nat_alt)
      then show "content d' (of_nat (2048 + k)) = slice_of img (1048576 + k * 512) (1048576 + k * 512 + 512)"
        using found(3) k by (simp add: esp_of_def)
    qed
    with firmware_reads_program [OF found(3) fat assms(3)] firmware_reads_program [OF _ fat assms(3)]
    show ?thesis by (simp add: BOOT_PATH_def)
  qed
  with i show ?thesis by auto
qed

text \<open>The image in memory.\<close>

definition image_disk :: "image \<Rightarrow> ram" where
  "image_disk img = \<lparr>ram_data = map (\<lambda>i. slice_of img (i * 512) (i * 512 + 512)) [0..<length img div 512],
     ram_flushed = 0\<rparr>"

lemma image_disk_holds:
  assumes "length img = m * 2 ^ 20" "m \<le> 2 ^ 20"
  shows "ram_valid (image_disk img)" "disk_holds ram_sectors ram_content (image_disk img) img"
proof -
  have n: "length img div 512 = m * 2048" using assms(1) by simp
  have "length (slice_of img (i * 512) (i * 512 + 512)) = 512" if "i < m * 2048" for i
  proof -
    have "(i + 1) * 512 \<le> m * 2048 * 512" using that by (intro mult_le_mono1) simp
    then show ?thesis using assms(1) by (simp add: bytes_simps)
  qed
  then show "ram_valid (image_disk img)"
    using assms(2) n by (auto simp: ram_valid_def image_disk_def)
  have "unat (of_nat (m * 2048) :: u64) = m * 2048" using assms(2) by (intro unat_of_nat_small) simp
  then show "disk_holds ram_sectors ram_content (image_disk img) img"
    using n
    by (auto simp: disk_holds_def ram_sectors_def ram_content_def image_disk_def image_sectors_def SECTOR_def
        image_content_def word_less_nat_alt simp del: of_nat_mult)
qed

theorem image_partitions_found_witness:
  "\<exists>img d'. build_image [0xeb] 50 = Some (Ok img) \<and>
     gpt_find ram_sectors (image_disk img) JOURNAL_PARTITION = (d', Some (Ok \<lparr>type_guid = JOURNAL_PARTITION,
       first_lba = 100352, last_lba = image_sectors img - 34\<rparr>))"
proof -
  have b: "50 \<le> unat (50 :: u64)" "unat (50 :: u64) \<le> 2 ^ 20" "length [0xeb :: byte] \<le> 96757 * 512" by simp_all
  obtain img where i: "build_image [0xeb] 50 = Some (Ok img)" "length img = unat (50 :: u64) * 2048 * 512"
    using build_image_writes [OF b refl] by metis
  have l: "length img = 50 * 2 ^ 20" using i(2) by simp
  have m: "(50 :: nat) \<le> 2 ^ 20" by simp
  from image_partitions_found [OF b i(1) ram.reliable_store_axioms image_disk_holds [OF l m]] i(1)
  show ?thesis by blast
qed

theorem image_boots_again_witness:
  "\<exists>img d' out. build_image [0xeb] 50 = Some (Ok img) \<and>
     persist_run ram_sectors (image_disk img) [boot_entry 1] = Some (d', out) \<and>
     fat_file (ram_content d') 2048 BOOT_PATH = Some [0xeb]"
proof -
  have b: "50 \<le> unat (50 :: u64)" "unat (50 :: u64) \<le> 2 ^ 20" "length [0xeb :: byte] \<le> 96757 * 512" by simp_all
  obtain img where i: "build_image [0xeb] 50 = Some (Ok img)" "length img = unat (50 :: u64) * 2 ^ 20"
    and again: "\<And>d es d' out. ram_valid d \<Longrightarrow> disk_holds ram_sectors ram_content d img \<Longrightarrow>
      persist_run ram_sectors d es = Some (d', out) \<Longrightarrow> fat_file (ram_content d') 2048 BOOT_PATH = Some [0xeb]"
    using image_boots_again [OF b ram.reliable_store_axioms] by blast
  have l: "length img = 50 * 2 ^ 20" using i(2) by simp
  have m: "(50 :: nat) \<le> 2 ^ 20" by simp
  note held = image_disk_holds [OF l m]
  obtain d1 where "gpt_find ram_sectors (image_disk img) JOURNAL_PARTITION = (d1, Some (Ok
      \<lparr>type_guid = JOURNAL_PARTITION, first_lba = 100352, last_lba = image_sectors img - 34\<rparr>))"
    using image_found(2) [OF ram.reliable_store_axioms held b i(1)] by blast
  then have "persist_run ram_sectors (image_disk img) [boot_entry 1] \<noteq> None"
    by (simp add: persist_run_def Let_def split: prod.splits)
  then obtain d' out where "persist_run ram_sectors (image_disk img) [boot_entry 1] = Some (d', out)" by auto
  with again [OF held] i(1) show ?thesis by blast
qed

end
