(* ===== verification/Pci.thy ===== *)
theory Pci
  imports Mmio "HOL-Library.State_Monad"
begin

text \<open>
  PCI configuration space through the port pair (\<open>nawa/core/src/pci.rs\<close>): the registers of a
  function, its memory windows, its capability list and the scan of bus 0. The code is translated
  into the state monad over the machine: the address space, physical memory, and the devices. What
  the devices do is a parameter, \<open>hardware\<close>: how they answer the two port instructions of
  \<open>arch.rs\<close>, and what they do to memory between two accesses of the processor. A closure the
  code hands to a walk is a function of the values it captures.
\<close>

unbundle bit_operations_syntax

section \<open>The machine\<close>

record 'v hardware =
  hw_act :: "'v \<Rightarrow> memory \<Rightarrow> 'v \<times> memory"
  hw_out :: "u16 \<Rightarrow> u32 \<Rightarrow> 'v \<Rightarrow> 'v"
  hw_in :: "u16 \<Rightarrow> 'v \<Rightarrow> u32 \<times> 'v"

record 'v world =
  w_paging :: paging
  w_memory :: memory
  w_device :: 'v

type_synonym ('v, 'a) io = "('v world, 'a) state"

abbreviation ret :: "'a \<Rightarrow> ('s, 'a) state" where "ret \<equiv> State_Monad.return"

text \<open>The operator \<open>?\<close>: the rest runs on a value, and \<open>None\<close> returns early.\<close>

definition and_some :: "('s, 'a option) state \<Rightarrow> ('a \<Rightarrow> ('s, 'b option) state) \<Rightarrow> ('s, 'b option) state" where
  "and_some m f = do { r \<leftarrow> m; case r of None \<Rightarrow> ret None | Some a \<Rightarrow> f a }"

definition outl :: "'v hardware \<Rightarrow> u16 \<Rightarrow> u32 \<Rightarrow> ('v, unit) io" where
  "outl h port v = State (\<lambda>w. ((), w\<lparr>w_device := hw_out h port v (w_device w)\<rparr>))"

definition inl :: "'v hardware \<Rightarrow> u16 \<Rightarrow> ('v, u32) io" where
  "inl h port = State (\<lambda>w. let (v, d) = hw_in h port (w_device w) in (v, w\<lparr>w_device := d\<rparr>))"

section \<open>Configuration registers\<close>

definition ADDRESS_PORT :: u16 where "ADDRESS_PORT = 0xcf8"
definition DATA_PORT :: u16 where "DATA_PORT = 0xcfc"

record pci_address =
  bus :: byte
  pci_slot :: byte
  pci_function :: byte

definition selector :: "pci_address \<Rightarrow> byte \<Rightarrow> u32" where
  "selector a offset =
     0x80000000 OR push_bit 16 (ucast (bus a)) OR push_bit 11 (ucast (pci_slot a)) OR
     push_bit 8 (ucast (pci_function a)) OR (ucast offset AND 0xfc)"

definition config_read32 :: "'v hardware \<Rightarrow> pci_address \<Rightarrow> byte \<Rightarrow> ('v, u32) io" where
  "config_read32 h a offset = do { outl h ADDRESS_PORT (selector a offset); inl h DATA_PORT }"

definition config_write32 :: "'v hardware \<Rightarrow> pci_address \<Rightarrow> byte \<Rightarrow> u32 \<Rightarrow> ('v, unit) io" where
  "config_write32 h a offset v = do { outl h ADDRESS_PORT (selector a offset); outl h DATA_PORT v }"

definition config_read16 :: "'v hardware \<Rightarrow> pci_address \<Rightarrow> byte \<Rightarrow> ('v, u16) io" where
  "config_read16 h a offset = do {
     v \<leftarrow> config_read32 h a offset;
     ret (ucast (drop_bit (unat ((ucast offset :: u32) AND 2) * 8) v)) }"

definition config_read8 :: "'v hardware \<Rightarrow> pci_address \<Rightarrow> byte \<Rightarrow> ('v, byte) io" where
  "config_read8 h a offset = do {
     v \<leftarrow> config_read32 h a offset;
     ret (ucast (drop_bit (unat ((ucast offset :: u32) AND 3) * 8) v)) }"

section \<open>A function on the bus\<close>

record pci_device =
  d_address :: pci_address
  d_vendor :: u16
  d_device :: u16

definition VENDOR_OFFSET :: byte where "VENDOR_OFFSET = 0x00"
definition COMMAND_OFFSET :: byte where "COMMAND_OFFSET = 0x04"
definition HEADER_TYPE_OFFSET :: byte where "HEADER_TYPE_OFFSET = 0x0e"
definition CAPABILITIES_POINTER_OFFSET :: byte where "CAPABILITIES_POINTER_OFFSET = 0x34"
definition BAR0_OFFSET :: byte where "BAR0_OFFSET = 0x10"
definition COMMAND_MEMORY_SPACE :: u32 where "COMMAND_MEMORY_SPACE = 2"
definition COMMAND_BUS_MASTER :: u32 where "COMMAND_BUS_MASTER = 4"

definition device_enable :: "'v hardware \<Rightarrow> pci_device \<Rightarrow> ('v, unit) io" where
  "device_enable h d = do {
     command \<leftarrow> config_read32 h (d_address d) COMMAND_OFFSET;
     config_write32 h (d_address d) COMMAND_OFFSET (command OR COMMAND_MEMORY_SPACE OR COMMAND_BUS_MASTER) }"

definition device_bar :: "'v hardware \<Rightarrow> pci_device \<Rightarrow> byte \<Rightarrow> ('v, u64 option) io" where
  "device_bar h d index =
     (if index > 5 then ret None
      else
        let offset = BAR0_OFFSET + index * 4 in do {
          low \<leftarrow> config_read32 h (d_address d) offset;
          if low AND 1 \<noteq> 0 then ret None
          else
            let base = ucast (low AND 0xfffffff0);
                form = drop_bit 1 low AND 3
            in if form = 0 then ret (Some base)
               else if form = 2 then do {
                 high \<leftarrow> config_read32 h (d_address d) (offset + 4);
                 ret (Some (base OR push_bit 32 (ucast high))) }
               else ret None })"

text \<open>The bounded walk of the capability list; \<open>acc\<close> is what the closure captures.\<close>

fun capability_walk ::
  "'v hardware \<Rightarrow> pci_device \<Rightarrow> (byte \<Rightarrow> byte \<Rightarrow> 'acc \<Rightarrow> ('v, 'acc) io) \<Rightarrow> nat \<Rightarrow> byte \<Rightarrow> 'acc \<Rightarrow> ('v, 'acc) io" where
  "capability_walk h d visit 0 offset acc = ret acc"
| "capability_walk h d visit (Suc n) offset acc =
     (if offset = 0 then ret acc
      else do {
        id \<leftarrow> config_read8 h (d_address d) offset;
        acc \<leftarrow> visit id offset acc;
        following \<leftarrow> config_read8 h (d_address d) (offset + 1);
        capability_walk h d visit n (following AND 0xfc) acc })"

definition device_capabilities ::
  "'v hardware \<Rightarrow> pci_device \<Rightarrow> (byte \<Rightarrow> byte \<Rightarrow> 'acc \<Rightarrow> ('v, 'acc) io) \<Rightarrow> 'acc \<Rightarrow> ('v, 'acc) io" where
  "device_capabilities h d visit acc = do {
     offset \<leftarrow> config_read8 h (d_address d) CAPABILITIES_POINTER_OFFSET;
     capability_walk h d visit 48 (offset AND 0xfc) acc }"

section \<open>The scan\<close>

fun scan_functions ::
  "'v hardware \<Rightarrow> (pci_device \<Rightarrow> 'acc \<Rightarrow> ('v, 'acc) io) \<Rightarrow> byte \<Rightarrow> nat list \<Rightarrow> 'acc \<Rightarrow> ('v, 'acc) io" where
  "scan_functions h visit s [] acc = ret acc"
| "scan_functions h visit s (f # fs) acc =
     (let address = \<lparr>bus = 0, pci_slot = s, pci_function = of_nat f\<rparr> in do {
        identity \<leftarrow> config_read32 h address VENDOR_OFFSET;
        if identity = 0xffffffff then scan_functions h visit s fs acc
        else do {
          acc \<leftarrow> visit \<lparr>d_address = address, d_vendor = ucast identity, d_device = ucast (drop_bit 16 identity)\<rparr> acc;
          scan_functions h visit s fs acc } })"

fun scan_slots ::
  "'v hardware \<Rightarrow> (pci_device \<Rightarrow> 'acc \<Rightarrow> ('v, 'acc) io) \<Rightarrow> nat list \<Rightarrow> 'acc \<Rightarrow> ('v, 'acc) io" where
  "scan_slots h visit [] acc = ret acc"
| "scan_slots h visit (s # ss) acc =
     (let base = \<lparr>bus = 0, pci_slot = of_nat s, pci_function = 0\<rparr> in do {
        identity \<leftarrow> config_read32 h base VENDOR_OFFSET;
        if identity = 0xffffffff then scan_slots h visit ss acc
        else do {
          header_type \<leftarrow> config_read8 h base HEADER_TYPE_OFFSET;
          let functions = (if header_type AND 0x80 \<noteq> 0 then 8 else 1);
          acc \<leftarrow> scan_functions h visit (of_nat s) [0..<functions] acc;
          scan_slots h visit ss acc } })"

definition pci_scan :: "'v hardware \<Rightarrow> (pci_device \<Rightarrow> 'acc \<Rightarrow> ('v, 'acc) io) \<Rightarrow> 'acc \<Rightarrow> ('v, 'acc) io" where
  "pci_scan h visit acc = scan_slots h visit [0..<32] acc"

end
