(* ===== verification/Virtio.thy ===== *)
theory Virtio
  imports Pci
begin

text \<open>
  The virtio drivers (\<open>nawa/virtio/src\<close>): the split virtqueue (\<open>queue.rs\<close>), finding a device's
  registers and bringing it up (\<open>transport.rs\<close>), and the block, entropy and console drivers. The
  devices act (\<open>hw_act\<close>) before every single access of the driver, so each definition is the
  code together with every interleaving of a second processor between its accesses. A fence has no
  effect in this model, where accesses happen in program order. \<open>map_device\<close> always returns
  (\<open>map_device_returns\<close>), so its result is taken with \<open>the\<close>.
\<close>

unbundle bit_operations_syntax

section \<open>Access from a driver\<close>

definition devices_act :: "'v hardware \<Rightarrow> 'v world \<Rightarrow> 'v world" where
  "devices_act h w = (let (v, m) = hw_act h (w_device w) (w_memory w) in w\<lparr>w_device := v, w_memory := m\<rparr>)"

definition load :: "'v hardware \<Rightarrow> (paging \<Rightarrow> memory \<Rightarrow> 'a) \<Rightarrow> ('v, 'a) io" where
  "load h f = State (\<lambda>w. let w = devices_act h w in (f (w_paging w) (w_memory w), w))"

definition store :: "'v hardware \<Rightarrow> (paging \<Rightarrow> memory \<Rightarrow> memory) \<Rightarrow> ('v, unit) io" where
  "store h f = State (\<lambda>w. let w = devices_act h w in ((), w\<lparr>w_memory := f (w_paging w) (w_memory w)\<rparr>))"

definition io_read8 :: "'v hardware \<Rightarrow> u64 \<Rightarrow> ('v, byte) io" where
  "io_read8 h a = load h (\<lambda>st m. read8 st m a)"

definition io_read16 :: "'v hardware \<Rightarrow> u64 \<Rightarrow> ('v, u16) io" where
  "io_read16 h a = load h (\<lambda>st m. read16 st m a)"

definition io_read32 :: "'v hardware \<Rightarrow> u64 \<Rightarrow> ('v, u32) io" where
  "io_read32 h a = load h (\<lambda>st m. read32 st m a)"

definition io_write8 :: "'v hardware \<Rightarrow> u64 \<Rightarrow> byte \<Rightarrow> ('v, unit) io" where
  "io_write8 h a v = store h (\<lambda>st. write8 st a v)"

definition io_write16 :: "'v hardware \<Rightarrow> u64 \<Rightarrow> u16 \<Rightarrow> ('v, unit) io" where
  "io_write16 h a v = store h (\<lambda>st. write16 st a v)"

definition io_write32 :: "'v hardware \<Rightarrow> u64 \<Rightarrow> u32 \<Rightarrow> ('v, unit) io" where
  "io_write32 h a v = store h (\<lambda>st. write32 st a v)"

definition frames_taken :: "nat \<Rightarrow> ('v, u64 option) io" where
  "frames_taken count = State (\<lambda>w.
     case allocate_frames (mem_slot (w_paging w)) count of
       (r, slot) \<Rightarrow> (map_option of_nat r, w\<lparr>w_paging := (w_paging w)\<lparr>mem_slot := slot\<rparr>\<rparr>))"

section \<open>The queue\<close>

definition DESCRIPTOR_NEXT :: u16 where "DESCRIPTOR_NEXT = 1"
definition DESCRIPTOR_WRITE :: u16 where "DESCRIPTOR_WRITE = 2"

text \<open>\<open>repr(C)\<close>: the fields in order, little-endian.\<close>

record descriptor =
  desc_address :: u64
  desc_length :: u32
  desc_flags :: u16
  desc_next :: u16

definition descriptor_bytes :: "descriptor \<Rightarrow> byte list" where
  "descriptor_bytes d =
     to_le_bytes (desc_address d) @ to_le_bytes (desc_length d) @ to_le_bytes (desc_flags d) @ to_le_bytes (desc_next d)"

record used_elem =
  used_id :: u32
  used_length :: u32

definition used_of_bytes :: "byte list \<Rightarrow> used_elem" where
  "used_of_bytes bytes =
     \<lparr>used_id = from_le_bytes (slice_of bytes 0 4), used_length = from_le_bytes (slice_of bytes 4 8)\<rparr>"

record vqueue =
  q_size :: u16
  q_descriptors :: u64
  q_available :: u64
  q_used :: u64
  q_next_descriptor :: u16
  q_last_used :: u16
  q_broken :: bool

definition MAX_QUEUE_SIZE :: u16 where "MAX_QUEUE_SIZE = 128"

definition queue_new :: "'v hardware \<Rightarrow> u16 \<Rightarrow> ('v, vqueue option) io" where
  "queue_new h sz =
     (if sz = 0 \<or> sz > MAX_QUEUE_SIZE \<or> sz AND (sz - 1) \<noteq> 0 then ret None
      else
        and_some (frames_taken 1) (\<lambda>descriptors.
        and_some (frames_taken 1) (\<lambda>available.
        and_some (frames_taken 1) (\<lambda>used. do {
          store h (\<lambda>st. zero_range st descriptors PAGE_SIZE);
          store h (\<lambda>st. zero_range st available PAGE_SIZE);
          store h (\<lambda>st. zero_range st used PAGE_SIZE);
          ret (Some \<lparr>q_size = sz, q_descriptors = descriptors, q_available = available, q_used = used,
                     q_next_descriptor = 0, q_last_used = 0, q_broken = False\<rparr>) }))))"

definition write_descriptor :: "'v hardware \<Rightarrow> vqueue \<Rightarrow> u16 \<Rightarrow> descriptor \<Rightarrow> ('v, unit) io" where
  "write_descriptor h q index d =
     (let slot = q_descriptors q + ucast index * 16
      in store h (\<lambda>st. write_struct st slot (descriptor_bytes d)))"

definition available_index :: "'v hardware \<Rightarrow> vqueue \<Rightarrow> ('v, u16) io" where
  "available_index h q = io_read16 h (q_available q + 2)"

definition set_available_index :: "'v hardware \<Rightarrow> vqueue \<Rightarrow> u16 \<Rightarrow> ('v, unit) io" where
  "set_available_index h q v = io_write16 h (q_available q + 2) v"

definition set_available_ring :: "'v hardware \<Rightarrow> vqueue \<Rightarrow> u16 \<Rightarrow> u16 \<Rightarrow> ('v, unit) io" where
  "set_available_ring h q position d =
     io_write16 h (q_available q + 4 + ucast (position mod q_size q) * 2) d"

definition used_index :: "'v hardware \<Rightarrow> vqueue \<Rightarrow> ('v, u16) io" where
  "used_index h q = io_read16 h (q_used q + 2)"

definition used_element :: "'v hardware \<Rightarrow> vqueue \<Rightarrow> u16 \<Rightarrow> ('v, used_elem) io" where
  "used_element h q position =
     (let ring = q_used q + 4
      in load h (\<lambda>st m. read_struct st m (ring + ucast (position mod q_size q) * 8) 8 used_of_bytes
           \<lparr>used_id = 0, used_length = 0\<rparr>))"

type_synonym buffer = "u64 \<times> u32 \<times> bool"

text \<open>The loop of \<open>submit\<close>; the last buffer is the one with none after it.\<close>

fun write_chain :: "'v hardware \<Rightarrow> vqueue \<Rightarrow> buffer list \<Rightarrow> u16 \<Rightarrow> ('v, unit) io" where
  "write_chain h q [] index = ret ()"
| "write_chain h q ((address, len, device_writes) # rest) index =
     (let is_last = (rest = []);
          following = (if is_last then 0 else (index + 1) mod q_size q);
          flags = (if device_writes then 0 OR DESCRIPTOR_WRITE else 0);
          flags = (if \<not> is_last then flags OR DESCRIPTOR_NEXT else flags)
      in do {
        write_descriptor h q index
          \<lparr>desc_address = address, desc_length = len, desc_flags = flags, desc_next = following\<rparr>;
        write_chain h q rest following })"

definition queue_submit :: "'v hardware \<Rightarrow> vqueue \<Rightarrow> buffer list \<Rightarrow> ('v, u16 option \<times> vqueue) io" where
  "queue_submit h q buffers =
     (if q_broken q \<or> buffers = [] \<or> length buffers > unat (q_size q) then ret (None, q)
      else
        let head = q_next_descriptor q in do {
          write_chain h q buffers head;
          let q = q\<lparr>q_next_descriptor := (head + of_nat (length buffers)) mod q_size q\<rparr>;
          available \<leftarrow> available_index h q;
          set_available_ring h q available head;
          set_available_index h q (available + 1);
          ret (Some head, q) })"

definition take_used :: "'v hardware \<Rightarrow> vqueue \<Rightarrow> ('v, (u16 \<times> u32) option \<times> vqueue) io" where
  "take_used h q = do {
     used \<leftarrow> used_index h q;
     if used = q_last_used q then ret (None, q)
     else do {
       element \<leftarrow> used_element h q (q_last_used q);
       ret (Some (ucast (used_id element), used_length element), q\<lparr>q_last_used := q_last_used q + 1\<rparr>) } }"

fun wait_for :: "'v hardware \<Rightarrow> vqueue \<Rightarrow> u16 \<Rightarrow> nat \<Rightarrow> ('v, u32 option \<times> vqueue) io" where
  "wait_for h q head 0 = ret (None, q\<lparr>q_broken := True\<rparr>)"
| "wait_for h q head (Suc attempts) = do {
     (taken, q) \<leftarrow> take_used h q;
     case taken of
       Some (named, len) \<Rightarrow> if named = head then ret (Some len, q) else ret (None, q\<lparr>q_broken := True\<rparr>)
     | None \<Rightarrow> wait_for h q head attempts }"

section \<open>The transport\<close>

definition VENDOR_VIRTIO :: u16 where "VENDOR_VIRTIO = 0x1af4"

record kind =
  modern :: u16
  transitional :: u16

definition DEVICE_BLOCK :: kind where "DEVICE_BLOCK = \<lparr>modern = 0x1042, transitional = 0x1001\<rparr>"
definition DEVICE_CONSOLE :: kind where "DEVICE_CONSOLE = \<lparr>modern = 0x1043, transitional = 0x1003\<rparr>"
definition DEVICE_ENTROPY :: kind where "DEVICE_ENTROPY = \<lparr>modern = 0x1044, transitional = 0x1005\<rparr>"

definition virtio_find :: "'v hardware \<Rightarrow> kind \<Rightarrow> ('v, pci_device option) io" where
  "virtio_find h k =
     pci_scan h (\<lambda>device found. ret
       (if found = None \<and> d_vendor device = VENDOR_VIRTIO \<and>
           (d_device device = modern k \<or> d_device device = transitional k)
        then Some device else found)) None"

definition CAPABILITY_VENDOR_SPECIFIC :: byte where "CAPABILITY_VENDOR_SPECIFIC = 0x09"
definition CONFIG_COMMON :: byte where "CONFIG_COMMON = 1"
definition CONFIG_NOTIFY :: byte where "CONFIG_NOTIFY = 2"
definition CONFIG_DEVICE :: byte where "CONFIG_DEVICE = 4"

definition STATUS_ACKNOWLEDGE :: byte where "STATUS_ACKNOWLEDGE = 1"
definition STATUS_DRIVER :: byte where "STATUS_DRIVER = 2"
definition STATUS_DRIVER_OK :: byte where "STATUS_DRIVER_OK = 4"
definition STATUS_FEATURES_OK :: byte where "STATUS_FEATURES_OK = 8"
definition STATUS_FAILED :: byte where "STATUS_FAILED = 128"

definition FEATURE_VERSION_1 :: u64 where "FEATURE_VERSION_1 = push_bit 32 1"

definition DEVICE_FEATURE_SELECT :: u64 where "DEVICE_FEATURE_SELECT = 0x00"
definition DEVICE_FEATURE :: u64 where "DEVICE_FEATURE = 0x04"
definition DRIVER_FEATURE_SELECT :: u64 where "DRIVER_FEATURE_SELECT = 0x08"
definition DRIVER_FEATURE :: u64 where "DRIVER_FEATURE = 0x0c"
definition NUM_QUEUES :: u64 where "NUM_QUEUES = 0x12"
definition DEVICE_STATUS :: u64 where "DEVICE_STATUS = 0x14"
definition QUEUE_SELECT :: u64 where "QUEUE_SELECT = 0x16"
definition QUEUE_SIZE :: u64 where "QUEUE_SIZE = 0x18"
definition QUEUE_ENABLE :: u64 where "QUEUE_ENABLE = 0x1c"
definition QUEUE_NOTIFY_OFF :: u64 where "QUEUE_NOTIFY_OFF = 0x1e"
definition QUEUE_DESC :: u64 where "QUEUE_DESC = 0x20"
definition QUEUE_DRIVER :: u64 where "QUEUE_DRIVER = 0x28"
definition QUEUE_DEVICE :: u64 where "QUEUE_DEVICE = 0x30"

record transport =
  t_common :: u64
  t_notify :: u64
  t_notify_multiplier :: u32
  t_device_config :: u64

definition io_write64 :: "'v hardware \<Rightarrow> u64 \<Rightarrow> u64 \<Rightarrow> ('v, unit) io" where
  "io_write64 h a v = do { io_write32 h a (ucast v); io_write32 h (a + 4) (ucast (drop_bit 32 v)) }"

definition io_map_device :: "u64 \<Rightarrow> nat \<Rightarrow> ('v, bool) io" where
  "io_map_device physical len = State (\<lambda>w.
     let (mapped, st) = the (map_device physical len (w_paging w)) in (mapped, w\<lparr>w_paging := st\<rparr>))"

text \<open>The closure of \<open>Transport::new\<close>; the record holds the four variables it sets.\<close>

definition note_capability ::
  "'v hardware \<Rightarrow> pci_device \<Rightarrow> byte \<Rightarrow> byte \<Rightarrow> transport \<Rightarrow> ('v, transport) io" where
  "note_capability h device cap_id offset t =
     (if cap_id \<noteq> CAPABILITY_VENDOR_SPECIFIC then ret t
      else do {
        config_kind \<leftarrow> config_read8 h (d_address device) (offset + 3);
        bar_index \<leftarrow> config_read8 h (d_address device) (offset + 4);
        bar_offset \<leftarrow> config_read32 h (d_address device) (offset + 8);
        found \<leftarrow> device_bar h device bar_index;
        case found of
          None \<Rightarrow> ret t
        | Some bar \<Rightarrow> do {
            let window = bar + ucast bar_offset;
            len \<leftarrow> config_read32 h (d_address device) (offset + 12);
            mapped \<leftarrow> io_map_device window (unat (max len 0x1000));
            if \<not> mapped then ret t
            else if config_kind = CONFIG_COMMON then ret (t\<lparr>t_common := window\<rparr>)
            else if config_kind = CONFIG_NOTIFY then do {
              multiplier \<leftarrow> config_read32 h (d_address device) (offset + 16);
              ret (t\<lparr>t_notify := window, t_notify_multiplier := multiplier\<rparr>) }
            else if config_kind = CONFIG_DEVICE then ret (t\<lparr>t_device_config := window\<rparr>)
            else ret t } })"

definition transport_new :: "'v hardware \<Rightarrow> pci_device \<Rightarrow> ('v, transport option) io" where
  "transport_new h device = do {
     t \<leftarrow> device_capabilities h device (note_capability h device)
       \<lparr>t_common = 0, t_notify = 0, t_notify_multiplier = 0, t_device_config = 0\<rparr>;
     if t_common t = 0 \<or> t_notify t = 0 then ret None else ret (Some t) }"

definition device_status :: "'v hardware \<Rightarrow> transport \<Rightarrow> ('v, byte) io" where
  "device_status h t = io_read8 h (t_common t + DEVICE_STATUS)"

definition set_status :: "'v hardware \<Rightarrow> transport \<Rightarrow> byte \<Rightarrow> ('v, unit) io" where
  "set_status h t status = io_write8 h (t_common t + DEVICE_STATUS) status"

definition add_status :: "'v hardware \<Rightarrow> transport \<Rightarrow> byte \<Rightarrow> ('v, unit) io" where
  "add_status h t bits = do { status \<leftarrow> device_status h t; set_status h t (status OR bits) }"

definition queue_count :: "'v hardware \<Rightarrow> transport \<Rightarrow> ('v, u16) io" where
  "queue_count h t = io_read16 h (t_common t + NUM_QUEUES)"

definition device_features :: "'v hardware \<Rightarrow> transport \<Rightarrow> ('v, u64) io" where
  "device_features h t = do {
     io_write32 h (t_common t + DEVICE_FEATURE_SELECT) 0;
     low \<leftarrow> io_read32 h (t_common t + DEVICE_FEATURE);
     io_write32 h (t_common t + DEVICE_FEATURE_SELECT) 1;
     high \<leftarrow> io_read32 h (t_common t + DEVICE_FEATURE);
     ret (ucast low OR push_bit 32 (ucast high)) }"

definition set_driver_features :: "'v hardware \<Rightarrow> transport \<Rightarrow> u64 \<Rightarrow> ('v, unit) io" where
  "set_driver_features h t features = do {
     io_write32 h (t_common t + DRIVER_FEATURE_SELECT) 0;
     io_write32 h (t_common t + DRIVER_FEATURE) (ucast features);
     io_write32 h (t_common t + DRIVER_FEATURE_SELECT) 1;
     io_write32 h (t_common t + DRIVER_FEATURE) (ucast (drop_bit 32 features)) }"

text \<open>The bounded wait for a reset device.\<close>

fun await_reset :: "'v hardware \<Rightarrow> transport \<Rightarrow> nat \<Rightarrow> ('v, unit) io" where
  "await_reset h t 0 = ret ()"
| "await_reset h t (Suc n) = do {
     status \<leftarrow> device_status h t;
     if status = 0 then ret () else await_reset h t n }"

definition transport_begin :: "'v hardware \<Rightarrow> transport \<Rightarrow> u64 \<Rightarrow> ('v, u64 option) io" where
  "transport_begin h t wanted = do {
     set_status h t 0;
     await_reset h t 100000;
     add_status h t STATUS_ACKNOWLEDGE;
     add_status h t STATUS_DRIVER;
     offered \<leftarrow> device_features h t;
     if offered AND FEATURE_VERSION_1 = 0 then do { add_status h t STATUS_FAILED; ret None }
     else
       let negotiated = (offered AND wanted) OR FEATURE_VERSION_1 in do {
         set_driver_features h t negotiated;
         add_status h t STATUS_FEATURES_OK;
         status \<leftarrow> device_status h t;
         if status AND STATUS_FEATURES_OK = 0 then do { add_status h t STATUS_FAILED; ret None }
         else ret (Some negotiated) } }"

definition setup_queue :: "'v hardware \<Rightarrow> transport \<Rightarrow> u16 \<Rightarrow> u16 \<Rightarrow> ('v, (vqueue \<times> u64) option) io" where
  "setup_queue h t index preferred = do {
     io_write16 h (t_common t + QUEUE_SELECT) index;
     maximum \<leftarrow> io_read16 h (t_common t + QUEUE_SIZE);
     if maximum = 0 then ret None
     else
       let sz = min preferred maximum in
       and_some (queue_new h sz) (\<lambda>queue. do {
         io_write16 h (t_common t + QUEUE_SIZE) sz;
         io_write64 h (t_common t + QUEUE_DESC) (q_descriptors queue);
         io_write64 h (t_common t + QUEUE_DRIVER) (q_available queue);
         io_write64 h (t_common t + QUEUE_DEVICE) (q_used queue);
         notify_offset \<leftarrow> io_read16 h (t_common t + QUEUE_NOTIFY_OFF);
         io_write16 h (t_common t + QUEUE_ENABLE) 1;
         let doorbell = t_notify t + ucast notify_offset * ucast (t_notify_multiplier t);
         ret (Some (queue, doorbell)) }) }"

definition transport_ready :: "'v hardware \<Rightarrow> transport \<Rightarrow> ('v, unit) io" where
  "transport_ready h t = add_status h t STATUS_DRIVER_OK"

definition notify :: "'v hardware \<Rightarrow> u64 \<Rightarrow> u16 \<Rightarrow> ('v, unit) io" where
  "notify h doorbell queue_index = io_write16 h doorbell queue_index"

definition config64 :: "'v hardware \<Rightarrow> transport \<Rightarrow> u64 \<Rightarrow> ('v, u64) io" where
  "config64 h t offset =
     (if t_device_config t = 0 then ret 0
      else do {
        low \<leftarrow> io_read32 h (t_device_config t + offset);
        high \<leftarrow> io_read32 h (t_device_config t + offset + 4);
        ret (ucast low OR push_bit 32 (ucast high)) })"

definition config8 :: "'v hardware \<Rightarrow> transport \<Rightarrow> u64 \<Rightarrow> ('v, byte) io" where
  "config8 h t offset =
     (if t_device_config t = 0 then ret 0 else io_read8 h (t_device_config t + offset))"

end
