(* ===== verification/Virtio_Drivers.thy ===== *)
theory Virtio_Drivers
  imports Virtio
begin

text \<open>
  The three drivers over the virtqueue: \<open>block.rs\<close>, \<open>entropy.rs\<close> and \<open>console.rs\<close>. A method that
  takes \<open>&mut self\<close> returns the driver's new state with its result.
\<close>

unbundle bit_operations_syntax

definition opened :: "'v hardware \<Rightarrow> kind \<Rightarrow> ('v, transport option) io" where
  "opened h k = and_some (virtio_find h k) (\<lambda>device. do { device_enable h device; transport_new h device })"

section \<open>The block driver\<close>

definition SECTOR_SIZE :: nat where "SECTOR_SIZE = 512"
definition TYPE_READ :: u32 where "TYPE_READ = 0"
definition TYPE_WRITE :: u32 where "TYPE_WRITE = 1"
definition TYPE_FLUSH :: u32 where "TYPE_FLUSH = 4"
definition STATUS_OK :: byte where "STATUS_OK = 0"
definition CONFIG_CAPACITY :: u64 where "CONFIG_CAPACITY = 0"
definition HEADER_OFFSET :: u64 where "HEADER_OFFSET = 0"
definition STATUS_OFFSET :: u64 where "STATUS_OFFSET = 16"
definition PAYLOAD_OFFSET :: u64 where "PAYLOAD_OFFSET = 512"
definition MAX_PLAUSIBLE_SECTORS :: u64 where "MAX_PLAUSIBLE_SECTORS = push_bit 40 1"

record request_header =
  rq_kind :: u32
  rq_reserved :: u32
  rq_sector :: u64

definition header_bytes :: "request_header \<Rightarrow> byte list" where
  "header_bytes r = to_le_bytes (rq_kind r) @ to_le_bytes (rq_reserved r) @ to_le_bytes (rq_sector r)"

record block =
  b_transport :: transport
  b_queue :: vqueue
  b_doorbell :: u64
  b_scratch :: u64
  b_sectors :: u64

definition block_open :: "'v hardware \<Rightarrow> ('v, block option) io" where
  "block_open h =
     and_some (opened h DEVICE_BLOCK) (\<lambda>t.
     and_some (transport_begin h t 0) (\<lambda>_.
     and_some (setup_queue h t 0 8) (\<lambda>(queue, doorbell). do {
       transport_ready h t;
       and_some (frames_taken 1) (\<lambda>scratch. do {
         capacity \<leftarrow> config64 h t CONFIG_CAPACITY;
         ret (Some \<lparr>b_transport = t, b_queue = queue, b_doorbell = doorbell, b_scratch = scratch,
                    b_sectors = min capacity MAX_PLAUSIBLE_SECTORS\<rparr>) }) })))"

definition POLLS :: nat where "POLLS = 50000000"

definition request_chain :: "block \<Rightarrow> u32 \<Rightarrow> bool \<Rightarrow> buffer list" where
  "request_chain b payload_length device_writes =
     (let header = (b_scratch b + HEADER_OFFSET, 16, False);
          payload = (b_scratch b + PAYLOAD_OFFSET, payload_length, device_writes);
          status = (b_scratch b + STATUS_OFFSET, 1, True)
      in if payload_length = 0 then [header, status] else [header, payload, status])"

definition block_submit :: "'v hardware \<Rightarrow> block \<Rightarrow> u32 \<Rightarrow> u64 \<Rightarrow> u32 \<Rightarrow> bool \<Rightarrow> ('v, bool \<times> block) io" where
  "block_submit h b request sector payload_length device_writes =
     (let header = \<lparr>rq_kind = request, rq_reserved = 0, rq_sector = sector\<rparr> in do {
        store h (\<lambda>st. write_struct st (b_scratch b + HEADER_OFFSET) (header_bytes header));
        io_write8 h (b_scratch b + STATUS_OFFSET) 0xff;
        (submitted, q) \<leftarrow> queue_submit h (b_queue b) (request_chain b payload_length device_writes);
        let b = b\<lparr>b_queue := q\<rparr>;
        case submitted of
          None \<Rightarrow> ret (False, b)
        | Some head \<Rightarrow> do {
            notify h (b_doorbell b) 0;
            (answer, q) \<leftarrow> wait_for h (b_queue b) head POLLS;
            let b = b\<lparr>b_queue := q\<rparr>;
            if answer = None then ret (False, b)
            else do {
              status \<leftarrow> io_read8 h (b_scratch b + STATUS_OFFSET);
              ret (status = STATUS_OK, b) } } })"

text \<open>\<open>&mut out[..SECTOR_SIZE]\<close> is the first sector's worth of \<open>out\<close>; the rest stays.\<close>

definition read_sector :: "'v hardware \<Rightarrow> block \<Rightarrow> u64 \<Rightarrow> byte list \<Rightarrow> ('v, bool \<times> block \<times> byte list) io" where
  "read_sector h b sector out =
     (if length out < SECTOR_SIZE \<or> sector \<ge> b_sectors b then ret (False, b, out)
      else do {
        (ok, b) \<leftarrow> block_submit h b TYPE_READ sector (of_nat SECTOR_SIZE) True;
        if \<not> ok then ret (False, b, out)
        else do {
          payload \<leftarrow> load h (\<lambda>st m. read_into st m (b_scratch b + PAYLOAD_OFFSET) (take SECTOR_SIZE out));
          ret (True, b, payload @ drop SECTOR_SIZE out) } })"

definition write_sector :: "'v hardware \<Rightarrow> block \<Rightarrow> u64 \<Rightarrow> byte list \<Rightarrow> ('v, bool \<times> block) io" where
  "write_sector h b sector bytes =
     (if length bytes < SECTOR_SIZE \<or> sector \<ge> b_sectors b then ret (False, b)
      else do {
        store h (\<lambda>st. write_from st (b_scratch b + PAYLOAD_OFFSET) (take SECTOR_SIZE bytes));
        block_submit h b TYPE_WRITE sector (of_nat SECTOR_SIZE) False })"

definition block_flush :: "'v hardware \<Rightarrow> block \<Rightarrow> ('v, bool \<times> block) io" where
  "block_flush h b = block_submit h b TYPE_FLUSH 0 0 False"

section \<open>The entropy driver\<close>

record entropy =
  e_transport :: transport
  e_queue :: vqueue
  e_doorbell :: u64
  e_buffer :: u64

definition entropy_open :: "'v hardware \<Rightarrow> ('v, entropy option) io" where
  "entropy_open h =
     and_some (opened h DEVICE_ENTROPY) (\<lambda>t.
     and_some (transport_begin h t 0) (\<lambda>_.
     and_some (setup_queue h t 0 8) (\<lambda>(queue, doorbell). do {
       transport_ready h t;
       and_some (frames_taken 1) (\<lambda>buffer.
         ret (Some \<lparr>e_transport = t, e_queue = queue, e_doorbell = doorbell, e_buffer = buffer\<rparr>)) })))"

definition entropy_read :: "'v hardware \<Rightarrow> entropy \<Rightarrow> byte list \<Rightarrow> ('v, nat option \<times> entropy \<times> byte list) io" where
  "entropy_read h e out =
     (let wanted = of_nat (min (length out) PAGE_SIZE) :: u32 in
      if wanted = 0 then ret (Some 0, e, out)
      else do {
        (submitted, q) \<leftarrow> queue_submit h (e_queue e) [(e_buffer e, wanted, True)];
        let e = e\<lparr>e_queue := q\<rparr>;
        case submitted of
          None \<Rightarrow> ret (None, e, out)
        | Some head \<Rightarrow> do {
            notify h (e_doorbell e) 0;
            (answer, q) \<leftarrow> wait_for h (e_queue e) head POLLS;
            let e = e\<lparr>e_queue := q\<rparr>;
            case answer of
              None \<Rightarrow> ret (None, e, out)
            | Some produced \<Rightarrow> do {
                let produced = min (min (unat produced) (unat wanted)) (length out);
                bytes \<leftarrow> load h (\<lambda>st m. read_into st m (e_buffer e) (take produced out));
                ret (Some produced, e, bytes @ drop produced out) } } })"

section \<open>The console driver\<close>

definition PORT :: u32 where "PORT = 1"
definition RECEIVE_QUEUE :: u16 where "RECEIVE_QUEUE = 2 * (ucast PORT + 1)"
definition TRANSMIT_QUEUE :: u16 where "TRANSMIT_QUEUE = RECEIVE_QUEUE + 1"
definition CONTROL_RECEIVE_QUEUE :: u16 where "CONTROL_RECEIVE_QUEUE = 2"
definition CONTROL_TRANSMIT_QUEUE :: u16 where "CONTROL_TRANSMIT_QUEUE = 3"
definition FEATURE_MULTIPORT :: u64 where "FEATURE_MULTIPORT = 2"
definition EVENT_DEVICE_READY :: u16 where "EVENT_DEVICE_READY = 0"
definition EVENT_PORT_READY :: u16 where "EVENT_PORT_READY = 3"
definition EVENT_PORT_OPEN :: u16 where "EVENT_PORT_OPEN = 6"
definition CONTROL_BYTES :: nat where "CONTROL_BYTES = 8"
definition BUFFER_BYTES :: nat where "BUFFER_BYTES = PAGE_SIZE * 4"
definition CONTROL_POLLS :: nat where "CONTROL_POLLS = 20000000"

record console =
  c_transport :: transport
  c_receive :: vqueue
  c_receive_doorbell :: u64
  c_transmit :: vqueue
  c_transmit_doorbell :: u64
  c_control_receive :: vqueue
  c_control_receive_doorbell :: u64
  c_control_transmit :: vqueue
  c_control_transmit_doorbell :: u64
  c_receive_buffer :: u64
  c_transmit_buffer :: u64
  c_control_buffer :: u64
  c_control_reply :: u64
  c_posted :: "u16 option"

definition post_control_receive :: "'v hardware \<Rightarrow> console \<Rightarrow> ('v, u16 option \<times> console) io" where
  "post_control_receive h c = do {
     (submitted, q) \<leftarrow> queue_submit h (c_control_receive c) [(c_control_buffer c, 512, True)];
     let c = c\<lparr>c_control_receive := q\<rparr>;
     case submitted of
       None \<Rightarrow> ret (None, c)
     | Some head \<Rightarrow> do {
         notify h (c_control_receive_doorbell c) CONTROL_RECEIVE_QUEUE;
         ret (Some head, c) } }"

definition send_control :: "'v hardware \<Rightarrow> console \<Rightarrow> u32 \<Rightarrow> u16 \<Rightarrow> u16 \<Rightarrow> ('v, console) io" where
  "send_control h c port event v = do {
     io_write32 h (c_control_reply c) port;
     io_write16 h (c_control_reply c + 4) event;
     io_write16 h (c_control_reply c + 6) v;
     (submitted, q) \<leftarrow> queue_submit h (c_control_transmit c) [(c_control_reply c, of_nat CONTROL_BYTES, False)];
     let c = c\<lparr>c_control_transmit := q\<rparr>;
     case submitted of
       None \<Rightarrow> ret c
     | Some head \<Rightarrow> do {
         notify h (c_control_transmit_doorbell c) CONTROL_TRANSMIT_QUEUE;
         (_, q) \<leftarrow> wait_for h (c_control_transmit c) head CONTROL_POLLS;
         ret (c\<lparr>c_control_transmit := q\<rparr>) } }"

definition await_control :: "'v hardware \<Rightarrow> console \<Rightarrow> u16 option \<Rightarrow> ('v, console) io" where
  "await_control h c posted =
     (case posted of
        None \<Rightarrow> ret c
      | Some head \<Rightarrow> do {
          (_, q) \<leftarrow> wait_for h (c_control_receive c) head CONTROL_POLLS;
          ret (c\<lparr>c_control_receive := q\<rparr>) })"

definition handshake :: "'v hardware \<Rightarrow> console \<Rightarrow> ('v, console) io" where
  "handshake h c = do {
     (posted, c) \<leftarrow> post_control_receive h c;
     c \<leftarrow> send_control h c PORT EVENT_DEVICE_READY 1;
     c \<leftarrow> await_control h c posted;
     (posted, c) \<leftarrow> post_control_receive h c;
     c \<leftarrow> send_control h c PORT EVENT_PORT_READY 1;
     c \<leftarrow> send_control h c PORT EVENT_PORT_OPEN 1;
     c \<leftarrow> await_control h c posted;
     (_, c) \<leftarrow> post_control_receive h c;
     ret c }"

definition post_receive :: "'v hardware \<Rightarrow> console \<Rightarrow> ('v, unit option \<times> console) io" where
  "post_receive h c = do {
     (submitted, q) \<leftarrow> queue_submit h (c_receive c) [(c_receive_buffer c, of_nat BUFFER_BYTES, True)];
     let c = c\<lparr>c_receive := q\<rparr>;
     case submitted of
       None \<Rightarrow> ret (None, c)
     | Some head \<Rightarrow> do {
         let c = c\<lparr>c_posted := Some head\<rparr>;
         notify h (c_receive_doorbell c) RECEIVE_QUEUE;
         ret (Some (), c) } }"

definition console_open :: "'v hardware \<Rightarrow> ('v, console option) io" where
  "console_open h =
     and_some (opened h DEVICE_CONSOLE) (\<lambda>t.
     and_some (transport_begin h t FEATURE_MULTIPORT) (\<lambda>negotiated.
     and_some (setup_queue h t RECEIVE_QUEUE 8) (\<lambda>(receive, receive_doorbell).
     and_some (setup_queue h t TRANSMIT_QUEUE 8) (\<lambda>(transmit, transmit_doorbell).
     and_some (setup_queue h t CONTROL_RECEIVE_QUEUE 8) (\<lambda>(control_receive, control_receive_doorbell).
     and_some (setup_queue h t CONTROL_TRANSMIT_QUEUE 8) (\<lambda>(control_transmit, control_transmit_doorbell). do {
       transport_ready h t;
       and_some (frames_taken (BUFFER_BYTES div PAGE_SIZE)) (\<lambda>receive_buffer.
       and_some (frames_taken (BUFFER_BYTES div PAGE_SIZE)) (\<lambda>transmit_buffer.
       and_some (frames_taken 1) (\<lambda>control_buffer. do {
         let c = \<lparr>c_transport = t, c_receive = receive, c_receive_doorbell = receive_doorbell,
                  c_transmit = transmit, c_transmit_doorbell = transmit_doorbell,
                  c_control_receive = control_receive, c_control_receive_doorbell = control_receive_doorbell,
                  c_control_transmit = control_transmit, c_control_transmit_doorbell = control_transmit_doorbell,
                  c_receive_buffer = receive_buffer, c_transmit_buffer = transmit_buffer,
                  c_control_buffer = control_buffer, c_control_reply = control_buffer + 512, c_posted = None\<rparr>;
         c \<leftarrow> (if negotiated AND FEATURE_MULTIPORT \<noteq> 0 then handshake h c else ret c);
         (posted, c) \<leftarrow> post_receive h c;
         ret (case posted of None \<Rightarrow> None | Some _ \<Rightarrow> Some c) }))) }))))))"

definition console_send :: "'v hardware \<Rightarrow> console \<Rightarrow> byte list \<Rightarrow> ('v, bool \<times> console) io" where
  "console_send h c bytes =
     (if length bytes > BUFFER_BYTES then ret (False, c)
      else do {
        store h (\<lambda>st. write_from st (c_transmit_buffer c) bytes);
        (submitted, q) \<leftarrow> queue_submit h (c_transmit c) [(c_transmit_buffer c, of_nat (length bytes), False)];
        let c = c\<lparr>c_transmit := q\<rparr>;
        case submitted of
          None \<Rightarrow> ret (False, c)
        | Some head \<Rightarrow> do {
            notify h (c_transmit_doorbell c) TRANSMIT_QUEUE;
            (answer, q) \<leftarrow> wait_for h (c_transmit c) head POLLS;
            ret (answer \<noteq> None, c\<lparr>c_transmit := q\<rparr>) } })"

definition console_receive ::
  "'v hardware \<Rightarrow> console \<Rightarrow> byte list \<Rightarrow> nat \<Rightarrow> ('v, nat option \<times> console \<times> byte list) io" where
  "console_receive h c out attempts =
     (case c_posted c of
        None \<Rightarrow> ret (None, c, out)
      | Some head \<Rightarrow> do {
          (answer, q) \<leftarrow> wait_for h (c_receive c) head attempts;
          let c = c\<lparr>c_receive := q\<rparr>;
          case answer of
            None \<Rightarrow> ret (None, c, out)
          | Some len \<Rightarrow> do {
              let n = min (min (unat len) BUFFER_BYTES) (length out);
              bytes \<leftarrow> load h (\<lambda>st m. read_into st m (c_receive_buffer c) (take n out));
              (_, c) \<leftarrow> post_receive h c;
              ret (Some n, c, bytes @ drop n out) } })"

end
