(* ===== verification/Virtio_Laws.thy ===== *)
theory Virtio_Laws
  imports Virtio_Drivers
begin

text \<open>
  Laws of the drivers. Memory is reasoned about by spans: the addresses from a base on. The
  device's side of a queue is read off memory the way the virtio specification has it: the available
  index and ring, and chains of descriptors. What a device may do between two accesses is a
  condition on \<open>hw_act\<close>; laws without such a condition hold against a hostile device.
\<close>

unbundle bit_operations_syntax

section \<open>Spans of memory\<close>

definition span :: "u64 \<Rightarrow> nat \<Rightarrow> u64 set" where
  "span a n = {x. unat (x - a) < n}"

lemma span_mono: "n \<le> m \<Longrightarrow> span a n \<subseteq> span a m"
  by (auto simp: span_def)

lemma peek_agrees:
  assumes "\<And>x. x \<in> span a n \<Longrightarrow> m x = m' x" "n \<le> 2 ^ 64"
  shows "peek m a n = peek m' a n"
proof -
  have "a + of_nat i \<in> span a n" if "i < n" for i
  proof -
    have "unat (of_nat i :: u64) = i" using that assms(2) by (intro unat_of_nat_small) simp
    with that show ?thesis by (simp add: span_def)
  qed
  with assms(1) show ?thesis by (simp add: peek_def)
qed

lemma poke_outside: "x \<notin> span a (length bytes) \<Longrightarrow> poke m a bytes x = m x"
  by (simp add: span_def poke_def)

lemma peek_poke_disjoint:
  assumes "span a n \<inter> span b (length bytes) = {}" "n \<le> 2 ^ 64"
  shows "peek (poke m b bytes) a n = peek m a n"
  by (rule peek_agrees [OF poke_outside assms(2)]) (use assms(1) in auto)

text \<open>A page: accesses inside it by offset.\<close>

lemma unat_offset: "i < 2 ^ 64 \<Longrightarrow> unat (of_nat i :: u64) = i"
  by (rule unat_of_nat_small) simp

lemma unat_from_offset:
  fixes x p :: u64
  assumes "unat (x - (p + of_nat i)) + i < 2 ^ 64"
  shows "unat (x - p) = unat (x - (p + of_nat i)) + i"
proof -
  have i: "unat (of_nat i :: u64) = i" using assms by (intro unat_offset) linarith
  have "unat ((x - (p + of_nat i)) + of_nat i) = unat (x - (p + of_nat i)) + unat (of_nat i :: u64)"
    by (rule unat_add_small) (use assms i in \<open>simp add: word_size\<close>)
  moreover have "(x - (p + of_nat i)) + of_nat i = x - p" by simp
  ultimately show ?thesis using i by metis
qed

lemma span_offset:
  assumes "i + n \<le> 4096"
  shows "span (p + of_nat i) n \<subseteq> span p 4096"
proof
  fix x assume "x \<in> span (p + of_nat i) n"
  then have x: "unat (x - (p + of_nat i)) < n" by (simp add: span_def)
  have "unat (x - p) = unat (x - (p + of_nat i)) + i"
    using x assms by (intro unat_from_offset) simp
  with x assms show "x \<in> span p 4096" by (simp add: span_def)
qed

lemma span_offsets_disjoint:
  assumes "i + n \<le> j" "j + k \<le> 4096"
  shows "span (p + of_nat i) n \<inter> span (p + of_nat j) k = {}"
proof (rule ccontr)
  assume "span (p + of_nat i) n \<inter> span (p + of_nat j) k \<noteq> {}"
  then obtain x where x: "unat (x - (p + of_nat i)) < n" "unat (x - (p + of_nat j)) < k"
    by (auto simp: span_def)
  have "unat (x - p) = unat (x - (p + of_nat i)) + i" "unat (x - p) = unat (x - (p + of_nat j)) + j"
    using x assms by (auto intro!: unat_from_offset)
  with x assms show False by simp
qed

lemma pages_disjoint:
  assumes "span p 4096 \<inter> span q 4096 = {}" "i + n \<le> 4096" "j + k \<le> 4096"
  shows "span (p + of_nat i) n \<inter> span (q + of_nat j) k = {}"
  using assms(1) span_offset [OF assms(2), of p] span_offset [OF assms(3), of q] by blast

lemma in_range_offset:
  assumes "in_range st p 4096" "i + n \<le> 4096"
  shows "in_range st (p + of_nat i) n"
proof -
  have sum: "unat p + 4096 < 2 ^ 64" "p + 4096 \<le> mapped_total st \<or> in_device_window st p 4096"
    using assms(1) by (auto simp: in_range_def checked_add_def split: if_splits)
  have i: "unat (p + of_nat i) = unat p + i" using sum(1) assms(2) by (simp add: unat_add_small unat_offset)
  have n: "unat (p + of_nat i + of_nat n) = unat p + i + n"
    using sum(1) assms(2) i by (simp add: unat_add_small unat_offset)
  have whole: "unat (p + 4096) = unat p + 4096" using sum(1) by (simp add: unat_add_small)
  have fits: "p \<le> p + of_nat i" "p + of_nat i + of_nat n \<le> p + 4096"
    using i n whole assms(2) by (simp_all add: word_le_nat_alt)
  have ca: "checked_add (p + of_nat i) (of_nat n) = Some (p + of_nat i + of_nat n)"
    using sum(1) assms(2) i by (simp add: checked_add_def unat_offset)
  have cp: "checked_add p 4096 = Some (p + 4096)" using sum(1) by (simp add: checked_add_def)
  show ?thesis
  proof (cases "p + 4096 \<le> mapped_total st")
    case True
    with order_trans [OF fits(2)] ca show ?thesis by (simp add: in_range_def)
  next
    case False
    with sum(2) cp obtain a b where w: "(a, b) \<in> set (take (device_window_count st) (device_windows st))"
      "a \<le> p" "p + 4096 \<le> b"
      by (auto simp: in_device_window_def list_ex_iff)
    have "a \<le> p + of_nat i" "p + of_nat i + of_nat n \<le> b" using w(2,3) fits by (auto intro: order_trans)
    with w(1) ca have "in_device_window st (p + of_nat i) n"
      by (force simp: in_device_window_def)
    with ca show ?thesis by (simp add: in_range_def)
  qed
qed

section \<open>Runs\<close>

lemma run_state_State [simp]: "run_state (State f) w = f w"
  by simp

lemma devices_act_paging [simp]: "w_paging (devices_act h w) = w_paging w"
  by (simp add: devices_act_def split: prod.splits)

lemma run_load [simp]:
  "run_state (load h f) w = (f (w_paging w) (w_memory (devices_act h w)), devices_act h w)"
  by (simp add: load_def Let_def)

lemma run_store [simp]:
  "run_state (store h f) w =
     ((), (devices_act h w)\<lparr>w_memory := f (w_paging w) (w_memory (devices_act h w))\<rparr>)"
  by (simp add: store_def Let_def)

section \<open>Against any device\<close>

definition element_at :: "vqueue \<Rightarrow> 'v world \<Rightarrow> u16 \<Rightarrow> used_elem" where
  "element_at q w position =
     read_struct (w_paging w) (w_memory w) (q_used q + 4 + ucast (position mod q_size q) * 8) 8 used_of_bytes
       \<lparr>used_id = 0, used_length = 0\<rparr>"

lemma take_used_some:
  assumes "run_state (take_used h q) w = ((Some (named, len), q'), w')"
  shows "q' = q\<lparr>q_last_used := q_last_used q + 1\<rparr>"
    and "named = ucast (used_id (element_at q w' (q_last_used q)))"
    and "len = used_length (element_at q w' (q_last_used q))"
  using assms by (auto simp: take_used_def used_element_def element_at_def used_index_def io_read16_def
      Let_def split: if_splits)

lemma take_used_none: "run_state (take_used h q) w = ((None, q'), w') \<Longrightarrow> q' = q"
  by (auto simp: take_used_def split: prod.splits if_splits)

lemma wait_for_outcome:
  assumes "run_state (wait_for h q head n) w = ((r, q'), w')"
  shows "case r of
      None \<Rightarrow> q_broken q'
    | Some len \<Rightarrow> q_broken q' = q_broken q \<and>
        (\<exists>position. q_last_used q' = position + 1 \<and> head = ucast (used_id (element_at q w' position)) \<and>
           len = used_length (element_at q w' position))"
  using assms
proof (induction n arbitrary: q w)
  case 0
  then show ?case by auto
next
  case (Suc n)
  obtain taken q1 w1 where t: "run_state (take_used h q) w = ((taken, q1), w1)" by (metis prod_cases3 surj_pair)
  show ?case
  proof (cases taken)
    case None
    with t take_used_none [of h q w q1 w1] have "q1 = q" by simp
    with Suc t None show ?thesis by simp
  next
    case (Some e)
    obtain named len where e: "e = (named, len)" by (cases e)
    note s = take_used_some [OF t [unfolded Some e]]
    have "r = (if named = head then Some len else None)" "w' = w1"
      "q' = (if named = head then q1 else q1\<lparr>q_broken := True\<rparr>)"
      using Suc.prems t Some e by (auto split: if_splits)
    then show ?thesis using s by (auto split: if_splits)
  qed
qed

lemma broken_refuses:
  assumes "q_broken q"
  shows "run_state (queue_submit h q buffers) w = ((None, q), w)"
  using assms by (simp add: queue_submit_def)

lemma length_read_into [simp]: "length (read_into st m a out) = length out"
  by (simp add: read_into_def)

text \<open>
  What a hostile device can put into a caller's buffer: the entropy driver first.
\<close>

lemma entropy_is_clamped:
  "case run_state (entropy_read h e out) w of ((r, e', out'), w') \<Rightarrow>
     length out' = length out \<and>
     (case r of None \<Rightarrow> out' = out
      | Some n \<Rightarrow> n \<le> length out \<and> n \<le> PAGE_SIZE \<and> drop n out' = drop n out)"
proof -
  have w: "unat (of_nat (min (length out) PAGE_SIZE) :: u32) = min (length out) PAGE_SIZE"
    by (rule unat_of_nat_small) (simp add: PAGE_SIZE_def min_def)
  show ?thesis
    by (auto simp: entropy_read_def Let_def w split: prod.splits option.splits)
qed

lemma message_is_clamped:
  "case run_state (console_receive h c out attempts) w of ((r, c', out'), w') \<Rightarrow>
     length out' = length out \<and>
     (case r of None \<Rightarrow> out' = out
      | Some n \<Rightarrow> n \<le> length out \<and> n \<le> BUFFER_BYTES \<and> drop n out' = drop n out)"
  by (auto simp: console_receive_def Let_def split: prod.splits option.splits)

lemma read_sector_is_exact:
  "case run_state (read_sector h b sector out) w of ((ok, b', out'), w') \<Rightarrow>
     length out' = length out \<and> (\<not> ok \<longrightarrow> out' = out) \<and> drop SECTOR_SIZE out' = drop SECTOR_SIZE out"
  by (auto simp: read_sector_def Let_def split: prod.splits)

text \<open>
  Nothing past the buffer. Whatever the devices do and whatever lengths they report, the
  entropy driver and the console hand out at most what their own buffer and the caller's hold; the
  number returned is that number, the caller's buffer keeps its length and is untouched behind it,
  and a failed read leaves it as it was. The same holds of a sector read, which moves 512 bytes.
\<close>

theorem nothing_past_the_buffer:
  "(case run_state (entropy_read h e out) w of ((r, e', out'), w') \<Rightarrow>
      length out' = length out \<and>
      (case r of None \<Rightarrow> out' = out
       | Some n \<Rightarrow> n \<le> length out \<and> n \<le> PAGE_SIZE \<and> drop n out' = drop n out)) \<and>
   (case run_state (console_receive h c out attempts) w of ((r, c', out'), w') \<Rightarrow>
      length out' = length out \<and>
      (case r of None \<Rightarrow> out' = out
       | Some n \<Rightarrow> n \<le> length out \<and> n \<le> BUFFER_BYTES \<and> drop n out' = drop n out)) \<and>
   (case run_state (read_sector h b sector out) w of ((ok, b', out'), w') \<Rightarrow>
      length out' = length out \<and> (if ok then drop SECTOR_SIZE out' = drop SECTOR_SIZE out else out' = out))"
  using entropy_is_clamped [where h = h and e = e and out = out and w = w]
    message_is_clamped [where h = h and c = c and out = out and attempts = attempts and w = w]
    read_sector_is_exact [where h = h and b = b and sector = sector and out = out and w = w]
  by (auto split: prod.splits if_splits)

section \<open>A chain, as the device reads it\<close>

abbreviation page :: "u64 \<Rightarrow> u64 set" where "page p \<equiv> span p 4096"

definition half_at :: "memory \<Rightarrow> u64 \<Rightarrow> u16" where "half_at m a = from_le_bytes (peek m a 2)"

definition descriptor_of :: "byte list \<Rightarrow> descriptor" where
  "descriptor_of bytes =
     \<lparr>desc_address = from_le_bytes (slice_of bytes 0 8), desc_length = from_le_bytes (slice_of bytes 8 12),
      desc_flags = from_le_bytes (slice_of bytes 12 14), desc_next = from_le_bytes (slice_of bytes 14 16)\<rparr>"

definition descriptor_at :: "memory \<Rightarrow> vqueue \<Rightarrow> u16 \<Rightarrow> descriptor" where
  "descriptor_at m q i = descriptor_of (peek m (q_descriptors q + ucast i * 16) 16)"

fun chain_at :: "memory \<Rightarrow> vqueue \<Rightarrow> nat \<Rightarrow> u16 \<Rightarrow> buffer list" where
  "chain_at m q 0 i = []"
| "chain_at m q (Suc n) i =
     (if q_size q \<le> i then []
      else
        let d = descriptor_at m q i
        in (desc_address d, desc_length d, desc_flags d AND DESCRIPTOR_WRITE \<noteq> 0) #
           (if desc_flags d AND DESCRIPTOR_NEXT \<noteq> 0 then chain_at m q n (desc_next d) else []))"

lemma descriptor_of_bytes: "descriptor_of (descriptor_bytes d) = d"
  by (simp add: descriptor_of_def descriptor_bytes_def slice_append_left slice_append_right
      from_le_to_le [where n = 8] from_le_to_le [where n = 4] from_le_to_le [where n = 2])

definition queue_ok :: "paging \<Rightarrow> vqueue \<Rightarrow> bool" where
  "queue_ok st q \<longleftrightarrow> \<not> q_broken q \<and> 0 < q_size q \<and> q_size q \<le> MAX_QUEUE_SIZE \<and> q_next_descriptor q < q_size q \<and>
     in_range st (q_descriptors q) 4096 \<and> in_range st (q_available q) 4096 \<and>
     page (q_descriptors q) \<inter> page (q_available q) = {}"

text \<open>
  A regime the hardware keeps: \<open>Q\<close> holds of the devices and memory and is kept by what the devices
  do, which leaves the addresses \<open>R\<close> alone.
\<close>

definition quiet :: "'v hardware \<Rightarrow> u64 set \<Rightarrow> ('v \<Rightarrow> memory \<Rightarrow> bool) \<Rightarrow> bool" where
  "quiet h R Q \<longleftrightarrow> (\<forall>v m. Q v m \<longrightarrow> (case hw_act h v m of (v', m') \<Rightarrow> Q v' m' \<and> (\<forall>x \<in> R. m' x = m x)))"

definition kept_by_writes :: "u64 set \<Rightarrow> ('v \<Rightarrow> memory \<Rightarrow> bool) \<Rightarrow> bool" where
  "kept_by_writes R Q \<longleftrightarrow> (\<forall>v m a bytes. Q v m \<and> span a (length bytes) \<subseteq> R \<longrightarrow> Q v (poke m a bytes))"

lemma quiet_act:
  assumes "quiet h R Q" "Q (w_device w) (w_memory w)"
  shows "Q (w_device (devices_act h w)) (w_memory (devices_act h w))"
    and "x \<in> R \<Longrightarrow> w_memory (devices_act h w) x = w_memory w x"
  using assms by (auto simp: quiet_def devices_act_def split: prod.splits)

text \<open>A poke inside \<open>W\<close>.\<close>

lemma quiet_poke:
  assumes "quiet h R Q" "kept_by_writes W Q" "Q (w_device w) (w_memory w)"
    and "run_state (store h (\<lambda>st m. poke m a bytes)) w = (u, w')" "span a (length bytes) \<subseteq> W"
  shows "w_paging w' = w_paging w" "Q (w_device w') (w_memory w')"
    "x \<in> R \<Longrightarrow> w_memory w' x = poke (w_memory w) a bytes x"
proof -
  note act = quiet_act [OF assms(1,3)]
  have w': "w' = (devices_act h w)\<lparr>w_memory := poke (w_memory (devices_act h w)) a bytes\<rparr>"
    using assms(4) by simp
  show "w_paging w' = w_paging w" by (simp add: w')
  show "Q (w_device w') (w_memory w')"
    using act(1) assms(2,5) by (simp add: w' kept_by_writes_def)
  show "x \<in> R \<Longrightarrow> w_memory w' x = poke (w_memory w) a bytes x"
    using act(2) [of x] by (simp add: w' poke_def)
qed

lemma slot_offset: "(ucast (i :: u16) :: u64) * 16 = of_nat (unat i * 16)"
  by simp

lemma ring_offset: "p + 4 + (ucast ((k :: u16) mod n) :: u64) * j = p + of_nat (4 + unat k mod unat n * unat j)"
proof -
  have "of_nat (4 + unat (k mod n) * unat j) = 4 + (ucast (k mod n) :: u64) * j" by simp
  then show ?thesis by (simp only: unat_mod add.assoc)
qed

definition published_area :: "vqueue \<Rightarrow> u64 set" where
  "published_area q = page (q_descriptors q) \<union> (page (q_available q) - span (q_available q + 2) 2)"

lemma queue_ok_size:
  assumes "queue_ok st q"
  shows "0 < unat (q_size q)" "unat (q_size q) \<le> 128"
  using assms by (simp_all add: queue_ok_def MAX_QUEUE_SIZE_def word_less_nat_alt word_le_nat_alt)

lemma length_descriptor_bytes [simp]: "length (descriptor_bytes d) = 16"
  by (simp add: descriptor_bytes_def)

lemma slots_disjoint:
  assumes "i < 128" "j < 128" "i \<noteq> j"
  shows "span (p + of_nat (i * 16)) 16 \<inter> span (p + of_nat (j * 16)) 16 = {}"
proof (cases "i < j")
  case True
  with assms show ?thesis by (intro span_offsets_disjoint) simp_all
next
  case False
  have "span (p + of_nat (j * 16)) 16 \<inter> span (p + of_nat (i * 16)) 16 = {}"
    using assms False by (intro span_offsets_disjoint) simp_all
  then show ?thesis by blast
qed

lemma write_descriptor_step:
  assumes "quiet h R Q" "kept_by_writes (published_area q) Q" "Q (w_device w) (w_memory w)"
    and "queue_ok (w_paging w) q" "page (q_descriptors q) \<union> page (q_available q) \<subseteq> R" "i < q_size q"
    and "run_state (write_descriptor h q i d) w = (u, w')"
  shows "w_paging w' = w_paging w" "Q (w_device w') (w_memory w')"
    "descriptor_at (w_memory w') q i = d"
    "j < q_size q \<Longrightarrow> j \<noteq> i \<Longrightarrow> descriptor_at (w_memory w') q j = descriptor_at (w_memory w) q j"
    "x \<in> R - page (q_descriptors q) \<Longrightarrow> w_memory w' x = w_memory w x"
proof -
  let ?a = "q_descriptors q + of_nat (unat i * 16)"
  note sz = queue_ok_size [OF assms(4)]
  have i: "unat i < 128" using assms(6) sz by (simp add: word_less_nat_alt)
  have inside: "span ?a 16 \<subseteq> page (q_descriptors q)" using i by (intro span_offset) simp
  have "in_range (w_paging w) ?a 16" using assms(4) i by (intro in_range_offset) (simp_all add: queue_ok_def)
  then have run: "run_state (store h (\<lambda>st m. poke m ?a (descriptor_bytes d))) w = (u, w')"
    using assms(7) unfolding write_descriptor_def slot_offset by (simp add: write_struct_def)
  have area: "span ?a (length (descriptor_bytes d)) \<subseteq> published_area q"
    using inside by (auto simp: published_area_def)
  note step = quiet_poke [OF assms(1-3) run area]
  show "w_paging w' = w_paging w" "Q (w_device w') (w_memory w')" by (fact step(1), fact step(2))
  have slot: "peek (w_memory w') (q_descriptors q + of_nat (unat k * 16)) 16 =
      peek (poke (w_memory w) ?a (descriptor_bytes d)) (q_descriptors q + of_nat (unat k * 16)) 16"
    if "k < q_size q" for k
  proof (rule peek_agrees)
    have "unat k < 128" using that sz by (simp add: word_less_nat_alt)
    then have "span (q_descriptors q + of_nat (unat k * 16)) 16 \<subseteq> page (q_descriptors q)"
      by (intro span_offset) simp
    with assms(5) step(3) show "w_memory w' x = poke (w_memory w) ?a (descriptor_bytes d) x"
      if "x \<in> span (q_descriptors q + of_nat (unat k * 16)) 16" for x using that by blast
  qed simp
  have "peek (poke (w_memory w) ?a (descriptor_bytes d)) ?a 16 = descriptor_bytes d"
    using peek_poke_same [of "descriptor_bytes d" "w_memory w" ?a] by simp
  with slot [OF assms(6)] show "descriptor_at (w_memory w') q i = d"
    unfolding descriptor_at_def slot_offset by (simp add: descriptor_of_bytes)
  show "descriptor_at (w_memory w') q j = descriptor_at (w_memory w) q j" if j: "j < q_size q" "j \<noteq> i"
  proof -
    have "unat j < 128" "unat j \<noteq> unat i" using j sz by (simp_all add: word_less_nat_alt word_unat_eq_iff)
    from slots_disjoint [OF this(1) i this(2)]
    have "peek (poke (w_memory w) ?a (descriptor_bytes d)) (q_descriptors q + of_nat (unat j * 16)) 16 =
        peek (w_memory w) (q_descriptors q + of_nat (unat j * 16)) 16"
      by (intro peek_poke_disjoint) simp_all
    with slot [OF j(1)] show ?thesis unfolding descriptor_at_def slot_offset by simp
  qed
  show "w_memory w' x = w_memory w x" if "x \<in> R - page (q_descriptors q)"
    using that step(3) [of x] inside poke_outside [of x ?a "descriptor_bytes d"] by auto
qed

lemma chain_index: "(i + d) mod n \<noteq> i" if "0 < d" "d < n" "i < n" for i d n :: nat
proof
  assume "(i + d) mod n = i"
  moreover have "(i + d) mod n = (if i + d < n then i + d else i + d - n)"
    using that by (simp add: mod_if)
  ultimately show False using that by (auto split: if_splits)
qed

lemma next_index:
  assumes "queue_ok st q" "i < q_size q"
  shows "unat ((i + 1) mod q_size q) = (unat i + 1) mod unat (q_size q)" "(i + 1) mod q_size q < q_size q"
proof -
  have "unat i + 1 < 2 ^ 16" using assms queue_ok_size [OF assms(1)] by (simp add: word_less_nat_alt)
  then have "unat (i + 1) = unat i + 1" by (simp add: unat_add_small)
  then show "unat ((i + 1) mod q_size q) = (unat i + 1) mod unat (q_size q)" by (simp add: unat_mod)
  then show "(i + 1) mod q_size q < q_size q"
    using queue_ok_size [OF assms(1)] by (simp add: word_less_nat_alt)
qed

lemma write_chain_spec:
  assumes "quiet h R Q" "kept_by_writes (published_area q) Q" "Q (w_device w) (w_memory w)"
    and "queue_ok (w_paging w) q" "page (q_descriptors q) \<union> page (q_available q) \<subseteq> R" "i < q_size q"
    and "length buffers \<le> unat (q_size q)" "run_state (write_chain h q buffers i) w = (u, w')"
  shows "w_paging w' = w_paging w \<and> Q (w_device w') (w_memory w') \<and>
    (\<forall>x \<in> R - page (q_descriptors q). w_memory w' x = w_memory w x) \<and>
    (\<forall>j < q_size q. (\<forall>k < length buffers. unat j \<noteq> (unat i + k) mod unat (q_size q)) \<longrightarrow>
        descriptor_at (w_memory w') q j = descriptor_at (w_memory w) q j) \<and>
    (\<forall>n \<ge> length buffers. buffers \<noteq> [] \<longrightarrow> chain_at (w_memory w') q n i = buffers)"
  using assms(3-8)
proof (induction buffers arbitrary: i w)
  case Nil
  then show ?case by simp
next
  case (Cons b rest)
  obtain address len wr where b: "b = (address, len, wr)" by (cases b)
  let ?N = "unat (q_size q)"
  define f where "f = (if rest = [] then 0 else (i + 1) mod q_size q)"
  define d where "d = \<lparr>desc_address = address, desc_length = len,
    desc_flags = (if rest \<noteq> [] then (if wr then 0 OR DESCRIPTOR_WRITE else 0) OR DESCRIPTOR_NEXT
      else (if wr then 0 OR DESCRIPTOR_WRITE else 0)), desc_next = f\<rparr>"
  obtain u1 w1 where one: "run_state (write_descriptor h q i d) w = (u1, w1)" by (metis surj_pair)
  have two: "run_state (write_chain h q rest f) w1 = (u, w')"
    using Cons.prems(6) one unfolding b write_chain.simps Let_def
    by (simp add: f_def [symmetric] d_def [symmetric])
  note step = write_descriptor_step [OF assms(1,2) Cons.prems(1-4) one]
  have flags: "desc_flags d AND DESCRIPTOR_WRITE \<noteq> 0 \<longleftrightarrow> wr" "desc_flags d AND DESCRIPTOR_NEXT \<noteq> 0 \<longleftrightarrow> rest \<noteq> []"
    by (auto simp: d_def DESCRIPTOR_WRITE_def DESCRIPTOR_NEXT_def)
  have here: "chain_at m q (Suc n) i = b # (if rest \<noteq> [] then chain_at m q n f else [])"
    if "descriptor_at m q i = d" for m n
    using that flags Cons.prems(4) by (simp add: b not_le) (simp add: d_def)
  show ?case
  proof (cases "rest = []")
    case True
    then have "w' = w1" using two by simp
    with step True here show ?thesis
      using Cons.prems(4) by (auto simp: Suc_le_eq dest!: less_imp_Suc_add) (metis less_numeral_extra(1) word_unat_eq_iff mod_less word_less_nat_alt)+
  next
    case False
    have f: "f < q_size q" "unat f = (unat i + 1) mod ?N"
      using next_index [OF Cons.prems(2,4)] False by (simp_all add: f_def)
    have pos: "(unat f + k) mod ?N = (unat i + Suc k) mod ?N" for k
      unfolding f(2) by (simp add: mod_simps)
    have ih: "w_paging w' = w_paging w1 \<and> Q (w_device w') (w_memory w') \<and>
      (\<forall>x \<in> R - page (q_descriptors q). w_memory w' x = w_memory w1 x) \<and>
      (\<forall>j < q_size q. (\<forall>k < length rest. unat j \<noteq> (unat f + k) mod ?N) \<longrightarrow>
          descriptor_at (w_memory w') q j = descriptor_at (w_memory w1) q j) \<and>
      (\<forall>n \<ge> length rest. rest \<noteq> [] \<longrightarrow> chain_at (w_memory w') q n f = rest)"
      using step(1,2) Cons.prems f(1) two by (intro Cons.IH) simp_all
    have "unat i \<noteq> (unat f + k) mod ?N" if "k < length rest" for k
      using chain_index [of "Suc k" ?N "unat i"] that Cons.prems(4,5) unfolding pos
      by (auto simp: word_less_nat_alt)
    then have same: "descriptor_at (w_memory w') q i = d" using ih step(3) Cons.prems(4) by auto
    have "chain_at (w_memory w') q n i = b # rest" if enough: "length (b # rest) \<le> n" for n
    proof -
      obtain n' where n: "n = Suc n'" "length rest \<le> n'" using enough by (cases n) auto
      with ih False have "chain_at (w_memory w') q n' f = rest" by simp
      with here [OF same, of n'] False n(1) show ?thesis by simp
    qed
    moreover have "descriptor_at (w_memory w') q j = descriptor_at (w_memory w) q j"
      if j: "j < q_size q" "\<forall>k < length (b # rest). unat j \<noteq> (unat i + k) mod ?N" for j
    proof -
      have "\<forall>k < length rest. unat j \<noteq> (unat f + k) mod ?N" using j(2) unfolding pos by auto
      then have "descriptor_at (w_memory w') q j = descriptor_at (w_memory w1) q j" using ih j(1) by blast
      moreover have "unat j \<noteq> unat i" using j(2) Cons.prems(4) by (auto simp: word_less_nat_alt dest: spec [of _ 0])
      ultimately show ?thesis using step(4) [of j] j(1) by auto
    qed
    ultimately show ?thesis using ih step(1,5) by auto
  qed
qed

text \<open>The chain on offer at a position of the available ring.\<close>

definition ring_slot :: "vqueue \<Rightarrow> u16 \<Rightarrow> u64" where
  "ring_slot q k = q_available q + of_nat (4 + unat k mod unat (q_size q) * 2)"

lemma ring_slot_eq: "q_available q + 4 + ucast (k mod q_size q) * 2 = ring_slot q k"
  using ring_offset [of "q_available q" k "q_size q" 2] by (simp add: ring_slot_def)

definition offer :: "vqueue \<Rightarrow> memory \<Rightarrow> u16 \<Rightarrow> buffer list" where
  "offer q m k = chain_at m q (unat (q_size q)) (half_at m (ring_slot q k))"

lemma descriptor_at_agrees:
  assumes "q_size q \<le> MAX_QUEUE_SIZE" "j < q_size q" "\<And>x. x \<in> page (q_descriptors q) \<Longrightarrow> m' x = m x"
  shows "descriptor_at m' q j = descriptor_at m q j"
proof -
  have "unat j < 128" using assms(1,2) by (simp add: MAX_QUEUE_SIZE_def word_less_nat_alt word_le_nat_alt)
  then have "span (q_descriptors q + of_nat (unat j * 16)) 16 \<subseteq> page (q_descriptors q)" by (intro span_offset) simp
  with assms(3) have "peek m' (q_descriptors q + of_nat (unat j * 16)) 16 = peek m (q_descriptors q + of_nat (unat j * 16)) 16"
    by (intro peek_agrees) auto
  then show ?thesis unfolding descriptor_at_def slot_offset by simp
qed

lemma chain_at_agrees:
  assumes "q_size q \<le> MAX_QUEUE_SIZE" "\<And>x. x \<in> page (q_descriptors q) \<Longrightarrow> m' x = m x"
  shows "chain_at m' q n i = chain_at m q n i"
proof (induction n arbitrary: i)
  case (Suc n)
  then show ?case using descriptor_at_agrees [OF assms(1), of i m' m] assms(2) by (simp add: Let_def)
qed simp

lemma available_spans:
  assumes "queue_ok st q"
  shows "span (q_available q + 2) 2 \<subseteq> page (q_available q)"
    and "span (ring_slot q k) 2 \<subseteq> page (q_available q)" "span (ring_slot q k) 2 \<inter> span (q_available q + 2) 2 = {}"
    and "in_range st (q_available q + 2) 2" "in_range st (ring_slot q k) 2"
proof -
  note sz = queue_ok_size [OF assms]
  have k: "unat k mod unat (q_size q) < 128" using sz mod_less_divisor [OF sz(1), of "unat k"] by linarith
  show "span (q_available q + 2) 2 \<subseteq> page (q_available q)" using span_offset [of 2 2 "q_available q"] by simp
  show "span (ring_slot q k) 2 \<subseteq> page (q_available q)" using k unfolding ring_slot_def by (intro span_offset) simp
  show "span (ring_slot q k) 2 \<inter> span (q_available q + 2) 2 = {}"
    using span_offsets_disjoint [of 2 2 "4 + unat k mod unat (q_size q) * 2" 2 "q_available q"] k
    by (auto simp: ring_slot_def)
  have r: "in_range st (q_available q) 4096" using assms by (simp add: queue_ok_def)
  show "in_range st (q_available q + 2) 2" using in_range_offset [OF r, of 2 2] by simp
  show "in_range st (ring_slot q k) 2" unfolding ring_slot_def using k by (intro in_range_offset [OF r]) simp
qed

lemma half_agrees: "(\<And>x. x \<in> span a 2 \<Longrightarrow> m' x = m x) \<Longrightarrow> half_at m' a = half_at m a"
  using peek_agrees [of a 2 m' m] by (simp add: half_at_def)

lemma half_poke: "half_at (poke m a (to_le_bytes v)) a = v"
  using peek_poke_same [of "to_le_bytes v" m a] by (simp add: half_at_def)

lemma half_poke_elsewhere:
  "span a 2 \<inter> span b (length bytes) = {} \<Longrightarrow> half_at (poke m b bytes) a = half_at m a"
  using peek_poke_disjoint [of a 2 b bytes m] by (simp add: half_at_def)

lemma submit_publishes_quiet:
  assumes "quiet h R Q" "kept_by_writes (published_area q) Q" "Q (w_device w) (w_memory w)"
    and "queue_ok (w_paging w) q" "page (q_descriptors q) \<union> page (q_available q) \<subseteq> R"
    and "buffers \<noteq> []" "length buffers \<le> unat (q_size q)"
    and "run_state (queue_submit h q buffers) w = ((r, q'), w')"
    and "k = half_at (w_memory w) (q_available q + 2)"
  shows "r = Some (q_next_descriptor q)"
    "q' = q\<lparr>q_next_descriptor := (q_next_descriptor q + of_nat (length buffers)) mod q_size q\<rparr>"
    "w_paging w' = w_paging w"
    "\<exists>m0. Q (w_device w') m0 \<and> w_memory w' = poke m0 (q_available q + 2) (to_le_bytes (k + 1)) \<and>
       half_at m0 (q_available q + 2) = k"
    "half_at (w_memory w') (ring_slot q k) = q_next_descriptor q"
    "offer q (w_memory w') k = buffers"
proof -
  let ?head = "q_next_descriptor q" and ?idx = "q_available q + 2"
  have small: "q_size q \<le> MAX_QUEUE_SIZE" using assms(4) by (simp add: queue_ok_def)
  have head: "?head < q_size q" using assms(4) by (simp add: queue_ok_def)
  obtain u1 w1 where chain: "run_state (write_chain h q buffers ?head) w = (u1, w1)" by (metis surj_pair)
  note c = write_chain_spec [OF assms(1-5) head assms(7) chain]
  have st1: "w_paging w1 = w_paging w" using c by simp
  note spans = available_spans [OF assms(4)]
  have apart: "page (q_available q) \<inter> page (q_descriptors q) = {}" using assms(4) by (auto simp: queue_ok_def)
  have A: "x \<in> page (q_available q) \<Longrightarrow> w_memory w1 x = w_memory w x" for x using c assms(5) apart by auto
  define w2 where "w2 = devices_act h w1"
  have Q1: "Q (w_device w1) (w_memory w1)" using c by simp
  note act2 = quiet_act [OF assms(1) Q1, folded w2_def]
  have st2: "w_paging w2 = w_paging w" by (simp add: w2_def st1)
  have "half_at (w_memory w2) ?idx = half_at (w_memory w) ?idx"
  proof (rule half_agrees)
    fix x assume "x \<in> span ?idx 2"
    then have "x \<in> page (q_available q)" "x \<in> R" using spans(1) assms(5) by auto
    then show "w_memory w2 x = w_memory w x" using act2(2) [of x] A [of x] by simp
  qed
  then have k: "half_at (w_memory w2) ?idx = k" using assms(9) by simp
  have read: "run_state (available_index h q) w1 = (k, w2)"
    using spans(4) k by (simp add: available_index_def io_read16_def read16_def half_at_def st1 flip: w2_def)
  obtain u3 w3 where ring: "run_state (store h (\<lambda>st m. poke m (ring_slot q k) (to_le_bytes ?head))) w2 = (u3, w3)"
    by (metis surj_pair)
  have area: "span (ring_slot q k) (length (to_le_bytes ?head)) \<subseteq> published_area q"
    using spans(2,3) [of k] by (auto simp: published_area_def)
  note step3 = quiet_poke [OF assms(1,2) act2(1) ring area]
  have set_ring: "run_state (set_available_ring h q k ?head) w2 = (u3, w3)"
    using ring spans(5) [of k] st2 ring_slot_eq [of q k] by (simp add: set_available_ring_def io_write16_def write16_def)
  define m0 where "m0 = w_memory (devices_act h w3)"
  note act4 = quiet_act [OF assms(1) step3(2), folded m0_def]
  have act4_R: "x \<in> R \<Longrightarrow> m0 x = w_memory w3 x" for x using act4(2) by simp
  define w4 where "w4 = (devices_act h w3)\<lparr>w_memory := poke m0 ?idx (to_le_bytes (k + 1))\<rparr>"
  have set_idx: "run_state (set_available_index h q (k + 1)) w3 = ((), w4)"
    using spans(4) st2 step3(1) by (simp add: set_available_index_def io_write16_def write16_def w4_def m0_def)
  have run: "((r, q'), w') = ((Some ?head, q\<lparr>q_next_descriptor := (?head + of_nat (length buffers)) mod q_size q\<rparr>), w4)"
  proof -
    have "\<not> (q_broken q \<or> buffers = [] \<or> length buffers > unat (q_size q))"
      using assms(4,6,7) by (simp add: queue_ok_def)
    moreover have "available_index h (q\<lparr>q_next_descriptor := n\<rparr>) = available_index h q"
      "set_available_ring h (q\<lparr>q_next_descriptor := n\<rparr>) = set_available_ring h q"
      "set_available_index h (q\<lparr>q_next_descriptor := n\<rparr>) = set_available_index h q" for n
      by (simp_all add: available_index_def set_available_ring_def set_available_index_def fun_eq_iff)
    ultimately show ?thesis
      using assms(8) chain read set_ring set_idx by (simp add: queue_submit_def Let_def)
  qed
  then show "r = Some ?head" "q' = q\<lparr>q_next_descriptor := (?head + of_nat (length buffers)) mod q_size q\<rparr>"
    "w_paging w' = w_paging w" using st2 step3(1) by (simp_all add: w4_def)
  have w': "w_memory w' = poke m0 ?idx (to_le_bytes (k + 1))" "w_device w' = w_device (devices_act h w3)"
    using run by (simp_all add: w4_def)
  have m0_R: "x \<in> R \<Longrightarrow> m0 x = poke (w_memory w2) (ring_slot q k) (to_le_bytes ?head) x" for x
    using act4_R [of x] step3(3) [of x] by simp
  have "half_at m0 ?idx = half_at (poke (w_memory w2) (ring_slot q k) (to_le_bytes ?head)) ?idx"
    using spans(1) assms(5) m0_R by (intro half_agrees) auto
  also have "\<dots> = k" using spans(3) [of k] k by (subst half_poke_elsewhere) auto
  finally have idx: "half_at m0 ?idx = k" .
  with act4(1) w' show "\<exists>m0. Q (w_device w') m0 \<and> w_memory w' = poke m0 ?idx (to_le_bytes (k + 1)) \<and> half_at m0 ?idx = k"
    by auto
  have "half_at (w_memory w') (ring_slot q k) = half_at m0 (ring_slot q k)"
    unfolding w'(1) using spans(3) [of k] by (intro half_poke_elsewhere) simp
  also have "\<dots> = half_at (poke (w_memory w2) (ring_slot q k) (to_le_bytes ?head)) (ring_slot q k)"
    using spans(2) [of k] assms(5) m0_R by (intro half_agrees) auto
  finally show entry: "half_at (w_memory w') (ring_slot q k) = ?head" by (simp add: half_poke)
  have "w_memory w' x = w_memory w1 x" if "x \<in> page (q_descriptors q)" for x
  proof -
    have "x \<notin> span ?idx (length (to_le_bytes (k + 1)))" "x \<notin> span (ring_slot q k) (length (to_le_bytes ?head))"
      using that apart spans(1) spans(2) [of k] by auto
    with that act2(2) [of x] m0_R [of x] assms(5) show ?thesis by (simp add: w' poke_outside subset_iff)
  qed
  then have "chain_at (w_memory w') q (unat (q_size q)) ?head = chain_at (w_memory w1) q (unat (q_size q)) ?head"
    by (intro chain_at_agrees [OF small])
  then show "offer q (w_memory w') k = buffers"
    using c assms(6,7) by (simp add: offer_def entry)
qed

section \<open>Mapping a register window returns\<close>

lemma map_device_pages_returns:
  assumes "unat start = n * 2 ^ 21" "unat limit = m * 2 ^ 21"
  shows "map_device_pages start limit st \<noteq> None"
  using assms
proof (induction "m - n" arbitrary: n start st)
  case 0
  then have "\<not> start < limit" by (simp add: word_less_nat_alt)
  then show ?case by (simp add: map_device_pages.simps [of start])
next
  case (Suc d)
  then have lt: "n + 1 \<le> m" by simp
  have "(n + 1) * 2 ^ 21 \<le> m * 2 ^ 21" using lt by (rule mult_le_mono1)
  moreover have "unat limit < 2 ^ 64" using unsigned_less [of limit] by simp
  ultimately have "unat start + unat HUGE_PAGE_SIZE < 2 ^ LENGTH(64)"
    using Suc.prems by (simp add: HUGE_PAGE_SIZE_def)
  from unat_add_small [OF this] have following: "unat (start + HUGE_PAGE_SIZE) = (n + 1) * 2 ^ 21"
    using Suc.prems(1) by (simp add: HUGE_PAGE_SIZE_def)
  have "d = m - (n + 1)" using Suc.hyps(2) by simp
  from Suc.hyps(1) [OF this following Suc.prems(2)] show ?case
    by (auto simp: map_device_pages.simps [of start] split: prod.splits)
qed

lemma map_device_returns: "map_device physical len st \<noteq> None"
proof -
  have page: "unat (physical AND NOT (HUGE_PAGE_SIZE - 1)) = unat physical div 2 ^ 21 * 2 ^ 21"
  proof -
    have "HUGE_PAGE_SIZE - 1 = mask 21" by (simp add: HUGE_PAGE_SIZE_def mask_eq_exp_minus_1)
    then show ?thesis by (simp only: unat_page)
  qed
  have limit: "unat (c * HUGE_PAGE_SIZE) = unat c mod 2 ^ 43 * 2 ^ 21" for c :: u64
  proof -
    have "unat (c * HUGE_PAGE_SIZE) = (unat c * 2 ^ 21) mod (2 ^ 43 * 2 ^ 21)"
      by (simp add: unat_word_ariths HUGE_PAGE_SIZE_def)
    also have "\<dots> = unat c mod 2 ^ 43 * 2 ^ 21" by (rule mult_mod_left [symmetric])
    finally show ?thesis .
  qed
  note returns = map_device_pages_returns [OF page limit]
  show ?thesis
  proof (cases "checked_add physical (of_nat len)")
    case (Some e)
    obtain ok st1 where "map_device_pages (physical AND NOT (HUGE_PAGE_SIZE - 1))
        (word_div_ceil e HUGE_PAGE_SIZE * HUGE_PAGE_SIZE) st = Some (ok, st1)"
      using returns [of "word_div_ceil e HUGE_PAGE_SIZE" st] by auto
    with Some show ?thesis by (cases ok) (auto simp: map_device_def Let_def)
  qed (auto simp: map_device_def)
qed

section \<open>The queue's contract\<close>

text \<open>
  C34: a request is published whole. On a device that leaves the descriptor and available pages
  alone, \<open>submit\<close> of a chain that fits returns the head, moves the available index on by one, and a
  reader of the queue finds at that position of the ring exactly the buffers, in order; the queue
  stays well-formed.
\<close>

theorem submit_publishes:
  assumes "\<forall>v m. \<forall>x \<in> page (q_descriptors q) \<union> page (q_available q). snd (hw_act h v m) x = m x"
    and "queue_ok (w_paging w) q" "buffers \<noteq> []" "length buffers \<le> unat (q_size q)"
    and "run_state (queue_submit h q buffers) w = ((r, q'), w')"
    and "k = half_at (w_memory w) (q_available q + 2)"
  shows "r = Some (q_next_descriptor q) \<and> half_at (w_memory w') (q_available q + 2) = k + 1 \<and>
    offer q (w_memory w') k = buffers \<and> queue_ok (w_paging w') q'"
proof -
  let ?R = "page (q_descriptors q) \<union> page (q_available q)"
  have quiet: "quiet h ?R (\<lambda>_ _. True)" using assms(1) by (simp add: quiet_def case_prod_beta)
  have kept: "kept_by_writes (published_area q) (\<lambda>_ _. True)" by (simp add: kept_by_writes_def)
  note pub = submit_publishes_quiet [OF quiet kept TrueI assms(2) subset_refl assms(3-6)]
  from pub(4) have "half_at (w_memory w') (q_available q + 2) = k + 1" by (auto simp: half_poke)
  moreover have "queue_ok (w_paging w') q'"
  proof -
    have "(q_next_descriptor q + of_nat (length buffers)) mod q_size q < q_size q"
      using queue_ok_size(1) [OF assms(2)] unfolding word_less_nat_alt unat_mod by (rule mod_less_divisor)
    then show ?thesis using assms(2) by (simp add: pub(2,3) queue_ok_def)
  qed
  ultimately show ?thesis using pub(1,6) by simp
qed

text \<open>
  C35: the wait fails closed. Whatever the device does, \<open>wait_for\<close> either ends on a used element
  that names this request and reports its length, or marks the queue broken, and a broken queue
  refuses every later request without touching the machine.
\<close>

theorem wait_fails_closed:
  "case run_state (wait_for h q head n) w of ((r, q'), w') \<Rightarrow>
     (case r of
        None \<Rightarrow> q_broken q' \<and> (\<forall>buffers w. run_state (queue_submit h q' buffers) w = ((None, q'), w))
      | Some len \<Rightarrow> q_broken q' = q_broken q \<and>
          (\<exists>position. q_last_used q' = position + 1 \<and> head = ucast (used_id (element_at q w' position)) \<and>
             len = used_length (element_at q w' position)))"
proof -
  obtain r q' w' where run: "run_state (wait_for h q head n) w = ((r, q'), w')" by (metis prod_cases3 surj_pair)
  from wait_for_outcome [OF run] run show ?thesis by (cases r) (simp_all add: broken_refuses)
qed

section \<open>A small queue\<close>

definition small_paging :: paging where
  "small_paging = (paging_boot None (\<lambda>_ _. 0) 0)\<lparr>mapped_total := 0x100000\<rparr>"

definition small_queue :: vqueue where
  "small_queue =
     \<lparr>q_size = 8, q_descriptors = 0x1000, q_available = 0x2000, q_used = 0x3000,
      q_next_descriptor = 6, q_last_used = 0, q_broken = False\<rparr>"

definition still_hardware :: "unit hardware" where
  "still_hardware = \<lparr>hw_act = (\<lambda>v m. (v, m)), hw_out = (\<lambda>port value v. v), hw_in = (\<lambda>port v. (0, v))\<rparr>"

lemma spans_apart:
  assumes "unat p + n \<le> unat q" "unat q + k \<le> 2 ^ 64"
  shows "span p n \<inter> span q k = {}"
proof -
  have pos: "unat x = unat a + unat (x - a)" if "unat (x - a) < j" "unat a + j \<le> 2 ^ 64" for x a :: u64 and j
  proof -
    have "unat a + unat (x - a) < 2 ^ LENGTH(64)" using that by simp
    from unat_add_small [OF this] show ?thesis by simp
  qed
  have "False" if "x \<in> span p n" "x \<in> span q k" for x
    using that assms pos [of x p n] pos [of x q k] by (simp add: span_def)
  then show ?thesis by auto
qed

lemma small_range: "unat p \<le> 0x4000 \<Longrightarrow> in_range small_paging p 4096"
proof -
  assume p: "unat p \<le> 0x4000"
  then have "unat (p + 4096) = unat p + 4096" by (simp add: unat_add_small)
  with p show ?thesis
    by (simp add: in_range_def checked_add_def small_paging_def word_le_nat_alt)
qed

lemma small_queue_ok: "queue_ok small_paging small_queue"
  using spans_apart [of "0x1000" 4096 "0x2000" 4096]
  by (simp add: queue_ok_def small_queue_def small_range MAX_QUEUE_SIZE_def)

theorem submit_publishes_witness:
  "\<exists>w'. run_state (queue_submit still_hardware small_queue [(0x8000, 16, False), (0x9000, 512, True), (0xa000, 1, True)])
       \<lparr>w_paging = small_paging, w_memory = (\<lambda>_. 0), w_device = ()\<rparr> =
     ((Some 6, small_queue\<lparr>q_next_descriptor := 1\<rparr>), w') \<and>
     offer small_queue (w_memory w') 0 = [(0x8000, 16, False), (0x9000, 512, True), (0xa000, 1, True)]"
proof -
  let ?w = "\<lparr>w_paging = small_paging, w_memory = (\<lambda>_. 0), w_device = ()\<rparr>"
  let ?b = "[(0x8000, 16, False), (0x9000, 512, True), (0xa000, 1, True)] :: buffer list"
  obtain r q' w' where run: "run_state (queue_submit still_hardware small_queue ?b) ?w = ((r, q'), w')"
    by (metis prod_cases3 surj_pair)
  have zero: "0 = half_at (w_memory ?w) (q_available small_queue + 2)"
  proof -
    have "peek (\<lambda>_. 0) (q_available small_queue + 2) 2 = to_le_bytes (0 :: u16)"
      by (simp add: peek_def to_le_bytes_0 map_replicate_const)
    then show ?thesis by (simp add: half_at_def)
  qed
  have h: "\<forall>v m. \<forall>x \<in> page (q_descriptors small_queue) \<union> page (q_available small_queue). snd (hw_act still_hardware v m) x = m x"
    by (simp add: still_hardware_def)
  have ok: "queue_ok (w_paging ?w) small_queue" by (simp add: small_queue_ok)
  have fits: "?b \<noteq> []" "length ?b \<le> unat (q_size small_queue)" by (simp_all add: small_queue_def)
  note pub = submit_publishes [OF h ok fits run zero]
  have "q' = small_queue\<lparr>q_next_descriptor := 1\<rparr>"
    using run fits by (simp add: queue_submit_def small_queue_def Let_def split: prod.splits)
  then show ?thesis using pub run by (intro exI [of _ w']) (simp add: small_queue_def)
qed

section \<open>Finding a device\<close>

text \<open>
  Configuration space as the port pair serves it: in a state that is \<open>ok\<close>, writing a selector and
  reading the data port delivers the register, and leaves an \<open>ok\<close> state.
\<close>

definition config_space :: "'v hardware \<Rightarrow> ('v \<Rightarrow> bool) \<Rightarrow> (pci_address \<Rightarrow> byte \<Rightarrow> u32) \<Rightarrow> bool" where
  "config_space h ok cfg \<longleftrightarrow>
     (\<forall>a offset v. ok v \<longrightarrow>
        (case hw_in h DATA_PORT (hw_out h ADDRESS_PORT (selector a offset) v) of
           (x, v') \<Rightarrow> x = cfg a (offset AND 0xfc) \<and> ok v'))"

text \<open>The functions present on bus 0, in the order of slot and function number.\<close>

definition function_at :: "(pci_address \<Rightarrow> byte \<Rightarrow> u32) \<Rightarrow> nat \<Rightarrow> nat \<Rightarrow> pci_device option" where
  "function_at cfg s f =
     (let address = \<lparr>bus = 0, pci_slot = of_nat s, pci_function = of_nat f\<rparr>; identity = cfg address 0
      in if identity = 0xffffffff then None
         else Some \<lparr>d_address = address, d_vendor = ucast identity, d_device = ucast (drop_bit 16 identity)\<rparr>)"

definition slot_functions :: "(pci_address \<Rightarrow> byte \<Rightarrow> u32) \<Rightarrow> nat \<Rightarrow> pci_device list" where
  "slot_functions cfg s =
     (let base = \<lparr>bus = 0, pci_slot = of_nat s, pci_function = 0\<rparr>;
          header = ucast (drop_bit 16 (cfg base 0x0c)) :: byte
      in if cfg base 0 = 0xffffffff then []
         else List.map_filter (function_at cfg s) [0..<if header AND 0x80 \<noteq> 0 then 8 else 1])"

definition bus_functions :: "(pci_address \<Rightarrow> byte \<Rightarrow> u32) \<Rightarrow> pci_device list" where
  "bus_functions cfg = concat (map (slot_functions cfg) [0..<32])"

lemma config_read32_run:
  assumes "config_space h ok cfg" "ok (w_device w)"
  obtains w' where "run_state (config_read32 h a offset) w = (cfg a (offset AND 0xfc), w')" "ok (w_device w')"
proof -
  have "case hw_in h DATA_PORT (hw_out h ADDRESS_PORT (selector a offset) (w_device w)) of
      (x, v') \<Rightarrow> x = cfg a (offset AND 0xfc) \<and> ok v'"
    using assms by (simp add: config_space_def)
  then obtain v' where "hw_in h DATA_PORT (hw_out h ADDRESS_PORT (selector a offset) (w_device w)) =
      (cfg a (offset AND 0xfc), v')" "ok v'" by (auto split: prod.splits)
  then show thesis
    by (intro that [of "w\<lparr>w_device := v'\<rparr>"]) (simp_all add: config_read32_def outl_def inl_def)
qed

lemma scan_functions_run:
  assumes "config_space h ok cfg" "ok (w_device w)"
  shows "\<exists>w'. run_state (scan_functions h (\<lambda>d acc. ret (g d acc)) (of_nat s) fs acc) w =
     (fold g (List.map_filter (function_at cfg s) fs) acc, w') \<and> ok (w_device w')"
  using assms(2)
proof (induction fs arbitrary: acc w)
  case Nil
  then show ?case by (simp add: List.map_filter_simps)
next
  case (Cons f fs)
  let ?a = "\<lparr>bus = 0, pci_slot = of_nat s, pci_function = of_nat f\<rparr> :: pci_address"
  obtain w1 where r: "run_state (config_read32 h ?a VENDOR_OFFSET) w = (cfg ?a 0, w1)" and w1: "ok (w_device w1)"
    using config_read32_run [OF assms(1) Cons.prems, of ?a VENDOR_OFFSET] by (auto simp: VENDOR_OFFSET_def)
  show ?case
  proof (cases "cfg ?a 0 = 0xffffffff")
    case True
    with r Cons.IH [OF w1] show ?thesis
      by (simp add: Let_def List.map_filter_simps function_at_def)
  next
    case False
    define d where "d = \<lparr>d_address = ?a, d_vendor = ucast (cfg ?a 0), d_device = ucast (drop_bit 16 (cfg ?a 0))\<rparr>"
    have "function_at cfg s f = Some d" using False by (simp add: function_at_def d_def Let_def)
    with r False Cons.IH [OF w1, of "g d acc"] show ?thesis
      by (simp add: Let_def List.map_filter_simps d_def)
  qed
qed

lemma scan_slots_run:
  assumes "config_space h ok cfg" "ok (w_device w)"
  shows "\<exists>w'. run_state (scan_slots h (\<lambda>d acc. ret (g d acc)) ss acc) w =
     (fold g (concat (map (slot_functions cfg) ss)) acc, w') \<and> ok (w_device w')"
  using assms(2)
proof (induction ss arbitrary: acc w)
  case Nil
  then show ?case by simp
next
  case (Cons s ss)
  let ?a = "\<lparr>bus = 0, pci_slot = of_nat s, pci_function = 0\<rparr> :: pci_address"
  obtain w1 where r: "run_state (config_read32 h ?a VENDOR_OFFSET) w = (cfg ?a 0, w1)" and w1: "ok (w_device w1)"
    using config_read32_run [OF assms(1) Cons.prems, of ?a VENDOR_OFFSET] by (auto simp: VENDOR_OFFSET_def)
  show ?case
  proof (cases "cfg ?a 0 = 0xffffffff")
    case True
    with r Cons.IH [OF w1] show ?thesis by (simp add: Let_def slot_functions_def)
  next
    case False
    obtain w2 where r2: "run_state (config_read32 h ?a HEADER_TYPE_OFFSET) w1 = (cfg ?a 0x0c, w2)" and w2: "ok (w_device w2)"
      using config_read32_run [OF assms(1) w1, of ?a HEADER_TYPE_OFFSET] by (auto simp: HEADER_TYPE_OFFSET_def)
    have r8: "run_state (config_read8 h ?a HEADER_TYPE_OFFSET) w1 = (ucast (drop_bit 16 (cfg ?a 0x0c)), w2)"
      using r2 by (simp add: config_read8_def HEADER_TYPE_OFFSET_def)
    let ?n = "if (ucast (drop_bit 16 (cfg ?a 0x0c)) :: byte) AND 0x80 \<noteq> 0 then 8 else 1 :: nat"
    obtain w3 where f: "run_state (scan_functions h (\<lambda>d acc. ret (g d acc)) (of_nat s) [0..<?n] acc) w2 =
        (fold g (List.map_filter (function_at cfg s) [0..<?n]) acc, w3)" and w3: "ok (w_device w3)"
      using scan_functions_run [OF assms(1) w2, of g s "[0..<?n]" acc] by blast
    have "slot_functions cfg s = List.map_filter (function_at cfg s) [0..<?n]"
      using False by (simp add: slot_functions_def Let_def)
    with r r8 f False Cons.IH [OF w3] show ?thesis by (simp add: Let_def del: upt_Suc)
  qed
qed

lemma fold_first:
  "fold (\<lambda>d found. if found = None \<and> P d then Some d else found) xs acc =
     (case acc of Some d \<Rightarrow> Some d | None \<Rightarrow> List.find P xs)"
  by (induction xs arbitrary: acc) (auto split: option.splits)

text \<open>
  The device the drivers get. On hardware that serves configuration space, \<open>find\<close> returns the
  first function on bus 0, in slot and function order, whose vendor is virtio and whose device is
  the one asked for, modern or transitional; functions behind an absent function 0, and functions
  other than 0 of a device that does not say it has several, are not seen.
\<close>

theorem finds_first_function:
  assumes "config_space h ok cfg" "ok (w_device w)"
  shows "fst (run_state (virtio_find h k) w) =
     List.find (\<lambda>d. d_vendor d = VENDOR_VIRTIO \<and> (d_device d = modern k \<or> d_device d = transitional k))
       (bus_functions cfg)"
proof -
  let ?P = "\<lambda>d. d_vendor d = VENDOR_VIRTIO \<and> (d_device d = modern k \<or> d_device d = transitional k)"
  obtain w' where "run_state (pci_scan h (\<lambda>d found. ret (if found = None \<and> ?P d then Some d else found)) None) w =
      (fold (\<lambda>d found. if found = None \<and> ?P d then Some d else found) (bus_functions cfg) None, w')"
    using scan_slots_run [OF assms, of "\<lambda>d found. if found = None \<and> ?P d then Some d else found" "[0..<32]" None]
    by (auto simp: pci_scan_def bus_functions_def)
  then show ?thesis by (simp add: virtio_find_def fold_first)
qed

text \<open>A bus with two functions: a bridge without a second function at slot 0, a disk at slot 3.\<close>

definition latched_hardware :: "(u32 \<Rightarrow> u32) \<Rightarrow> u32 hardware" where
  "latched_hardware table =
     \<lparr>hw_act = (\<lambda>v m. (v, m)), hw_out = (\<lambda>port value v. if port = ADDRESS_PORT then value else v),
      hw_in = (\<lambda>port v. (table v, v))\<rparr>"

lemma selector_register: "selector a (offset AND 0xfc) = selector a offset"
proof -
  have "(ucast (offset AND 0xfc) :: u32) AND 0xfc = ucast offset AND 0xfc"
    by (simp add: unsigned_and_eq and.assoc)
  then show ?thesis by (simp add: selector_def)
qed

definition one_disk :: "u32 \<Rightarrow> u32" where
  "one_disk selected =
     (if selected = selector \<lparr>bus = 0, pci_slot = 0, pci_function = 0\<rparr> 0 then 0x12378086
      else if selected = selector \<lparr>bus = 0, pci_slot = 3, pci_function = 0\<rparr> 0 then 0x10421af4
      else 0xffffffff)"

lemma one_disk_space: "config_space (latched_hardware one_disk) (\<lambda>_. True) (\<lambda>a offset. one_disk (selector a offset))"
  by (simp add: config_space_def latched_hardware_def selector_register)

theorem finds_first_function_witness:
  "\<exists>d. fst (run_state (virtio_find (latched_hardware one_disk) DEVICE_BLOCK)
       \<lparr>w_paging = small_paging, w_memory = (\<lambda>_. 0), w_device = 0\<rparr>) = Some d \<and> d_vendor d = VENDOR_VIRTIO"
proof -
  let ?cfg = "\<lambda>a offset. one_disk (selector a offset)"
  let ?P = "\<lambda>d. d_vendor d = VENDOR_VIRTIO \<and> (d_device d = modern DEVICE_BLOCK \<or> d_device d = transitional DEVICE_BLOCK)"
  let ?d = "\<lparr>d_address = \<lparr>bus = 0, pci_slot = 3, pci_function = 0\<rparr>, d_vendor = 0x1af4, d_device = 0x1042\<rparr>"
  have present: "one_disk (selector \<lparr>bus = 0, pci_slot = 3, pci_function = 0\<rparr> 0) = 0x10421af4"
    by (simp add: one_disk_def selector_def)
  then have at: "function_at ?cfg 3 0 = Some ?d" by (simp add: function_at_def)
  have "?d \<in> set (List.map_filter (function_at ?cfg 3) [0..<n])" if "0 < n" for n
    unfolding List.map_filter_def set_map set_filter
    by (rule image_eqI [of _ _ 0]) (use that at in simp_all)
  then have in_slot: "?d \<in> set (slot_functions ?cfg 3)" using present by (simp add: slot_functions_def Let_def)
  have slot: "3 \<in> set [0..<32 :: nat]" by simp
  have "?d \<in> set (bus_functions ?cfg)"
    unfolding bus_functions_def set_concat set_map by (rule UN_I [OF imageI [OF slot, of "slot_functions ?cfg"]]) (rule in_slot)
  moreover have "?P ?d" by (simp add: VENDOR_VIRTIO_def DEVICE_BLOCK_def)
  ultimately have "List.find ?P (bus_functions ?cfg) \<noteq> None" unfolding find_None_iff by blast
  then obtain d where d: "List.find ?P (bus_functions ?cfg) = Some d" by (cases "List.find ?P (bus_functions ?cfg)") simp_all
  then have "d_vendor d = VENDOR_VIRTIO" by (auto simp: find_Some_iff)
  with d show ?thesis
    using finds_first_function [OF one_disk_space TrueI, where k = DEVICE_BLOCK
      and w = "\<lparr>w_paging = small_paging, w_memory = (\<lambda>_. 0), w_device = 0\<rparr>"] by simp
qed

end
