(* ===== verification/Virtio_Block.thy ===== *)
theory Virtio_Block
  imports Virtio_Laws
begin

text \<open>
  The block driver on a device that keeps to the virtio specification. The device may take its
  time, interleaves with every access of the driver, and may refuse a request; what it must do is
  the condition \<open>virtio_blk\<close>: leave the rings and the request alone while nothing is on offer,
  and answer the chain on offer after finitely many turns.
\<close>

unbundle bit_operations_syntax

section \<open>The device's side of a request\<close>

definition used_at :: "block \<Rightarrow> memory \<Rightarrow> u16" where
  "used_at b m = half_at m (q_used (b_queue b) + 2)"

definition available_at :: "block \<Rightarrow> memory \<Rightarrow> u16" where
  "available_at b m = half_at m (q_available (b_queue b) + 2)"

definition block_pages :: "block \<Rightarrow> u64 set" where
  "block_pages b = page (q_descriptors (b_queue b)) \<union> page (q_available (b_queue b)) \<union>
     page (q_used (b_queue b)) \<union> page (b_scratch b)"

definition header_of :: "byte list \<Rightarrow> request_header" where
  "header_of bytes =
     \<lparr>rq_kind = from_le_bytes (slice_of bytes 0 4), rq_reserved = from_le_bytes (slice_of bytes 4 8),
      rq_sector = from_le_bytes (slice_of bytes 8 16)\<rparr>"

lemma header_of_bytes: "header_of (header_bytes r) = r"
  by (simp add: header_of_def header_bytes_def slice_append_left slice_append_right)

text \<open>The request on offer: its header and the buffers behind it.\<close>

definition request_at :: "block \<Rightarrow> memory \<Rightarrow> (request_header \<times> buffer list) option" where
  "request_at b m =
     (case offer (b_queue b) m (used_at b m) of
        (address, len, writes) # rest \<Rightarrow>
          if len = 16 \<and> \<not> writes then Some (header_of (peek m address 16), rest) else None
      | [] \<Rightarrow> None)"

text \<open>A completion: the used element, then the index that publishes it.\<close>

definition used_slot :: "vqueue \<Rightarrow> u16 \<Rightarrow> u64" where
  "used_slot q k = q_used q + of_nat (4 + unat k mod unat (q_size q) * 8)"

definition blk_complete :: "block \<Rightarrow> u32 \<Rightarrow> memory \<Rightarrow> memory" where
  "blk_complete b len m =
     (let q = b_queue b; k = used_at b m; head = half_at m (ring_slot q k)
      in poke (poke m (used_slot q k) (to_le_bytes (ucast head :: u32) @ to_le_bytes len))
           (q_used q + 2) (to_le_bytes (k + 1)))"

text \<open>
  What answering the request with a status does to the disk and to memory; \<open>transferred\<close> tells
  whether the payload was moved.
\<close>

definition blk_answer ::
  "block \<Rightarrow> bool \<Rightarrow> byte \<Rightarrow> u32 \<Rightarrow> (u64 \<Rightarrow> byte list) \<Rightarrow> memory \<Rightarrow> ((u64 \<Rightarrow> byte list) \<times> memory) option" where
  "blk_answer b transferred status len c m =
     (case request_at b m of
        None \<Rightarrow> None
      | Some (rq, rest) \<Rightarrow>
          (case rest of
             [(payload, n, wr), (verdict, one, last_writes)] \<Rightarrow>
               if n = 512 \<and> one = 1 \<and> last_writes then
                 if rq_kind rq = TYPE_READ \<and> wr then
                   Some (c, blk_complete b len
                     (poke (if transferred then poke m payload (c (rq_sector rq)) else m) verdict [status]))
                 else if rq_kind rq = TYPE_WRITE \<and> \<not> wr then
                   Some (if transferred then c(rq_sector rq := peek m payload 512) else c,
                         blk_complete b len (poke m verdict [status]))
                 else None
               else None
           | [(verdict, one, last_writes)] \<Rightarrow>
               if one = 1 \<and> last_writes \<and> rq_kind rq = TYPE_FLUSH
               then Some (c, blk_complete b len (poke m verdict [status])) else None
           | _ \<Rightarrow> None))"

text \<open>
  A virtio block device behind the queue of \<open>b\<close>: \<open>disk\<close> reads its sectors off its state,
  \<open>patience\<close> bounds the turns it still lets pass before it answers. Unless \<open>may_refuse\<close>, requests
  inside the capacity are answered with success.
\<close>

definition blk_answers ::
  "bool \<Rightarrow> block \<Rightarrow> ('v \<Rightarrow> u64 \<Rightarrow> byte list) \<Rightarrow> 'v \<Rightarrow> memory \<Rightarrow> 'v \<Rightarrow> memory \<Rightarrow> bool" where
  "blk_answers may_refuse b disk v m v' m' \<longleftrightarrow>
     (\<exists>transferred status len.
        (status = STATUS_OK \<longrightarrow> transferred) \<and>
        (status = STATUS_OK \<or> may_refuse \<or>
           (case request_at b m of None \<Rightarrow> True | Some (rq, _) \<Rightarrow> b_sectors b \<le> rq_sector rq)) \<and>
        (case blk_answer b transferred status len (disk v) m of
           None \<Rightarrow> True
         | Some (c, m2) \<Rightarrow> disk v' = c \<and> (\<forall>x \<in> block_pages b. m' x = m2 x)))"

definition virtio_blk ::
  "bool \<Rightarrow> 'v hardware \<Rightarrow> block \<Rightarrow> ('v \<Rightarrow> u64 \<Rightarrow> byte list) \<Rightarrow> ('v \<Rightarrow> nat) \<Rightarrow> bool" where
  "virtio_blk may_refuse h b disk patience \<longleftrightarrow>
     (\<forall>v s. length (disk v s) = 512) \<and> (\<forall>v. patience v < POLLS) \<and>
     (\<forall>v m. case hw_act h v m of (v', m') \<Rightarrow>
        let undisturbed = disk v' = disk v \<and> (\<forall>x \<in> block_pages b. m' x = m x) in
        if used_at b m = available_at b m then undisturbed
        else undisturbed \<and> patience v' < patience v \<or> blk_answers may_refuse b disk v m v' m')"

section \<open>The driver's state between requests\<close>

definition block_ok :: "paging \<Rightarrow> block \<Rightarrow> bool" where
  "block_ok st b \<longleftrightarrow> queue_ok st (b_queue b) \<and> 3 \<le> q_size (b_queue b) \<and>
     in_range st (q_used (b_queue b)) 4096 \<and> in_range st (b_scratch b) 4096 \<and>
     (let D = page (q_descriptors (b_queue b)); A = page (q_available (b_queue b));
          U = page (q_used (b_queue b)); S = page (b_scratch b) in
        D \<inter> A = {} \<and> D \<inter> U = {} \<and> D \<inter> S = {} \<and> A \<inter> U = {} \<and> A \<inter> S = {} \<and> U \<inter> S = {}) \<and>
     span (b_doorbell b) 2 \<inter> block_pages b = {}"

text \<open>Nothing is on offer; the disk and the scratch page are as given.\<close>

definition idle ::
  "block \<Rightarrow> ('v \<Rightarrow> u64 \<Rightarrow> byte list) \<Rightarrow> (u64 \<Rightarrow> byte list) \<Rightarrow> u16 \<Rightarrow> memory \<Rightarrow> 'v \<Rightarrow> memory \<Rightarrow> bool" where
  "idle b disk c k s v m \<longleftrightarrow> disk v = c \<and> used_at b m = k \<and> available_at b m = k \<and>
     (\<forall>x \<in> page (b_scratch b). m x = s x)"

text \<open>The chain is on offer and not yet answered.\<close>

definition busy ::
  "block \<Rightarrow> ('v \<Rightarrow> u64 \<Rightarrow> byte list) \<Rightarrow> (u64 \<Rightarrow> byte list) \<Rightarrow> u16 \<Rightarrow> memory \<Rightarrow> buffer list \<Rightarrow> u16 \<Rightarrow> 'v \<Rightarrow> memory \<Rightarrow> bool" where
  "busy b disk c k s chain head v m \<longleftrightarrow> disk v = c \<and> used_at b m = k \<and> available_at b m = k + 1 \<and>
     offer (b_queue b) m k = chain \<and> half_at m (ring_slot (b_queue b) k) = head \<and>
     (\<forall>x \<in> page (b_scratch b). m x = s x)"

text \<open>The request is answered: the newest used element names its head.\<close>

definition answered ::
  "block \<Rightarrow> ('v \<Rightarrow> u64 \<Rightarrow> byte list) \<Rightarrow> (u64 \<Rightarrow> byte list) \<Rightarrow> u16 \<Rightarrow> memory \<Rightarrow> u16 \<Rightarrow> 'v \<Rightarrow> memory \<Rightarrow> bool" where
  "answered b disk c k s head v m \<longleftrightarrow> idle b disk c (k + 1) s v m \<and>
     ucast (used_id (used_of_bytes (peek m (used_slot (b_queue b) k) 8))) = head"

lemma block_ok_pages:
  assumes "block_ok st b"
  shows "page (q_descriptors (b_queue b)) \<inter> page (q_available (b_queue b)) = {}"
    "page (q_descriptors (b_queue b)) \<inter> page (q_used (b_queue b)) = {}"
    "page (q_descriptors (b_queue b)) \<inter> page (b_scratch b) = {}"
    "page (q_available (b_queue b)) \<inter> page (q_used (b_queue b)) = {}"
    "page (q_available (b_queue b)) \<inter> page (b_scratch b) = {}"
    "page (q_used (b_queue b)) \<inter> page (b_scratch b) = {}"
    "queue_ok st (b_queue b)"
  using assms unfolding block_ok_def Let_def by blast+

lemma used_spans:
  assumes "queue_ok st q" "in_range st (q_used q) 4096"
  shows "span (q_used q + 2) 2 \<subseteq> page (q_used q)" "span (used_slot q k) 8 \<subseteq> page (q_used q)"
    "span (used_slot q k) 8 \<inter> span (q_used q + 2) 2 = {}"
    "in_range st (q_used q + 2) 2" "in_range st (used_slot q k) 8"
proof -
  note sz = queue_ok_size [OF assms(1)]
  have k: "unat k mod unat (q_size q) < 128" using sz mod_less_divisor [OF sz(1), of "unat k"] by linarith
  show "span (q_used q + 2) 2 \<subseteq> page (q_used q)" using span_offset [of 2 2 "q_used q"] by simp
  show "span (used_slot q k) 8 \<subseteq> page (q_used q)" using k unfolding used_slot_def by (intro span_offset) simp
  show "span (used_slot q k) 8 \<inter> span (q_used q + 2) 2 = {}"
    using span_offsets_disjoint [of 2 2 "4 + unat k mod unat (q_size q) * 8" 8 "q_used q"] k
    by (auto simp: used_slot_def)
  show "in_range st (q_used q + 2) 2" using in_range_offset [OF assms(2), of 2 2] by simp
  show "in_range st (used_slot q k) 8" unfolding used_slot_def using k by (intro in_range_offset [OF assms(2)]) simp
qed

text \<open>What is read off memory depends on the driver's pages only.\<close>

lemma rings_agree:
  assumes "block_ok st b" "\<forall>x \<in> block_pages b. m' x = m x"
  shows "used_at b m' = used_at b m" "available_at b m' = available_at b m"
    "offer (b_queue b) m' k = offer (b_queue b) m k"
    "half_at m' (ring_slot (b_queue b) k) = half_at m (ring_slot (b_queue b) k)"
    "peek m' (used_slot (b_queue b) k) 8 = peek m (used_slot (b_queue b) k) 8"
    "x \<in> page (b_scratch b) \<Longrightarrow> m' x = m x"
proof -
  have q: "queue_ok st (b_queue b)" "in_range st (q_used (b_queue b)) 4096" using assms(1) by (simp_all add: block_ok_def)
  note u = used_spans [OF q] and a = available_spans [OF q(1)]
  have pages: "page (q_descriptors (b_queue b)) \<subseteq> block_pages b" "page (q_available (b_queue b)) \<subseteq> block_pages b"
    "page (q_used (b_queue b)) \<subseteq> block_pages b" "page (b_scratch b) \<subseteq> block_pages b"
    by (auto simp: block_pages_def)
  show "used_at b m' = used_at b m" "available_at b m' = available_at b m"
    using u(1) a(1) pages assms(2) by (auto simp: used_at_def available_at_def intro!: half_agrees)
  show slot: "half_at m' (ring_slot (b_queue b) k) = half_at m (ring_slot (b_queue b) k)"
    using a(2) [of k] pages assms(2) by (auto intro!: half_agrees)
  show "offer (b_queue b) m' k = offer (b_queue b) m k"
    unfolding offer_def slot using q(1) pages(1) assms(2) by (intro chain_at_agrees) (auto simp: queue_ok_def)
  show "peek m' (used_slot (b_queue b) k) 8 = peek m (used_slot (b_queue b) k) 8"
    using u(2) [of k] pages assms(2) by (intro peek_agrees) auto
  show "x \<in> page (b_scratch b) \<Longrightarrow> m' x = m x" using pages assms(2) by auto
qed

lemma idle_agrees:
  assumes "block_ok st b" "\<forall>x \<in> block_pages b. m' x = m x" "disk v' = disk v" "idle b disk c k s v m"
  shows "idle b disk c k s v' m'"
  using assms(3,4) rings_agree [OF assms(1,2)] by (auto simp: idle_def)

lemma busy_agrees:
  assumes "block_ok st b" "\<forall>x \<in> block_pages b. m' x = m x" "disk v' = disk v" "busy b disk c k s chain head v m"
  shows "busy b disk c k s chain head v' m'"
  using assms(3,4) rings_agree [OF assms(1,2)] by (auto simp: busy_def)

lemma answered_agrees:
  assumes "block_ok st b" "\<forall>x \<in> block_pages b. m' x = m x" "disk v' = disk v" "answered b disk c k s head v m"
  shows "answered b disk c k s head v' m'"
  using assms(4) idle_agrees [of st b m' m disk v' v, OF assms(1-3)] rings_agree(5) [OF assms(1,2)]
  by (auto simp: answered_def)

section \<open>A turn of the device\<close>

lemma virtio_blk_act:
  assumes "virtio_blk f h b disk patience" "hw_act h v m = (v', m')"
  shows "used_at b m = available_at b m \<Longrightarrow> disk v' = disk v"
    "used_at b m = available_at b m \<Longrightarrow> \<forall>x \<in> block_pages b. m' x = m x"
    "used_at b m \<noteq> available_at b m \<Longrightarrow>
       disk v' = disk v \<and> (\<forall>x \<in> block_pages b. m' x = m x) \<and> patience v' < patience v \<or>
       blk_answers f b disk v m v' m'"
proof -
  from assms(1) have "\<forall>v m. case hw_act h v m of (v', m') \<Rightarrow>
        let undisturbed = disk v' = disk v \<and> (\<forall>x \<in> block_pages b. m' x = m x) in
        if used_at b m = available_at b m then undisturbed
        else undisturbed \<and> patience v' < patience v \<or> blk_answers f b disk v m v' m'"
    unfolding virtio_blk_def by (elim conjE)
  from this [THEN spec [of _ v], THEN spec [of _ m]]
  have *: "if used_at b m = available_at b m
      then disk v' = disk v \<and> (\<forall>x \<in> block_pages b. m' x = m x)
      else (disk v' = disk v \<and> (\<forall>x \<in> block_pages b. m' x = m x)) \<and> patience v' < patience v \<or>
        blk_answers f b disk v m v' m'"
    unfolding assms(2) prod.case Let_def .
  show "used_at b m = available_at b m \<Longrightarrow> disk v' = disk v" using * by simp
  show "used_at b m = available_at b m \<Longrightarrow> \<forall>x \<in> block_pages b. m' x = m x" using * by simp
  show "used_at b m \<noteq> available_at b m \<Longrightarrow>
       disk v' = disk v \<and> (\<forall>x \<in> block_pages b. m' x = m x) \<and> patience v' < patience v \<or>
       blk_answers f b disk v m v' m'" using * by simp
qed

lemma idle_quiet:
  assumes "virtio_blk f h b disk patience" "block_ok st b"
  shows "quiet h (block_pages b) (idle b disk c k s)"
  unfolding quiet_def
proof (intro allI impI)
  fix v m assume i: "idle b disk c k s v m"
  obtain v' m' where a: "hw_act h v m = (v', m')" by (metis surj_pair)
  have "used_at b m = available_at b m" using i by (simp add: idle_def)
  note same = virtio_blk_act(1,2) [OF assms(1) a this]
  with idle_agrees [OF assms(2) same(2,1) i] same a
  show "case hw_act h v m of (v', m') \<Rightarrow> idle b disk c k s v' m' \<and> (\<forall>x \<in> block_pages b. m' x = m x)" by simp
qed

lemma answered_act:
  assumes "virtio_blk f h b disk patience" "block_ok st b"
    and "answered b disk c k s head v m" "hw_act h v m = (v', m')"
  shows "answered b disk c k s head v' m'"
proof -
  have "used_at b m = available_at b m" using assms(3) by (simp add: answered_def idle_def)
  note same = virtio_blk_act(1,2) [OF assms(1,4) this]
  from answered_agrees [OF assms(2) same(2,1) assms(3)] show ?thesis .
qed

lemma ucast_back: "ucast (ucast (x :: u16) :: u32) = x"
  by (rule bit_word_eqI) (auto simp: bit_ucast_iff)

lemma blk_complete_effects:
  assumes "block_ok st b" "used_at b m = k"
  shows "used_at b (blk_complete b len m) = k + 1" "available_at b (blk_complete b len m) = available_at b m"
    "ucast (used_id (used_of_bytes (peek (blk_complete b len m) (used_slot (b_queue b) k) 8))) = half_at m (ring_slot (b_queue b) k)"
    "x \<in> page (b_scratch b) \<Longrightarrow> blk_complete b len m x = m x"
proof -
  let ?q = "b_queue b" and ?head = "half_at m (ring_slot (b_queue b) k)"
  define e where "e = to_le_bytes (ucast ?head :: u32) @ to_le_bytes len"
  have e: "length e = 8" by (simp add: e_def)
  have m2: "blk_complete b len m = poke (poke m (used_slot ?q k) e) (q_used ?q + 2) (to_le_bytes (k + 1))"
    by (simp add: blk_complete_def assms(2) Let_def e_def)
  have q: "queue_ok st ?q" "in_range st (q_used ?q) 4096" using assms(1) by (simp_all add: block_ok_def)
  note u = used_spans(1) [OF q] used_spans(2,3) [OF q, of k] and a = available_spans(1) [OF q(1)] and pages = block_ok_pages [OF assms(1)]
  show "used_at b (blk_complete b len m) = k + 1" by (simp add: used_at_def m2 half_poke)
  have "span (q_available ?q + 2) 2 \<inter> span (q_used ?q + 2) (length (to_le_bytes (k + 1))) = {}"
    "span (q_available ?q + 2) 2 \<inter> span (used_slot ?q k) (length e) = {}"
    using a u(1,2) pages(4) e by auto
  then show "available_at b (blk_complete b len m) = available_at b m"
    by (simp add: available_at_def m2 half_poke_elsewhere)
  have "peek (blk_complete b len m) (used_slot ?q k) 8 = peek (poke m (used_slot ?q k) e) (used_slot ?q k) 8"
    unfolding m2 using u(3) by (intro peek_poke_disjoint) simp_all
  also have "\<dots> = e" using peek_poke_same [of e m "used_slot ?q k"] e by simp
  finally have p: "peek (blk_complete b len m) (used_slot ?q k) 8 = e" .
  have "ucast (ucast ?head :: u32) = ?head" by (rule ucast_back)
  then show "ucast (used_id (used_of_bytes (peek (blk_complete b len m) (used_slot ?q k) 8))) = ?head"
    unfolding p by (simp add: used_of_bytes_def e_def slice_append_left)
  show "blk_complete b len m x = m x" if x: "x \<in> page (b_scratch b)"
  proof -
    have "x \<notin> span (q_used ?q + 2) (length (to_le_bytes (k + 1)))" "x \<notin> span (used_slot ?q k) (length e)"
      using x u(1,2) pages(6) e by auto
    then show ?thesis by (simp add: m2 poke_outside)
  qed
qed

text \<open>A write into the scratch page shows there and nowhere else.\<close>

lemma scratch_poke:
  assumes "block_ok st b" "span a (length bytes) \<subseteq> page (b_scratch b)"
  shows "used_at b (poke m a bytes) = used_at b m" "available_at b (poke m a bytes) = available_at b m"
    "half_at (poke m a bytes) (ring_slot (b_queue b) k) = half_at m (ring_slot (b_queue b) k)"
proof -
  have q: "queue_ok st (b_queue b)" "in_range st (q_used (b_queue b)) 4096" using assms(1) by (simp_all add: block_ok_def)
  note u = used_spans(1) [OF q] and a = available_spans(1,2) [OF q(1)] and pages = block_ok_pages [OF assms(1)]
  show "used_at b (poke m a bytes) = used_at b m"
    unfolding used_at_def using u pages(6) assms(2) by (intro half_poke_elsewhere) auto
  show "available_at b (poke m a bytes) = available_at b m"
    unfolding available_at_def using a(1) pages(5) assms(2) by (intro half_poke_elsewhere) auto
  show "half_at (poke m a bytes) (ring_slot (b_queue b) k) = half_at m (ring_slot (b_queue b) k)"
    using a(2) pages(5) assms(2) by (intro half_poke_elsewhere) auto
qed

lemma poke_agrees: "m x = s x \<Longrightarrow> poke m a bytes x = poke s a bytes x"
  by (simp add: poke_def)

section \<open>The answer to a request of the driver\<close>

definition disk_after ::
  "block \<Rightarrow> u32 \<Rightarrow> u64 \<Rightarrow> bool \<Rightarrow> memory \<Rightarrow> (u64 \<Rightarrow> byte list) \<Rightarrow> u64 \<Rightarrow> byte list" where
  "disk_after b request sector transferred s c =
     (if request = TYPE_WRITE \<and> transferred then c(sector := peek s (b_scratch b + PAYLOAD_OFFSET) 512) else c)"

definition scratch_after ::
  "block \<Rightarrow> u32 \<Rightarrow> u64 \<Rightarrow> bool \<Rightarrow> byte \<Rightarrow> (u64 \<Rightarrow> byte list) \<Rightarrow> memory \<Rightarrow> memory" where
  "scratch_after b request sector transferred status c s =
     poke (if request = TYPE_READ \<and> transferred then poke s (b_scratch b + PAYLOAD_OFFSET) (c sector) else s)
       (b_scratch b + STATUS_OFFSET) [status]"

definition well_asked :: "block \<Rightarrow> u32 \<Rightarrow> u64 \<Rightarrow> u32 \<Rightarrow> bool \<Rightarrow> memory \<Rightarrow> bool" where
  "well_asked b request sector len device_writes s \<longleftrightarrow>
     peek s (b_scratch b) 16 = header_bytes \<lparr>rq_kind = request, rq_reserved = 0, rq_sector = sector\<rparr> \<and>
     (request = TYPE_READ \<and> len = 512 \<and> device_writes \<or> request = TYPE_WRITE \<and> len = 512 \<and> \<not> device_writes \<or>
      request = TYPE_FLUSH \<and> len = 0)"

lemma scratch_spans:
  "span (b_scratch b + PAYLOAD_OFFSET) 512 \<subseteq> page (b_scratch b)"
  "span (b_scratch b + STATUS_OFFSET) 1 \<subseteq> page (b_scratch b)"
  "span (b_scratch b) 16 \<subseteq> page (b_scratch b)"
  "span (b_scratch b) 16 \<inter> span (b_scratch b + PAYLOAD_OFFSET) 512 = {}"
  "span (b_scratch b) 16 \<inter> span (b_scratch b + STATUS_OFFSET) 1 = {}"
  "span (b_scratch b + STATUS_OFFSET) 1 \<inter> span (b_scratch b + PAYLOAD_OFFSET) 512 = {}"
proof -
  note offsets = PAYLOAD_OFFSET_def STATUS_OFFSET_def
  show "span (b_scratch b + PAYLOAD_OFFSET) 512 \<subseteq> page (b_scratch b)"
    "span (b_scratch b + STATUS_OFFSET) 1 \<subseteq> page (b_scratch b)"
    using span_offset [of 512 512 "b_scratch b"] span_offset [of 16 1 "b_scratch b"] by (simp_all add: offsets)
  show "span (b_scratch b) 16 \<subseteq> page (b_scratch b)" by (rule span_mono) simp
  show "span (b_scratch b) 16 \<inter> span (b_scratch b + PAYLOAD_OFFSET) 512 = {}"
    "span (b_scratch b) 16 \<inter> span (b_scratch b + STATUS_OFFSET) 1 = {}"
    "span (b_scratch b + STATUS_OFFSET) 1 \<inter> span (b_scratch b + PAYLOAD_OFFSET) 512 = {}"
    using span_offsets_disjoint [of 0 16 512 512 "b_scratch b"] span_offsets_disjoint [of 0 16 16 1 "b_scratch b"]
      span_offsets_disjoint [of 16 1 512 512 "b_scratch b"] by (simp_all add: offsets)
qed

lemma request_known:
  assumes "block_ok st b" "busy b disk c k s (request_chain b len wr) head v m" "well_asked b request sector len wr s"
  shows "request_at b m = Some (\<lparr>rq_kind = request, rq_reserved = 0, rq_sector = sector\<rparr>, tl (request_chain b len wr))"
proof -
  have "peek m (b_scratch b) 16 = peek s (b_scratch b) 16"
    using scratch_spans(3) [of b] assms(2) by (intro peek_agrees) (auto simp: busy_def)
  with assms(2,3) show ?thesis
    by (auto simp: request_at_def busy_def request_chain_def well_asked_def HEADER_OFFSET_def header_of_bytes Let_def)
qed

lemma answer_known:
  assumes "block_ok st b" "busy b disk c k s (request_chain b len wr) head v m" "well_asked b request sector len wr s"
    and "length (c sector) = 512"
  obtains m2 where
    "blk_answer b transferred status n c m = Some (disk_after b request sector transferred s c, m2)"
    "\<And>v' m'. disk v' = disk_after b request sector transferred s c \<Longrightarrow> \<forall>x \<in> block_pages b. m' x = m2 x \<Longrightarrow>
       answered b disk (disk_after b request sector transferred s c) k
         (scratch_after b request sector transferred status c s) head v' m'"
proof -
  let ?pay = "b_scratch b + PAYLOAD_OFFSET" and ?sta = "b_scratch b + STATUS_OFFSET"
  let ?c = "disk_after b request sector transferred s c"
  let ?s = "scratch_after b request sector transferred status c s"
  define m1 where "m1 = (if request = TYPE_READ \<and> transferred then poke m ?pay (c sector) else m)"
  define mm where "mm = poke m1 ?sta [status]"
  have kinds: "TYPE_READ \<noteq> TYPE_WRITE" "TYPE_READ \<noteq> TYPE_FLUSH" "TYPE_WRITE \<noteq> TYPE_FLUSH"
    by (simp_all add: TYPE_READ_def TYPE_WRITE_def TYPE_FLUSH_def)
  have b: "disk v = c" "used_at b m = k" "available_at b m = k + 1" "half_at m (ring_slot (b_queue b) k) = head"
    "\<And>x. x \<in> page (b_scratch b) \<Longrightarrow> m x = s x" using assms(2) by (auto simp: busy_def)
  have pay: "peek m ?pay 512 = peek s ?pay 512"
    using scratch_spans(1) [of b] b(5) by (intro peek_agrees) auto
  have pay_inside: "span ?pay (length (c sector)) \<subseteq> page (b_scratch b)"
    and sta_inside: "span ?sta (length [status]) \<subseteq> page (b_scratch b)"
    using scratch_spans(1,2) [of b] assms(4) by simp_all
  note p1 = scratch_poke [OF assms(1) pay_inside] and p2 = scratch_poke [OF assms(1) sta_inside]
  have mm: "used_at b mm = k" "available_at b mm = k + 1" "half_at mm (ring_slot (b_queue b) k) = head"
    using b by (simp_all add: mm_def m1_def p1 p2)
  have mm_s: "mm x = ?s x" if "x \<in> page (b_scratch b)" for x
    using b(5) [OF that] by (auto simp: mm_def m1_def scratch_after_def intro!: poke_agrees)
  note completed = blk_complete_effects [OF assms(1) mm(1), where len = n]
  have "blk_answer b transferred status n c m = Some (?c, blk_complete b n mm)"
    using assms(3) unfolding blk_answer_def request_known [OF assms(1-3)] well_asked_def
    by (auto simp: request_chain_def Let_def mm_def m1_def disk_after_def pay kinds kinds [symmetric])
  moreover have "answered b disk ?c k ?s head v' m'"
    if "disk v' = ?c" "\<forall>x \<in> block_pages b. m' x = blk_complete b n mm x" for v' m'
  proof -
    have "answered b disk ?c k ?s head v' (blk_complete b n mm)"
      using that(1) completed mm mm_s by (auto simp: answered_def idle_def)
    from answered_agrees [OF assms(1) that(2) refl this] show ?thesis .
  qed
  ultimately show thesis using that by blast
qed

text \<open>The request has been answered, with success or with a status that was allowed.\<close>

definition served ::
  "bool \<Rightarrow> block \<Rightarrow> ('v \<Rightarrow> u64 \<Rightarrow> byte list) \<Rightarrow> u32 \<Rightarrow> u64 \<Rightarrow> (u64 \<Rightarrow> byte list) \<Rightarrow> u16 \<Rightarrow> memory \<Rightarrow> u16 \<Rightarrow>
    bool \<Rightarrow> byte \<Rightarrow> 'v \<Rightarrow> memory \<Rightarrow> bool" where
  "served f b disk request sector c k s head transferred status v m \<longleftrightarrow>
     (status = STATUS_OK \<longrightarrow> transferred) \<and> (status = STATUS_OK \<or> f \<or> b_sectors b \<le> sector) \<and>
     answered b disk (disk_after b request sector transferred s c) k
       (scratch_after b request sector transferred status c s) head v m"

lemma busy_act:
  assumes "virtio_blk f h b disk patience" "block_ok st b"
    and "busy b disk c k s (request_chain b len wr) head v m" "well_asked b request sector len wr s"
    and "hw_act h v m = (v', m')"
  shows "busy b disk c k s (request_chain b len wr) head v' m' \<and> patience v' < patience v \<or>
     (\<exists>transferred status. served f b disk request sector c k s head transferred status v' m')"
proof -
  have "used_at b m \<noteq> available_at b m" using assms(3) by (simp add: busy_def)
  from virtio_blk_act(3) [OF assms(1,5) this]
  consider "disk v' = disk v" "\<forall>x \<in> block_pages b. m' x = m x" "patience v' < patience v"
    | "blk_answers f b disk v m v' m'" by blast
  then show ?thesis
  proof cases
    case 1
    with busy_agrees [OF assms(2) 1(2,1) assms(3)] show ?thesis by simp
  next
    case 2
    have c: "disk v = c" using assms(3) by (simp add: busy_def)
    have len: "length (c sector) = 512" using assms(1) c by (auto simp: virtio_blk_def)
    from 2 [unfolded blk_answers_def c request_known [OF assms(2-4)]]
    obtain transferred status n where t: "status = STATUS_OK \<longrightarrow> transferred"
      "status = STATUS_OK \<or> f \<or> b_sectors b \<le> sector"
      "case blk_answer b transferred status n c m of None \<Rightarrow> True
       | Some (c, m2) \<Rightarrow> disk v' = c \<and> (\<forall>x \<in> block_pages b. m' x = m2 x)" by auto
    obtain m2 where a: "blk_answer b transferred status n c m = Some (disk_after b request sector transferred s c, m2)"
      and post: "\<And>v' m'. disk v' = disk_after b request sector transferred s c \<Longrightarrow> \<forall>x \<in> block_pages b. m' x = m2 x \<Longrightarrow>
        answered b disk (disk_after b request sector transferred s c) k
          (scratch_after b request sector transferred status c s) head v' m'"
      using answer_known [OF assms(2-4) len] by metis
    with t(3) have "disk v' = disk_after b request sector transferred s c" "\<forall>x \<in> block_pages b. m' x = m2 x" by auto
    from post [OF this] t(1,2) show ?thesis by (auto simp: served_def)
  qed
qed

lemma served_agrees:
  assumes "block_ok st b" "\<forall>x \<in> block_pages b. m' x = m x" "disk v' = disk v"
    and "served f b disk request sector c k s head transferred status v m"
  shows "served f b disk request sector c k s head transferred status v' m'"
  using assms(4) answered_agrees [OF assms(1-3)] by (auto simp: served_def)

lemma served_act:
  assumes "virtio_blk f h b disk patience" "block_ok st b"
    and "served f b disk request sector c k s head transferred status v m" "hw_act h v m = (v', m')"
  shows "served f b disk request sector c k s head transferred status v' m'"
  using answered_act [OF assms(1,2) _ assms(4)] assms(3) by (auto simp: served_def)

text \<open>The wait of the driver ends with the answer: the device has less patience than the driver polls.\<close>

definition waiting ::
  "bool \<Rightarrow> block \<Rightarrow> ('v \<Rightarrow> u64 \<Rightarrow> byte list) \<Rightarrow> ('v \<Rightarrow> nat) \<Rightarrow> u32 \<Rightarrow> u64 \<Rightarrow> (u64 \<Rightarrow> byte list) \<Rightarrow> u16 \<Rightarrow> memory \<Rightarrow> u16 \<Rightarrow>
    u32 \<Rightarrow> bool \<Rightarrow> nat \<Rightarrow> 'v \<Rightarrow> memory \<Rightarrow> bool" where
  "waiting f b disk patience request sector c k s head len wr n v m \<longleftrightarrow>
     busy b disk c k s (request_chain b len wr) head v m \<and> patience v < n \<or>
     0 < n \<and> (\<exists>transferred status. served f b disk request sector c k s head transferred status v m)"

lemma waiting_act:
  assumes "virtio_blk f h b disk patience" "block_ok st b" "well_asked b request sector len wr s"
    and "waiting f b disk patience request sector c k s head len wr (Suc n) (w_device w) (w_memory w)"
  shows "busy b disk c k s (request_chain b len wr) head (w_device (devices_act h w)) (w_memory (devices_act h w)) \<and>
       patience (w_device (devices_act h w)) < n \<or>
     (\<exists>transferred status. served f b disk request sector c k s head transferred status
        (w_device (devices_act h w)) (w_memory (devices_act h w)))"
proof -
  obtain v' m' where a: "hw_act h (w_device w) (w_memory w) = (v', m')" by (metis surj_pair)
  then have d: "w_device (devices_act h w) = v'" "w_memory (devices_act h w) = m'" by (simp_all add: devices_act_def)
  from assms(4) consider
      "busy b disk c k s (request_chain b len wr) head (w_device w) (w_memory w)" "patience (w_device w) < Suc n"
    | "\<exists>transferred status. served f b disk request sector c k s head transferred status (w_device w) (w_memory w)"
    by (auto simp: waiting_def)
  then show ?thesis
  proof cases
    case 1
    with busy_act [OF assms(1,2) 1(1) assms(3) a] show ?thesis unfolding d by auto
  next
    case 2
    with served_act [OF assms(1,2) _ a] show ?thesis unfolding d by blast
  qed
qed

lemma wait_served:
  assumes "virtio_blk f h b disk patience" "block_ok (w_paging w) b" "well_asked b request sector len wr s"
    and "waiting f b disk patience request sector c k s head len wr n (w_device w) (w_memory w)"
    and "q_used q = q_used (b_queue b)" "q_size q = q_size (b_queue b)" "q_last_used q = k"
    and "run_state (wait_for h q head n) w = ((r, q'), w')"
  shows "r \<noteq> None \<and> q' = q\<lparr>q_last_used := k + 1\<rparr> \<and> w_paging w' = w_paging w \<and>
    (\<exists>transferred status. served f b disk request sector c k s head transferred status (w_device w') (w_memory w'))"
  using assms(2,4,8)
proof (induction n arbitrary: w)
  case 0
  then show ?case by (simp add: waiting_def)
next
  case (Suc n)
  let ?w1 = "devices_act h w"
  have ok: "queue_ok (w_paging w) (b_queue b)" "in_range (w_paging w) (q_used (b_queue b)) 4096"
    using Suc.prems(1) by (simp_all add: block_ok_def)
  note spans = used_spans [OF ok]
  have idx: "run_state (used_index h q) w = (used_at b (w_memory ?w1), ?w1)"
    using spans(4) by (simp add: used_index_def io_read16_def read16_def used_at_def half_at_def assms(5))
  from waiting_act [OF assms(1) Suc.prems(1) assms(3) Suc.prems(2)]
  consider (going) "busy b disk c k s (request_chain b len wr) head (w_device ?w1) (w_memory ?w1)" "patience (w_device ?w1) < n"
    | (over) transferred status where "served f b disk request sector c k s head transferred status (w_device ?w1) (w_memory ?w1)"
    by blast
  then show ?case
  proof cases
    case going
    then have "used_at b (w_memory ?w1) = k" by (simp add: busy_def)
    then have "run_state (take_used h q) w = ((None, q), ?w1)" using idx assms(7) by (simp add: take_used_def)
    then have "run_state (wait_for h q head n) ?w1 = ((r, q'), w')" using Suc.prems(3) by simp
    moreover have "waiting f b disk patience request sector c k s head len wr n (w_device ?w1) (w_memory ?w1)"
      using going by (auto simp: waiting_def)
    ultimately show ?thesis using Suc.IH [of ?w1] Suc.prems(1) by simp
  next
    case over
    let ?w2 = "devices_act h ?w1"
    obtain v' m' where a: "hw_act h (w_device ?w1) (w_memory ?w1) = (v', m')" by (metis surj_pair)
    then have d: "w_device ?w2 = v'" "w_memory ?w2 = m'" by (simp_all add: devices_act_def)
    have two: "served f b disk request sector c k s head transferred status (w_device ?w2) (w_memory ?w2)"
      unfolding d by (rule served_act [OF assms(1) Suc.prems(1) over a])
    have used: "used_at b (w_memory ?w1) = k + 1" using over by (simp add: served_def answered_def idle_def)
    have "q_used q + 4 + ucast (k mod q_size q) * 8 = used_slot (b_queue b) k"
      using ring_offset [of "q_used q" k "q_size q" 8] by (simp add: used_slot_def assms(5,6))
    then have "run_state (used_element h q k) ?w1 = (used_of_bytes (peek (w_memory ?w2) (used_slot (b_queue b) k) 8), ?w2)"
      using spans(5) [of k] by (simp add: used_element_def Let_def read_struct_def)
    moreover have "ucast (used_id (used_of_bytes (peek (w_memory ?w2) (used_slot (b_queue b) k) 8))) = head"
      using two by (simp add: served_def answered_def)
    ultimately have "\<exists>n. run_state (take_used h q) w = ((Some (head, n), q\<lparr>q_last_used := k + 1\<rparr>), ?w2)"
      using idx used assms(7) by (auto simp: take_used_def)
    then obtain n where "run_state (take_used h q) w = ((Some (head, n), q\<lparr>q_last_used := k + 1\<rparr>), ?w2)" by blast
    with Suc.prems(3) have "r = Some n" "q' = q\<lparr>q_last_used := k + 1\<rparr>" "w' = ?w2" by simp_all
    with two show ?thesis by auto
  qed
qed

section \<open>A request from start to end\<close>

lemma idle_poke:
  assumes "virtio_blk f h b disk patience" "block_ok (w_paging w) b"
    and "idle b disk c k s (w_device w) (w_memory w)" "span a (length bytes) \<subseteq> page (b_scratch b)"
    and "run_state (store h (\<lambda>st m. poke m a bytes)) w = (u, w')"
  shows "w_paging w' = w_paging w \<and> idle b disk c k (poke s a bytes) (w_device w') (w_memory w')"
proof -
  note act = quiet_act(1) [OF idle_quiet [OF assms(1,2)] assms(3)]
  have "w_memory w' = poke (w_memory (devices_act h w)) a bytes" "w_device w' = w_device (devices_act h w)"
    "w_paging w' = w_paging w" using assms(5) by auto
  with act scratch_poke [OF assms(2,4)] show ?thesis by (auto simp: idle_def intro: poke_agrees)
qed

lemma idle_kept:
  assumes "block_ok st b"
  shows "kept_by_writes (published_area (b_queue b)) (idle b disk c k s)"
  unfolding kept_by_writes_def
proof (intro allI impI, elim conjE)
  fix v and m :: memory and a and bytes :: "byte list"
  assume i: "idle b disk c k s v m" and inside: "span a (length bytes) \<subseteq> published_area (b_queue b)"
  let ?q = "b_queue b"
  have q: "queue_ok st ?q" "in_range st (q_used ?q) 4096" using assms by (simp_all add: block_ok_def)
  note u = used_spans(1) [OF q] and av = available_spans(1) [OF q(1)] and pages = block_ok_pages [OF assms]
  have "span (q_used ?q + 2) 2 \<inter> span a (length bytes) = {}" "span (q_available ?q + 2) 2 \<inter> span a (length bytes) = {}"
    using u av pages(1,2,4) inside unfolding published_area_def by blast+
  then have "used_at b (poke m a bytes) = used_at b m" "available_at b (poke m a bytes) = available_at b m"
    by (simp_all add: used_at_def available_at_def half_poke_elsewhere)
  moreover have "poke m a bytes x = m x" if "x \<in> page (b_scratch b)" for x
    using that pages(3,5) inside by (intro poke_outside) (auto simp: published_area_def)
  ultimately show "idle b disk c k s v (poke m a bytes)" using i by (simp add: idle_def)
qed

lemma chain_at_turned [simp]:
  "chain_at m (q\<lparr>q_next_descriptor := i\<rparr>) n j = chain_at m q n j"
  "chain_at m (q\<lparr>q_last_used := l\<rparr>) n j = chain_at m q n j"
  by (induction n arbitrary: j) (simp_all add: descriptor_at_def Let_def)

text \<open>The driver's state after a request: the queue has moved on.\<close>

definition turned :: "block \<Rightarrow> u16 \<Rightarrow> u16 \<Rightarrow> block" where
  "turned b i l = b\<lparr>b_queue := (b_queue b)\<lparr>q_next_descriptor := i, q_last_used := l\<rparr>\<rparr>"

lemma turned_simps [simp]:
  "b_scratch (turned b i l) = b_scratch b" "b_sectors (turned b i l) = b_sectors b"
  "b_doorbell (turned b i l) = b_doorbell b" "q_last_used (b_queue (turned b i l)) = l"
  "block_pages (turned b i l) = block_pages b" "used_at (turned b i l) = used_at b"
  "available_at (turned b i l) = available_at b" "idle (turned b i l) = idle b"
  "blk_answer (turned b i l) = blk_answer b" "request_at (turned b i l) = request_at b"
  "virtio_blk f h (turned b i l) disk patience = virtio_blk f h b disk patience"
proof -
  show *: "b_scratch (turned b i l) = b_scratch b" "b_sectors (turned b i l) = b_sectors b"
    "b_doorbell (turned b i l) = b_doorbell b" "q_last_used (b_queue (turned b i l)) = l"
    by (simp_all add: turned_def)
  show pages: "block_pages (turned b i l) = block_pages b" by (simp add: turned_def block_pages_def)
  show idx: "used_at (turned b i l) = used_at b" "available_at (turned b i l) = available_at b"
    by (simp_all add: turned_def used_at_def available_at_def fun_eq_iff)
  have slot: "ring_slot (b_queue (turned b i l)) = ring_slot (b_queue b)"
    "used_slot (b_queue (turned b i l)) = used_slot (b_queue b)"
    by (simp_all add: turned_def ring_slot_def used_slot_def fun_eq_iff)
  show "idle (turned b i l) = idle b" by (simp add: idle_def fun_eq_iff * idx)
  have "offer (b_queue (turned b i l)) = offer (b_queue b)"
    by (simp add: offer_def fun_eq_iff slot) (simp add: turned_def)
  then show req: "request_at (turned b i l) = request_at b" by (simp add: request_at_def fun_eq_iff idx)
  have comp: "blk_complete (turned b i l) = blk_complete b"
    by (simp add: blk_complete_def fun_eq_iff Let_def slot idx) (simp add: turned_def)
  show ans: "blk_answer (turned b i l) = blk_answer b" by (intro ext) (simp only: blk_answer_def req comp)
  have "blk_answers f (turned b i l) disk v m v' m' = blk_answers f b disk v m v' m'" for v m v' m'
    unfolding blk_answers_def ans req pages * ..
  then show "virtio_blk f h (turned b i l) disk patience = virtio_blk f h b disk patience"
    by (simp add: virtio_blk_def idx pages)
qed

lemma block_ok_turned: "block_ok st b \<Longrightarrow> i < q_size (b_queue b) \<Longrightarrow> block_ok st (turned b i l)"
  by (simp add: block_ok_def queue_ok_def block_pages_def) (simp add: turned_def)

lemma busy_published:
  assumes "block_ok st b" "idle b disk c k s v m0" "m = poke m0 (q_available (b_queue b) + 2) (to_le_bytes (k + 1))"
    and "offer (b_queue b) m k = chain" "half_at m (ring_slot (b_queue b) k) = head"
  shows "busy b disk c k s chain head v m"
proof -
  let ?q = "b_queue b" and ?i = "q_available (b_queue b) + 2"
  have q: "queue_ok st ?q" "in_range st (q_used ?q) 4096" using assms(1) by (simp_all add: block_ok_def)
  note u = used_spans(1) [OF q] and av = available_spans(1) [OF q(1)] and pages = block_ok_pages [OF assms(1)]
  have "span (q_used ?q + 2) 2 \<inter> span ?i (length (to_le_bytes (k + 1))) = {}" using u av pages(4) by auto
  then have "used_at b m = k" "available_at b m = k + 1"
    using assms(2) by (simp_all add: used_at_def available_at_def assms(3) half_poke_elsewhere half_poke idle_def)
  moreover have "m x = s x" if "x \<in> page (b_scratch b)" for x
  proof -
    have "x \<notin> span ?i (length (to_le_bytes (k + 1)))" using that av pages(5) by auto
    then have "m x = m0 x" by (simp add: assms(3) poke_outside)
    with assms(2) that show ?thesis by (simp add: idle_def)
  qed
  ultimately show ?thesis using assms(2,4,5) by (simp add: busy_def idle_def)
qed

lemma doorbell_rung:
  assumes "virtio_blk f h b disk patience" "block_ok (w_paging w) b" "well_asked b request sector len wr s"
    and "busy b disk c k s (request_chain b len wr) head (w_device w) (w_memory w)"
    and "run_state (notify h (b_doorbell b) n) w = (u, w')"
  shows "w_paging w' = w_paging w \<and>
    waiting f b disk patience request sector c k s head len wr POLLS (w_device w') (w_memory w')"
proof -
  let ?w1 = "devices_act h w"
  have polls: "patience v < POLLS" for v using assms(1) by (simp add: virtio_blk_def)
  have "waiting f b disk patience request sector c k s head len wr (Suc POLLS) (w_device w) (w_memory w)"
    using assms(4) polls [of "w_device w"] by (auto simp: waiting_def less_SucI)
  from waiting_act [OF assms(1-3) this]
  have "waiting f b disk patience request sector c k s head len wr POLLS (w_device ?w1) (w_memory ?w1)"
    by (auto simp: waiting_def POLLS_def)
  moreover have w': "w_paging w' = w_paging w" "w_device w' = w_device ?w1"
    and m': "w_memory w' = (if in_range (w_paging w) (b_doorbell b) 2 then poke (w_memory ?w1) (b_doorbell b) (to_le_bytes n)
      else w_memory ?w1)"
    using assms(5) by (auto simp: notify_def io_write16_def write16_def)
  have "\<forall>x \<in> block_pages b. w_memory w' x = w_memory ?w1 x"
  proof
    fix x assume "x \<in> block_pages b"
    then have "x \<notin> span (b_doorbell b) (length (to_le_bytes n))" using assms(2) by (auto simp: block_ok_def)
    then show "w_memory w' x = w_memory ?w1 x" by (simp add: m' poke_outside)
  qed
  moreover have "disk (w_device w') = disk (w_device ?w1)" "patience (w_device w') = patience (w_device ?w1)"
    by (simp_all add: w'(2))
  ultimately show ?thesis
    using busy_agrees [OF assms(2)] served_agrees [OF assms(2)] w'(1) unfolding waiting_def by metis
qed

lemma submit_served:
  assumes "virtio_blk f h b disk patience" "block_ok (w_paging w) b"
    and "idle b disk c k s (w_device w) (w_memory w)" "q_last_used (b_queue b) = k"
    and "request = TYPE_READ \<and> len = 512 \<and> wr \<or> request = TYPE_WRITE \<and> len = 512 \<and> \<not> wr \<or> request = TYPE_FLUSH \<and> len = 0"
    and "run_state (block_submit h b request sector len wr) w = ((ok, b'), w')"
  obtains s2 transferred status i where
    "ok \<longleftrightarrow> status = STATUS_OK" "status = STATUS_OK \<longrightarrow> transferred" "status = STATUS_OK \<or> f \<or> b_sectors b \<le> sector"
    "peek s2 (b_scratch b + PAYLOAD_OFFSET) 512 = peek s (b_scratch b + PAYLOAD_OFFSET) 512"
    "b' = turned b i (k + 1)" "i < q_size (b_queue b)" "w_paging w' = w_paging w"
    "idle b disk (disk_after b request sector transferred s2 c) (k + 1)
       (scratch_after b request sector transferred status c s2) (w_device w') (w_memory w')"
proof -
  let ?q = "b_queue b" and ?S = "b_scratch b"
  define bytes where "bytes = header_bytes \<lparr>rq_kind = request, rq_reserved = 0, rq_sector = sector\<rparr>"
  have bytes: "length bytes = 16" by (simp add: bytes_def header_bytes_def)
  have S: "in_range (w_paging w) ?S 4096" using assms(2) by (simp add: block_ok_def)
  have r16: "in_range (w_paging w) ?S 16" using in_range_offset [OF S, of 0 16] by simp
  have r1: "in_range (w_paging w) (?S + STATUS_OFFSET) 1"
    using in_range_offset [OF S, of 16 1] by (simp add: STATUS_OFFSET_def)
  \<comment> \<open>the header and the status byte\<close>
  obtain w1 where one: "run_state (store h (\<lambda>st m. poke m ?S bytes)) w = ((), w1)" by (metis old.unit.exhaust surj_pair)
  have inside: "span ?S (length bytes) \<subseteq> page ?S" using scratch_spans(3) [of b] bytes by simp
  note i1 = idle_poke [OF assms(1-3) inside one]
  have run1: "run_state (store h (\<lambda>st. write_struct st (?S + HEADER_OFFSET) bytes)) w = ((), w1)"
    using one r16 bytes by (simp add: write_struct_def HEADER_OFFSET_def)
  obtain w2 where two: "run_state (store h (\<lambda>st m. poke m (?S + STATUS_OFFSET) [0xff])) w1 = ((), w2)"
    by (metis old.unit.exhaust surj_pair)
  have ok1: "block_ok (w_paging w1) b" using i1 assms(2) by simp
  have inside2: "span (?S + STATUS_OFFSET) (length [0xff :: byte]) \<subseteq> page ?S" using scratch_spans(2) [of b] by simp
  note i2 = idle_poke [OF assms(1) ok1 conjunct2 [OF i1] inside2 two]
  have run2: "run_state (io_write8 h (?S + STATUS_OFFSET) 0xff) w1 = ((), w2)"
    using two r1 i1 by (simp add: io_write8_def write8_def)
  define s2 where "s2 = poke (poke s ?S bytes) (?S + STATUS_OFFSET) [0xff]"
  have w2: "w_paging w2 = w_paging w" "idle b disk c k s2 (w_device w2) (w_memory w2)"
    using i1 i2 by (simp_all add: s2_def)
  have "peek s2 ?S 16 = bytes"
  proof -
    have "peek s2 ?S 16 = peek (poke s ?S bytes) ?S 16"
      unfolding s2_def using scratch_spans(5) [of b] by (intro peek_poke_disjoint) simp_all
    then show ?thesis using peek_poke_same [of bytes s ?S] bytes by simp
  qed
  then have asked: "well_asked b request sector len wr s2"
    using assms(5) by (auto simp: well_asked_def bytes_def)
  have payload: "peek s2 (?S + PAYLOAD_OFFSET) 512 = peek s (?S + PAYLOAD_OFFSET) 512"
  proof -
    have "peek s2 (?S + PAYLOAD_OFFSET) 512 = peek (poke s ?S bytes) (?S + PAYLOAD_OFFSET) 512"
      unfolding s2_def using scratch_spans(6) [of b] by (intro peek_poke_disjoint) auto
    also have "\<dots> = peek s (?S + PAYLOAD_OFFSET) 512"
      using scratch_spans(4) [of b] bytes by (intro peek_poke_disjoint) auto
    finally show ?thesis .
  qed
  \<comment> \<open>the chain\<close>
  let ?chain = "request_chain b len wr" and ?head = "q_next_descriptor ?q"
  have ok2: "block_ok (w_paging w2) b" "queue_ok (w_paging w2) ?q" using assms(2) w2(1) by (simp_all add: block_ok_def)
  have size3: "3 \<le> unat (q_size ?q)" using assms(2) by (simp add: block_ok_def word_le_nat_alt)
  have fits: "?chain \<noteq> []" "length ?chain \<le> unat (q_size ?q)" using size3 by (simp_all add: request_chain_def Let_def)
  obtain r q3 w3 where sub: "run_state (queue_submit h ?q ?chain) w2 = ((r, q3), w3)" by (metis prod_cases3 surj_pair)
  have rings: "page (q_descriptors ?q) \<union> page (q_available ?q) \<subseteq> block_pages b" by (auto simp: block_pages_def)
  have avail: "k = half_at (w_memory w2) (q_available ?q + 2)" using w2(2) by (simp add: idle_def available_at_def)
  note pub = submit_publishes_quiet [OF idle_quiet [OF assms(1) ok2(1)] idle_kept [OF ok2(1)] w2(2) ok2(2) rings fits sub avail]
  from pub(4) obtain m0 where m0: "idle b disk c k s2 (w_device w3) m0"
    "w_memory w3 = poke m0 (q_available ?q + 2) (to_le_bytes (k + 1))" by blast
  have busy3: "busy b disk c k s2 ?chain ?head (w_device w3) (w_memory w3)"
    by (rule busy_published [OF ok2(1) m0 pub(6,5)])
  have ok3: "block_ok (w_paging w3) b" using pub(3) ok2(1) by simp
  \<comment> \<open>the doorbell, the wait, the status\<close>
  obtain w4 where four: "run_state (notify h (b_doorbell b) 0) w3 = ((), w4)" by (metis old.unit.exhaust surj_pair)
  note rung = doorbell_rung [OF assms(1) ok3 asked busy3 four]
  obtain r5 q5 w5 where five: "run_state (wait_for h q3 ?head POLLS) w4 = ((r5, q5), w5)" by (metis prod_cases3 surj_pair)
  have ok4: "block_ok (w_paging w4) b" using rung ok3 by simp
  have q3: "q_used q3 = q_used ?q" "q_size q3 = q_size ?q" "q_last_used q3 = k" using pub(2) assms(4) by simp_all
  note over = wait_served [OF assms(1) ok4 asked conjunct2 [OF rung] q3 five]
  then obtain transferred status where fin: "served f b disk request sector c k s2 ?head transferred status (w_device w5) (w_memory w5)"
    by blast
  let ?w6 = "devices_act h w5"
  have ok5: "block_ok (w_paging w5) b" using over ok4 by simp
  obtain v6 m6 where a6: "hw_act h (w_device w5) (w_memory w5) = (v6, m6)" by (metis surj_pair)
  then have d6: "w_device ?w6 = v6" "w_memory ?w6 = m6" by (simp_all add: devices_act_def)
  have fin6: "served f b disk request sector c k s2 ?head transferred status (w_device ?w6) (w_memory ?w6)"
    unfolding d6 by (rule served_act [OF assms(1) ok5 fin a6])
  have "?S + STATUS_OFFSET \<in> span (?S + STATUS_OFFSET) 1" by (simp add: span_def)
  then have "?S + STATUS_OFFSET \<in> page ?S" using scratch_spans(2) [of b] by blast
  then have "w_memory ?w6 (?S + STATUS_OFFSET) = status"
    using fin6 by (simp add: served_def answered_def idle_def scratch_after_def poke_def)
  then have read: "run_state (io_read8 h (?S + STATUS_OFFSET)) w5 = (status, ?w6)"
    using r1 over rung pub(3) w2(1) by (simp add: io_read8_def read8_def)
  define i where "i = (?head + of_nat (length ?chain)) mod q_size ?q"
  have i: "i < q_size ?q"
    using size3 unfolding i_def word_less_nat_alt unat_mod by (intro mod_less_divisor) linarith
  have b6: "b\<lparr>b_queue := q5\<rparr> = turned b i (k + 1)" using over pub(2) by (simp add: turned_def i_def)
  have "run_state (block_submit h b request sector len wr) w = ((status = STATUS_OK, turned b i (k + 1)), ?w6)"
    using run1 run2 sub four five over read pub(1) b6
    by (simp add: block_submit_def Let_def bytes_def [symmetric]) (auto simp: b6)
  with assms(6) have res: "ok = (status = STATUS_OK)" "b' = turned b i (k + 1)" "w' = ?w6" by simp_all
  have "w_paging ?w6 = w_paging w" using over rung pub(3) w2(1) by simp
  with res fin6 show thesis
    by (intro that [of status transferred s2 i, OF _ _ _ payload _ i]) (simp_all add: served_def answered_def)
qed

end
