(* ===== verification/Virtio_Store.thy ===== *)
theory Virtio_Store
  imports Virtio_Block Persist
begin

text \<open>
  The kernel's disk on the virtio driver: \<open>impl Sectors for Disk\<close> of \<open>nawa/kernel/src/persist.rs\<close>
  over \<open>nawa/virtio/src/block.rs\<close>. On a device that keeps to the specification the composition
  satisfies the contract the journal and the partition reader are proved against (\<open>Storage\<close>).
\<close>

definition virtio_driver :: "'v hardware \<Rightarrow> ('v world \<times> block) block_driver" where
  "virtio_driver h =
     \<lparr>driver_sectors = (\<lambda>(w, b). b_sectors b),
      driver_read = (\<lambda>(w, b) sector out.
        case run_state (read_sector h b sector out) w of ((ok, b, out), w) \<Rightarrow> ((w, b), out, ok)),
      driver_write = (\<lambda>(w, b) sector bytes.
        case run_state (write_sector h b sector bytes) w of ((ok, b), w) \<Rightarrow> ((w, b), ok)),
      driver_flush = (\<lambda>(w, b). case run_state (block_flush h b) w of ((ok, b), w) \<Rightarrow> ((w, b), ok))\<rparr>"

text \<open>The driver is between requests to a device that keeps to the specification.\<close>

definition blk_ready ::
  "bool \<Rightarrow> 'v hardware \<Rightarrow> ('v \<Rightarrow> u64 \<Rightarrow> byte list) \<Rightarrow> ('v \<Rightarrow> nat) \<Rightarrow> 'v world \<times> block \<Rightarrow> bool" where
  "blk_ready f h disk patience = (\<lambda>(w, b). virtio_blk f h b disk patience \<and> block_ok (w_paging w) b \<and>
     used_at b (w_memory w) = q_last_used (b_queue b) \<and> available_at b (w_memory w) = q_last_used (b_queue b))"

definition blk_content :: "('v \<Rightarrow> u64 \<Rightarrow> byte list) \<Rightarrow> 'v world \<times> block \<Rightarrow> u64 \<Rightarrow> byte list" where
  "blk_content disk = (\<lambda>(w, b). disk (w_device w))"

lemma ready_idle:
  "blk_ready f h disk patience (w, b) \<Longrightarrow>
     idle b disk (disk (w_device w)) (q_last_used (b_queue b)) (w_memory w) (w_device w) (w_memory w)"
  by (simp add: blk_ready_def idle_def)

lemma idle_ready:
  assumes "virtio_blk f h b disk patience" "block_ok st b" "i < q_size (b_queue b)" "w_paging w = st"
    and "idle b disk c l s (w_device w) (w_memory w)"
  shows "blk_ready f h disk patience (w, turned b i l)" "blk_content disk (w, turned b i l) = c"
  using assms block_ok_turned [OF assms(2,3)] by (simp_all add: blk_ready_def blk_content_def idle_def)

lemma read_law:
  assumes "blk_ready f h disk patience (w, b)" "length out = 512"
    and "run_state (read_sector h b sector out) w = ((ok, b', out'), w')"
  shows "blk_ready f h disk patience (w', b') \<and> disk (w_device w') = disk (w_device w) \<and>
    b_sectors b' = b_sectors b \<and> length out' = 512 \<and> (ok \<longrightarrow> out' = disk (w_device w) sector) \<and>
    (sector < b_sectors b \<and> \<not> f \<longrightarrow> ok)"
proof (cases "sector \<ge> b_sectors b")
  case True
  with assms show ?thesis by (auto simp: read_sector_def)
next
  case False
  have v: "virtio_blk f h b disk patience" "block_ok (w_paging w) b" using assms(1) by (simp_all add: blk_ready_def)
  let ?k = "q_last_used (b_queue b)" and ?c = "disk (w_device w)" and ?P = "b_scratch b + PAYLOAD_OFFSET"
  obtain ok1 b1 w1 where sub: "run_state (block_submit h b TYPE_READ sector 512 True) w = ((ok1, b1), w1)"
    by (metis prod_cases3 surj_pair)
  obtain s2 transferred status i where s: "ok1 \<longleftrightarrow> status = STATUS_OK" "status = STATUS_OK \<longrightarrow> transferred"
    "status = STATUS_OK \<or> f \<or> b_sectors b \<le> sector" "b1 = turned b i (?k + 1)" "i < q_size (b_queue b)"
    "w_paging w1 = w_paging w"
    "idle b disk (disk_after b TYPE_READ sector transferred s2 ?c) (?k + 1)
       (scratch_after b TYPE_READ sector transferred status ?c s2) (w_device w1) (w_memory w1)"
    by (rule submit_served [OF v ready_idle [OF assms(1)] refl _ sub, of thesis]) auto
  have c: "disk_after b TYPE_READ sector transferred s2 ?c = ?c"
    by (simp add: disk_after_def TYPE_READ_def TYPE_WRITE_def)
  note i1 = s(7) [unfolded c]
  note r1 = idle_ready [OF v(1,2) s(5,6) i1]
  have c1: "disk (w_device w1) = ?c" using i1 by (simp add: idle_def)
  have n: "(of_nat SECTOR_SIZE :: u32) = 512" "SECTOR_SIZE = 512" by (simp_all add: SECTOR_SIZE_def)
  show ?thesis
  proof (cases ok1)
    case bad: False
    then have "ok = False" "b' = b1" "out' = out" "w' = w1"
      using assms(2,3) False sub by (auto simp: read_sector_def n)
    with r1 c1 s bad False assms(2) show ?thesis by auto
  next
    case good: True
    let ?w2 = "devices_act h w1"
    have i2: "idle b disk ?c (?k + 1) (scratch_after b TYPE_READ sector transferred status ?c s2) (w_device ?w2) (w_memory ?w2)"
      using quiet_act(1) [OF idle_quiet [OF v] i1] .
    have st2: "w_paging ?w2 = w_paging w" by (simp add: s(6))
    note r2 = idle_ready [OF v(1,2) s(5) st2 i2]
    have "in_range (w_paging w) ?P 512"
      using v(2) in_range_offset [of "w_paging w" "b_scratch b" 512 512] by (simp add: block_ok_def PAYLOAD_OFFSET_def)
    moreover have "peek (w_memory ?w2) ?P 512 = ?c sector"
    proof -
      have len: "length (?c sector) = 512" using v(1) by (simp add: virtio_blk_def)
      have "peek (w_memory ?w2) ?P 512 = peek (scratch_after b TYPE_READ sector transferred status ?c s2) ?P 512"
        using i2 scratch_spans(1) [of b] by (intro peek_agrees) (auto simp: idle_def)
      also have "\<dots> = peek (poke s2 ?P (?c sector)) ?P 512"
        using s(1,2) good scratch_spans(6) [of b] unfolding scratch_after_def
        by (subst peek_poke_disjoint) auto
      also have "\<dots> = ?c sector" using peek_poke_same [of "?c sector" s2 ?P] len by simp
      finally show ?thesis .
    qed
    ultimately have "ok" "b' = b1" "out' = ?c sector" "w' = ?w2"
      using assms(2,3) False sub good s(4,6) by (auto simp: read_sector_def n read_into_def)
    moreover have "length (?c sector) = 512" using v(1) by (simp add: virtio_blk_def)
    ultimately show ?thesis using r2 i2 s(4) by (simp add: idle_def)
  qed
qed

lemma write_law:
  assumes "blk_ready f h disk patience (w, b)" "length bytes = 512"
    and "run_state (write_sector h b sector bytes) w = ((ok, b'), w')"
  shows "blk_ready f h disk patience (w', b') \<and> b_sectors b' = b_sectors b \<and>
    (ok \<longrightarrow> disk (w_device w') = (disk (w_device w))(sector := bytes)) \<and>
    (disk (w_device w') = disk (w_device w) \<or> disk (w_device w') = (disk (w_device w))(sector := bytes)) \<and>
    (sector < b_sectors b \<and> \<not> f \<longrightarrow> ok)"
proof (cases "sector \<ge> b_sectors b")
  case True
  with assms show ?thesis by (auto simp: write_sector_def)
next
  case False
  have v: "virtio_blk f h b disk patience" "block_ok (w_paging w) b" using assms(1) by (simp_all add: blk_ready_def)
  let ?k = "q_last_used (b_queue b)" and ?c = "disk (w_device w)" and ?P = "b_scratch b + PAYLOAD_OFFSET"
  have n: "(of_nat SECTOR_SIZE :: u32) = 512" "SECTOR_SIZE = 512" by (simp_all add: SECTOR_SIZE_def)
  obtain w1 where one: "run_state (store h (\<lambda>st m. poke m ?P bytes)) w = ((), w1)" by (metis old.unit.exhaust surj_pair)
  have inside: "span ?P (length bytes) \<subseteq> page (b_scratch b)" using scratch_spans(1) [of b] assms(2) by simp
  note i1 = idle_poke [OF v ready_idle [OF assms(1)] inside one]
  have "in_range (w_paging w) ?P 512"
    using v(2) in_range_offset [of "w_paging w" "b_scratch b" 512 512] by (simp add: block_ok_def PAYLOAD_OFFSET_def)
  then have run1: "run_state (store h (\<lambda>st. write_from st ?P (take SECTOR_SIZE bytes))) w = ((), w1)"
    using one assms(2) by (simp add: write_from_def n)
  have ok1: "block_ok (w_paging w1) b" using i1 v(2) by simp
  have sub: "run_state (block_submit h b TYPE_WRITE sector 512 False) w1 = ((ok, b'), w')"
    using assms(2,3) False run1 by (simp add: write_sector_def n)
  obtain s2 transferred status i where s: "ok \<longleftrightarrow> status = STATUS_OK" "status = STATUS_OK \<longrightarrow> transferred"
    "status = STATUS_OK \<or> f \<or> b_sectors b \<le> sector"
    "peek s2 ?P 512 = peek (poke (w_memory w) ?P bytes) ?P 512" "b' = turned b i (?k + 1)" "i < q_size (b_queue b)"
    "w_paging w' = w_paging w1"
    "idle b disk (disk_after b TYPE_WRITE sector transferred s2 ?c) (?k + 1)
       (scratch_after b TYPE_WRITE sector transferred status ?c s2) (w_device w') (w_memory w')"
    by (rule submit_served [OF v(1) ok1 conjunct2 [OF i1] refl _ sub, of thesis]) auto
  have "peek s2 ?P 512 = bytes" using s(4) peek_poke_same [of bytes "w_memory w" ?P] assms(2) by simp
  then have c: "disk_after b TYPE_WRITE sector transferred s2 ?c = (if transferred then ?c(sector := bytes) else ?c)"
    by (simp add: disk_after_def)
  note r = idle_ready [OF v(1) ok1 s(6,7,8)]
  have "disk (w_device w') = (if transferred then ?c(sector := bytes) else ?c)" using s(8) by (simp add: idle_def c)
  with r(1) s(1-3,5) False show ?thesis by auto
qed

lemma flush_law:
  assumes "blk_ready f h disk patience (w, b)" "run_state (block_flush h b) w = ((ok, b'), w')"
  shows "blk_ready f h disk patience (w', b') \<and> disk (w_device w') = disk (w_device w) \<and> b_sectors b' = b_sectors b"
proof -
  have v: "virtio_blk f h b disk patience" "block_ok (w_paging w) b" using assms(1) by (simp_all add: blk_ready_def)
  let ?k = "q_last_used (b_queue b)" and ?c = "disk (w_device w)"
  have sub: "run_state (block_submit h b TYPE_FLUSH 0 0 False) w = ((ok, b'), w')"
    using assms(2) by (simp add: block_flush_def)
  obtain s2 transferred status i where s: "b' = turned b i (?k + 1)" "i < q_size (b_queue b)" "w_paging w' = w_paging w"
    "idle b disk (disk_after b TYPE_FLUSH 0 transferred s2 ?c) (?k + 1)
       (scratch_after b TYPE_FLUSH 0 transferred status ?c s2) (w_device w') (w_memory w')"
    by (rule submit_served [OF v ready_idle [OF assms(1)] refl _ sub, of thesis]) auto
  have c: "disk_after b TYPE_FLUSH 0 transferred s2 ?c = ?c"
    by (simp add: disk_after_def TYPE_FLUSH_def TYPE_WRITE_def)
  note r = idle_ready [OF v s(2,3,4)]
  show ?thesis using r(1) s(1,4) by (simp add: c idle_def)
qed

section \<open>The composition\<close>

abbreviation virtio_disk :: "'v hardware \<Rightarrow> ('v world \<times> block) sectors" where
  "virtio_disk h \<equiv> disk_sectors (virtio_driver h)"

lemma saturating_sub_less: "s < saturating_sub n 1 \<Longrightarrow> s < (n :: u64)"
  by (simp add: word_less_nat_alt)

lemma disk_read_law:
  assumes "blk_ready f h disk patience d" "length buf = 512" "sec_read (virtio_disk h) d s buf = (d', buf', ok)"
  shows "blk_ready f h disk patience d' \<and> blk_content disk d' = blk_content disk d \<and>
    sec_count (virtio_disk h) d' = sec_count (virtio_disk h) d \<and> length buf' = 512 \<and>
    (ok \<longrightarrow> buf' = blk_content disk d s) \<and> (s < sec_count (virtio_disk h) d \<and> \<not> f \<longrightarrow> ok)"
proof -
  obtain w b w' b' where d: "d = (w, b)" "d' = (w', b')" by (metis surj_pair)
  have "run_state (read_sector h b s buf) w = ((ok, b', buf'), w')"
    using assms(2,3) by (auto simp: d disk_sectors_def virtio_driver_def SECTOR_BYTES_def split: prod.splits)
  note law = read_law [OF assms(1) [unfolded d] assms(2) this]
  then show ?thesis
    using saturating_sub_less [of s "b_sectors b"]
    by (auto simp: d disk_sectors_def virtio_driver_def blk_content_def)
qed

lemma disk_write_law:
  assumes "blk_ready f h disk patience d" "length x = 512" "sec_write (virtio_disk h) d s x = (d', ok)"
  shows "blk_ready f h disk patience d' \<and> sec_count (virtio_disk h) d' = sec_count (virtio_disk h) d \<and>
    (ok \<longrightarrow> blk_content disk d' = (blk_content disk d)(s := x)) \<and>
    (blk_content disk d' = blk_content disk d \<or> blk_content disk d' = (blk_content disk d)(s := x)) \<and>
    (s < sec_count (virtio_disk h) d \<and> \<not> f \<longrightarrow> ok)"
proof -
  obtain w b w' b' where d: "d = (w, b)" "d' = (w', b')" by (metis surj_pair)
  have "run_state (write_sector h b s x) w = ((ok, b'), w')"
    using assms(2,3) by (auto simp: d disk_sectors_def virtio_driver_def SECTOR_BYTES_def split: prod.splits)
  note law = write_law [OF assms(1) [unfolded d] assms(2) this]
  then show ?thesis
    using saturating_sub_less [of s "b_sectors b"]
    by (auto simp: d disk_sectors_def virtio_driver_def blk_content_def)
qed

lemma disk_flush_law:
  assumes "blk_ready f h disk patience d" "sec_flush (virtio_disk h) d = (d', ok)"
  shows "blk_ready f h disk patience d' \<and> blk_content disk d' = blk_content disk d \<and>
    sec_count (virtio_disk h) d' = sec_count (virtio_disk h) d"
proof -
  obtain w b w' b' where d: "d = (w, b)" "d' = (w', b')" by (metis surj_pair)
  have "run_state (block_flush h b) w = ((ok, b'), w')"
    using assms(2) by (auto simp: d disk_sectors_def virtio_driver_def split: prod.splits)
  from flush_law [OF assms(1) [unfolded d] this] show ?thesis
    by (simp add: d disk_sectors_def virtio_driver_def blk_content_def)
qed

interpretation vdisk: sector_store "virtio_disk h" "blk_ready f h disk patience" "blk_content disk"
  for f h disk patience
proof unfold_locales
  show "length (blk_content disk d s) = 512" if "blk_ready f h disk patience d" for d s
    using that by (auto simp: blk_ready_def blk_content_def virtio_blk_def)
  show "blk_ready f h disk patience d' \<and> blk_content disk d' = blk_content disk d \<and>
      sec_count (virtio_disk h) d' = sec_count (virtio_disk h) d \<and> length buf' = 512"
    if "blk_ready f h disk patience d" "length buf = 512" "sec_read (virtio_disk h) d s buf = (d', buf', ok)"
    for d buf s d' buf' ok
    using disk_read_law [OF that] by simp
  show "buf' = blk_content disk d s"
    if "blk_ready f h disk patience d" "length buf = 512" "sec_read (virtio_disk h) d s buf = (d', buf', True)"
    for d buf s d' buf'
    using disk_read_law [OF that] by simp
  show "blk_ready f h disk patience d' \<and> sec_count (virtio_disk h) d' = sec_count (virtio_disk h) d"
    if "blk_ready f h disk patience d" "length x = 512" "sec_write (virtio_disk h) d s x = (d', ok)" for d x s d' ok
    using disk_write_law [OF that] by simp
  show "blk_content disk d' = (blk_content disk d)(s := x)"
    if "blk_ready f h disk patience d" "length x = 512" "sec_write (virtio_disk h) d s x = (d', True)" for d x s d'
    using disk_write_law [OF that] by simp
  show "blk_content disk d' = blk_content disk d \<or> blk_content disk d' = (blk_content disk d)(s := x)"
    if "blk_ready f h disk patience d" "length x = 512" "sec_write (virtio_disk h) d s x = (d', False)" for d x s d'
    using disk_write_law [OF that] by simp
  show "blk_ready f h disk patience d' \<and> blk_content disk d' = blk_content disk d \<and>
      sec_count (virtio_disk h) d' = sec_count (virtio_disk h) d"
    if "blk_ready f h disk patience d" "sec_flush (virtio_disk h) d = (d', ok)" for d d' ok
    using disk_flush_law [OF that] by simp
qed

interpretation vdisk_sound: reliable_store "virtio_disk h" "blk_ready False h disk patience" "blk_content disk"
  for h disk patience
proof unfold_locales
  show "snd (snd (sec_read (virtio_disk h) d s buf))"
    if "blk_ready False h disk patience d" "length buf = 512" "s < sec_count (virtio_disk h) d" for d buf s
  proof -
    obtain d' buf' ok where r: "sec_read (virtio_disk h) d s buf = (d', buf', ok)" by (metis prod_cases3)
    with disk_read_law [OF that(1,2) r] that(3) show ?thesis by simp
  qed
  show "snd (sec_write (virtio_disk h) d s x)"
    if "blk_ready False h disk patience d" "length x = 512" "s < sec_count (virtio_disk h) d" for d x s
    using disk_write_law [OF that(1,2) prod.collapse [symmetric]] that(3) by simp
qed

section \<open>A small machine\<close>

text \<open>A device that answers at once, behind queues in the first pages of memory.\<close>

definition small_block :: block where
  "small_block =
     \<lparr>b_transport = \<lparr>t_common = 0x6000, t_notify = 0x5000, t_notify_multiplier = 0, t_device_config = 0x7000\<rparr>,
      b_queue = \<lparr>q_size = 8, q_descriptors = 0x1000, q_available = 0x2000, q_used = 0x3000,
                 q_next_descriptor = 0, q_last_used = 0, q_broken = False\<rparr>,
      b_doorbell = 0x5000, b_scratch = 0x4000, b_sectors = 12\<rparr>"

definition padded :: "(u64 \<Rightarrow> byte list) \<Rightarrow> u64 \<Rightarrow> byte list" where
  "padded v s = take 512 (v s @ replicate 512 0)"

definition prompt_device :: "(u64 \<Rightarrow> byte list) hardware" where
  "prompt_device =
     \<lparr>hw_act = (\<lambda>v m.
        if used_at small_block m = available_at small_block m then (v, m)
        else case blk_answer small_block True STATUS_OK 0 (padded v) m of None \<Rightarrow> (v, m) | Some r \<Rightarrow> r),
      hw_out = (\<lambda>port value v. v), hw_in = (\<lambda>port v. (0, v))\<rparr>"

definition small_world :: "(u64 \<Rightarrow> byte list) world" where
  "small_world = \<lparr>w_paging = small_paging, w_memory = (\<lambda>_. 0), w_device = (\<lambda>_. [])\<rparr>"

lemma length_padded [simp]: "length (padded v s) = 512"
  by (simp add: padded_def)

lemma padded_whole: "\<forall>s. length (c s) = 512 \<Longrightarrow> padded c = c"
  by (simp add: padded_def fun_eq_iff)

lemma answer_lengths:
  assumes "blk_answer b transferred status len c m = Some (c', m2)" "\<forall>s. length (c s) = 512"
  shows "\<forall>s. length (c' s) = 512"
  using assms by (auto simp: blk_answer_def split: option.splits list.splits if_splits)

lemma prompt_device_blk: "virtio_blk False prompt_device small_block padded (\<lambda>_. 0)"
proof -
  have "blk_answers False small_block padded v m v' m'"
    if "hw_act prompt_device v m = (v', m')" "used_at small_block m \<noteq> available_at small_block m" for v m v' m'
  proof -
    have "case blk_answer small_block True STATUS_OK 0 (padded v) m of None \<Rightarrow> True
       | Some (c, m2) \<Rightarrow> padded v' = c \<and> (\<forall>x \<in> block_pages small_block. m' x = m2 x)"
    proof (cases "blk_answer small_block True STATUS_OK 0 (padded v) m")
      case (Some r)
      then have r: "r = (v', m')" using that by (simp add: prompt_device_def)
      have "\<forall>s. length (v' s) = 512"
        using Some by (intro answer_lengths [of small_block True STATUS_OK 0 "padded v" m v' m']) (simp_all add: r)
      then show ?thesis using Some padded_whole by (simp add: r)
    qed simp
    then show ?thesis unfolding blk_answers_def by blast
  qed
  then show ?thesis
    by (auto simp: virtio_blk_def POLLS_def split: prod.splits) (auto simp: prompt_device_def)
qed

lemma small_block_ok: "block_ok small_paging small_block"
proof -
  have far: "span p n \<inter> span q k = {}" "span q k \<inter> span p n = {}" if "unat p + n \<le> unat q" "unat q + k \<le> 2 ^ 64" for p q n k
    using spans_apart [OF that] by blast+
  show ?thesis
    by (simp add: block_ok_def queue_ok_def small_range small_block_def block_pages_def Let_def far MAX_QUEUE_SIZE_def Int_Un_distrib)
qed

lemma small_world_ready: "blk_ready False prompt_device padded (\<lambda>_. 0) (small_world, small_block)"
proof -
  have zeros: "half_at (\<lambda>_. 0) a = 0" for a
  proof -
    have "peek (\<lambda>_. 0) a 2 = to_le_bytes (0 :: u16)" by (simp add: peek_def to_le_bytes_0 map_replicate_const)
    then show ?thesis by (simp add: half_at_def)
  qed
  have "q_last_used (b_queue small_block) = 0" by (simp add: small_block_def)
  then show ?thesis
    using prompt_device_blk small_block_ok
    by (simp add: blk_ready_def small_world_def used_at_def available_at_def zeros)
qed

section \<open>The properties\<close>


text \<open>
  C33: the log reaches the device. The kernel's journal session on a blank virtio disk with room
  leaves a verifying log of this boot's entries on the device's own sectors, and the driver ready
  for the next request.
\<close>

theorem log_reaches_the_device:
  assumes "blk_ready False h disk patience (w, b)" "1 < b_sectors b" "blank (disk (w_device w))"
    and "length ring_entries \<le> unat (record_capacity (b_sectors b - 1))"
    and "journal_session (virtio_disk h) (w, b) ring_entries = ((w', b'), out)"
  shows "commits (disk (w_device w')) (map record_of ring_entries) \<and> blk_ready False h disk patience (w', b')"
proof -
  have count: "sec_count (virtio_disk h) (w, b) = b_sectors b - 1"
    using assms(2) by (auto simp: disk_sectors_def virtio_driver_def saturating_sub_def)
  have pos: "0 < sec_count (virtio_disk h) (w, b)"
    using assms(2) by (simp add: disk_sectors_def virtio_driver_def word_less_nat_alt)
  have "blank (blk_content disk (w, b))" using assms(3) by (simp add: blk_content_def)
  moreover have "length ([] :: jrecord list) + length ring_entries \<le> unat (record_capacity (sec_count (virtio_disk h) (w, b)))"
    using assms(4) by (simp add: count)
  ultimately show ?thesis
    using vdisk_sound.session_extends [OF assms(1) pos _ list.pred_inject(1) _ assms(5)]
    by (simp add: blk_content_def)
qed

theorem log_reaches_the_device_witness:
  "\<exists>w' b' out. journal_session (virtio_disk prompt_device) (small_world, small_block) [boot_entry 1] = ((w', b'), out) \<and>
     commits (padded (w_device w')) [record_of (boot_entry 1)]"
proof -
  obtain w' b' out where s: "journal_session (virtio_disk prompt_device) (small_world, small_block) [boot_entry 1] = ((w', b'), out)"
    by (metis surj_pair)
  have n: "b_sectors small_block = 12" by (simp add: small_block_def)
  have "padded (w_device small_world) 0 = zero_sector"
    by (simp add: padded_def small_world_def zero_sector_def SECTOR_BYTES_def)
  then have blank: "blank (padded (w_device small_world))" by (rule blank_zero)
  have room: "length [boot_entry 1] \<le> unat (record_capacity (b_sectors small_block - 1))"
    by (simp add: n unat_record_capacity)
  from log_reaches_the_device [OF small_world_ready _ blank room s] s n show ?thesis by auto
qed

end
