(* ===== verification/Broker.thy ===== *)
theory Broker
  imports Gate Virtio_Drivers
begin

text \<open>
  The model broker (\<open>nawa/kernel/src/model.rs\<close>): a question to a model is an act the kernel
  mediates. \<open>ask\<close> passes the gate, keeps the private class on the machine, and relays every other
  class over the virtio console, whose hardware is the parameter of \<open>Virtio_Drivers\<close>. The gate's
  state is passed explicitly beside the machine's. Prompts are strings, what crosses the console is
  bytes; \<open>decimal\<close> and \<open>parse_u64\<close> are the standard library's formatting and parsing of
  unsigned integers, \<open>split_once\<close> and \<open>split_on\<close> its splitting of strings.
\<close>

section \<open>Text\<close>

fun decimal :: "nat \<Rightarrow> str" where
  "decimal n = (if n < 10 then [0x30 + n] else decimal (n div 10) @ [0x30 + n mod 10])"

declare decimal.simps [simp del]

definition digit :: "rchar \<Rightarrow> bool" where
  "digit c \<longleftrightarrow> 0x30 \<le> c \<and> c \<le> 0x39"

definition parse_u64 :: "str \<Rightarrow> u64 option" where
  "parse_u64 s =
     (let digits = (case s of c # rest \<Rightarrow> if c = 0x2B \<and> rest \<noteq> [] then rest else s | [] \<Rightarrow> []) in
      if digits = [] \<or> \<not> list_all digit digits then None
      else
        let n = foldl (\<lambda>n c. n * 10 + (c - 0x30)) 0 digits
        in if n < 2 ^ 64 then Some (of_nat n) else None)"

fun split_once :: "rchar \<Rightarrow> str \<Rightarrow> (str \<times> str) option" where
  "split_once c [] = None"
| "split_once c (x # xs) =
     (if x = c then Some ([], xs) else map_option (\<lambda>(a, b). (x # a, b)) (split_once c xs))"

fun split_on :: "rchar \<Rightarrow> str \<Rightarrow> str list" where
  "split_on c [] = [[]]"
| "split_on c (x # xs) =
     (if x = c then [] # split_on c xs
      else case split_on c xs of part # parts \<Rightarrow> (x # part) # parts | [] \<Rightarrow> [[x]])"

text \<open>\<open>SliceWriter\<close>: what does not fit is dropped.\<close>

record slice_writer =
  sw_bytes :: "byte list"
  sw_length :: nat

definition slice_write :: "str \<Rightarrow> slice_writer \<Rightarrow> slice_writer" where
  "slice_write s w =
     (let bytes = str_bytes s;
          count = min (length bytes) (length (sw_bytes w) - sw_length w)
      in w\<lparr>sw_bytes := copy_into (sw_bytes w) (sw_length w) (take count bytes),
           sw_length := sw_length w + count\<rparr>)"

section \<open>The broker\<close>

definition MAX_ANSWER :: nat where "MAX_ANSWER = 4096"

record broker =
  br_console :: console
  kept_local :: u32
  calls :: u32

record model_answer =
  an_bytes :: "byte list"
  an_length :: nat
  an_tokens :: u64

definition answer_text :: "model_answer \<Rightarrow> str" where
  "answer_text a = (case from_utf8 (take (an_length a) (an_bytes a)) of None \<Rightarrow> [] | Some s \<Rightarrow> s)"

fun class_name :: "model_class \<Rightarrow> str" where
  "class_name Fast = lit ''fast''"
| "class_name Private = lit ''private''"
| "class_name Frontier = lit ''frontier''"
| "class_name Arabic = lit ''arabic''"

definition broker_open :: "'v hardware \<Rightarrow> ('v, broker option) io" where
  "broker_open h = and_some (console_open h) (\<lambda>c. ret (Some \<lparr>br_console = c, kept_local = 0, calls = 0\<rparr>))"

definition local_message :: str where
  "local_message = lit ''[private class: no local model on this machine yet, and nothing left it]''"

definition local_answer :: "str \<Rightarrow> model_answer" where
  "local_answer prompt =
     \<lparr>an_bytes = copy_into (replicate MAX_ANSWER 0) 0 (str_bytes local_message),
      an_length = length (str_bytes local_message), an_tokens = of_nat (str_len prompt div 4)\<rparr>"

text \<open>The request line \<open>write!\<close> puts together, piece by piece.\<close>

definition request_line :: "model_class \<Rightarrow> agent_id \<Rightarrow> str \<Rightarrow> slice_writer" where
  "request_line class agent prompt =
     fold slice_write
       [lit ''ASK '', class_name class, lit '' '', decimal (unat agent), lit '' '',
        decimal (min (str_len prompt) 2048), [0x0A]]
       \<lparr>sw_bytes = replicate 512 0, sw_length = 0\<rparr>"

text \<open>What \<open>ask\<close> makes of the bytes of a reply: the journal line of a refusal, or the answer.\<close>

definition parse_reply :: "byte list \<Rightarrow> str + model_answer" where
  "parse_reply reply =
     (let text_of = (case from_utf8 reply of None \<Rightarrow> [] | Some s \<Rightarrow> s) in
      case split_once 0x0A text_of of
        None \<Rightarrow> Inl (lit ''model:malformed reply'')
      | Some (head, body) \<Rightarrow>
          let parts = split_on 0x20 head in
          if hd parts \<noteq> lit ''OK'' then Inl (lit ''model:refused by host'')
          else
            let tokens = (case parts of _ # second # _ \<Rightarrow> (case parse_u64 second of None \<Rightarrow> 0 | Some n \<Rightarrow> n) | _ \<Rightarrow> 0);
                body = str_bytes body;
                len = min (length body) MAX_ANSWER
            in Inr \<lparr>an_bytes = copy_into (replicate MAX_ANSWER 0) 0 (take len body), an_length = len, an_tokens = tokens\<rparr>)"

definition refuse_reply :: "agent_id \<Rightarrow> str \<Rightarrow> broker \<Rightarrow> 'p gate_state \<Rightarrow> ('v, (denied + model_answer) \<times> broker \<times> 'p gate_state) io" where
  "refuse_reply agent why br s = ret (Err NotHeld, br, sijil_record agent EvDenied 0 why s)"

definition ask ::
  "'v hardware \<Rightarrow> broker \<Rightarrow> agent_id \<Rightarrow> capability \<Rightarrow> str \<Rightarrow> 'p gate_state \<Rightarrow>
    ('v, (denied + model_answer) \<times> broker \<times> 'p gate_state) io" where
  "ask h br agent capability prompt s =
     (case invoke agent capability s of
        (Inl denied, s) \<Rightarrow> ret (Err denied, br, s)
      | (Inr (Model class), s) \<Rightarrow>
          (let br = br\<lparr>calls := calls br + 1\<rparr> in
           if class = Private then
             (let br = br\<lparr>kept_local := kept_local br + 1\<rparr>;
                  s = sijil_record agent Invoked 0 (lit ''model:private kept local'') s
              in ret (Ok (local_answer prompt), br, s))
           else
             let request = request_line class agent prompt in do {
               (sent, c) \<leftarrow> console_send h (br_console br) (take (sw_length request) (sw_bytes request));
               let br = br\<lparr>br_console := c\<rparr>;
               if \<not> sent then refuse_reply agent (lit ''model:channel refused'') br s
               else do {
                 (sent, c) \<leftarrow> console_send h (br_console br) (str_bytes prompt);
                 let br = br\<lparr>br_console := c\<rparr>;
                 if \<not> sent then refuse_reply agent (lit ''model:channel refused'') br s
                 else do {
                   (received, c, buffer) \<leftarrow> console_receive h (br_console br) (replicate MAX_ANSWER 0) 400000000;
                   let br = br\<lparr>br_console := c\<rparr>;
                   case received of
                     None \<Rightarrow> refuse_reply agent (lit ''model:no answer'') br s
                   | Some len \<Rightarrow>
                       (case parse_reply (take len buffer) of
                          Inl why \<Rightarrow> refuse_reply agent why br s
                        | Inr found \<Rightarrow>
                            let s = charge agent (an_tokens found) s;
                                s = sijil_record agent Invoked (an_tokens found) (lit ''model:answered'') s
                            in ret (Ok found, br, s)) } } })
      | (Inr _, s) \<Rightarrow> ret (Err NotASubset, br, s))"

section \<open>Text is read back\<close>

lemma length_decimal: "n < 10 ^ k \<Longrightarrow> 0 < k \<Longrightarrow> length (decimal n) \<le> k"
proof (induction n arbitrary: k rule: decimal.induct)
  case (1 n)
  show ?case
  proof (cases "n < 10")
    case True
    with 1(3) show ?thesis by (simp add: decimal.simps [of n])
  next
    case False
    obtain j where k: "k = Suc j" using 1(3) by (cases k) simp_all
    with False 1(2) have "0 < j" by (cases j) simp_all
    moreover have "n div 10 < 10 ^ j" using 1(2) by (simp add: k div_less_iff_less_mult mult.commute)
    ultimately have "length (decimal (n div 10)) \<le> j" using 1(1) False by simp
    with False show ?thesis by (simp add: decimal.simps [of n] k)
  qed
qed

lemma decimal_digits: "list_all digit (decimal n)" and decimal_nonempty: "decimal n \<noteq> []"
proof (induction n rule: decimal.induct)
  case (1 n)
  {
    case 1
    have "n mod 10 < 10" by simp
    then have "n mod 10 \<le> 9" by linarith
    then show ?case using "1.IH" by (simp add: decimal.simps [of n] digit_def)
  next
    case 2
    show ?case by (simp add: decimal.simps [of n])
  }
qed

lemma decimal_value: "foldl (\<lambda>n c. n * 10 + (c - 0x30)) 0 (decimal n) = n"
  by (induction n rule: decimal.induct) (simp add: decimal.simps)

lemma parse_decimal: "n < 2 ^ 64 \<Longrightarrow> parse_u64 (decimal n) = Some (of_nat n)"
proof -
  assume n: "n < 2 ^ 64"
  obtain c rest where d: "decimal n = c # rest" using decimal_nonempty by (cases "decimal n") auto
  have "digit c" using decimal_digits [of n] d by simp
  then have "c \<noteq> 0x2B" by (auto simp: digit_def)
  then have "(case decimal n of c # rest \<Rightarrow> if c = 0x2B \<and> rest \<noteq> [] then rest else decimal n | [] \<Rightarrow> []) = decimal n"
    by (simp add: d)
  with n show ?thesis by (simp add: parse_u64_def decimal_digits decimal_nonempty decimal_value)
qed

lemma split_once_first: "c \<notin> set a \<Longrightarrow> split_once c (a @ c # b) = Some (a, b)"
  by (induction a) auto

lemma split_on_first: "c \<notin> set a \<Longrightarrow> split_on c (a @ c # b) = a # split_on c b"
  by (induction a) auto

lemma split_on_last: "c \<notin> set a \<Longrightarrow> split_on c a = [a]"
  by (induction a) auto

lemma str_ok_decimal [simp]: "str_ok (decimal n)"
  using decimal_digits [of n] by (auto simp: str_ok_def list_all_iff digit_def scalar_def)

lemma from_utf8_append: "str_ok s \<Longrightarrow> from_utf8 (str_bytes s @ bs) = map_option ((@) s) (from_utf8 bs)"
  by (cases "from_utf8 bs"; induction s) (simp_all add: from_utf8_encode)

lemma decimal_lacks: "\<not> digit c \<Longrightarrow> c \<notin> set (decimal n)"
  using decimal_digits [of n] by (auto simp: list_all_iff)

text \<open>A reply in the broker's format is read back.\<close>

definition reply_text :: "nat \<Rightarrow> str \<Rightarrow> str" where
  "reply_text tokens body = lit ''OK '' @ decimal tokens @ 0x0A # body"

lemma reply_read_back:
  assumes "str_ok body" "tokens < 2 ^ 64" "str_len body \<le> MAX_ANSWER"
  shows "\<exists>a. parse_reply (str_bytes (reply_text tokens body)) = Inr a \<and> an_tokens a = of_nat tokens \<and> answer_text a = body"
proof -
  have ok: "str_ok (reply_text tokens body)" using assms(1) by (simp add: reply_text_def lit_def scalar_def)
  have "(0x0A :: rchar) \<notin> set (lit ''OK '' @ decimal tokens)"
    using decimal_lacks [of "0x0A" tokens] by (simp add: lit_def digit_def)
  from split_once_first [OF this, of body]
  have one: "split_once 0x0A (reply_text tokens body) = Some (lit ''OK '' @ decimal tokens, body)"
    by (simp add: reply_text_def)
  have "(0x20 :: rchar) \<notin> set (decimal tokens)" using decimal_lacks [of "0x20" tokens] by (simp add: digit_def)
  from split_on_last [OF this] have parts: "split_on 0x20 (lit ''OK '' @ decimal tokens) = [lit ''OK'', decimal tokens]"
    by (simp add: lit_def)
  define a where "a = \<lparr>an_bytes = copy_into (replicate MAX_ANSWER 0) 0 (str_bytes body),
    an_length = length (str_bytes body), an_tokens = of_nat tokens\<rparr>"
  have len: "length (str_bytes body) \<le> MAX_ANSWER" using assms(3) by (simp add: str_len_def)
  have "parse_reply (str_bytes (reply_text tokens body)) = Inr a"
    using ok one parts parse_decimal [OF assms(2)] len
    by (simp add: parse_reply_def Let_def a_def)
  moreover have "answer_text a = body"
    using assms(1) by (simp add: answer_text_def a_def copy_into_start)
  ultimately show ?thesis by (auto simp: a_def)
qed

text \<open>
  A reply whose last character the 4096-byte buffer cuts in two is not truncated but refused: the
  whole of it fails to decode.
\<close>

lemma cut_reply_refused:
  assumes "str_ok s" "0xC2 \<le> unat lead"
  shows "parse_reply (str_bytes s @ [lead]) = Inl (lit ''model:malformed reply'')"
proof -
  have "from_utf8 [lead] = None" using assms(2) by (simp add: from_utf8.simps(2) Let_def)
  then have "from_utf8 (str_bytes s @ [lead]) = None" using from_utf8_append [OF assms(1)] by simp
  then show ?thesis by (simp add: parse_reply_def)
qed

section \<open>The request line\<close>

lemma slice_write_fits:
  assumes "sw_length w + str_len t \<le> length (sw_bytes w)"
  shows "sw_length (slice_write t w) = sw_length w + str_len t"
    "length (sw_bytes (slice_write t w)) = length (sw_bytes w)"
    "take (sw_length (slice_write t w)) (sw_bytes (slice_write t w)) = take (sw_length w) (sw_bytes w) @ str_bytes t"
proof -
  have m: "min (str_len t) (length (sw_bytes w) - sw_length w) = str_len t" using assms by simp
  have l: "length (str_bytes t) = str_len t" by (simp add: str_len_def)
  show "sw_length (slice_write t w) = sw_length w + str_len t"
    using m by (simp add: slice_write_def Let_def l)
  show "length (sw_bytes (slice_write t w)) = length (sw_bytes w)"
    using m assms by (simp add: slice_write_def Let_def l bytes_simps)
  show "take (sw_length (slice_write t w)) (sw_bytes (slice_write t w)) = take (sw_length w) (sw_bytes w) @ str_bytes t"
    using m assms by (simp add: slice_write_def Let_def l copy_into_def min_def)
qed

lemma fold_slice_write:
  assumes "sw_length w + sum_list (map str_len pieces) \<le> length (sw_bytes w)"
  shows "take (sw_length (fold slice_write pieces w)) (sw_bytes (fold slice_write pieces w)) =
     take (sw_length w) (sw_bytes w) @ str_bytes (concat pieces)"
  using assms
proof (induction pieces arbitrary: w)
  case Nil
  then show ?case by simp
next
  case (Cons t pieces)
  then have "sw_length w + str_len t \<le> length (sw_bytes w)" by simp
  note fits = slice_write_fits [OF this]
  have "sw_length (slice_write t w) + sum_list (map str_len pieces) \<le> length (sw_bytes (slice_write t w))"
    using Cons.prems fits by simp
  from Cons.IH [OF this] show ?case by (simp add: fits(3))
qed

lemma str_len_ascii: "list_all (\<lambda>c. c < 0x80) s \<Longrightarrow> str_len s = length s"
  by (induction s) (simp_all add: str_len_def len_utf8_def)

lemma str_len_decimal: "str_len (decimal n) = length (decimal n)"
  using decimal_digits [of n] by (intro str_len_ascii) (auto simp: list_all_iff digit_def)

text \<open>The line fits its buffer whole, whatever the class, the agent and the prompt.\<close>

lemma request_line_whole:
  "take (sw_length (request_line class agent prompt)) (sw_bytes (request_line class agent prompt)) =
     str_bytes (lit ''ASK '' @ class_name class @ lit '' '' @ decimal (unat agent) @ lit '' '' @
       decimal (min (str_len prompt) 2048) @ [0x0A])"
proof -
  let ?pieces = "[lit ''ASK '', class_name class, lit '' '', decimal (unat agent), lit '' '',
        decimal (min (str_len prompt) 2048), [0x0A]]"
  have "unat agent < 2 ^ 32" using unsigned_less [of agent] by simp
  then have "length (decimal (unat agent)) \<le> 10" by (intro length_decimal) simp_all
  moreover have "length (decimal (min (str_len prompt) 2048)) \<le> 10" by (intro length_decimal) (simp_all add: min_def)
  moreover have "str_len (class_name class) \<le> 8"
    by (cases "class") (simp_all add: lit_def str_len_def len_utf8_def)
  ultimately have "sum_list (map str_len ?pieces) \<le> 512"
    by (simp add: str_len_decimal) (simp add: lit_def str_len_def len_utf8_def)
  then show ?thesis
    unfolding request_line_def by (subst fold_slice_write) simp_all
qed

section \<open>What a question does\<close>

text \<open>The part of \<open>ask\<close> behind the gate, for a class that may leave the machine.\<close>

lemma relayed_outcome:
  assumes "invoke agent capability s = (Ok (Model class), s1)" "class \<noteq> Private"
    and "run_state (ask h br agent capability prompt s) w = ((r, br', s'), w')"
  shows "case r of
      Inr a \<Rightarrow> s' = sijil_record agent Invoked (an_tokens a) (lit ''model:answered'') (charge agent (an_tokens a) s1)
    | Inl denied \<Rightarrow> denied = NotHeld \<and> (\<exists>why. s' = sijil_record agent EvDenied 0 why s1)"
  using assms
  by (auto simp: ask_def refuse_reply_def Let_def split: prod.splits option.splits sum.splits if_splits)


lemma ask_result:
  assumes "run_state (ask h br agent capability prompt s) w = ((r, br', s'), w')"
    and "invoke agent capability s = (res, s1)"
  shows "s' = s1 \<or> (\<exists>ev detail lab. s' = sijil_record agent ev detail lab s1) \<or>
    (\<exists>tokens ev lab. s' = sijil_record agent ev tokens lab (charge agent tokens s1))"
proof (cases res)
  case (Inl denied)
  with assms show ?thesis by (auto simp: ask_def)
next
  case (Inr auth)
  show ?thesis
  proof (cases "\<exists>class. auth = Model class \<and> class \<noteq> Private")
    case True
    then obtain "class" where c: "auth = Model class" "class \<noteq> Private" by blast
    from relayed_outcome [OF assms(2) [unfolded Inr c(1)] c(2) assms(1)] show ?thesis
      by (cases r) (simp, blast)+
  next
    case False
    with assms Inr show ?thesis by (cases auth) (auto simp: ask_def Let_def)
  qed
qed

text \<open>
  C40: a question is a sequence of gate operations. Whatever the console does, \<open>ask\<close> changes the
  supervisor's state by one invocation, at most one charge and journal entries, so it keeps the
  supervisor's invariant and uses at most the approval its invocation uses.
\<close>

theorem ask_runs_by_gate:
  "case run_state (ask h br agent capability prompt s) w of ((r, br', s'), w') \<Rightarrow>
     gate_steps s (irreversible_ok (fst (invoke agent capability s))) s'"
proof -
  obtain r br' s' w' where run: "run_state (ask h br agent capability prompt s) w = ((r, br', s'), w')"
    by (metis prod_cases3 surj_pair)
  obtain res s1 where i: "invoke agent capability s = (res, s1)" by (cases "invoke agent capability s")
  have one: "gate_steps s (irreversible_ok res) s1" by (rule gate_step_steps [OF do_invoke [OF i]])
  have log: "gate_steps s k t \<Longrightarrow> gate_steps s k (sijil_record agent ev detail lab t)" for k t ev detail lab
    using steps_step [OF _ do_journal] by fastforce
  have "gate_steps s k t \<Longrightarrow> gate_steps s k (charge agent amount t)" for k t amount
    using steps_step [OF _ do_charge] by fastforce
  then have "gate_steps s (irreversible_ok res) s'"
    using ask_result [OF run i] one log by blast
  then show ?thesis by (simp add: run i)
qed

text \<open>
  A capability of the wrong kind is invoked before it is refused: asking a model with a live send
  capability uses up the human's yes, though nothing is sent.
\<close>

lemma wrong_capability_uses_the_yes:
  assumes "gate_inv s" "invoke agent capability s = (Ok (Send False), s1)"
    and "run_state (ask h br agent capability prompt s) w = ((r, br', s'), w')"
  shows "r = Err NotASubset" "consumed_count s' = consumed_count s + 1" "w' = w"
proof -
  have "good_step s (irreversible_ok (Ok (Send False))) s1" by (rule invoke_good [OF assms(1,2)])
  then have c: "consumed_count s1 = consumed_count s + 1" by (simp add: good_step_def irreversible_ok_def)
  have "r = Err NotASubset \<and> s' = s1 \<and> w' = w" using assms(2,3) by (simp add: ask_def)
  with c show "r = Err NotASubset" "consumed_count s' = consumed_count s + 1" "w' = w" by auto
qed

end
