(* ===== verification/Spec2Isabelle.thy ===== *)
theory Spec2Isabelle
  imports Sha256 Gate_Laws Wasm_Scan Tool Heap Mmio Disk_Image Virtio_Store Broker
begin

text \<open>
  i3mlOS is a small operating system whose processes are agents. An agent acts on the world only
  through the gate (\<open>nawa/gate\<close>): it exercises a capability of the broker AMAN (\<open>nawa/aman\<close>), is
  charged for it, needs a human's answer for what cannot be undone, and leaves an entry in the
  journal SIJIL (\<open>nawa/sijil\<close>). Agents are step functions of the kernel (\<open>nawa/kernel/agents.rs\<close>)
  or WebAssembly modules (\<open>libs/wasm\<close>, \<open>nawa/kernel/tool.rs\<close>). The journal is kept on disk as a
  hash chain (\<open>libs/journal\<close> over \<open>libs/sha256\<close>) in a partition found through the partition table
  (\<open>libs/gpt\<close>).

  The theories, in the order of the code:

  \<^item> \<open>Prelude\<close>: Rust's integers, results, slices and byte conversions. \<open>Utf8\<close>: strings.
  \<^item> \<open>Sha256\<close>: the streaming hasher and its equivalence with padding and folding a whole message.
  \<^item> \<open>Storage\<close>: the locales \<open>sector_store\<close> and \<open>reliable_store\<close>, interpreted on the in-memory
    store of the tests, on a partition's window and (\<open>Virtio_Store\<close>) on the kernel's disk; \<open>Journal\<close>: the log's codecs and operations over any device,
    with crash consistency, tamper evidence and recovery; \<open>Gpt\<close>: the partition table reader and
    the window that confines a partition, interpreted as a device for the journal.
  \<^item> \<open>Vec_Lite\<close>, \<open>Sijil\<close>: the fixed-capacity vector and the ring of the last 512 entries.
  \<^item> \<open>Aman\<close>: capability slots, the order on authorities, delegation and revocation.
  \<^item> \<open>Acb\<close>, \<open>Gate\<close>: agents with budgets, the verbs of the gate, the supervisor's loop, and the
    transition system \<open>gate_step\<close> with its invariant; \<open>Gate_Laws\<close>: the laws of each verb and of
    histories, with the locale \<open>gate_client\<close> for the code an agent runs; \<open>Agents\<close>: the kernel's
    own agents, the interpretation of that locale.
  \<^item> \<open>Leb\<close>, \<open>Wasm_Module\<close>, \<open>Wasm_Build\<close>, \<open>Wasm_Exec\<close>, \<open>Wasm_Scan\<close>, \<open>Wasm_Laws\<close>: the integers of
    WebAssembly, the decoder with its ceilings, the tests' assembler and the round trip through the
    decoder, the interpreter, its block scanner, and the bounds of a run with the locale
    \<open>counted_host\<close> for the interpreter's hosts; \<open>Tool\<close>: the host that maps imports to gate verbs,
    the interpretation of that locale, with the confinement of tools.
  \<^item> \<open>Frames\<close>, \<open>Heap\<close>: the bitmap of physical frames (\<open>nawa/core/mem.rs\<close>) and the kernel's heap
    (\<open>heap.rs\<close>), with conservation of bytes over every run; \<open>Paging\<close>, \<open>Paging_Laws\<close>: the page
    tables (\<open>paging.rs\<close>) against the processor's walk; \<open>Mmio\<close>: the checked access to physical
    memory (\<open>mmio.rs\<close>), over every state paging reaches.
  \<^item> \<open>Persist\<close>: the kernel's use of partition table and journal at boot (\<open>persist.rs\<close>);
    \<open>Disk_Image\<close>: the builder of the disk (\<open>xtask/disk.rs\<close>), composed with the kernel's reader
    and with a FAT32 reader, before and after a boot.
  \<^item> \<open>Pci\<close>: configuration space and the bus scan (\<open>pci.rs\<close>); \<open>Virtio\<close>: the split queue and the
    transport (\<open>nawa/virtio\<close>); \<open>Virtio_Drivers\<close>: block, entropy and console. The devices act before
    every access of a driver, so each definition stands for all interleavings. \<open>Virtio_Laws\<close> holds
    what is true of any device, and what \<open>submit\<close> publishes; \<open>Virtio_Block\<close> the contract of a block
    device and the course of one request; \<open>Virtio_Store\<close> the kernel's disk over the driver as a
    \<open>sector_store\<close>, and the journal on it. \<open>Broker\<close>: the relay to a model (\<open>nawa/kernel/model.rs\<close>)
    over the console, behind the gate.

  State is passed explicitly. The gate's state extends the broker's, which extends the journal's
  (records with \<open>more\<close> fields), as the code's modules call each other. A panic of the code is
  \<open>None\<close>, a Rust \<open>Result\<close> a sum. Machine integers have their width and wrap, the kernel being
  built without overflow checks; \<open>usize\<close> positions in buffers are \<open>nat\<close>.

  Bounds: the supervisor's loop recurs over its \<open>max_steps\<close>, the interpreter's loop over the fuel
  left, which every turn burns (\<open>interpreter_returns\<close> shows this is the unbounded loop), calls
  over the 32 frames of \<open>MAX_FRAMES\<close>, the loops over bytes over the bytes left.

  Not modelled: spin locks (every operation runs alone; the kernel has one processor), the boot
  path, interrupts, descriptor tables and assembly, the serial port and the screen's fonts and
  pictures, the demonstration script of \<open>main.rs\<close>, and the build and host tools.
\<close>

end
